(* ===== verification/Prelude.thy ===== *)
theory Prelude
  imports Complex_Main "HOL-Library.Multiset" "HOL-Library.AList" "HOL-Library.Char_ord"
    "HOL-Library.List_Lexorder"
begin

text \<open>
  Shared vocabulary of the development: the exceptions of the C++ program as values, the
  result type of an operation that may throw, traversal of a list under a throwing
  operation, and the collections of facts the component theories extend.

  An operation that throws keeps the side effects it made before the throw, so a stateful
  operation returns its result \<^emph>\<open>and\<close> the state in both cases:
  its type is \<open>'s \<Rightarrow> (exn + 'a) \<times> 's\<close>.
\<close>

section \<open>Exceptions and results\<close>

text \<open>
  \<open>Undefined\<close> stands for undefined behaviour of the C++ abstract machine (reading a
  dangling pointer, sorting with a comparator that is no strict weak order). It is not
  catchable in the program; having it as a result makes its absence a theorem.
  \<open>Json_exception\<close> is an exception of the JSON library with its id and its text.
\<close>

datatype exn =
    Invalid_argument string
  | Runtime_error string
  | Out_of_range string
  | Std_exception
  | Json_exception int string
  | Undefined string

type_synonym 'a result = "exn + 'a"

type_synonym ('s, 'a) action = "'s \<Rightarrow> 'a result \<times> 's"

definition is_undefined :: "'a result \<Rightarrow> bool" where
  "is_undefined r = (case r of Inl (Undefined _) \<Rightarrow> True | _ \<Rightarrow> False)"

lemma is_undefined_simps [simp]:
  "is_undefined (Inr x) = False"
  "is_undefined (Inl (Undefined m)) = True"
  "is_undefined (Inl (Invalid_argument m)) = False"
  "is_undefined (Inl (Runtime_error m)) = False"
  "is_undefined (Inl (Out_of_range m)) = False"
  "is_undefined (Inl Std_exception) = False"
  "is_undefined (Inl (Json_exception i w)) = False"
  by (simp_all add: is_undefined_def)

text \<open>Sequencing: a throw skips what follows and keeps the state reached so far.\<close>

definition return_act :: "'a \<Rightarrow> ('s, 'a) action" where
  "return_act x s = (Inr x, s)"

definition throw_act :: "exn \<Rightarrow> ('s, 'a) action" where
  "throw_act e s = (Inl e, s)"

definition bind_act :: "('s, 'a) action \<Rightarrow> ('a \<Rightarrow> ('s, 'b) action) \<Rightarrow> ('s, 'b) action" where
  "bind_act m f s = (case m s of (Inl e, s') \<Rightarrow> (Inl e, s') | (Inr x, s') \<Rightarrow> f x s')"

lemma return_act_simp [simp]: "return_act x s = (Inr x, s)"
  by (simp add: return_act_def)

lemma throw_act_simp [simp]: "throw_act e s = (Inl e, s)"
  by (simp add: throw_act_def)

text \<open>
  The rule every invariant proof uses: a property of states that each step keeps is kept by
  the sequence, whether it throws or not.
\<close>

lemma bind_act_invariant:
  assumes "bind_act m f s = (r, s')" and "P s"
    and "\<And>r1 s1. m s = (r1, s1) \<Longrightarrow> P s1"
    and "\<And>x s1. m s = (Inr x, s1) \<Longrightarrow> P s1 \<Longrightarrow> f x s1 = (r, s') \<Longrightarrow> P s'"
  shows "P s'"
  using assms by (auto simp: bind_act_def split: prod.splits sum.splits)

lemma bind_act_Inr:
  "bind_act m f s = (Inr y, s') \<longleftrightarrow> (\<exists>x s1. m s = (Inr x, s1) \<and> f x s1 = (Inr y, s'))"
  by (auto simp: bind_act_def split: prod.splits sum.splits)

lemma bind_act_cases:
  assumes "bind_act m f s = (r, s')"
  obtains e where "m s = (Inl e, s')" "r = Inl e"
  | x s1 where "m s = (Inr x, s1)" "f x s1 = (r, s')"
  using assms by (auto simp: bind_act_def split: prod.splits sum.splits)

definition catchable :: "exn \<Rightarrow> bool" where
  "catchable e = (case e of Undefined _ \<Rightarrow> False | _ \<Rightarrow> True)"

lemma is_undefined_Inl: "is_undefined (Inl e) \<longleftrightarrow> \<not> catchable e"
  by (cases e) (simp_all add: catchable_def)

section \<open>Actions that keep a property\<close>

text \<open>
  \<open>keeps P Q m\<close>: from a state with \<open>P\<close> the action ends in one with \<open>P\<close>, also when it
  throws, and then the exception has \<open>Q\<close>. The rules follow the structure of an action.
\<close>

definition keeps :: "('s \<Rightarrow> bool) \<Rightarrow> (exn \<Rightarrow> bool) \<Rightarrow> ('s, 'a) action \<Rightarrow> bool" where
  "keeps P Q m \<longleftrightarrow> (\<forall>s r s'. P s \<longrightarrow> m s = (r, s') \<longrightarrow> P s' \<and> (\<forall>e. r = Inl e \<longrightarrow> Q e))"

lemma keepsI: "(\<And>s r s'. P s \<Longrightarrow> m s = (r, s') \<Longrightarrow> P s' \<and> (\<forall>e. r = Inl e \<longrightarrow> Q e)) \<Longrightarrow> keeps P Q m"
  by (simp add: keeps_def)

lemma keepsD: "keeps P Q m \<Longrightarrow> P s \<Longrightarrow> m s = (r, s') \<Longrightarrow> P s' \<and> (\<forall>e. r = Inl e \<longrightarrow> Q e)"
  by (simp add: keeps_def)

lemma keeps_return [intro]: "keeps P Q (return_act x)"
  by (simp add: keeps_def)

lemma keeps_throw [intro]: "Q e \<Longrightarrow> keeps P Q (throw_act e)"
  by (simp add: keeps_def)

lemma keeps_bind [intro]:
  assumes "keeps P Q m" and "\<And>x. keeps P Q (f x)"
  shows "keeps P Q (bind_act m f)"
proof (rule keepsI)
  fix s r s' assume p: "P s" and "bind_act m f s = (r, s')"
  from this(2) show "P s' \<and> (\<forall>e. r = Inl e \<longrightarrow> Q e)"
  proof (cases rule: bind_act_cases)
    case (1 e)
    then show ?thesis using keepsD [OF assms(1) p 1(1)] by simp
  next
    case (2 x s1)
    then show ?thesis using keepsD [OF assms(1) p 2(1)] keepsD [OF assms(2) _ 2(2)] by blast
  qed
qed

lemma keeps_if [intro]: "keeps P Q m \<Longrightarrow> keeps P Q n \<Longrightarrow> keeps P Q (if c then m else n)"
  by simp

text \<open>The same for an action that can only return one value.\<close>

lemma keeps_bind_value:
  assumes "keeps P Q m" and "\<And>s x s'. m s = (Inr x, s') \<Longrightarrow> x = v" and "keeps P Q (f v)"
  shows "keeps P Q (bind_act m f)"
proof (rule keepsI)
  fix s r s' assume p: "P s" and "bind_act m f s = (r, s')"
  from this(2) show "P s' \<and> (\<forall>e. r = Inl e \<longrightarrow> Q e)"
  proof (cases rule: bind_act_cases)
    case (1 e)
    then show ?thesis using keepsD [OF assms(1) p 1(1)] by simp
  next
    case (2 x s1)
    then show ?thesis using keepsD [OF assms(1) p 2(1)] keepsD [OF assms(3)] assms(2) [OF 2(1)] by blast
  qed
qed

section \<open>Collections of facts\<close>

named_theorems model_defs \<open>definitions of the modelled operations\<close>
named_theorems frame_simps \<open>what an operation leaves unchanged\<close>
named_theorems inv_intros \<open>preservation of the component invariants\<close>

section \<open>Traversal of a list under an operation that may throw\<close>

fun map_res :: "('a \<Rightarrow> 'b result) \<Rightarrow> 'a list \<Rightarrow> 'b list result" where
  "map_res f [] = Inr []"
| "map_res f (x # xs) =
     (case f x of
        Inl e \<Rightarrow> Inl e
      | Inr y \<Rightarrow> (case map_res f xs of Inl e \<Rightarrow> Inl e | Inr ys \<Rightarrow> Inr (y # ys)))"

lemma map_res_total: "(\<And>x. x \<in> set xs \<Longrightarrow> f x = Inr (g x)) \<Longrightarrow> map_res f xs = Inr (map g xs)"
  by (induction xs) auto

lemma map_res_Inr_iff:
  "map_res f xs = Inr ys \<longleftrightarrow> list_all2 (\<lambda>x y. f x = Inr y) xs ys"
proof (induction xs arbitrary: ys)
  case (Cons x xs)
  show ?case
    by (cases "f x"; cases "map_res f xs")
      (auto simp: list_all2_Cons1 Cons.IH [symmetric])
qed auto

section \<open>Lists\<close>

lemma distinct_map_eq: "distinct (map f xs) \<Longrightarrow> x \<in> set xs \<Longrightarrow> y \<in> set xs \<Longrightarrow> f x = f y \<Longrightarrow> x = y"
  by (auto simp: distinct_map dest: inj_onD)

lemma takeWhile_dropWhile_nth:
  "dropWhile P xs = y # ys \<Longrightarrow> \<not> P y"
  by (induction xs) (auto split: if_splits)

end
