(* ===== verification/Binary64.thy ===== *)
theory Binary64
  imports Prelude
begin

text \<open>
  The C++ type \<open>double\<close> as IEEE 754 binary64: two infinities, one NaN (its sign and
  payload are not modelled), two zeros, and the finite values as exact rationals. Every
  operation computes the exact rational result and rounds it once, to nearest with ties to
  even, with gradual underflow and overflow to infinity; nothing is idealised. The
  operators of the source (\<open>+\<close>, \<open>-\<close>, \<open>*\<close>, \<open><\<close>, \<open><=\<close>) are
  the type-class operations of the type, so that the models of the other theories read
  like the code; \<open>/\<close> is \<open>fdiv\<close>, and \<open>==\<close> is \<open>deq\<close>, because it
  differs from equality on NaN and on the two zeros.
\<close>

section \<open>Values\<close>

datatype double = NaN | NInf | PInf | NZero | Fin rat

fun dval :: "double \<Rightarrow> rat" where
  "dval (Fin q) = q"
| "dval NZero = 0"
| "dval PInf = 0"
| "dval NInf = 0"
| "dval NaN = 0"

fun rank :: "double \<Rightarrow> int" where
  "rank NInf = - 1"
| "rank PInf = 1"
| "rank _ = 0"

fun signbit :: "double \<Rightarrow> bool" where
  "signbit (Fin q) = (q < 0)"
| "signbit NZero = True"
| "signbit NInf = True"
| "signbit _ = False"

definition isinf :: "double \<Rightarrow> bool" where
  "isinf x = (x = PInf \<or> x = NInf)"

definition isfinite :: "double \<Rightarrow> bool" where
  "isfinite x = (x \<noteq> NaN \<and> \<not> isinf x)"

section \<open>Rounding to nearest, ties to even\<close>

text \<open>Number of binary digits, and the exponent of the leading one of a positive rational.\<close>

function nbits :: "int \<Rightarrow> int" where
  "nbits n = (if n \<le> 0 then 0 else 1 + nbits (n div 2))"
  by pat_completeness auto
termination
  by (relation "measure nat") auto

declare nbits.simps [simp del]

definition two_to :: "int \<Rightarrow> rat" where
  "two_to k = (if 0 \<le> k then 2 ^ nat k else 1 / 2 ^ nat (- k))"

definition ilog2 :: "rat \<Rightarrow> int" where
  "ilog2 q = (case quotient_of q of (n, d) \<Rightarrow>
     (let k = nbits n - nbits d in if two_to k \<le> q then k else k - 1))"

definition rint :: "rat \<Rightarrow> int" where
  "rint x = (let f = floor x; r = x - of_int f in
     if r < 1 / 2 then f else if 1 / 2 < r then f + 1 else if even f then f else f + 1)"

text \<open>
  The exponent of the last place: 53 significant bits, but never below \<open>- 1074\<close>.
\<close>

definition last_place :: "rat \<Rightarrow> int" where
  "last_place q = max (ilog2 \<bar>q\<bar> - 52) (- 1074)"

definition rnd :: "rat \<Rightarrow> double" where
  "rnd q = (if q = 0 then Fin 0
    else (let e = last_place q; m = rint (q / two_to e) in
      if 971 < e \<or> e = 971 \<and> 2 ^ 53 \<le> \<bar>m\<bar> then (if 0 < q then PInf else NInf)
      else if m = 0 then (if 0 < q then Fin 0 else NZero)
      else Fin (of_int m * two_to e)))"

subsection \<open>Powers of two\<close>

lemma two_to_powi: "two_to k = 2 powi k"
  by (simp add: two_to_def power_int_def inverse_eq_divide power_one_over)

lemma two_to_pos [simp]: "0 < two_to k" and two_to_nonzero [simp]: "two_to k \<noteq> 0"
  by (simp_all add: two_to_powi)

lemma two_to_0 [simp]: "two_to 0 = 1"
  by (simp add: two_to_def)

lemma two_to_add: "two_to (i + j) = two_to i * two_to j"
  by (simp add: two_to_powi power_int_add)

lemma two_to_diff: "two_to (i - j) = two_to i / two_to j"
  by (simp add: two_to_powi power_int_diff)

lemma two_to_nat: "0 \<le> k \<Longrightarrow> two_to k = 2 ^ nat k"
  by (simp add: two_to_def)

lemma two_to_less_iff [simp]: "two_to i < two_to j \<longleftrightarrow> i < j"
  unfolding two_to_powi
  by (metis linorder_less_linear one_less_numeral_iff order_less_asym power_int_strict_increasing
      semiring_norm(76))

lemma two_to_le_iff [simp]: "two_to i \<le> two_to j \<longleftrightarrow> i \<le> j"
  by (meson linorder_not_less two_to_less_iff)

subsection \<open>Number of bits and binary logarithm\<close>

lemma nbits_nonneg: "0 \<le> nbits n"
  by (induction n rule: nbits.induct) (subst nbits.simps, auto)

lemma nbits_bounds: "0 < n \<Longrightarrow> two_to (nbits n - 1) \<le> of_int n \<and> of_int n < two_to (nbits n)"
proof (induction n rule: nbits.induct)
  case (1 n)
  have nb: "nbits n = 1 + nbits (n div 2)"
    using "1.prems" by (simp add: nbits.simps [of n])
  show ?case
  proof (cases "n = 1")
    case True
    then show ?thesis
      using nb by (simp add: nbits.simps [of 0] two_to_def)
  next
    case False
    with "1.prems" have pos: "0 < n div 2" by auto
    let ?k = "nbits (n div 2)"
    from "1.IH" "1.prems" pos
    have IH: "two_to (?k - 1) \<le> of_int (n div 2)" "of_int (n div 2) < two_to ?k" by auto
    have k: "0 < ?k" using pos nbits_nonneg [of "n div 2 div 2"] by (simp add: nbits.simps [of "n div 2"])
    have lo: "two_to ?k = 2 * two_to (?k - 1)"
      using two_to_add [of "?k - 1" 1] by (simp add: two_to_def [of 1])
    have hi: "two_to (1 + ?k) = 2 * two_to ?k"
      using two_to_add [of 1 ?k] by (simp add: two_to_def [of 1])
    have int_pow: "two_to ?k = of_int (2 ^ nat ?k)"
      using k by (simp add: two_to_nat less_imp_le)
    have ge: "2 * (n div 2) \<le> n" and lt: "n < 2 * (n div 2) + 2" by auto
    have up: "n div 2 + 1 \<le> 2 ^ nat ?k"
      using IH(2) by (simp only: int_pow of_int_less_iff)
    have "of_int n < (2 * of_int (2 ^ nat ?k) :: rat)"
    proof -
      have "n < 2 * 2 ^ nat ?k" using lt up by linarith
      then have "of_int n < (of_int (2 * 2 ^ nat ?k) :: rat)" by (simp only: of_int_less_iff)
      then show ?thesis by simp
    qed
    moreover have "2 * two_to (?k - 1) \<le> of_int n"
    proof -
      have "2 * two_to (?k - 1) \<le> 2 * of_int (n div 2)" using IH(1) by simp
      also have "\<dots> = of_int (2 * (n div 2))" by simp
      also have "\<dots> \<le> of_int n" using ge by (simp only: of_int_le_iff)
      finally show ?thesis .
    qed
    ultimately show ?thesis using lo hi nb int_pow by simp
  qed
qed

lemma ilog2_bounds:
  assumes "0 < q"
  shows "two_to (ilog2 q) \<le> q \<and> q < two_to (ilog2 q + 1)"
proof -
  obtain n d where nd: "quotient_of q = (n, d)" by fastforce
  then have d: "0 < d" by (rule quotient_of_denom_pos)
  have q: "q = of_int n / of_int d" using nd by (rule quotient_of_div)
  have n: "0 < n" using assms d unfolding q by (simp add: zero_less_divide_iff)
  let ?a = "nbits n" and ?b = "nbits d"
  note bn = nbits_bounds [OF n] and bd = nbits_bounds [OF d]
  have up: "q < two_to (?a - ?b + 1)"
  proof -
    have "q < two_to ?a / of_int d"
      using bn d unfolding q by (simp add: divide_strict_right_mono)
    also have "\<dots> \<le> two_to ?a / two_to (?b - 1)"
      using bd d by (intro divide_left_mono) (auto intro: less_imp_le)
    also have "\<dots> = two_to (?a - ?b + 1)"
      unfolding two_to_diff [symmetric] by (simp add: algebra_simps)
    finally show ?thesis .
  qed
  have low: "two_to (?a - ?b - 1) \<le> q"
  proof -
    have "two_to (?a - ?b - 1) = two_to (?a - 1) / two_to ?b"
      unfolding two_to_diff [symmetric] by (simp add: algebra_simps)
    also have "\<dots> \<le> two_to (?a - 1) / of_int d"
      using bd d by (intro divide_left_mono) (auto intro: less_imp_le)
    also have "\<dots> \<le> q"
      using bn d unfolding q by (intro divide_right_mono) auto
    finally show ?thesis .
  qed
  show ?thesis
    using up low by (auto simp: ilog2_def nd Let_def not_le)
qed

lemma ilog2_unique:
  assumes "two_to k \<le> q" and "q < two_to (k + 1)"
  shows "ilog2 q = k"
proof -
  have "0 < q" using assms(1) two_to_pos [of k] by linarith
  note b = ilog2_bounds [OF this]
  have "two_to k < two_to (ilog2 q + 1)" and "two_to (ilog2 q) < two_to (k + 1)"
    using b assms by linarith+
  then show ?thesis by simp
qed

lemma ilog2_mono:
  assumes "0 < x" and "x \<le> y"
  shows "ilog2 x \<le> ilog2 y"
proof -
  have "two_to (ilog2 x) < two_to (ilog2 y + 1)"
    using ilog2_bounds [of x] ilog2_bounds [of y] assms by linarith
  then show ?thesis by simp
qed

subsection \<open>Rounding to an integer\<close>

lemma rint_of_int [simp]: "rint (of_int n) = n"
  by (simp add: rint_def)

lemma rint_floor: "rint x = floor x \<or> rint x = floor x + 1"
  by (auto simp: rint_def Let_def)

lemma rint_mono:
  assumes "x \<le> y"
  shows "rint x \<le> rint y"
proof (cases "floor x = floor y")
  case True
  then show ?thesis using assms by (auto simp: rint_def Let_def)
next
  case False
  then have "floor x + 1 \<le> floor y" using floor_mono [OF assms] by linarith
  then show ?thesis using rint_floor [of x] rint_floor [of y] by linarith
qed

lemma rint_uminus: "rint (- x) = - rint x"
proof (cases "x = of_int (floor x)")
  case True
  then obtain n :: int where n: "x = of_int n" by blast
  have "rint (- x) = rint (of_int (- n))" unfolding n by simp
  then show ?thesis unfolding n by (simp only: rint_of_int)
next
  case False
  then have fl: "floor (- x) = - floor x - 1"
    using floor_correct [of x] by (intro floor_unique) (auto simp: less_le)
  show ?thesis unfolding rint_def Let_def fl by auto
qed


subsection \<open>The grid of representable values\<close>

text \<open>
  \<open>rgrid q\<close> is the value \<open>q\<close> is rounded to when overflow is disregarded; the
  facts below speak of positive arguments, and \<open>rnd_uminus\<close> carries them over.
\<close>

definition rgrid :: "rat \<Rightarrow> rat" where
  "rgrid q = of_int (rint (q / two_to (last_place q))) * two_to (last_place q)"

lemma last_place_uminus [simp]: "last_place (- q) = last_place q"
  by (simp add: last_place_def)

lemma last_place_low: "- 1074 \<le> last_place q"
  by (simp add: last_place_def)

lemma below_last_place: "0 < q \<Longrightarrow> q < two_to (last_place q + 53)"
  using ilog2_bounds [of q] less_le_trans [of q "two_to (ilog2 q + 1)" "two_to (last_place q + 53)"]
  by (simp add: last_place_def)

lemma rgrid_le_two_to:
  assumes "q \<le> two_to k" and "last_place q \<le> k"
  shows "rgrid q \<le> two_to k"
proof -
  let ?e = "last_place q"
  have "q / two_to ?e \<le> two_to (k - ?e)"
    using assms(1) by (simp add: two_to_diff divide_right_mono less_imp_le)
  also have "two_to (k - ?e) = of_int (2 ^ nat (k - ?e))"
    using assms(2) by (simp add: two_to_nat)
  finally have "rint (q / two_to ?e) \<le> 2 ^ nat (k - ?e)"
    using rint_mono [of "q / two_to ?e" "of_int (2 ^ nat (k - ?e))"] by (simp only: rint_of_int)
  then have "of_int (rint (q / two_to ?e)) \<le> (of_int (2 ^ nat (k - ?e)) :: rat)"
    by (simp only: of_int_le_iff)
  also have "\<dots> = two_to (k - ?e)" using assms(2) by (simp add: two_to_nat)
  finally show ?thesis
    unfolding rgrid_def by (simp add: two_to_diff field_simps)
qed

lemma two_to_le_rgrid:
  assumes "two_to k \<le> q" and "last_place q \<le> k"
  shows "two_to k \<le> rgrid q"
proof -
  let ?e = "last_place q"
  have eq: "two_to (k - ?e) = of_int (2 ^ nat (k - ?e))"
    using assms(2) by (simp add: two_to_nat)
  have "of_int (2 ^ nat (k - ?e)) \<le> q / two_to ?e"
    using assms(1) unfolding eq [symmetric] two_to_diff
    by (intro divide_right_mono) (auto intro: less_imp_le)
  then have "2 ^ nat (k - ?e) \<le> rint (q / two_to ?e)"
    using rint_mono [of "of_int (2 ^ nat (k - ?e))" "q / two_to ?e"] by (simp only: rint_of_int)
  then have "two_to (k - ?e) \<le> of_int (rint (q / two_to ?e))"
    unfolding eq by (simp only: of_int_le_iff)
  then show ?thesis
    unfolding rgrid_def by (simp add: two_to_diff field_simps)
qed

lemma rgrid_mono:
  assumes "0 < x" and "x \<le> y"
  shows "rgrid x \<le> rgrid y"
proof -
  have il: "ilog2 x \<le> ilog2 y" using assms by (rule ilog2_mono)
  then have ep: "last_place x \<le> last_place y" using assms by (auto simp: last_place_def)
  show ?thesis
  proof (cases "last_place x = last_place y")
    case True
    have "rint (x / two_to (last_place y)) \<le> rint (y / two_to (last_place y))"
      using assms by (intro rint_mono divide_right_mono) (auto intro: less_imp_le)
    then show ?thesis
      unfolding rgrid_def True by (simp add: mult_right_mono less_imp_le)
  next
    case False
    let ?k = "ilog2 y"
    from False ep assms have ey: "last_place y = ?k - 52" and ex: "last_place x < ?k - 52"
      by (auto simp: last_place_def)
    from ex assms have kx: "ilog2 x + 1 \<le> ?k" by (auto simp: last_place_def)
    have "x \<le> two_to ?k"
      using ilog2_bounds [of x] assms kx less_le_trans [of x "two_to (ilog2 x + 1)" "two_to ?k"]
      by (simp add: less_imp_le)
    then have "rgrid x \<le> two_to ?k" by (rule rgrid_le_two_to) (use ex in simp)
    also have "two_to ?k \<le> rgrid y"
      using ilog2_bounds [of y] assms ey by (intro two_to_le_rgrid) auto
    finally show ?thesis .
  qed
qed

lemma rgrid_exact:
  assumes "\<bar>q\<bar> = of_int n * two_to e" and "n < 2 ^ 53" and "- 1074 \<le> e" and "q \<noteq> 0"
  shows "rgrid q = q"
proof -
  let ?e = "last_place q"
  have "\<bar>q\<bar> < two_to (e + 53)"
  proof -
    have "of_int n < (of_int (2 ^ 53) :: rat)" using assms(2) by (simp only: of_int_less_iff)
    then show ?thesis
      unfolding assms(1) by (simp add: two_to_add two_to_def [of 53])
  qed
  moreover have "two_to (ilog2 \<bar>q\<bar>) \<le> \<bar>q\<bar>"
    using ilog2_bounds [of "\<bar>q\<bar>"] assms(4) by simp
  ultimately have "two_to (ilog2 \<bar>q\<bar>) < two_to (e + 53)" by linarith
  then have le: "?e \<le> e" using assms(3) by (simp add: last_place_def)
  have "two_to (e - ?e) = of_int (2 ^ nat (e - ?e))" using le by (simp add: two_to_nat)
  then have "\<bar>q\<bar> / two_to ?e = of_int (n * 2 ^ nat (e - ?e))"
    using assms(1) by (simp add: two_to_diff field_simps)
  then have m: "q / two_to ?e = of_int (if 0 \<le> q then n * 2 ^ nat (e - ?e) else - (n * 2 ^ nat (e - ?e)))"
    by (auto simp: abs_if minus_divide_left [symmetric] split: if_splits)
  show ?thesis
    unfolding rgrid_def m rint_of_int unfolding m [symmetric] by simp
qed

lemma rgrid_idem:
  assumes "0 < q" and "0 < rgrid q"
  shows "rgrid (rgrid q) = rgrid q"
proof -
  let ?e = "last_place q" and ?m = "rint (q / two_to (last_place q))"
  have v: "rgrid q = of_int ?m * two_to ?e" by (simp add: rgrid_def)
  have "rgrid q \<le> two_to (?e + 53)"
    using below_last_place [OF assms(1)] by (intro rgrid_le_two_to) auto
  then have "of_int ?m \<le> (of_int (2 ^ 53) :: rat)"
    unfolding v by (simp add: two_to_add two_to_def [of 53])
  then have m: "?m \<le> 2 ^ 53" by (simp only: of_int_le_iff)
  show ?thesis
  proof (cases "?m = 2 ^ 53")
    case True
    have "rgrid q = of_int 1 * two_to (?e + 53)"
      unfolding v True by (simp add: two_to_add two_to_def [of 53])
    then show ?thesis
      using assms(2) last_place_low [of q] by (intro rgrid_exact [of _ 1 "?e + 53"]) (auto simp: abs_of_pos)
  next
    case False
    then show ?thesis
      using assms(2) m v last_place_low [of q] by (intro rgrid_exact [of _ ?m ?e]) auto
  qed
qed

text \<open>The overflow test of \<open>rnd\<close> is the comparison with \<open>2 ^ 1024\<close>.\<close>

lemma overflow_iff:
  assumes "0 < q"
  shows "(971 < last_place q \<or> last_place q = 971 \<and> 2 ^ 53 \<le> \<bar>rint (q / two_to (last_place q))\<bar>)
    \<longleftrightarrow> two_to 1024 \<le> rgrid q"
proof -
  let ?e = "last_place q" and ?m = "rint (q / two_to (last_place q))"
  have m0: "0 \<le> ?m"
    using assms rint_mono [of "of_int 0" "q / two_to ?e"] by (simp only: rint_of_int) (simp add: less_imp_le)
  consider "971 < ?e" | "?e = 971" | "?e < 971" by linarith
  then show ?thesis
  proof cases
    case 1
    then have k: "?e = ilog2 q - 52" using assms by (auto simp: last_place_def)
    have "two_to 1024 \<le> two_to (ilog2 q)" using 1 k by simp
    also have "\<dots> \<le> rgrid q"
      using ilog2_bounds [OF assms] k by (intro two_to_le_rgrid) auto
    finally show ?thesis using 1 by simp
  next
    case 2
    have "two_to 1024 \<le> rgrid q \<longleftrightarrow> of_int (2 ^ 53) * two_to 971 \<le> of_int ?m * two_to 971"
      using two_to_add [of 53 971] by (simp add: rgrid_def 2 two_to_def [of 53])
    also have "\<dots> \<longleftrightarrow> of_int (2 ^ 53) \<le> (of_int ?m :: rat)"
      by (rule mult_le_cancel_right_pos) simp
    also have "\<dots> \<longleftrightarrow> 2 ^ 53 \<le> ?m" by (simp only: of_int_le_iff)
    finally show ?thesis using 2 m0 by simp
  next
    case 3
    have "rgrid q \<le> two_to (?e + 53)"
      using below_last_place [OF assms] by (intro rgrid_le_two_to) auto
    also have "\<dots> < two_to 1024" using 3 by simp
    finally show ?thesis using 3 by auto
  qed
qed

lemma rnd_0 [simp]: "rnd 0 = Fin 0"
  by (simp add: rnd_def)

lemma rnd_pos:
  assumes "0 < q"
  shows "rnd q = (if two_to 1024 \<le> rgrid q then PInf else Fin (rgrid q))"
  using assms overflow_iff [OF assms] by (auto simp: rnd_def Let_def rgrid_def)

lemma rgrid_nonneg: "0 < q \<Longrightarrow> 0 \<le> rgrid q"
  using rint_mono [of "of_int 0" "q / two_to (last_place q)"]
  by (simp only: rint_of_int rgrid_def) (simp add: less_imp_le)


section \<open>Comparison and arithmetic\<close>

definition deq :: "double \<Rightarrow> double \<Rightarrow> bool" where
  "deq x y = (x \<noteq> NaN \<and> y \<noteq> NaN \<and> rank x = rank y \<and> dval x = dval y)"

text \<open>Addition under an arbitrary rounding; the program runs it with \<open>rnd\<close>.\<close>

definition fadd :: "(rat \<Rightarrow> double) \<Rightarrow> double \<Rightarrow> double \<Rightarrow> double" where
  "fadd rd x y =
    (if x = NaN \<or> y = NaN then NaN
     else if isinf x then (if isinf y \<and> x \<noteq> y then NaN else x)
     else if isinf y then y
     else if x = NZero \<and> y = NZero then NZero
     else rd (dval x + dval y))"

fun fneg :: "double \<Rightarrow> double" where
  "fneg NaN = NaN"
| "fneg PInf = NInf"
| "fneg NInf = PInf"
| "fneg NZero = Fin 0"
| "fneg (Fin q) = (if q = 0 then NZero else Fin (- q))"

instantiation double :: "{ord, zero, plus, minus, uminus, times}"
begin

definition less_eq_double :: "double \<Rightarrow> double \<Rightarrow> bool" where
  "less_eq_double x y = (x \<noteq> NaN \<and> y \<noteq> NaN \<and>
     (rank x < rank y \<or> rank x = rank y \<and> dval x \<le> dval y))"

definition less_double :: "double \<Rightarrow> double \<Rightarrow> bool" where
  "less_double x y = (x \<noteq> NaN \<and> y \<noteq> NaN \<and>
     (rank x < rank y \<or> rank x = rank y \<and> dval x < dval y))"

definition zero_double :: double where
  "zero_double = Fin 0"

definition uminus_double :: "double \<Rightarrow> double" where
  "uminus_double x = fneg x"

definition plus_double :: "double \<Rightarrow> double \<Rightarrow> double" where
  "plus_double x y = fadd rnd x y"

definition minus_double :: "double \<Rightarrow> double \<Rightarrow> double" where
  "minus_double x y = fadd rnd x (fneg y)"

definition times_double :: "double \<Rightarrow> double \<Rightarrow> double" where
  "times_double x y =
    (if x = NaN \<or> y = NaN then NaN
     else if isinf x \<or> isinf y then
       (if deq x (Fin 0) \<or> deq y (Fin 0) then NaN
        else if signbit x = signbit y then PInf else NInf)
     else if dval x * dval y = 0 then (if signbit x = signbit y then Fin 0 else NZero)
     else rnd (dval x * dval y))"

instance ..

end

definition fdiv :: "double \<Rightarrow> double \<Rightarrow> double" where
  "fdiv x y =
    (if x = NaN \<or> y = NaN then NaN
     else if isinf x then
       (if isinf y then NaN else if signbit x = signbit y then PInf else NInf)
     else if isinf y then (if signbit x = signbit y then Fin 0 else NZero)
     else if dval y = 0 then
       (if dval x = 0 then NaN else if signbit x = signbit y then PInf else NInf)
     else if dval x = 0 then (if signbit x = signbit y then Fin 0 else NZero)
     else rnd (dval x / dval y))"

section \<open>Laws\<close>

subsection \<open>The order\<close>

lemma zero_distinct [simp]:
  "NaN \<noteq> 0" "0 \<noteq> NaN" "PInf \<noteq> 0" "0 \<noteq> PInf" "NInf \<noteq> 0" "0 \<noteq> NInf" "NZero \<noteq> 0" "0 \<noteq> NZero"
  "Fin q = 0 \<longleftrightarrow> q = 0" "0 = Fin q \<longleftrightarrow> q = 0"
  by (auto simp: zero_double_def)

lemma zero_fields [simp]: "dval 0 = 0" "rank 0 = 0" "\<not> signbit 0" "\<not> isinf 0" "isfinite 0"
  by (simp_all add: zero_double_def isinf_def isfinite_def)

lemma Fin_0 [simp]: "Fin 0 = 0"
  by (simp add: zero_double_def)

lemma fneg_0 [simp]: "fneg 0 = NZero"
  by (simp add: zero_double_def del: Fin_0)

lemma class_simps [simp]:
  "isinf PInf" "isinf NInf" "\<not> isinf NaN" "\<not> isinf NZero" "\<not> isinf (Fin q)"
  "isfinite (Fin q)" "isfinite NZero" "\<not> isfinite PInf" "\<not> isfinite NInf" "\<not> isfinite NaN"
  by (simp_all add: isinf_def isfinite_def)

lemma isfinite_cases: "isfinite x \<Longrightarrow> (\<And>q. x = Fin q \<Longrightarrow> P) \<Longrightarrow> (x = NZero \<Longrightarrow> P) \<Longrightarrow> P"
  by (cases x) auto

lemma dle_simps [simp]:
  "Fin a \<le> Fin b \<longleftrightarrow> a \<le> b" "0 \<le> Fin b \<longleftrightarrow> 0 \<le> b" "Fin a \<le> 0 \<longleftrightarrow> a \<le> 0" "(0::double) \<le> 0"
  "\<not> NaN \<le> x" "\<not> x \<le> NaN" "x \<le> PInf \<longleftrightarrow> x \<noteq> NaN" "NInf \<le> x \<longleftrightarrow> x \<noteq> NaN"
  "PInf \<le> x \<longleftrightarrow> x = PInf" "x \<le> NInf \<longleftrightarrow> x = NInf"
  by (cases x; simp add: less_eq_double_def)+

lemma dlt_simps [simp]:
  "Fin a < Fin b \<longleftrightarrow> a < b" "0 < Fin b \<longleftrightarrow> 0 < b" "Fin a < 0 \<longleftrightarrow> a < 0" "\<not> (0::double) < 0"
  "\<not> NaN < x" "\<not> x < NaN" "x < PInf \<longleftrightarrow> x \<noteq> NaN \<and> x \<noteq> PInf" "NInf < x \<longleftrightarrow> x \<noteq> NaN \<and> x \<noteq> NInf"
  "\<not> PInf < x" "\<not> x < NInf"
  by (cases x; simp add: less_double_def)+

lemma NZero_order [simp]:
  "NZero \<le> x \<longleftrightarrow> 0 \<le> x" "x \<le> NZero \<longleftrightarrow> x \<le> 0" "NZero < x \<longleftrightarrow> 0 < x" "x < NZero \<longleftrightarrow> x < 0"
  by (simp_all add: less_eq_double_def less_double_def)

lemma dle_not_nan: "x \<le> y \<Longrightarrow> x \<noteq> NaN \<and> y \<noteq> NaN" for x y :: double
  by (simp add: less_eq_double_def)

lemma dlt_not_nan: "x < y \<Longrightarrow> x \<noteq> NaN \<and> y \<noteq> NaN" for x y :: double
  by (simp add: less_double_def)

lemma dle_refl [simp]: "x \<le> x \<longleftrightarrow> x \<noteq> NaN" for x :: double
  by (simp add: less_eq_double_def)

lemma dlt_irrefl [simp]: "\<not> x < x" for x :: double
  by (simp add: less_double_def)

lemma dle_trans [trans]: "x \<le> y \<Longrightarrow> y \<le> z \<Longrightarrow> x \<le> z" for x y z :: double
  by (auto simp: less_eq_double_def)

lemma dlt_trans [trans]: "x < y \<Longrightarrow> y < z \<Longrightarrow> x < z" for x y z :: double
  by (auto simp: less_double_def)

lemma dle_dlt_trans [trans]: "x \<le> y \<Longrightarrow> y < z \<Longrightarrow> x < z" for x y z :: double
  by (auto simp: less_eq_double_def less_double_def)

lemma dlt_dle_trans [trans]: "x < y \<Longrightarrow> y \<le> z \<Longrightarrow> x < z" for x y z :: double
  by (auto simp: less_eq_double_def less_double_def)

lemma dlt_imp_dle: "x < y \<Longrightarrow> x \<le> y" for x y :: double
  by (auto simp: less_eq_double_def less_double_def)

lemma dlt_iff_not_dle: "x \<noteq> NaN \<Longrightarrow> y \<noteq> NaN \<Longrightarrow> x < y \<longleftrightarrow> \<not> y \<le> x" for x y :: double
  by (auto simp: less_eq_double_def less_double_def)

lemma dlt_not_dle: "x < y \<Longrightarrow> \<not> y \<le> x" for x y :: double
  by (auto simp: less_eq_double_def less_double_def)

lemma deq_iff: "deq x y \<longleftrightarrow> x \<le> y \<and> y \<le> x"
  by (auto simp: deq_def less_eq_double_def)

lemma double_trichotomy: "x \<noteq> NaN \<Longrightarrow> y \<noteq> NaN \<Longrightarrow> deq x y \<or> x < y \<or> y < x"
  by (auto simp: deq_def less_double_def)

subsection \<open>Rounding is monotone and idempotent\<close>

lemma rnd_uminus: "q \<noteq> 0 \<Longrightarrow> rnd (- q) = fneg (rnd q)"
  by (auto simp: rnd_def Let_def rint_uminus)

lemma fneg_antimono: "x \<le> y \<Longrightarrow> fneg y \<le> fneg x"
  by (cases x; cases y) (auto simp: less_eq_double_def split: if_splits)

lemma rnd_not_nan [simp]: "rnd q \<noteq> NaN"
  by (auto simp: rnd_def Let_def)

lemma rnd_nonneg: "0 \<le> q \<Longrightarrow> 0 \<le> rnd q"
  by (cases "q = 0") (auto simp: rnd_pos rgrid_nonneg)

lemma rnd_mono_pos: "0 \<le> x \<Longrightarrow> x \<le> y \<Longrightarrow> rnd x \<le> rnd y"
proof (cases "x = 0")
  case False
  assume "0 \<le> x" "x \<le> y"
  with False have "0 < x" "0 < y" by auto
  then show ?thesis
    using rgrid_mono [OF \<open>0 < x\<close> \<open>x \<le> y\<close>] by (auto simp: rnd_pos)
qed (auto intro: rnd_nonneg)

lemma rnd_mono: "x \<le> y \<Longrightarrow> rnd x \<le> rnd y"
proof -
  assume le: "x \<le> y"
  consider "0 \<le> x" | "x < 0" "0 \<le> y" | "x < 0" "y < 0" by linarith
  then show ?thesis
  proof cases
    case 1
    then show ?thesis using le by (rule rnd_mono_pos)
  next
    case 2
    have "rnd x \<le> 0"
      using fneg_antimono [OF rnd_nonneg [of "- x"]] rnd_uminus [of "- x"] 2
      by (auto simp: less_eq_double_def)
    also have "0 \<le> rnd y" using 2 by (intro rnd_nonneg) auto
    finally show ?thesis .
  next
    case 3
    then show ?thesis
      using fneg_antimono [OF rnd_mono_pos [of "- y" "- x"]] rnd_uminus [of "- x"] rnd_uminus [of "- y"] le
      by auto
  qed
qed

lemma rnd_idem_pos: "0 < q \<Longrightarrow> rnd q = Fin v \<Longrightarrow> rnd v = Fin v"
proof (cases "v = 0")
  case False
  assume q: "0 < q" and r: "rnd q = Fin v"
  then have v: "v = rgrid q" "\<not> two_to 1024 \<le> rgrid q"
    by (auto simp: rnd_pos split: if_splits)
  then have "0 < v" using False rgrid_nonneg [OF q] by auto
  then show ?thesis
    using rgrid_idem [OF q] v rnd_pos by auto
qed simp

lemma fneg_Fin: "fneg x = Fin v \<Longrightarrow> v \<noteq> 0 \<Longrightarrow> x = Fin (- v)"
  by (cases x) (auto split: if_splits)

lemma rnd_idem: "rnd q = Fin v \<Longrightarrow> rnd v = Fin v"
proof -
  assume r: "rnd q = Fin v"
  consider "v = 0" | "0 < q" | "q = 0" | "q < 0" "v \<noteq> 0" by linarith
  then show ?thesis
  proof cases
    case 4
    then have "rnd (- q) = Fin (- v)"
      using r fneg_Fin [of "rnd (- q)" v] rnd_uminus [of "- q"] by auto
    then have "rnd (- v) = Fin (- v)" using 4 by (intro rnd_idem_pos [of "- q"]) auto
    then show ?thesis using rnd_uminus [of "- v"] 4 by auto
  qed (use r rnd_idem_pos in auto)
qed

section \<open>Arithmetic under a monotone rounding\<close>

text \<open>
  A value of the format is one that rounds to itself. Everything the components need of
  floating-point addition and subtraction follows from three laws of the rounding
  function, so it is proved once for any rounding that has them.
\<close>

definition is_value :: "(rat \<Rightarrow> double) \<Rightarrow> double \<Rightarrow> bool" where
  "is_value rd x = (case x of Fin q \<Rightarrow> rd q = Fin q | _ \<Rightarrow> True)"

lemma is_value_simps [simp]:
  "is_value rd NaN" "is_value rd PInf" "is_value rd NInf" "is_value rd NZero"
  "is_value rd (Fin q) \<longleftrightarrow> rd q = Fin q"
  by (simp_all add: is_value_def)

locale rounding =
  fixes rd :: "rat \<Rightarrow> double"
  assumes rd_not_nan: "rd q \<noteq> NaN"
    and rd_zero: "rd 0 = 0"
    and rd_mono: "x \<le> y \<Longrightarrow> rd x \<le> rd y"
    and rd_idem: "rd q = Fin v \<Longrightarrow> rd v = Fin v"
begin

lemma rd_nonneg: "0 \<le> q \<Longrightarrow> 0 \<le> rd q"
  using rd_mono [of 0 q] by (simp add: rd_zero)

lemma rd_le_value: "q \<le> v \<Longrightarrow> is_value rd (Fin v) \<Longrightarrow> rd q \<le> Fin v"
  using rd_mono [of q v] by simp

lemma value_le_rd: "v \<le> q \<Longrightarrow> is_value rd (Fin v) \<Longrightarrow> Fin v \<le> rd q"
  using rd_mono [of v q] by simp

lemma value_rd: "is_value rd (rd q)"
  using rd_idem [of q] by (cases "rd q") (auto simp: is_value_def)

lemma value_0: "is_value rd 0"
  using rd_zero by (simp add: is_value_def zero_double_def del: Fin_0)

lemma value_fneg_zero: "is_value rd (fneg 0)"
  by simp

lemma value_fadd: "is_value rd x \<Longrightarrow> is_value rd y \<Longrightarrow> is_value rd (fadd rd x y)"
  by (auto simp: fadd_def value_rd)

lemma fadd_nonneg: "0 \<le> x \<Longrightarrow> 0 \<le> y \<Longrightarrow> 0 \<le> fadd rd x y"
  by (cases x; cases y) (auto simp: fadd_def isinf_def intro!: rd_nonneg)

lemma fadd_upper:
  assumes "0 \<le> x" and "0 \<le> y" and "is_value rd x"
  shows "x \<le> fadd rd x y"
  using assms rd_nonneg value_le_rd
  by (cases x; cases y) (auto simp: fadd_def isinf_def rd_zero)

lemma fadd_commute: "fadd rd x y = fadd rd y x"
  by (auto simp: fadd_def isinf_def add.commute)

lemma fsub_nonneg:
  assumes "y \<le> x" and "isfinite y"
  shows "0 \<le> fadd rd x (fneg y)"
  using assms
  by (cases x; cases y) (auto simp: fadd_def isinf_def rd_zero intro!: rd_nonneg)

lemma fsub_upper:
  assumes "0 \<le> y" and "isfinite y" and "is_value rd x" and "x \<noteq> NaN"
  shows "fadd rd x (fneg y) \<le> x"
  using assms rd_le_value rd_mono [of _ 0]
  by (cases x; cases y) (auto simp: fadd_def isinf_def rd_zero)

text \<open>
  A sum that needs no rounding is undone exactly by the subtraction.
\<close>

lemma fadd_exact: "isfinite x \<Longrightarrow> isfinite y \<Longrightarrow> rd (dval x + dval y) = Fin (dval x + dval y)
    \<Longrightarrow> dval (fadd rd x y) = dval x + dval y \<and> isfinite (fadd rd x y)"
  by (cases x; cases y) (auto simp: fadd_def)

end

lemma dval_fneg [simp]: "dval (fneg x) = - dval x"
  by (cases x) auto

lemma isfinite_fneg [simp]: "isfinite (fneg x) = isfinite x"
  by (cases x) auto

interpretation rnd64: rounding rnd
  by unfold_locales (auto intro: rnd_mono rnd_idem)

abbreviation "value64 \<equiv> is_value rnd"

section \<open>The laws for the operators of the program\<close>

lemma plus_nonneg: "0 \<le> x \<Longrightarrow> 0 \<le> y \<Longrightarrow> 0 \<le> x + y" for x y :: double
  unfolding plus_double_def by (rule rnd64.fadd_nonneg)

lemma minus_nonneg: "y \<le> x \<Longrightarrow> isfinite y \<Longrightarrow> 0 \<le> x - y" for x y :: double
  unfolding minus_double_def by (rule rnd64.fsub_nonneg)

lemma minus_le: "0 \<le> y \<Longrightarrow> isfinite y \<Longrightarrow> value64 x \<Longrightarrow> x \<noteq> NaN \<Longrightarrow> x - y \<le> x" for x y :: double
  unfolding minus_double_def by (rule rnd64.fsub_upper)

lemma le_plus1: "0 \<le> x \<Longrightarrow> 0 \<le> y \<Longrightarrow> value64 x \<Longrightarrow> x \<le> x + y" for x y :: double
  unfolding plus_double_def by (rule rnd64.fadd_upper)

lemma le_plus2: "0 \<le> x \<Longrightarrow> 0 \<le> y \<Longrightarrow> value64 y \<Longrightarrow> y \<le> x + y" for x y :: double
  unfolding plus_double_def using rnd64.fadd_upper [of y x] by (simp add: rnd64.fadd_commute)

lemma value64_rnd [simp]: "value64 (rnd q)"
  by (rule rnd64.value_rd)

lemma value64_0 [simp]: "value64 0"
  by (rule rnd64.value_0)

lemma value64_fneg: "value64 x \<Longrightarrow> value64 (fneg x)"
proof (cases x)
  case (Fin q)
  assume "value64 x"
  then show ?thesis
    using Fin rnd_uminus [of q] by (cases "q = 0") auto
qed auto

lemma value64_plus [intro, simp]: "value64 x \<Longrightarrow> value64 y \<Longrightarrow> value64 (x + y)"
  unfolding plus_double_def by (rule rnd64.value_fadd)

lemma value64_minus [intro, simp]: "value64 x \<Longrightarrow> value64 y \<Longrightarrow> value64 (x - y)"
  unfolding minus_double_def by (intro rnd64.value_fadd value64_fneg)

lemma value64_times [intro, simp]: "value64 (x * y)"
  by (auto simp: times_double_def)

lemma value64_fdiv [intro, simp]: "value64 (fdiv x y)"
  by (auto simp: fdiv_def)

lemma times_nonneg: "0 \<le> x \<Longrightarrow> 0 \<le> y \<Longrightarrow> isfinite x \<Longrightarrow> isfinite y \<Longrightarrow> 0 \<le> x * y" for x y :: double
  by (cases x; cases y) (auto simp: times_double_def rnd_nonneg)

lemma plus_exact:
  "isfinite x \<Longrightarrow> isfinite y \<Longrightarrow> rnd (dval x + dval y) = Fin (dval x + dval y)
    \<Longrightarrow> dval (x + y) = dval x + dval y \<and> isfinite (x + y)"
  unfolding plus_double_def by (rule rnd64.fadd_exact)

lemma minus_exact:
  "isfinite x \<Longrightarrow> isfinite y \<Longrightarrow> rnd (dval x - dval y) = Fin (dval x - dval y)
    \<Longrightarrow> dval (x - y) = dval x - dval y \<and> isfinite (x - y)"
  unfolding minus_double_def using rnd64.fadd_exact [of x "fneg y"] by simp

text \<open>
  Gradual underflow: the difference of two distinct finite values is never rounded to
  zero, because both are multiples of the smallest positive value.
\<close>

lemma value64_multiple:
  assumes "rnd q = Fin v"
  shows "\<exists>n. v = of_int n * two_to (- 1074)"
proof -
  have scale: "two_to e = of_int (2 ^ nat (e + 1074)) * two_to (- 1074)" if "- 1074 \<le> e" for e
    using that two_to_add [of "e + 1074" "- 1074"] by (simp add: two_to_nat)
  show ?thesis
  proof (cases "v = 0")
    case False
    then have "v = of_int (rint (q / two_to (last_place q))) * two_to (last_place q)"
      using assms by (auto simp: rnd_def Let_def split: if_splits)
    also have "\<dots> = of_int (rint (q / two_to (last_place q)) * 2 ^ nat (last_place q + 1074)) * two_to (- 1074)"
      by (subst scale [OF last_place_low]) simp
    finally show ?thesis by blast
  qed (auto intro: exI [of _ 0])
qed

lemma minus_pos:
  assumes "y < x" and "isfinite x" and "isfinite y" and "value64 x" and "value64 y"
  shows "0 < x - y"
proof -
  have tiny: "rnd (two_to (- 1074)) = Fin (two_to (- 1074))"
  proof -
    have "rgrid (two_to (- 1074)) = two_to (- 1074)"
      by (rule rgrid_exact [of _ 1 "- 1074"]) (auto simp: abs_of_pos)
    then show ?thesis by (simp add: rnd_pos)
  qed
  have mult: "\<exists>n. dval z = of_int n * two_to (- 1074)" if "value64 z" "isfinite z" for z
    using that value64_multiple by (cases z) (auto intro: exI [of _ 0])
  obtain m n where mn: "dval x = of_int m * two_to (- 1074)" "dval y = of_int n * two_to (- 1074)"
    using mult assms by blast
  have lt: "dval y < dval x" using assms(1-3) by (cases x; cases y) auto
  then have "n < m" unfolding mn by simp
  then have "1 \<le> m - n" by simp
  then have "of_int 1 \<le> (of_int (m - n) :: rat)" by (rule of_int_le_iff [THEN iffD2])
  then have "of_int 1 * two_to (- 1074) \<le> of_int (m - n) * two_to (- 1074)"
    by (rule mult_right_mono) (simp add: less_imp_le)
  then have le: "two_to (- 1074) \<le> dval x - dval y" unfolding mn by (simp add: left_diff_distrib)
  have "0 < Fin (two_to (- 1074))" by simp
  also have "\<dots> \<le> rnd (dval x - dval y)" using rnd_mono [OF le] by (simp only: tiny)
  finally show ?thesis
    using assms by (cases x; cases y) (auto simp: minus_double_def fadd_def)
qed

section \<open>Finite non-negative values\<close>

lemma finite_below: "0 \<le> x \<Longrightarrow> x \<le> y \<Longrightarrow> isfinite y \<Longrightarrow> isfinite x" for x y :: double
  by (cases x; cases y) auto

lemma rank_finite: "isfinite x \<Longrightarrow> rank x = 0"
  by (cases x) auto

lemma le_finite: "isfinite x \<Longrightarrow> isfinite y \<Longrightarrow> x \<le> y \<longleftrightarrow> dval x \<le> dval y" for x y :: double
  by (auto simp: less_eq_double_def rank_finite isfinite_def)

lemma times_as_rnd:
  assumes "isfinite x" "isfinite y"
  shows "x * y \<noteq> NaN \<and> rank (x * y) = rank (rnd (dval x * dval y)) \<and> dval (x * y) = dval (rnd (dval x * dval y))"
  using assms by (simp add: times_double_def isfinite_def)

lemma times_mono:
  fixes x y x' y' :: double
  assumes "0 \<le> x" "x \<le> x'" "0 \<le> y" "y \<le> y'" "isfinite x'" "isfinite y'"
  shows "x * y \<le> x' * y'"
proof -
  have fx: "isfinite x" "isfinite y" using assms finite_below by blast+
  have "dval x * dval y \<le> dval x' * dval y'"
    using assms fx by (intro mult_mono) (auto simp: le_finite intro: order_trans)
  then have "rnd (dval x * dval y) \<le> rnd (dval x' * dval y')" by (rule rnd_mono)
  then show ?thesis
    using times_as_rnd [OF fx] times_as_rnd [OF assms(5,6)] unfolding less_eq_double_def by simp
qed

section \<open>Integers are exact\<close>

text \<open>Non-negative integers below \<open>2 ^ 53\<close>: their differences are not rounded.\<close>

definition whole :: "double \<Rightarrow> bool" where
  "whole x = (case x of Fin q \<Rightarrow> q = of_int (floor q) \<and> 0 \<le> q \<and> q < 2 ^ 53 | _ \<Rightarrow> False)"

lemma rnd_whole:
  assumes "0 \<le> n" and "n < 2 ^ 53"
  shows "rnd (of_int n) = Fin (of_int n)"
proof (cases "n = 0")
  case False
  then have "0 < n" using assms by simp
  have g: "rgrid (of_int n) = of_int n"
    using assms False by (intro rgrid_exact [of _ n 0]) auto
  have "(of_int n :: rat) < of_int (2 ^ 53)" using assms(2) by (simp only: of_int_less_iff)
  also have "\<dots> = two_to 53" by (simp add: two_to_def)
  also have "\<dots> < two_to 1024" by simp
  finally show ?thesis using \<open>0 < n\<close> by (simp add: rnd_pos g)
qed simp

lemma wholeE:
  assumes "whole x"
  obtains n where "0 \<le> n" "n < 2 ^ 53" "x = Fin (of_int n)"
proof -
  obtain q where q: "x = Fin q" "q = of_int (floor q)" "0 \<le> q" "q < 2 ^ 53"
    using assms by (auto simp: whole_def split: double.splits)
  have "(of_int (floor q) :: rat) < of_int (2 ^ 53)" using q by simp
  then have "floor q < 2 ^ 53" by (simp only: of_int_less_iff)
  then show thesis using q by (intro that [of "floor q"]) auto
qed

lemma whole_Fin: "0 \<le> n \<Longrightarrow> n < 2 ^ 53 \<Longrightarrow> whole (Fin (of_int n))"
proof -
  assume a: "0 \<le> n" "n < 2 ^ 53"
  then have "(of_int n :: rat) < of_int (2 ^ 53)" by (simp only: of_int_less_iff)
  then show ?thesis using a by (simp add: whole_def del: Fin_0)
qed

lemma whole_minus:
  assumes "whole x" and "whole y" and "y \<le> x"
  shows "whole (x - y)" and "dval (x - y) = dval x - dval y"
proof -
  obtain n where n: "0 \<le> n" "n < 2 ^ 53" "x = Fin (of_int n)" using assms(1) by (rule wholeE)
  obtain m where m: "0 \<le> m" "m < 2 ^ 53" "y = Fin (of_int m)" using assms(2) by (rule wholeE)
  have le: "m \<le> n" using assms(3) n(3) m(3) by (simp add: le_finite)
  have "x - y = rnd (of_int n - of_int m)"
    using n m by (cases "m = 0") (auto simp: minus_double_def fadd_def)
  also have "\<dots> = Fin (of_int (n - m))" using rnd_whole [of "n - m"] n m le by simp
  finally have e: "x - y = Fin (of_int (n - m))" .
  show "whole (x - y)" unfolding e using n m le by (intro whole_Fin) auto
  show "dval (x - y) = dval x - dval y" unfolding e using n(3) m(3) by simp
qed

lemma whole_0 [simp]: "whole 0"
  using whole_Fin [of 0] by simp

end
