(* ===== verification/Std_Tables.thy ===== *)
theory Std_Tables
  imports Prelude
begin

text \<open>
  The associative containers of the C++ standard library the program uses.
  \<open>std::map\<close> is an association list kept in the order of its keys, the order its
  iterators follow. \<open>std::unordered_map\<close> is an association list too; the standard
  leaves its iteration order open, so wherever the program iterates over one, the model
  takes that order as a parameter (a permutation of the keys). Both satisfy the
  interface \<open>table\<close>, and what the components need of a table is proved there once.
\<close>

section \<open>The interface\<close>

locale table =
  fixes lookup :: "'m \<Rightarrow> 'k \<Rightarrow> 'v option"
    and put :: "'k \<Rightarrow> 'v \<Rightarrow> 'm \<Rightarrow> 'm"
    and erase :: "'k \<Rightarrow> 'm \<Rightarrow> 'm"
    and keys :: "'m \<Rightarrow> 'k list"
    and wf :: "'m \<Rightarrow> bool"
  assumes lookup_put: "wf m \<Longrightarrow> lookup (put k v m) j = (if j = k then Some v else lookup m j)"
    and lookup_erase: "wf m \<Longrightarrow> lookup (erase k m) j = (if j = k then None else lookup m j)"
    and wf_put: "wf m \<Longrightarrow> wf (put k v m)"
    and wf_erase: "wf m \<Longrightarrow> wf (erase k m)"
    and set_keys: "wf m \<Longrightarrow> set (keys m) = {k. lookup m k \<noteq> None}"
    and distinct_keys: "wf m \<Longrightarrow> distinct (keys m)"
begin

lemma keys_put: "wf m \<Longrightarrow> set (keys (put k v m)) = insert k (set (keys m))"
  by (auto simp: set_keys wf_put lookup_put)

lemma keys_erase: "wf m \<Longrightarrow> set (keys (erase k m)) = set (keys m) - {k}"
  by (auto simp: set_keys wf_erase lookup_erase)

text \<open>A property of all values is kept by a write of a value that has it, and by an erase.\<close>

lemma put_all:
  assumes "wf m" and "\<And>j w. lookup m j = Some w \<Longrightarrow> P j w" and "P k v"
  shows "lookup (put k v m) j = Some w \<Longrightarrow> P j w"
  using assms by (auto simp: lookup_put split: if_splits)

lemma erase_all:
  assumes "wf m" and "\<And>j w. lookup m j = Some w \<Longrightarrow> P j w"
  shows "lookup (erase k m) j = Some w \<Longrightarrow> P j w"
  using assms by (auto simp: lookup_erase split: if_splits)

text \<open>Writes to different keys commute, as far as lookups can tell.\<close>

lemma put_put_commute:
  "wf m \<Longrightarrow> i \<noteq> k \<Longrightarrow> lookup (put i u (put k v m)) j = lookup (put k v (put i u m)) j"
  by (simp add: lookup_put wf_put)

lemma card_keys: "wf m \<Longrightarrow> card (set (keys m)) = length (keys m)"
  by (simp add: distinct_card distinct_keys)

end

section \<open>std::unordered_map\<close>

type_synonym ('k, 'v) umap = "('k \<times> 'v) list"

definition umap_find :: "('k, 'v) umap \<Rightarrow> 'k \<Rightarrow> 'v option" where
  "umap_find m k = map_of m k"

definition umap_put :: "'k \<Rightarrow> 'v \<Rightarrow> ('k, 'v) umap \<Rightarrow> ('k, 'v) umap" where
  "umap_put k v m = AList.update k v m"

definition umap_erase :: "'k \<Rightarrow> ('k, 'v) umap \<Rightarrow> ('k, 'v) umap" where
  "umap_erase k m = AList.delete k m"

definition umap_keys :: "('k, 'v) umap \<Rightarrow> 'k list" where
  "umap_keys m = map fst m"

definition umap_wf :: "('k, 'v) umap \<Rightarrow> bool" where
  "umap_wf m = distinct (map fst m)"

text \<open>\<open>emplace\<close> does nothing when the key is already there.\<close>

definition umap_emplace :: "'k \<Rightarrow> 'v \<Rightarrow> ('k, 'v) umap \<Rightarrow> ('k, 'v) umap" where
  "umap_emplace k v m = (case umap_find m k of None \<Rightarrow> umap_put k v m | Some _ \<Rightarrow> m)"

text \<open>\<open>m[k]\<close> inserts a default value when the key is missing.\<close>

definition umap_index :: "'v \<Rightarrow> ('k, 'v) umap \<Rightarrow> 'k \<Rightarrow> 'v" where
  "umap_index d m k = (case umap_find m k of None \<Rightarrow> d | Some v \<Rightarrow> v)"

interpretation umap: table umap_find umap_put umap_erase umap_keys umap_wf
proof unfold_locales
  fix m :: "('k, 'v) umap" and k j :: 'k and v
  show "umap_find (umap_put k v m) j = (if j = k then Some v else umap_find m j)"
    by (simp add: umap_find_def umap_put_def update_conv)
  show "umap_find (umap_erase k m) j = (if j = k then None else umap_find m j)"
    by (simp add: umap_find_def umap_erase_def delete_conv)
  show "umap_wf m \<Longrightarrow> umap_wf (umap_put k v m)"
    by (simp add: umap_wf_def umap_put_def distinct_update)
  show "umap_wf m \<Longrightarrow> umap_wf (umap_erase k m)"
    by (simp add: umap_wf_def umap_erase_def distinct_delete)
  show "set (umap_keys m) = {k. umap_find m k \<noteq> None}"
    by (auto simp: umap_keys_def umap_find_def map_of_eq_None_iff image_iff)
  show "umap_wf m \<Longrightarrow> distinct (umap_keys m)"
    by (simp add: umap_wf_def umap_keys_def)
qed

lemma umap_find_Nil [simp]: "umap_find [] k = None"
  by (simp add: umap_find_def)

lemma umap_wf_Nil [simp]: "umap_wf []"
  by (simp add: umap_wf_def)

text \<open>For this representation the lookup laws need no well-formedness.\<close>

lemma umap_find_put [simp]: "umap_find (umap_put k v m) j = (if j = k then Some v else umap_find m j)"
  by (simp add: umap_find_def umap_put_def update_conv)

lemma umap_find_erase [simp]: "umap_find (umap_erase k m) j = (if j = k then None else umap_find m j)"
  by (simp add: umap_find_def umap_erase_def delete_conv)

lemma umap_find_emplace [simp]:
  "umap_find (umap_emplace k v m) j = (if j = k \<and> umap_find m k = None then Some v else umap_find m j)"
  by (auto simp: umap_emplace_def split: option.splits)

lemma umap_wf_emplace: "umap_wf m \<Longrightarrow> umap_wf (umap_emplace k v m)"
  by (auto simp: umap_emplace_def umap.wf_put split: option.splits)

lemma umap_keys_find: "k \<in> set (umap_keys m) \<longleftrightarrow> umap_find m k \<noteq> None"
  by (auto simp: umap_keys_def umap_find_def map_of_eq_None_iff)

section \<open>std::map\<close>

type_synonym ('k, 'v) omap = "('k \<times> 'v) list"

definition omap_find :: "('k, 'v) omap \<Rightarrow> 'k \<Rightarrow> 'v option" where
  "omap_find m k = map_of m k"

fun omap_put :: "'k::linorder \<Rightarrow> 'v \<Rightarrow> ('k, 'v) omap \<Rightarrow> ('k, 'v) omap" where
  "omap_put k v [] = [(k, v)]"
| "omap_put k v ((j, w) # m) =
     (if k < j then (k, v) # (j, w) # m
      else if k = j then (k, v) # m
      else (j, w) # omap_put k v m)"

definition omap_erase :: "'k \<Rightarrow> ('k, 'v) omap \<Rightarrow> ('k, 'v) omap" where
  "omap_erase k m = filter (\<lambda>p. fst p \<noteq> k) m"

definition omap_keys :: "('k, 'v) omap \<Rightarrow> 'k list" where
  "omap_keys m = map fst m"

definition omap_wf :: "('k::linorder, 'v) omap \<Rightarrow> bool" where
  "omap_wf m = sorted_wrt (<) (map fst m)"

definition omap_index :: "'v \<Rightarrow> ('k, 'v) omap \<Rightarrow> 'k \<Rightarrow> 'v" where
  "omap_index d m k = (case omap_find m k of None \<Rightarrow> d | Some v \<Rightarrow> v)"

lemma omap_keys_put: "set (map fst (omap_put k v m)) = insert k (set (map fst m))"
  by (induction k v m rule: omap_put.induct) auto

lemma omap_find_put [simp]:
  "omap_find (omap_put k v m) j = (if j = k then Some v else omap_find m j)"
  unfolding omap_find_def by (induction k v m rule: omap_put.induct) auto

lemma omap_wf_put: "omap_wf m \<Longrightarrow> omap_wf (omap_put k v m)"
  unfolding omap_wf_def
proof (induction k v m rule: omap_put.induct)
  case (2 k v j w m)
  then show ?case
    using omap_keys_put [of k v m] by (auto simp: not_less)
qed simp

interpretation omap: table "omap_find :: ('k::linorder, 'v) omap \<Rightarrow> 'k \<Rightarrow> 'v option"
  omap_put omap_erase omap_keys omap_wf
proof unfold_locales
  fix m :: "('k, 'v) omap" and k j :: 'k and v
  show "omap_find (omap_put k v m) j = (if j = k then Some v else omap_find m j)"
    by simp
  show "omap_find (omap_erase k m) j = (if j = k then None else omap_find m j)"
    unfolding omap_find_def omap_erase_def by (induction m) auto
  show "omap_wf m \<Longrightarrow> omap_wf (omap_put k v m)"
    by (rule omap_wf_put)
  show "omap_wf m \<Longrightarrow> omap_wf (omap_erase k m)"
    unfolding omap_wf_def omap_erase_def by (simp add: sorted_wrt_map sorted_wrt_filter)
  show "set (omap_keys m) = {k. omap_find m k \<noteq> None}"
    by (auto simp: omap_keys_def omap_find_def map_of_eq_None_iff image_iff)
  show "omap_wf m \<Longrightarrow> distinct (omap_keys m)"
    unfolding omap_wf_def omap_keys_def by (simp add: strict_sorted_iff)
qed

lemma omap_find_Nil [simp]: "omap_find [] k = None"
  by (simp add: omap_find_def)

lemma omap_wf_Nil [simp]: "omap_wf []"
  by (simp add: omap_wf_def)

lemma omap_index_put [simp]: "omap_index d (omap_put k v m) j = (if j = k then v else omap_index d m j)"
  by (simp add: omap_index_def)

end
