(* ===== verification/Order_Entry.thy ===== *)
theory Order_Entry
  imports Binary64 Std_Tables
begin

text \<open>
  \<open>OrderBookEntry\<close> (src/include/OrderBookEntry.hpp, src/src/server/OrderBookEntry.cpp):
  one order or one sale, its type and its comparators. The static counter \<open>nextId\<close>
  is state the constructor reads and increments, so the model of the constructor takes it
  and returns it; it is a 64-bit \<open>size_t\<close>, whose wrap-around is written out.
\<close>

datatype OrderBookType = Bid | Ask | Sale

record entry =
  price :: double
  amount :: double
  timestamp :: string
  product :: string
  orderType :: OrderBookType
  username :: string
  order_id :: nat

text \<open>The value the static counter starts with.\<close>

definition first_id :: nat where
  "first_id = 1"

definition size_t_succ :: "nat \<Rightarrow> nat" where
  "size_t_succ n = nat ((int n + 1) mod 2 ^ 64)"

lemma size_t_succ_small: "n + 1 < 2 ^ 64 \<Longrightarrow> size_t_succ n = n + 1"
  by (simp add: size_t_succ_def)

definition OrderBookEntry ::
  "double \<Rightarrow> double \<Rightarrow> string \<Rightarrow> string \<Rightarrow> OrderBookType \<Rightarrow> string \<Rightarrow> nat \<Rightarrow> entry \<times> nat" where
  "OrderBookEntry p a ts pr ty user nextId =
     (\<lparr>price = p, amount = a, timestamp = ts, product = pr, orderType = ty,
       username = user, order_id = nextId\<rparr>,
      size_t_succ nextId)"

text \<open>The default argument of the constructor's \<open>username\<close>.\<close>

definition default_user :: string where
  "default_user = ''default''"

definition determineOrderType :: "string \<Rightarrow> OrderBookType result" where
  "determineOrderType s =
    (if s = ''bid'' then Inr Bid
     else if s = ''ask'' then Inr Ask
     else if s = ''sale'' then Inr Sale
     else Inl (Invalid_argument (''Invalid order type string: '' @ s)))"

fun orderTypeToString :: "OrderBookType \<Rightarrow> string" where
  "orderTypeToString Bid = ''bid''"
| "orderTypeToString Ask = ''ask''"
| "orderTypeToString Sale = ''sale''"

definition compareByTimestamp :: "entry \<Rightarrow> entry \<Rightarrow> bool" where
  "compareByTimestamp a b = (timestamp a < timestamp b)"

definition compareByPriceAsc :: "entry \<Rightarrow> entry \<Rightarrow> bool" where
  "compareByPriceAsc a b = (price a < price b)"

definition compareByPriceDesc :: "entry \<Rightarrow> entry \<Rightarrow> bool" where
  "compareByPriceDesc a b = (price b < price a)"

section \<open>Sorting with a comparator\<close>

text \<open>
  \<open>std::sort\<close> requires a strict weak order on the elements it is given; anything else
  is undefined behaviour. Its result is some permutation in which no element compares less
  than an earlier one, equal elements in any order. The model takes the sorting function
  as the parameter \<open>srt\<close>, with this contract as the locale \<open>std_sort\<close>, and makes
  the precondition a run-time check.
\<close>

definition strict_weak_order :: "('a \<Rightarrow> 'a \<Rightarrow> bool) \<Rightarrow> 'a list \<Rightarrow> bool" where
  "strict_weak_order lt xs =
    (list_all (\<lambda>x. \<not> lt x x) xs \<and>
     list_all (\<lambda>x. list_all (\<lambda>y. list_all (\<lambda>z.
        (lt x y \<and> lt y z \<longrightarrow> lt x z) \<and>
        (\<not> lt x y \<and> \<not> lt y x \<and> \<not> lt y z \<and> \<not> lt z y \<longrightarrow> \<not> lt x z \<and> \<not> lt z x)) xs) xs) xs)"

definition sort_checked ::
  "(('a \<Rightarrow> 'a \<Rightarrow> bool) \<Rightarrow> 'a list \<Rightarrow> 'a list) \<Rightarrow> ('a \<Rightarrow> 'a \<Rightarrow> bool) \<Rightarrow> 'a list \<Rightarrow> 'a list result" where
  "sort_checked srt lt xs =
    (if strict_weak_order lt xs then Inr (srt lt xs) else Inl (Undefined ''std::sort''))"

locale std_sort =
  fixes srt :: "('a \<Rightarrow> 'a \<Rightarrow> bool) \<Rightarrow> 'a list \<Rightarrow> 'a list"
  assumes srt_perm: "strict_weak_order lt xs \<Longrightarrow> mset (srt lt xs) = mset xs"
    and srt_sorted: "strict_weak_order lt xs \<Longrightarrow> sorted_wrt (\<lambda>x y. \<not> lt y x) (srt lt xs)"
begin

lemma srt_set: "strict_weak_order lt xs \<Longrightarrow> set (srt lt xs) = set xs"
  using srt_perm mset_eq_setD by blast

lemma srt_distinct: "strict_weak_order lt xs \<Longrightarrow> distinct (srt lt xs) = distinct xs"
  using srt_perm mset_eq_imp_distinct_iff by blast

lemma sort_checked_Inr:
  "sort_checked srt lt xs = Inr ys \<Longrightarrow>
    mset ys = mset xs \<and> set ys = set xs \<and> (distinct ys \<longleftrightarrow> distinct xs) \<and> sorted_wrt (\<lambda>x y. \<not> lt y x) ys"
  by (auto simp: sort_checked_def srt_perm srt_sorted srt_set srt_distinct split: if_splits)

end

text \<open>
  A sorting function the standard allows: insertion, which keeps equal elements in their
  order. \<open>std::list::sort\<close> is stable by the standard, so it is modelled by this
  function; for \<open>std::sort\<close> it is one instance of the parameter.
\<close>

fun insert_by :: "('a \<Rightarrow> 'a \<Rightarrow> bool) \<Rightarrow> 'a \<Rightarrow> 'a list \<Rightarrow> 'a list" where
  "insert_by lt x [] = [x]"
| "insert_by lt x (y # ys) = (if lt y x then y # insert_by lt x ys else x # y # ys)"

fun stable_sort :: "('a \<Rightarrow> 'a \<Rightarrow> bool) \<Rightarrow> 'a list \<Rightarrow> 'a list" where
  "stable_sort lt [] = []"
| "stable_sort lt (x # xs) = insert_by lt x (stable_sort lt xs)"

lemma mset_insert_by [simp]: "mset (insert_by lt x ys) = add_mset x (mset ys)"
  by (induction ys) auto

lemma set_insert_by [simp]: "set (insert_by lt x ys) = insert x (set ys)"
  by (induction ys) auto

lemma mset_stable_sort [simp]: "mset (stable_sort lt xs) = mset xs"
  by (induction xs) auto

lemma set_stable_sort [simp]: "set (stable_sort lt xs) = set xs"
  by (induction xs) auto

lemma strict_weak_order_iff:
  "strict_weak_order lt xs \<longleftrightarrow>
    (\<forall>x\<in>set xs. \<not> lt x x) \<and>
    (\<forall>x\<in>set xs. \<forall>y\<in>set xs. \<forall>z\<in>set xs. (lt x y \<and> lt y z \<longrightarrow> lt x z) \<and>
        (\<not> lt x y \<and> \<not> lt y x \<and> \<not> lt y z \<and> \<not> lt z y \<longrightarrow> \<not> lt x z \<and> \<not> lt z x))"
  by (simp add: strict_weak_order_def list_all_iff)

lemma strict_weak_order_subset:
  "strict_weak_order lt xs \<Longrightarrow> set ys \<subseteq> set xs \<Longrightarrow> strict_weak_order lt ys"
  unfolding strict_weak_order_iff by blast

lemma sorted_insert_by:
  assumes "strict_weak_order lt (x # ys)" and "sorted_wrt (\<lambda>a b. \<not> lt b a) ys"
  shows "sorted_wrt (\<lambda>a b. \<not> lt b a) (insert_by lt x ys)"
  using assms
proof (induction ys)
  case (Cons y ys)
  have swo: "strict_weak_order lt (x # ys)"
    using Cons.prems(1) by (rule strict_weak_order_subset) auto
  show ?case
  proof (cases "lt y x")
    case True
    then have "\<not> lt x y" using Cons.prems(1) unfolding strict_weak_order_iff by auto
    then show ?thesis using True Cons swo by auto
  next
    case False
    have "\<not> lt z x" if "z \<in> set ys" for z
    proof
      assume "lt z x"
      moreover have "\<not> lt z y" using Cons.prems(2) that by simp
      ultimately show False
        using False that Cons.prems(1) unfolding strict_weak_order_iff
        by (smt (verit) list.set_intros(1) list.set_intros(2))
    qed
    then show ?thesis using False Cons.prems(2) by auto
  qed
qed simp

interpretation stable: std_sort stable_sort
proof unfold_locales
  fix lt :: "'a \<Rightarrow> 'a \<Rightarrow> bool" and xs
  show "mset (stable_sort lt xs) = mset xs" by simp
  show "strict_weak_order lt xs \<Longrightarrow> sorted_wrt (\<lambda>x y. \<not> lt y x) (stable_sort lt xs)"
  proof (induction xs)
    case (Cons x xs)
    have "strict_weak_order lt xs" "strict_weak_order lt (x # stable_sort lt xs)"
      using Cons.prems by (auto intro: strict_weak_order_subset)
    then show ?case using Cons.IH by (simp add: sorted_insert_by)
  qed simp
qed

section \<open>The comparators\<close>

lemma timestamps_strict_weak: "strict_weak_order compareByTimestamp xs"
  unfolding strict_weak_order_iff compareByTimestamp_def by auto

text \<open>The price comparators are strict weak orders as long as no price is NaN.\<close>

lemma double_strict_weak:
  assumes nan: "\<forall>e\<in>set xs. f e \<noteq> NaN"
  shows "strict_weak_order (\<lambda>a b. f a < f b) xs" and "strict_weak_order (\<lambda>a b. f b < f a) xs"
proof -
  have tr: "x < y \<Longrightarrow> y < z \<Longrightarrow> x < z" for x y z :: double by (rule dlt_trans)
  have inc: "\<not> x < z \<and> \<not> z < x"
    if "\<not> x < y" "\<not> y < x" "\<not> y < z" "\<not> z < y" "x \<noteq> NaN" "y \<noteq> NaN" "z \<noteq> NaN" for x y z :: double
    using that by (metis dle_trans dlt_iff_not_dle)
  show "strict_weak_order (\<lambda>a b. f a < f b) xs"
    unfolding strict_weak_order_iff using nan by (meson dlt_irrefl inc tr)
  show "strict_weak_order (\<lambda>a b. f b < f a) xs"
    unfolding strict_weak_order_iff using nan by (meson dlt_irrefl inc tr)
qed

lemma prices_strict_weak:
  assumes "\<forall>e\<in>set xs. price e \<noteq> NaN"
  shows "strict_weak_order compareByPriceAsc xs" and "strict_weak_order compareByPriceDesc xs"
proof -
  have asc: "compareByPriceAsc = (\<lambda>a b. price a < price b)"
    and desc: "compareByPriceDesc = (\<lambda>a b. price b < price a)"
    by (intro ext, simp add: compareByPriceAsc_def compareByPriceDesc_def)+
  show "strict_weak_order compareByPriceAsc xs"
    unfolding asc by (rule double_strict_weak(1) [OF assms])
  show "strict_weak_order compareByPriceDesc xs"
    unfolding desc by (rule double_strict_weak(2) [OF assms])
qed

section \<open>Type names\<close>

lemma determineOrderType_roundtrip: "determineOrderType (orderTypeToString t) = Inr t"
  by (cases t) (simp_all add: determineOrderType_def)

lemma determineOrderType_Inr: "determineOrderType s = Inr t \<Longrightarrow> s = orderTypeToString t"
  by (auto simp: determineOrderType_def split: if_splits)

end
