(* ===== verification/Std_Text.thy ===== *)
theory Std_Text
  imports Binary64
begin

text \<open>
  The text functions of the C++ standard library the program calls, in the C locale:
  splitting a stream with \<open>std::getline\<close>, \<open>std::toupper\<close>, the conversions
  \<open>std::stod\<close> and \<open>std::stoi\<close> with the exceptions they throw, and the formatting
  of integers and doubles by \<open>std::to_string\<close> and \<open>operator<<\<close>. Characters are bytes.
\<close>

section \<open>Characters\<close>

definition isspace :: "char \<Rightarrow> bool" where
  "isspace c = (of_char c = (32::int) \<or> 9 \<le> (of_char c :: int) \<and> of_char c \<le> (13::int))"

definition isdigit :: "char \<Rightarrow> bool" where
  "isdigit c = (48 \<le> (of_char c :: int) \<and> of_char c \<le> (57::int))"

definition toupper :: "char \<Rightarrow> char" where
  "toupper c = (if 97 \<le> (of_char c :: int) \<and> of_char c \<le> (122::int)
     then char_of (of_char c - 32 :: int) else c)"

definition digit_val :: "char \<Rightarrow> int" where
  "digit_val c = of_char c - 48"

definition digit_char :: "int \<Rightarrow> char" where
  "digit_char d = char_of (48 + d)"

text \<open>Value of a hexadecimal digit.\<close>

definition hex_val :: "char \<Rightarrow> int option" where
  "hex_val c = (let u = of_char (toupper c) :: int in
     if isdigit c then Some (digit_val c) else if 65 \<le> u \<and> u \<le> 70 then Some (u - 55) else None)"

section \<open>std::getline\<close>

text \<open>
  The tokens successive calls of \<open>std::getline(stream, token, delim)\<close> deliver: empty
  tokens are kept, but a delimiter at the very end does not start another one.
\<close>

function getlines :: "char \<Rightarrow> string \<Rightarrow> string list" where
  "getlines c s = (if s = [] then [] else
     takeWhile (\<lambda>x. x \<noteq> c) s #
       (case dropWhile (\<lambda>x. x \<noteq> c) s of [] \<Rightarrow> [] | _ # r \<Rightarrow> getlines c r))"
  by pat_completeness auto
termination
proof (relation "measure (\<lambda>(c, s). length s)", goal_cases)
  case (2 c s x r)
  then have "length (x # r) \<le> length s" using length_dropWhile_le [of "\<lambda>x. x \<noteq> c" s] by simp
  then show ?case by simp
qed simp

declare getlines.simps [simp del]

section \<open>Numbers from text\<close>

definition radix_value :: "int \<Rightarrow> int list \<Rightarrow> int" where
  "radix_value b ds = foldl (\<lambda>acc d. b * acc + d) 0 ds"

definition power_of :: "rat \<Rightarrow> int \<Rightarrow> rat" where
  "power_of b k = (if 0 \<le> k then b ^ nat k else 1 / b ^ nat (- k))"

definition take_sign :: "string \<Rightarrow> bool \<times> string" where
  "take_sign s = (case s of [] \<Rightarrow> (False, s) | c # r \<Rightarrow>
     if c = CHR ''-'' then (True, r) else if c = CHR ''+'' then (False, r) else (False, s))"

definition signed :: "bool \<Rightarrow> int \<Rightarrow> int" where
  "signed neg n = (if neg then - n else n)"

text \<open>An optional exponent part; without digits after the letter it is not part of the number.\<close>

definition exponent_part :: "char \<Rightarrow> string \<Rightarrow> int" where
  "exponent_part letter s = (case s of [] \<Rightarrow> 0 | c # r \<Rightarrow>
     if toupper c = letter then
       (case take_sign r of (neg, ds) \<Rightarrow>
          signed neg (radix_value 10 (map digit_val (takeWhile isdigit ds))))
     else 0)"

definition split_fraction :: "(char \<Rightarrow> bool) \<Rightarrow> string \<Rightarrow> string \<times> string \<times> string" where
  "split_fraction dig s = (let r = dropWhile dig s in
     (takeWhile dig s,
      case r of c # f \<Rightarrow> if c = CHR ''.'' then takeWhile dig f else [] | [] \<Rightarrow> [],
      case r of c # f \<Rightarrow> if c = CHR ''.'' then dropWhile dig f else r | [] \<Rightarrow> []))"

definition decimal_part :: "string \<Rightarrow> rat option" where
  "decimal_part s = (case split_fraction isdigit s of (ip, fp, r) \<Rightarrow>
     if ip = [] \<and> fp = [] then None
     else Some (of_int (radix_value 10 (map digit_val (ip @ fp))) *
       power_of 10 (exponent_part (CHR ''E'') r - int (length fp))))"

definition hex_part :: "string \<Rightarrow> rat option" where
  "hex_part s = (case split_fraction (\<lambda>c. hex_val c \<noteq> None) s of (ip, fp, r) \<Rightarrow>
     if ip = [] \<and> fp = [] then None
     else Some (of_int (radix_value 16 (map (\<lambda>c. the (hex_val c)) (ip @ fp))) *
       power_of 2 (exponent_part (CHR ''P'') r - 4 * int (length fp))))"

definition has_prefix :: "string \<Rightarrow> string \<Rightarrow> bool" where
  "has_prefix p s = (take (length p) (map toupper s) = p)"

text \<open>
  The range check of \<open>strtod\<close> behind \<open>std::stod\<close>: overflow, and a result that is
  inexact and below the normal range after rounding, set \<open>ERANGE\<close>.
\<close>

definition to_double :: "bool \<Rightarrow> rat \<Rightarrow> double result" where
  "to_double neg q =
    (if q = 0 then Inr (if neg then NZero else 0)
     else let v = rnd (if neg then - q else q) in
       if isinf v \<or> q < two_to (- 1022) - two_to (- 1076) \<and> \<bar>dval v\<bar> \<noteq> q
       then Inl (Out_of_range ''stod'') else Inr v)"

definition stod :: "string \<Rightarrow> double result" where
  "stod str = (case take_sign (dropWhile isspace str) of (neg, s) \<Rightarrow>
     if has_prefix ''INF'' s then Inr (if neg then NInf else PInf)
     else if has_prefix ''NAN'' s then Inr NaN
     else case (if has_prefix ''0X'' s then hex_part (drop 2 s) else None) of
         Some q \<Rightarrow> to_double neg q
       | None \<Rightarrow> (case decimal_part s of
           None \<Rightarrow> Inl (Invalid_argument ''stod'')
         | Some q \<Rightarrow> to_double neg q))"

definition stoi :: "string \<Rightarrow> int result" where
  "stoi str = (case take_sign (dropWhile isspace str) of (neg, s) \<Rightarrow>
     let ds = takeWhile isdigit s; n = signed neg (radix_value 10 (map digit_val ds)) in
     if ds = [] then Inl (Invalid_argument ''stoi'')
     else if n < - (2 ^ 31) \<or> 2 ^ 31 \<le> n then Inl (Out_of_range ''stoi'')
     else Inr n)"

section \<open>Text from numbers\<close>

function digits_of :: "int \<Rightarrow> int list" where
  "digits_of n = (if n < 10 then [n] else digits_of (n div 10) @ [n mod 10])"
  by pat_completeness auto
termination
  by (relation "measure nat") auto

declare digits_of.simps [simp del]

definition show_nat :: "nat \<Rightarrow> string" where
  "show_nat n = map digit_char (digits_of (int n))"

text \<open>The last \<open>n\<close> digits of a natural number, with leading zeros.\<close>

fun low_digits :: "nat \<Rightarrow> int \<Rightarrow> int list" where
  "low_digits 0 m = []"
| "low_digits (Suc n) m = low_digits n (m div 10) @ [m mod 10]"

definition special_text :: "double \<Rightarrow> string" where
  "special_text x = (if x = NaN then ''nan'' else if x = PInf then ''inf'' else ''-inf'')"

definition fixed_text :: "nat \<Rightarrow> int \<Rightarrow> string" where
  "fixed_text p m = map digit_char (digits_of (m div 10 ^ p)) @
     (if p = 0 then [] else CHR ''.'' # map digit_char (low_digits p m))"

text \<open>\<open>std::to_string(double)\<close>: the conversion \<open>%f\<close>, six decimals.\<close>

definition to_string :: "double \<Rightarrow> string" where
  "to_string x =
    (if isfinite x then
       (if signbit x then ''-'' else []) @ fixed_text 6 (rint (\<bar>dval x\<bar> * 10 ^ 6))
     else special_text x)"

text \<open>
  \<open>operator<<(double)\<close>: the conversion \<open>%g\<close> with the default precision of six
  significant digits. \<open>sci_digits\<close> finds the decimal exponent \<open>X\<close> and the six digits.
\<close>

function decimal_exponent :: "int \<Rightarrow> int" where
  "decimal_exponent n = (if n < 10 then 0 else 1 + decimal_exponent (n div 10))"
  by pat_completeness auto
termination
  by (relation "measure nat") auto

declare decimal_exponent.simps [simp del]

definition floor_log10 :: "rat \<Rightarrow> int" where
  "floor_log10 q = (if 1 \<le> q then decimal_exponent (floor q)
     else let k = - 1 - decimal_exponent (floor (1 / q)) in
       if power_of 10 (k + 1) \<le> q then k + 1 else k)"

definition sci_digits :: "rat \<Rightarrow> int \<times> int" where
  "sci_digits q = (let x = floor_log10 q; m = rint (q / power_of 10 (x - 5)) in
     if m = 10 ^ 6 then (x + 1, 10 ^ 5) else (x, m))"

definition strip_zeros :: "string \<Rightarrow> string" where
  "strip_zeros s = rev (dropWhile (\<lambda>c. c = CHR ''0'') (rev s))"

definition drop_fraction_zeros :: "string \<Rightarrow> string" where
  "drop_fraction_zeros s = (if CHR ''.'' \<in> set s then
     (let t = strip_zeros s in if last t = CHR ''.'' then butlast t else t) else s)"

definition exponent_text :: "int \<Rightarrow> string" where
  "exponent_text x = ''e'' @ (if x < 0 then ''-'' else ''+'') @
     (if \<bar>x\<bar> < 10 then ''0'' else []) @ map digit_char (digits_of \<bar>x\<bar>)"

definition general_text :: "rat \<Rightarrow> string" where
  "general_text q = (if q = 0 then ''0'' else case sci_digits q of (x, m) \<Rightarrow>
     if - 4 \<le> x \<and> x < 6 then
       drop_fraction_zeros (if 5 - x \<ge> 0 then fixed_text (nat (5 - x)) m else [])
     else drop_fraction_zeros (fixed_text 5 m) @ exponent_text x)"

definition show_double :: "double \<Rightarrow> string" where
  "show_double x =
    (if isfinite x then (if signbit x then ''-'' else []) @ general_text \<bar>dval x\<bar>
     else special_text x)"

section \<open>Laws of the number texts\<close>

text \<open>No number is printed with a separator of the program in it.\<close>

definition plain_char :: "char \<Rightarrow> bool" where
  "plain_char c = (c \<noteq> CHR '','' \<and> c \<noteq> CHR ''\<newline>'' \<and> c \<noteq> CHR '' '')"

lemma digit_char_code: "0 \<le> d \<Longrightarrow> d < 10 \<Longrightarrow> of_char (digit_char d) = 48 + d"
  by (simp add: digit_char_def)

lemma digit_char_props:
  assumes "0 \<le> d" "d < 10"
  shows "plain_char (digit_char d)" and "isdigit (digit_char d)" and "\<not> isspace (digit_char d)"
    and "digit_val (digit_char d) = d" and "digit_char d \<noteq> CHR ''-''" and "digit_char d \<noteq> CHR ''+''"
proof -
  have c: "(of_char (digit_char d) :: int) = 48 + d" using assms by (rule digit_char_code)
  have ne: "digit_char d \<noteq> x" if "(of_char x :: int) < 48" for x using c assms that by auto
  show "plain_char (digit_char d)" unfolding plain_char_def by (intro conjI ne) simp_all
  show "isdigit (digit_char d)" "\<not> isspace (digit_char d)" "digit_val (digit_char d) = d"
    using c assms by (auto simp: isdigit_def isspace_def digit_val_def)
  show "digit_char d \<noteq> CHR ''-''" "digit_char d \<noteq> CHR ''+''" by (intro ne; simp)+
qed

lemma digits_of_range: "0 \<le> n \<Longrightarrow> d \<in> set (digits_of n) \<Longrightarrow> 0 \<le> d \<and> d < 10"
  by (induction n rule: digits_of.induct) (subst (asm) (2) digits_of.simps, auto split: if_splits)

lemma digits_of_nonempty [simp]: "digits_of n \<noteq> []"
  by (subst digits_of.simps) simp

lemma radix_append: "radix_value b (xs @ [d]) = b * radix_value b xs + d"
  by (simp add: radix_value_def)

lemma radix_digits: "0 \<le> n \<Longrightarrow> radix_value 10 (digits_of n) = n"
proof (induction n rule: digits_of.induct)
  case (1 n)
  show ?case
    using 1 by (subst digits_of.simps) (auto simp: radix_append radix_value_def)
qed

lemma low_digits_range: "d \<in> set (low_digits n m) \<Longrightarrow> 0 \<le> d \<and> d < 10"
  by (induction n m rule: low_digits.induct) auto

section \<open>Identifiers survive printing and parsing\<close>

text \<open>
  An identifier the server prints is what \<open>std::stoi\<close> reads back exactly
  when it is below \<open>2 ^ 31\<close>; from there on parsing it throws \<open>std::out_of_range\<close>.
\<close>

lemma stoi_show_nat:
  "stoi (show_nat n) = (if int n < 2 ^ 31 then Inr (int n) else Inl (Out_of_range ''stoi''))"
proof -
  let ?ds = "digits_of (int n)"
  have r: "0 \<le> d \<and> d < 10" if "d \<in> set ?ds" for d using digits_of_range [of "int n" d] that by simp
  obtain d ds where ds: "?ds = d # ds" by (meson digits_of_nonempty neq_Nil_conv)
  have d: "0 \<le> d" "d < 10" using r ds by auto
  note pd = digit_char_props [OF d]
  have sp: "dropWhile isspace (show_nat n) = show_nat n" by (simp add: show_nat_def ds pd)
  have sg: "take_sign (show_nat n) = (False, show_nat n)" by (simp add: show_nat_def ds take_sign_def pd)
  have tk: "takeWhile isdigit (show_nat n) = show_nat n"
    using r digit_char_props by (auto simp: show_nat_def takeWhile_eq_all_conv)
  have "map digit_val (show_nat n) = ?ds"
    unfolding show_nat_def map_map using r digit_char_props by (intro map_idI) (auto simp: comp_def)
  then have v: "radix_value 10 (map digit_val (show_nat n)) = int n" by (simp add: radix_digits)
  have ne: "show_nat n \<noteq> []" by (simp add: show_nat_def)
  show ?thesis
    unfolding stoi_def sp sg prod.case tk Let_def v by (auto simp: signed_def ne)
qed

section \<open>Printed doubles\<close>

lemma digit_text_plain: "\<forall>d\<in>set ds. 0 \<le> d \<and> d < 10 \<Longrightarrow> c \<in> set (map digit_char ds) \<Longrightarrow> plain_char c"
  using digit_char_props(1) by auto

lemma number_text_plain: "0 \<le> n \<Longrightarrow> c \<in> set (map digit_char (digits_of n)) \<Longrightarrow> plain_char c"
  by (rule digit_text_plain [of "digits_of n"]) (use digits_of_range in auto)

lemma fixed_text_plain:
  assumes "0 \<le> m" and c: "c \<in> set (fixed_text p m)"
  shows "plain_char c"
proof -
  have m: "0 \<le> m div 10 ^ p" using assms(1) by (simp add: pos_imp_zdiv_nonneg_iff)
  from c consider "c \<in> set (map digit_char (digits_of (m div 10 ^ p)))" | "c = CHR ''.''"
    | "c \<in> set (map digit_char (low_digits p m))"
    unfolding fixed_text_def by (auto simp del: set_map split: if_splits)
  then show ?thesis
  proof cases
    case 1
    then show ?thesis by (rule number_text_plain [OF m])
  next
    case 2
    then show ?thesis by (simp add: plain_char_def)
  next
    case 3
    then show ?thesis using low_digits_range by (intro digit_text_plain [of "low_digits p m"]) auto
  qed
qed

lemma drop_zeros_subset: "set (drop_fraction_zeros s) \<subseteq> set s"
proof -
  have z: "set (strip_zeros t) \<subseteq> set t" for t
    using set_dropWhileD [of _ "\<lambda>c. c = CHR ''0''" "rev t"] by (auto simp: strip_zeros_def)
  moreover have "set (butlast t) \<subseteq> set t" for t :: string by (meson in_set_butlastD subsetI)
  ultimately show ?thesis
    unfolding drop_fraction_zeros_def Let_def by (auto split: if_splits)
qed

lemma sci_digits_nonneg: "0 \<le> q \<Longrightarrow> 0 \<le> snd (sci_digits q)"
proof -
  assume q: "0 \<le> q"
  have p: "0 < power_of 10 k" for k by (simp add: power_of_def)
  have "0 \<le> rint (q / power_of 10 k)" for k
    using q p [of k] rint_mono [of "of_int 0" "q / power_of 10 k"] by (simp only: rint_of_int) (simp add: less_imp_le)
  then show ?thesis by (simp add: sci_digits_def Let_def)
qed

lemma exponent_text_plain:
  assumes "c \<in> set (exponent_text x)"
  shows "plain_char c"
proof -
  from assms consider "c \<in> set ''e-+0''" | "c \<in> set (map digit_char (digits_of \<bar>x\<bar>))"
    unfolding exponent_text_def by (auto simp del: set_map split: if_splits)
  then show ?thesis
  proof cases
    case 2
    then show ?thesis by (intro number_text_plain) auto
  qed (auto simp: plain_char_def)
qed

lemma general_text_plain:
  assumes q: "0 \<le> q" and c: "c \<in> set (general_text q)"
  shows "plain_char c"
proof (cases "q = 0")
  case True
  then show ?thesis using c by (simp add: general_text_def plain_char_def)
next
  case False
  obtain x m where s: "sci_digits q = (x, m)" by fastforce
  have m: "0 \<le> m" using sci_digits_nonneg [OF q] s by simp
  from c False consider "c \<in> set (fixed_text (nat (5 - x)) m)" | "c \<in> set (fixed_text 5 m)" | "c \<in> set (exponent_text x)"
    using drop_zeros_subset by (auto simp: general_text_def s split: if_splits)
  then show ?thesis using fixed_text_plain [OF m] exponent_text_plain by cases auto
qed

lemma show_double_plain: "c \<in> set (show_double x) \<Longrightarrow> plain_char c"
proof -
  assume c: "c \<in> set (show_double x)"
  have "0 \<le> \<bar>dval x\<bar>" by simp
  then show ?thesis
    using c general_text_plain [of "\<bar>dval x\<bar>" c]
    by (auto simp: show_double_def special_text_def plain_char_def split: if_splits)
qed

end
