(* ===== verification/Csv_Handler.thy ===== *)
theory Csv_Handler
  imports Order_Entry Std_Text
begin

text \<open>
  \<open>CSVHandler\<close> (src/src/server/CSVHandler.cpp): splitting a line into tokens, parsing
  an order, reading an order file into one list per product, and writing orders out. A
  file is its contents, or \<open>None\<close> when it cannot be opened. Positions are integers with
  \<open>- 1\<close> for \<open>npos\<close>, which is what the code's \<open>signed int\<close> holds for every
  line shorter than \<open>2 ^ 31\<close> characters.
\<close>

section \<open>Tokens\<close>

definition find_first :: "(char \<Rightarrow> bool) \<Rightarrow> string \<Rightarrow> int \<Rightarrow> int" where
  "find_first p s pos =
    (let i = nat pos + length (takeWhile (\<lambda>c. \<not> p c) (drop (nat pos) s)) in
     if 0 \<le> pos \<and> i < length s then int i else - 1)"

definition substr :: "string \<Rightarrow> int \<Rightarrow> int \<Rightarrow> string" where
  "substr s start len = take (nat len) (drop (nat start) s)"

lemma find_first_cases:
  obtains "find_first p s pos = - 1"
  | i where "find_first p s pos = int i" "nat pos \<le> i" "i < length s" "0 \<le> pos" "p (s ! i)"
proof (cases "0 \<le> pos \<and> nat pos + length (takeWhile (\<lambda>c. \<not> p c) (drop (nat pos) s)) < length s")
  case True
  let ?n = "length (takeWhile (\<lambda>c. \<not> p c) (drop (nat pos) s))"
  have "?n < length (drop (nat pos) s)" using True unfolding length_drop by linarith
  then have "p (drop (nat pos) s ! ?n)"
    using nth_length_takeWhile by blast
  then have "p (s ! (nat pos + ?n))" using True by (simp add: add.commute)
  with True show ?thesis by (intro that(2) [of "nat pos + ?n"]) (auto simp: find_first_def Let_def)
next
  case False
  then show ?thesis by (intro that(1)) (auto simp: find_first_def Let_def)
qed

text \<open>The \<open>do \<dots> while (true)\<close> loop, with its two exits.\<close>

function extract_loop :: "string \<Rightarrow> char \<Rightarrow> int \<Rightarrow> string list \<Rightarrow> string list" where
  "extract_loop csvLine separator start tokens =
    (let e = find_first (\<lambda>c. c = separator) csvLine start in
     if start = int (length csvLine) \<or> start = e then tokens
     else if 0 \<le> e then extract_loop csvLine separator (e + 1) (tokens @ [substr csvLine start (e - start)])
     else tokens @ [substr csvLine start (int (length csvLine) - start)])"
  by pat_completeness auto
termination
proof (relation "measure (\<lambda>(s, c, start, ts). nat (int (length s) - start))", goal_cases)
  case (2 s c start ts e)
  show ?case
    using 2 by (cases rule: find_first_cases [of "\<lambda>x. x = c" s start]) auto
qed simp

declare extract_loop.simps [simp del]

definition extractTokens :: "string \<Rightarrow> char \<Rightarrow> string list" where
  "extractTokens csvLine separator =
     extract_loop csvLine separator (find_first (\<lambda>c. c \<noteq> separator) csvLine 0) []"

section \<open>What the tokens are\<close>

text \<open>
  Leading separators are skipped; then the fields follow, up to the first empty field, at
  which the function stops and drops the rest of the line.
\<close>

function csv_fields :: "char \<Rightarrow> string \<Rightarrow> string list" where
  "csv_fields c s =
    (case takeWhile (\<lambda>x. x \<noteq> c) s of
       [] \<Rightarrow> []
     | t # ts \<Rightarrow> (t # ts) # (case dropWhile (\<lambda>x. x \<noteq> c) s of [] \<Rightarrow> [] | _ # r \<Rightarrow> csv_fields c r))"
  by pat_completeness auto
termination
proof (relation "measure (\<lambda>(c, s). length s)", goal_cases)
  case (2 c s t ts x r)
  then have "length (x # r) \<le> length s" using length_dropWhile_le [of "\<lambda>x. x \<noteq> c" s] by simp
  then show ?case by simp
qed simp

declare csv_fields.simps [simp del]

lemma extract_loop_fields:
  assumes "0 \<le> start" and "start \<le> int (length s)"
  shows "extract_loop s c start ts = ts @ csv_fields c (drop (nat start) s)"
  using assms
proof (induction s c start ts rule: extract_loop.induct)
  case (1 s c start ts)
  let ?P = "\<lambda>x. x \<noteq> c"
  let ?d = "drop (nat start) s"
  let ?n = "length (takeWhile ?P ?d)"
  have npos: "nat start \<le> length s" using "1.prems" by simp
  have find: "find_first (\<lambda>x. x = c) s start = (if nat start + ?n < length s then start + int ?n else - 1)"
    using "1.prems" by (simp add: find_first_def Let_def)
  show ?case
  proof (cases "nat start + ?n < length s")
    case True
    then have e: "find_first (\<lambda>x. x = c) s start = start + int ?n" using find by simp
    have dw: "dropWhile ?P ?d = c # drop (nat (start + int ?n + 1)) s"
    proof -
      have lt: "?n < length ?d" using True unfolding length_drop by linarith
      have "dropWhile ?P ?d = drop ?n ?d" by (rule dropWhile_eq_drop)
      also have "\<dots> = ?d ! ?n # drop (Suc ?n) ?d" using lt by (rule Cons_nth_drop_Suc [symmetric])
      also have "?d ! ?n = c" using nth_length_takeWhile [OF lt] by simp
      finally show ?thesis
        using "1.prems" by (simp add: nat_add_distrib add.commute add.left_commute)
    qed
    have tk: "substr s start (int ?n) = takeWhile ?P ?d"
      by (simp add: substr_def takeWhile_eq_take [symmetric])
    show ?thesis
    proof (cases "?n = 0")
      case True
      then show ?thesis
        by (subst extract_loop.simps) (simp add: e csv_fields.simps [of c ?d])
    next
      case False
      have IH: "extract_loop s c (start + int ?n + 1) (ts @ [takeWhile ?P ?d])
          = (ts @ [takeWhile ?P ?d]) @ csv_fields c (drop (nat (start + int ?n + 1)) s)"
        using "1.IH" [OF refl] e False True "1.prems" tk by auto
      obtain t tl where t: "takeWhile ?P ?d = t # tl" using False by (cases "takeWhile ?P ?d") auto
      have sub: "substr s start (1 + int (length tl)) = t # tl" using tk by (simp add: t)
      show ?thesis
        using False "1.prems" IH e True
        by (subst extract_loop.simps) (auto simp: Let_def tk t sub dw csv_fields.simps [of c ?d])
    qed
  next
    case False
    then have e: "find_first (\<lambda>x. x = c) s start = - 1" using find by simp
    have all: "takeWhile ?P ?d = ?d"
    proof -
      have "length (takeWhile ?P ?d) = length ?d"
        using False npos length_takeWhile_le [of ?P ?d] by simp
      then show ?thesis by (metis order_refl take_all takeWhile_eq_take)
    qed
    then have dw: "dropWhile ?P ?d = []"
      by (metis append_self_conv takeWhile_dropWhile_id)
    show ?thesis
    proof (cases "start = int (length s)")
      case True
      then show ?thesis by (subst extract_loop.simps) (simp add: csv_fields.simps)
    next
      case ne: False
      then have "?d \<noteq> []" using "1.prems" by auto
      then obtain t tl where t: "?d = t # tl" by (cases ?d) auto
      have sub: "substr s start (int (length s) - start) = ?d"
        using "1.prems" by (simp add: substr_def)
      have fd: "csv_fields c ?d = [?d]"
        by (subst csv_fields.simps) (simp only: all dw, simp add: t)
      show ?thesis
        unfolding fd using ne e "1.prems"
        by (subst extract_loop.simps) (auto simp: Let_def sub)
    qed
  qed
qed

lemma extractTokens_fields: "extractTokens s c = csv_fields c (dropWhile (\<lambda>x. x = c) s)"
proof (cases "dropWhile (\<lambda>x. x = c) s")
  case Nil
  then have "takeWhile (\<lambda>x. x = c) s = s" by (metis append.right_neutral takeWhile_dropWhile_id)
  then have "length (takeWhile (\<lambda>x. x = c) s) = length s" by (rule arg_cong)
  then have start: "find_first (\<lambda>x. x \<noteq> c) s 0 = - 1"
    unfolding find_first_def not_not Let_def by simp
  then have "extractTokens s c = []"
    unfolding extractTokens_def start
    by (subst extract_loop.simps) (simp add: find_first_def)
  then show ?thesis unfolding Nil by (simp add: csv_fields.simps)
next
  case (Cons x xs)
  let ?n = "length (takeWhile (\<lambda>x. x = c) s)"
  have "?n < length s"
    using Cons by (metis dropWhile_eq_drop drop_all list.distinct(1) not_le)
  then have "find_first (\<lambda>x. x \<noteq> c) s 0 = int ?n"
    by (simp add: find_first_def)
  then show ?thesis
    unfolding extractTokens_def
    using \<open>?n < length s\<close> by (simp add: extract_loop_fields dropWhile_eq_drop)
qed

text \<open>Non-empty fields joined with the separator come back unchanged.\<close>

fun join :: "char \<Rightarrow> string list \<Rightarrow> string" where
  "join c [] = []"
| "join c [f] = f"
| "join c (f # fs) = f @ c # join c fs"

lemma fields_join:
  "list_all (\<lambda>f. f \<noteq> [] \<and> c \<notin> set f) fs \<Longrightarrow> csv_fields c (join c fs) = fs"
proof (induction c fs rule: join.induct)
  case (2 c f)
  then have "takeWhile (\<lambda>x. x \<noteq> c) f = f" by (auto simp: takeWhile_eq_all_conv)
  moreover have "dropWhile (\<lambda>x. x \<noteq> c) f = []" using 2 by auto
  ultimately show ?case using 2 by (cases f) (simp_all add: csv_fields.simps [of c "_ # _"])
next
  case (3 c f g fs)
  let ?s = "f @ c # join c (g # fs)"
  have tk: "takeWhile (\<lambda>x. x \<noteq> c) ?s = f" and dw: "dropWhile (\<lambda>x. x \<noteq> c) ?s = c # join c (g # fs)"
    using 3 by (auto simp: takeWhile_append dropWhile_append3)
  obtain t tl where f: "f = t # tl" using 3 by (cases f) auto
  have "csv_fields c ?s = f # csv_fields c (join c (g # fs))"
    by (subst csv_fields.simps) (simp only: tk dw, simp add: f)
  also have "csv_fields c (join c (g # fs)) = g # fs" using 3 by (intro "3.IH") auto
  finally show ?case by simp
qed (simp add: csv_fields.simps)

lemma join_head: "list_all (\<lambda>f. f \<noteq> [] \<and> c \<notin> set f) fs \<Longrightarrow> dropWhile (\<lambda>x. x = c) (join c fs) = join c fs"
proof (induction c fs rule: join.induct)
  case (2 c f) then show ?case by (cases f) auto
next
  case (3 c f g fs) then show ?case by (cases f) auto
qed simp

lemma extractTokens_join:
  "list_all (\<lambda>f. f \<noteq> [] \<and> c \<notin> set f) fs \<Longrightarrow> extractTokens (join c fs) c = fs"
  by (simp add: extractTokens_fields join_head fields_join)

section \<open>Reading orders\<close>

text \<open>
  The constructor call of an order without a user: it takes the next identifier of the
  static counter, which is the state of these operations.
\<close>

definition new_order :: "double \<Rightarrow> double \<Rightarrow> string \<Rightarrow> string \<Rightarrow> OrderBookType \<Rightarrow> (nat, entry) action" where
  "new_order p a ts pr ty nextId =
    (case OrderBookEntry p a ts pr ty default_user nextId of (e, nextId') \<Rightarrow> (Inr e, nextId'))"

definition lift_result :: "'a result \<Rightarrow> ('s, 'a) action" where
  "lift_result r s = (r, s)"

definition parseLine_fields ::
  "string \<Rightarrow> string \<Rightarrow> string \<Rightarrow> string \<Rightarrow> OrderBookType \<Rightarrow> (nat, entry) action" where
  "parseLine_fields p a ts pr ty =
    bind_act (lift_result (stod p)) (\<lambda>priceValue.
    bind_act (lift_result (stod a)) (\<lambda>amountValue.
    new_order priceValue amountValue ts pr ty))"

definition parseLine :: "string list \<Rightarrow> (nat, entry) action" where
  "parseLine tokens =
    (case tokens of
       [ts, pr, ty, p, a] \<Rightarrow>
         bind_act (lift_result (determineOrderType ty)) (\<lambda>orderType.
         bind_act (lift_result (stod p)) (\<lambda>priceValue.
         bind_act (lift_result (stod a)) (\<lambda>amountValue.
         new_order priceValue amountValue ts pr orderType)))
     | _ \<Rightarrow> throw_act Std_exception)"

type_synonym order_lists = "(string, entry list) umap"

text \<open>The loop of \<open>readCSV\<close>: a line that does not parse is skipped.\<close>

fun read_lines :: "string list \<Rightarrow> order_lists \<Rightarrow> nat \<Rightarrow> order_lists \<times> nat" where
  "read_lines [] entries nextId = (entries, nextId)"
| "read_lines (line # ls) entries nextId =
    (case parseLine (extractTokens line (CHR '','')) nextId of
       (Inl e, nextId') \<Rightarrow> read_lines ls entries nextId'
     | (Inr e, nextId') \<Rightarrow>
         read_lines ls (umap_put (product e) (umap_index [] entries (product e) @ [e]) entries) nextId')"

text \<open>\<open>std::list::sort\<close> is stable, so its result is the one of a stable sort.\<close>

definition readCSV :: "string option \<Rightarrow> nat \<Rightarrow> order_lists \<times> nat" where
  "readCSV file nextId =
    (case read_lines (getlines (CHR ''\<newline>'') (case file of None \<Rightarrow> [] | Some text \<Rightarrow> text)) [] nextId of
       (entries, nextId') \<Rightarrow> (map (\<lambda>(k, es). (k, sort_key timestamp es)) entries, nextId'))"

section \<open>Writing orders\<close>

definition csv_line :: "entry \<Rightarrow> string" where
  "csv_line e = timestamp e @ '','' @ product e @ '','' @ orderTypeToString (orderType e) @ '','' @
     show_double (price e) @ '','' @ show_double (amount e)"

text \<open>\<open>opened\<close> is whether the file could be opened; otherwise it keeps its contents.\<close>

definition entriesToCSV :: "bool \<Rightarrow> bool \<Rightarrow> entry list \<Rightarrow> string \<Rightarrow> string" where
  "entriesToCSV opened append_mode entries contents =
    (if \<not> opened then contents
     else (if append_mode then contents else []) @ concat (map (\<lambda>e. csv_line e @ ''\<newline>'') entries))"

section \<open>Reading back what was written\<close>

lemmas parse_defs = parseLine_def parseLine_fields_def new_order_def lift_result_def bind_act_def OrderBookEntry_def

text \<open>What an export keeps of an order: everything but its user and its identifier.\<close>

fun renumber :: "nat \<Rightarrow> entry list \<Rightarrow> entry list" where
  "renumber nextId [] = []"
| "renumber nextId (e # es) =
     e\<lparr>username := default_user, order_id := nextId\<rparr> # renumber (size_t_succ nextId) es"

definition plain_text :: "string \<Rightarrow> bool" where
  "plain_text s = (s \<noteq> [] \<and> CHR '','' \<notin> set s \<and> CHR ''\<newline>'' \<notin> set s)"

text \<open>
  A number is written with the six significant digits of \<open>operator<<\<close>, and read back as \<open>reread\<close>, which
  is the number itself when six digits say all of it.
\<close>

definition readable :: "double \<Rightarrow> bool" where
  "readable x = (case stod (show_double x) of Inl e \<Rightarrow> False | Inr y \<Rightarrow> True)"

definition reread :: "double \<Rightarrow> double" where
  "reread x = (case stod (show_double x) of Inl e \<Rightarrow> x | Inr y \<Rightarrow> y)"

definition six_digits :: "entry \<Rightarrow> entry" where
  "six_digits e = e\<lparr>price := reread (price e), amount := reread (amount e)\<rparr>"

text \<open>
  \<open>storable e\<close>: the timestamp is plain text, the numbers can be read back, and the product has no empty
  part between commas. The writer does not quote, so a comma in the name of a product splits its line;
  the server accepts such names.
\<close>

definition storable :: "entry \<Rightarrow> bool" where
  "storable e = (plain_text (timestamp e) \<and>
     extractTokens (product e) (CHR '','') \<noteq> [] \<and> list_all plain_text (extractTokens (product e) (CHR '','')) \<and>
     join (CHR '','') (extractTokens (product e) (CHR '','')) = product e \<and>
     readable (price e) \<and> readable (amount e))"

definition without_comma :: "entry \<Rightarrow> bool" where
  "without_comma e = (CHR '','' \<notin> set (product e))"

lemma stod_Nil: "stod [] \<noteq> Inr x"
  by (simp add: stod_def take_sign_def has_prefix_def decimal_part_def split_fraction_def)

lemma stod_reread: "readable x \<Longrightarrow> stod (show_double x) = Inr (reread x)"
  by (simp add: readable_def reread_def split: sum.splits)

lemma show_double_text: "readable x \<Longrightarrow> plain_text (show_double x)"
  using show_double_plain stod_Nil stod_reread [of x] by (auto simp: plain_text_def plain_char_def)

lemma orderTypeToString_text: "plain_text (orderTypeToString t)"
  by (cases t) (simp_all add: plain_text_def)

lemma join_append: "xs \<noteq> [] \<Longrightarrow> ys \<noteq> [] \<Longrightarrow> join c (xs @ ys) = join c xs @ c # join c ys"
  by (induction c xs rule: join.induct) (auto simp: neq_Nil_conv)

lemma csv_line_tokens:
  assumes "storable e"
  shows "extractTokens (csv_line e) (CHR '','') = timestamp e # extractTokens (product e) (CHR '','') @
      [orderTypeToString (orderType e), show_double (price e), show_double (amount e)]"
    and "CHR ''\<newline>'' \<notin> set (csv_line e)" "csv_line e \<noteq> []"
proof -
  let ?ps = "extractTokens (product e) (CHR '','')"
  let ?last = "[orderTypeToString (orderType e), show_double (price e), show_double (amount e)]"
  have ps: "?ps \<noteq> []" "list_all plain_text ?ps" "join (CHR '','') ?ps = product e" and ts: "plain_text (timestamp e)"
    and num: "readable (price e)" "readable (amount e)"
    using assms by (auto simp: storable_def)
  have plain: "list_all plain_text (timestamp e # ?ps @ ?last)"
    using ps ts num by (simp add: show_double_text orderTypeToString_text)
  have line: "csv_line e = join (CHR '','') (timestamp e # ?ps @ ?last)"
    using ps(1,3) by (simp add: csv_line_def join_append [of "[_]" "_ @ _", simplified] join_append)
  show "extractTokens (csv_line e) (CHR '','') = timestamp e # ?ps @ ?last"
    unfolding line by (rule extractTokens_join) (use plain in \<open>simp add: plain_text_def list_all_iff\<close>)
  have "set (join (CHR '','') fs) \<subseteq> insert (CHR '','') (\<Union>(set ` set fs))" for fs
    by (induction "CHR '',''" fs rule: join.induct) auto
  then show "CHR ''\<newline>'' \<notin> set (csv_line e)"
    unfolding line using plain by (fastforce simp: plain_text_def list_all_iff)
  show "csv_line e \<noteq> []" by (simp add: csv_line_def)
qed

text \<open>A line whose product has a comma is skipped; it has too many fields.\<close>

lemma parse_csv_line:
  assumes "storable e"
  shows "parseLine (extractTokens (csv_line e) (CHR '','')) n =
    (if without_comma e then (Inr ((six_digits e)\<lparr>username := default_user, order_id := n\<rparr>), size_t_succ n)
     else (Inl Std_exception, n))"
proof -
  let ?ps = "extractTokens (product e) (CHR '','')"
  have ps: "?ps \<noteq> []" "join (CHR '','') ?ps = product e" "list_all plain_text ?ps" and num: "readable (price e)" "readable (amount e)"
    using assms by (auto simp: storable_def)
  consider x where "?ps = [x]" | x y zs where "?ps = x # y # zs" using ps(1) by (metis neq_Nil_conv)
  then show ?thesis
  proof cases
    case 1
    then have "x = product e" "without_comma e" using ps(2,3) by (simp_all add: without_comma_def plain_text_def)
    then show ?thesis
      unfolding csv_line_tokens(1) [OF assms] 1
      using num by (simp add: parse_defs determineOrderType_roundtrip stod_reread six_digits_def)
  next
    case 2
    have "\<not> without_comma e" using ps(2) [unfolded 2, symmetric] by (simp add: without_comma_def)
    then show ?thesis
      unfolding csv_line_tokens(1) [OF assms] 2 by (simp add: parseLine_def throw_act_def split: list.split)
  qed
qed

text \<open>What is read back of a list of orders.\<close>

definition read_back :: "nat \<Rightarrow> entry list \<Rightarrow> entry list" where
  "read_back nextId es = renumber nextId (map six_digits (filter without_comma es))"

lemma getlines_lines:
  "\<forall>l\<in>set ls. c \<notin> set l \<and> l \<noteq> [] \<Longrightarrow> getlines c (concat (map (\<lambda>l. l @ [c]) ls)) = ls"
proof (induction ls)
  case (Cons l ls)
  let ?r = "concat (map (\<lambda>l. l @ [c]) ls)"
  have tk: "takeWhile (\<lambda>x. x \<noteq> c) (l @ c # ?r) = l" and dw: "dropWhile (\<lambda>x. x \<noteq> c) (l @ c # ?r) = c # ?r"
    using Cons.prems by (auto simp: takeWhile_append dropWhile_append3)
  have "getlines c (l @ c # ?r) = l # getlines c ?r"
    using tk dw by (subst getlines.simps) simp
  then show ?case using Cons by simp
qed (simp add: getlines.simps)

lemma read_lines_storable:
  "\<forall>e\<in>set es. storable e \<Longrightarrow>
    umap_index [] (fst (read_lines (map csv_line es) m n)) k =
      umap_index [] m k @ filter (\<lambda>e. product e = k) (read_back n es)"
proof (induction es arbitrary: m n)
  case (Cons e es)
  have "product (six_digits e) = product e" by (simp add: six_digits_def)
  then show ?case
    using Cons by (simp add: parse_csv_line read_back_def) (auto simp: umap_index_def)
qed (simp add: read_back_def)

lemma csv_read_back:
  assumes "list_all storable es"
  shows "umap_index [] (fst (readCSV (Some (entriesToCSV True False es old)) n)) k =
    sort_key timestamp (filter (\<lambda>e. product e = k) (read_back n es))"
proof -
  have "concat (map (\<lambda>e. csv_line e @ ''\<newline>'') es) = concat (map (\<lambda>l. l @ ''\<newline>'') (map csv_line es))"
    by (simp add: comp_def)
  moreover have "getlines (CHR ''\<newline>'') (concat (map (\<lambda>l. l @ ''\<newline>'') (map csv_line es))) = map csv_line es"
    using assms csv_line_tokens(2,3) by (intro getlines_lines) (auto simp: list_all_iff)
  ultimately have lines: "getlines (CHR ''\<newline>'') (entriesToCSV True False es old) = map csv_line es"
    by (simp add: entriesToCSV_def)
  have sorted: "umap_index [] (map (\<lambda>(k, es). (k, sort_key timestamp es)) m) k = sort_key timestamp (umap_index [] m k)"
    for m :: order_lists
    by (induction m) (auto simp: umap_index_def umap_find_def)
  show ?thesis
    using read_lines_storable [of es "[]" n k] assms
    by (auto simp: readCSV_def lines sorted list_all_iff umap_index_def [of _ "[]"] split: prod.split)
qed


section \<open>An example\<close>

lemma to_double_normal:
  assumes "1 \<le> q"
  shows "to_double neg q = (let v = rnd (if neg then - q else q) in
    if isinf v then Inl (Out_of_range ''stod'') else Inr v)"
proof -
  have "two_to (- 1022) < two_to 0" by (simp only: two_to_less_iff)
  moreover have "0 < two_to (- 1076)" by (rule two_to_pos)
  ultimately have "two_to (- 1022) - two_to (- 1076) < 1" unfolding two_to_0 by linarith
  then show ?thesis using assms by (simp add: to_double_def Let_def)
qed

lemma ex_show_two: "show_double (Fin 2) = ''2''"
proof -
  have "sci_digits 2 = (0, 200000)" "map digit_char (low_digits 5 200000) = ''00000''"
    "map digit_char (digits_of 2) = ''2''" by code_simp+
  then show ?thesis
    by (simp add: show_double_def general_text_def fixed_text_def drop_fraction_zeros_def strip_zeros_def)
qed

lemma ex_stod_two: "stod ''2'' = Inr (Fin 2)"
proof -
  have d: "decimal_part ''2'' = Some 2" "dropWhile isspace ''2'' = ''2''" "has_prefix ''INF'' ''2'' = False"
    "has_prefix ''NAN'' ''2'' = False" "has_prefix ''0X'' ''2'' = False" "rnd 2 = Fin 2" by code_simp+
  show ?thesis
    unfolding stod_def d(2) by (simp add: take_sign_def d to_double_normal isinf_def)
qed

lemma ex_two: "readable (Fin 2)" "reread (Fin 2) = Fin 2"
  by (simp_all add: readable_def reread_def ex_show_two ex_stod_two)

lemma ex_comma_free: "extractTokens ''A/B'' (CHR '','') = [''A/B'']" by code_simp

definition ex_csv :: "entry list" where
  "ex_csv = [\<lparr>price = Fin 2, amount = Fin 2, timestamp = ''u'', product = ''A/B'', orderType = Ask,
       username = ''s'', order_id = 7\<rparr>,
     \<lparr>price = Fin 2, amount = Fin 2, timestamp = ''t'', product = ''A/B'', orderType = Bid,
       username = ''b'', order_id = 9\<rparr>]"

definition ex_comma :: entry where
  "ex_comma = \<lparr>price = Fin 2, amount = Fin 2, timestamp = ''t'', product = ''A/B,C'', orderType = Ask,
     username = ''s'', order_id = 8\<rparr>"


end
