(* ===== verification/Wallet_Model.thy ===== *)
theory Wallet_Model
  imports Csv_Handler
begin

text \<open>
  \<open>Wallet\<close> (src/include/Wallet.hpp, src/src/server/Wallet.cpp): the free balances
  \<open>currencies\<close> and the balances \<open>locked\<close> by open orders, each a
  \<open>std::map\<close>. The recursive mutex makes every operation atomic and is not part of the
  state. An operation returns its result and the wallet it leaves, also when it throws.
  \<open>m[type]\<close> inserts \<open>0.0\<close> for a missing key, even where the code only reads it.
\<close>

record wallet =
  currencies :: "(string, double) omap"
  locked :: "(string, double) omap"

definition empty_wallet :: wallet where
  "empty_wallet = \<lparr>currencies = [], locked = []\<rparr>"

text \<open>
  The copy constructor and the assignment; \<open>same\<close> tells whether both sides are one object. Accounts
  are stored and loaded through them, so they must not lose a balance.
\<close>

definition copy_wallet :: "wallet \<Rightarrow> wallet" where
  "copy_wallet other = \<lparr>currencies = currencies other, locked = locked other\<rparr>"

definition assign_wallet :: "bool \<Rightarrow> wallet \<Rightarrow> wallet \<Rightarrow> wallet" where
  "assign_wallet same self other =
    (if \<not> same then self\<lparr>currencies := currencies other, locked := locked other\<rparr> else self)"

lemma wallet_copies [simp]: "copy_wallet w = w" "assign_wallet (v = w) v w = w"
  by (simp_all add: copy_wallet_def assign_wallet_def)

definition negative_amount :: exn where
  "negative_amount = Invalid_argument ''Amount cannot be negative''"

text \<open>\<open>m[k]\<close> as a statement: afterwards the key is there.\<close>

definition touch :: "string \<Rightarrow> (string, double) omap \<Rightarrow> (string, double) omap" where
  "touch k m = omap_put k (omap_index 0 m k) m"

definition insertCurrency :: "string \<Rightarrow> double \<Rightarrow> (wallet, unit) action" where
  "insertCurrency ty amt w =
    (if amt < 0 then (Inl negative_amount, w)
     else (Inr (), w\<lparr>currencies := omap_put ty (omap_index 0 (currencies w) ty + amt) (currencies w)\<rparr>))"

definition containsAmmount :: "string \<Rightarrow> double \<Rightarrow> wallet \<Rightarrow> bool result" where
  "containsAmmount ty amt w =
    (if amt < 0 then Inl negative_amount
     else case omap_find (currencies w) ty of
         Some b \<Rightarrow> Inr (amt \<le> b)
       | None \<Rightarrow> Inr (amt \<le> 0))"

definition removeCurrency :: "string \<Rightarrow> double \<Rightarrow> (wallet, bool) action" where
  "removeCurrency ty amt w =
    (if amt < 0 then (Inl negative_amount, w)
     else case containsAmmount ty amt w of
         Inl e \<Rightarrow> (Inl e, w)
       | Inr True \<Rightarrow> (Inr True,
           w\<lparr>currencies := omap_put ty (omap_index 0 (currencies w) ty - amt) (currencies w)\<rparr>)
       | Inr False \<Rightarrow> (Inr False, w))"

definition lockCurrency :: "string \<Rightarrow> double \<Rightarrow> (wallet, bool) action" where
  "lockCurrency ty amt w =
    (case containsAmmount ty amt w of
       Inl e \<Rightarrow> (Inl e, w)
     | Inr True \<Rightarrow> (Inr True,
         w\<lparr>currencies := omap_put ty (omap_index 0 (currencies w) ty - amt) (currencies w),
           locked := omap_put ty (omap_index 0 (locked w) ty + amt) (locked w)\<rparr>)
     | Inr False \<Rightarrow> (Inr False, w))"

definition unlockCurrency :: "string \<Rightarrow> double \<Rightarrow> (wallet, bool) action" where
  "unlockCurrency ty amt w0 =
    (let w = w0\<lparr>locked := touch ty (locked w0)\<rparr> in
     if amt \<le> omap_index 0 (locked w) ty then
       (Inr True,
         w\<lparr>locked := omap_put ty (omap_index 0 (locked w) ty - amt) (locked w),
           currencies := omap_put ty (omap_index 0 (currencies w) ty + amt) (currencies w)\<rparr>)
     else (Inr False, w))"

definition spendLocked :: "string \<Rightarrow> double \<Rightarrow> (wallet, bool) action" where
  "spendLocked ty amt w0 =
    (let w = w0\<lparr>locked := touch ty (locked w0)\<rparr> in
     if amt \<le> omap_index 0 (locked w) ty then
       (Inr True, w\<lparr>locked := omap_put ty (omap_index 0 (locked w) ty - amt) (locked w)\<rparr>)
     else (Inr False, w))"

definition bad_product :: exn where
  "bad_product = Invalid_argument ''Invalid product format in order''"

definition fulfillOrder :: "entry \<Rightarrow> (wallet, bool) action" where
  "fulfillOrder order w =
    (case extractTokens (product order) (CHR ''/'') of
       [base, quote] \<Rightarrow>
         (case orderType order of
            Ask \<Rightarrow> lockCurrency base (amount order) w
          | Bid \<Rightarrow> lockCurrency quote (amount order * price order) w
          | Sale \<Rightarrow> (Inr False, w))
     | _ \<Rightarrow> (Inl bad_product, w))"

definition cancelOrder :: "entry \<Rightarrow> (wallet, bool) action" where
  "cancelOrder order w =
    (case extractTokens (product order) (CHR ''/'') of
       [base, quote] \<Rightarrow>
         (case orderType order of
            Ask \<Rightarrow> unlockCurrency base (amount order) w
          | Bid \<Rightarrow> unlockCurrency quote (amount order * price order) w
          | Sale \<Rightarrow> (Inr False, w))
     | _ \<Rightarrow> (Inl bad_product, w))"

definition wallet_toString :: "wallet \<Rightarrow> string" where
  "wallet_toString w =
    (let line = (\<lambda>mark (k, v). if 0 < v then ''     '' @ mark @ k @ '': '' @ to_string v @ ''\<newline>'' else [])
     in ''Wallet contains:\<newline>'' @
       (if currencies w = [] then ''     (empty)\<newline>''
        else concat (map (line []) (currencies w)) @ concat (map (line ''(Locked) '') (locked w))))"

lemmas wallet_op_defs [model_defs] =
  insertCurrency_def containsAmmount_def removeCurrency_def lockCurrency_def unlockCurrency_def
  spendLocked_def

section \<open>Balances\<close>

definition free_balance :: "wallet \<Rightarrow> string \<Rightarrow> double" where
  "free_balance w ty = omap_index 0 (currencies w) ty"

definition locked_balance :: "wallet \<Rightarrow> string \<Rightarrow> double" where
  "locked_balance w ty = omap_index 0 (locked w) ty"

lemmas balance_defs = free_balance_def locked_balance_def

lemma touch_index [simp]: "omap_index 0 (touch k m) j = omap_index 0 m j"
  by (simp add: touch_def)

lemma containsAmmount_eq:
  "containsAmmount ty amt w = (if amt < 0 then Inl negative_amount else Inr (amt \<le> free_balance w ty))"
  by (simp add: containsAmmount_def free_balance_def omap_index_def split: option.splits)

section \<open>The contract of a custody account\<close>

text \<open>
  What the order book and the server rely on: two balances per currency, and operations
  that, on each branch, move them by one floating-point addition or subtraction and leave
  every other currency alone. \<open>moves\<close> states such a step.
\<close>

definition moves ::
  "('w \<Rightarrow> string \<Rightarrow> double) \<Rightarrow> ('w \<Rightarrow> string \<Rightarrow> double) \<Rightarrow> string \<Rightarrow>
    (double \<Rightarrow> double) \<Rightarrow> (double \<Rightarrow> double) \<Rightarrow> 'w \<Rightarrow> 'w \<Rightarrow> bool" where
  "moves free lck ty f g w w' \<longleftrightarrow>
    (\<forall>k. free w' k = (if k = ty then f (free w k) else free w k)) \<and>
    (\<forall>k. lck w' k = (if k = ty then g (lck w k) else lck w k))"

text \<open>Every balance is a non-negative number (possibly infinite, never NaN).\<close>

definition solvent ::
  "('w \<Rightarrow> string \<Rightarrow> double) \<Rightarrow> ('w \<Rightarrow> string \<Rightarrow> double) \<Rightarrow> 'w \<Rightarrow> bool" where
  "solvent free lck w \<longleftrightarrow>
    (\<forall>k. 0 \<le> free w k \<and> value64 (free w k) \<and> 0 \<le> lck w k \<and> value64 (lck w k))"

locale custody =
  fixes free lck :: "'w \<Rightarrow> string \<Rightarrow> double"
    and deposit :: "string \<Rightarrow> double \<Rightarrow> ('w, unit) action"
    and withdraw lock unlock spend :: "string \<Rightarrow> double \<Rightarrow> ('w, bool) action"
  assumes deposit_law: "deposit ty amt w = (u, w') \<Longrightarrow>
      (amt < 0 \<and> u = Inl negative_amount \<and> w' = w) \<or>
      (\<not> amt < 0 \<and> u = Inr () \<and> moves free lck ty (\<lambda>b. b + amt) id w w')"
    and withdraw_law: "withdraw ty amt w = (r, w') \<Longrightarrow>
      (amt < 0 \<and> r = Inl negative_amount \<and> w' = w) \<or>
      (\<not> amt < 0 \<and> \<not> amt \<le> free w ty \<and> r = Inr False \<and> w' = w) \<or>
      (\<not> amt < 0 \<and> amt \<le> free w ty \<and> r = Inr True \<and> moves free lck ty (\<lambda>b. b - amt) id w w')"
    and lock_law: "lock ty amt w = (r, w') \<Longrightarrow>
      (amt < 0 \<and> r = Inl negative_amount \<and> w' = w) \<or>
      (\<not> amt < 0 \<and> \<not> amt \<le> free w ty \<and> r = Inr False \<and> w' = w) \<or>
      (\<not> amt < 0 \<and> amt \<le> free w ty \<and> r = Inr True \<and>
        moves free lck ty (\<lambda>b. b - amt) (\<lambda>b. b + amt) w w')"
    and unlock_law: "unlock ty amt w = (r, w') \<Longrightarrow>
      (\<not> amt \<le> lck w ty \<and> r = Inr False \<and> moves free lck ty id id w w') \<or>
      (amt \<le> lck w ty \<and> r = Inr True \<and> moves free lck ty (\<lambda>b. b + amt) (\<lambda>b. b - amt) w w')"
    and spend_law: "spend ty amt w = (r, w') \<Longrightarrow>
      (\<not> amt \<le> lck w ty \<and> r = Inr False \<and> moves free lck ty id id w w') \<or>
      (amt \<le> lck w ty \<and> r = Inr True \<and> moves free lck ty id (\<lambda>b. b - amt) w w')"
begin

text \<open>No operation with a finite amount makes a balance negative or NaN.\<close>

lemma deposit_solvent:
  "deposit ty amt w = (r, w') \<Longrightarrow> solvent free lck w \<Longrightarrow> amt \<noteq> NaN \<Longrightarrow> value64 amt \<Longrightarrow> solvent free lck w'"
  by (drule deposit_law)
    (auto simp: solvent_def moves_def dlt_iff_not_dle intro!: plus_nonneg)

lemma withdraw_solvent:
  "withdraw ty amt w = (r, w') \<Longrightarrow> solvent free lck w \<Longrightarrow> isfinite amt \<Longrightarrow> value64 amt \<Longrightarrow> solvent free lck w'"
  by (drule withdraw_law) (auto simp: solvent_def moves_def intro!: minus_nonneg)

lemma lock_solvent:
  "lock ty amt w = (r, w') \<Longrightarrow> solvent free lck w \<Longrightarrow> isfinite amt \<Longrightarrow> value64 amt \<Longrightarrow> solvent free lck w'"
  by (drule lock_law)
    (auto simp: solvent_def moves_def dlt_iff_not_dle isfinite_def intro!: minus_nonneg plus_nonneg)

lemma unlock_solvent:
  "unlock ty amt w = (r, w') \<Longrightarrow> solvent free lck w \<Longrightarrow> isfinite amt \<Longrightarrow> value64 amt \<Longrightarrow> 0 \<le> amt \<Longrightarrow>
    solvent free lck w'"
  by (drule unlock_law) (auto simp: solvent_def moves_def intro!: minus_nonneg plus_nonneg)

lemma spend_solvent:
  "spend ty amt w = (r, w') \<Longrightarrow> solvent free lck w \<Longrightarrow> isfinite amt \<Longrightarrow> value64 amt \<Longrightarrow> solvent free lck w'"
  by (drule spend_law) (auto simp: solvent_def moves_def intro!: minus_nonneg)

text \<open>
  What was locked can be unlocked: rounding never leaves the locked balance below the
  amount just added to it.
\<close>

lemma lock_then_unlock:
  assumes l: "lock ty amt w = (Inr True, w1)" and u: "unlock ty amt w1 = (r, w2)"
    and "solvent free lck w" and "value64 amt" and "amt \<noteq> NaN"
  shows "r = Inr True
    \<and> free w2 ty = (free w ty - amt) + amt \<and> lck w2 ty = (lck w ty + amt) - amt
    \<and> (\<forall>k. k \<noteq> ty \<longrightarrow> free w2 k = free w k \<and> lck w2 k = lck w k)"
proof -
  from lock_law [OF l] have pos: "0 \<le> amt" and m: "moves free lck ty (\<lambda>b. b - amt) (\<lambda>b. b + amt) w w1"
    using assms(5) by (auto simp: dlt_iff_not_dle)
  have "amt \<le> lck w ty + amt" using assms pos by (intro le_plus2) (auto simp: solvent_def)
  then have "amt \<le> lck w1 ty" using m by (simp add: moves_def)
  with unlock_law [OF u] m show ?thesis by (auto simp: moves_def)
qed

text \<open>Locking moves value between the two balances; without rounding the sum is unchanged.\<close>

lemma lock_conserves:
  assumes l: "lock ty amt w = (r, w')"
    and fin: "isfinite amt" "isfinite (free w ty)" "isfinite (lck w ty)"
    and ex: "rnd (dval (free w ty) - dval amt) = Fin (dval (free w ty) - dval amt)"
      "rnd (dval (lck w ty) + dval amt) = Fin (dval (lck w ty) + dval amt)"
  shows "dval (free w' k) + dval (lck w' k) = dval (free w k) + dval (lck w k)"
  using lock_law [OF l] minus_exact [OF fin(2,1) ex(1)] plus_exact [OF fin(3,1) ex(2)]
  by (auto simp: moves_def)

lemma unlock_conserves:
  assumes u: "unlock ty amt w = (r, w')"
    and fin: "isfinite amt" "isfinite (free w ty)" "isfinite (lck w ty)"
    and ex: "rnd (dval (free w ty) + dval amt) = Fin (dval (free w ty) + dval amt)"
      "rnd (dval (lck w ty) - dval amt) = Fin (dval (lck w ty) - dval amt)"
  shows "dval (free w' k) + dval (lck w' k) = dval (free w k) + dval (lck w k)"
  using unlock_law [OF u] plus_exact [OF fin(2,1) ex(1)] minus_exact [OF fin(3,1) ex(2)]
  by (auto simp: moves_def)

end

interpretation wallet: custody free_balance locked_balance insertCurrency removeCurrency
  lockCurrency unlockCurrency spendLocked
proof unfold_locales
  fix ty amt w w' and r :: "unit result"
  assume "insertCurrency ty amt w = (r, w')"
  then show "(amt < 0 \<and> r = Inl negative_amount \<and> w' = w) \<or>
      (\<not> amt < 0 \<and> r = Inr () \<and> moves free_balance locked_balance ty (\<lambda>b. b + amt) id w w')"
    by (auto simp: insertCurrency_def moves_def balance_defs split: if_splits)
next
  fix ty amt w w' and r :: "bool result"
  assume "removeCurrency ty amt w = (r, w')"
  then show "(amt < 0 \<and> r = Inl negative_amount \<and> w' = w) \<or>
      (\<not> amt < 0 \<and> \<not> amt \<le> free_balance w ty \<and> r = Inr False \<and> w' = w) \<or>
      (\<not> amt < 0 \<and> amt \<le> free_balance w ty \<and> r = Inr True \<and>
        moves free_balance locked_balance ty (\<lambda>b. b - amt) id w w')"
    by (auto simp: removeCurrency_def containsAmmount_eq moves_def balance_defs split: if_splits bool.splits)
next
  fix ty amt w w' and r :: "bool result"
  assume "lockCurrency ty amt w = (r, w')"
  then show "(amt < 0 \<and> r = Inl negative_amount \<and> w' = w) \<or>
      (\<not> amt < 0 \<and> \<not> amt \<le> free_balance w ty \<and> r = Inr False \<and> w' = w) \<or>
      (\<not> amt < 0 \<and> amt \<le> free_balance w ty \<and> r = Inr True \<and>
        moves free_balance locked_balance ty (\<lambda>b. b - amt) (\<lambda>b. b + amt) w w')"
    by (auto simp: lockCurrency_def containsAmmount_eq moves_def balance_defs split: if_splits bool.splits)
next
  fix ty amt w w' and r :: "bool result"
  assume "unlockCurrency ty amt w = (r, w')"
  then show "(\<not> amt \<le> locked_balance w ty \<and> r = Inr False \<and>
        moves free_balance locked_balance ty id id w w') \<or>
      (amt \<le> locked_balance w ty \<and> r = Inr True \<and>
        moves free_balance locked_balance ty (\<lambda>b. b + amt) (\<lambda>b. b - amt) w w')"
    by (auto simp: unlockCurrency_def Let_def moves_def balance_defs split: if_splits)
next
  fix ty amt w w' and r :: "bool result"
  assume "spendLocked ty amt w = (r, w')"
  then show "(\<not> amt \<le> locked_balance w ty \<and> r = Inr False \<and>
        moves free_balance locked_balance ty id id w w') \<or>
      (amt \<le> locked_balance w ty \<and> r = Inr True \<and>
        moves free_balance locked_balance ty id (\<lambda>b. b - amt) w w')"
    by (auto simp: spendLocked_def Let_def moves_def balance_defs split: if_splits)
qed

end
