(* ===== verification/User_Model.thy ===== *)
theory User_Model
  imports Wallet_Model
begin

text \<open>
  \<open>User\<close> (src/src/server/User.cpp) and \<open>UserStore\<close> (src/src/server/UserStore.cpp): an
  account with its name, password and wallet, and the table of all accounts. The store's
  mutex makes each operation atomic. \<open>getUser\<close> returns a reference in the code; here it
  returns the key of the account, and \<open>on_wallet\<close> runs a wallet operation through such
  a reference, so two references to one account see each other's updates.
\<close>

section \<open>User\<close>

record user =
  user_name :: string
  password :: string
  wallet :: wallet

definition User :: "string \<Rightarrow> string \<Rightarrow> user" where
  "User name pw = \<lparr>user_name = name, password = pw, wallet = empty_wallet\<rparr>"

definition getUsername :: "user \<Rightarrow> string" where
  "getUsername u = user_name u"

definition validatePassword :: "user \<Rightarrow> string \<Rightarrow> bool" where
  "validatePassword u pw = (password u = pw)"

definition getWallet :: "user \<Rightarrow> wallet" where
  "getWallet u = wallet u"

section \<open>UserStore\<close>

type_synonym users = "(string, user) umap"

definition userExists :: "users \<Rightarrow> string \<Rightarrow> bool" where
  "userExists us name = (umap_find us name \<noteq> None)"

definition addUser :: "string \<Rightarrow> string \<Rightarrow> users \<Rightarrow> users" where
  "addUser name pw us = umap_emplace name (User name pw) us"

definition removeUser :: "string \<Rightarrow> users \<Rightarrow> bool \<times> users" where
  "removeUser name us = (umap_find us name \<noteq> None, umap_erase name us)"

definition getUser :: "string \<Rightarrow> (users, string) action" where
  "getUser name us =
    (case umap_find us name of
       Some _ \<Rightarrow> (Inr name, us)
     | None \<Rightarrow>
         if name = default_user then (Inr name, umap_emplace name (User name default_user) us)
         else (Inl (Runtime_error (''User not found: '' @ name)), us))"

text \<open>Access through the reference \<open>getUser\<close> returned.\<close>

definition user_at :: "users \<Rightarrow> string \<Rightarrow> user" where
  "user_at us name = (case umap_find us name of Some u \<Rightarrow> u | None \<Rightarrow> User name default_user)"

definition on_wallet :: "string \<Rightarrow> (wallet, 'a) action \<Rightarrow> (users, 'a) action" where
  "on_wallet name f us =
    (case f (getWallet (user_at us name)) of
       (r, w) \<Rightarrow> (r, umap_put name (user_at us name\<lparr>wallet := w\<rparr>) us))"

text \<open>The wallet of a name; a name without an account has an empty one.\<close>

definition wallet_of :: "users \<Rightarrow> string \<Rightarrow> wallet" where
  "wallet_of us name = (case umap_find us name of Some u \<Rightarrow> wallet u | None \<Rightarrow> empty_wallet)"

section \<open>Laws\<close>

lemma user_at_wallet [simp]: "getWallet (user_at us name) = wallet_of us name"
  by (simp add: getWallet_def user_at_def wallet_of_def User_def split: option.splits)

lemma getUser_cases:
  assumes "getUser name us = (r, us')"
  obtains "userExists us name" "r = Inr name" "us' = us"
  | "\<not> userExists us name" "name = default_user" "r = Inr name" "userExists us' name"
    "us' = umap_emplace name (User name default_user) us"
  | "\<not> userExists us name" "name \<noteq> default_user" "us' = us"
    "r = Inl (Runtime_error (''User not found: '' @ name))"
proof (cases "umap_find us name")
  case None
  show ?thesis
  proof (cases "name = default_user")
    case True
    with None assms show ?thesis by (intro that(2)) (auto simp: getUser_def userExists_def)
  next
    case False
    with None assms show ?thesis by (intro that(3)) (simp_all add: getUser_def userExists_def)
  qed
next
  case (Some u)
  with assms show ?thesis by (intro that(1)) (simp_all add: getUser_def userExists_def)
qed

lemma getUser_wallets [frame_simps]: "getUser name us = (r, us') \<Longrightarrow> wallet_of us' k = wallet_of us k"
  by (auto simp: getUser_def wallet_of_def User_def split: option.splits if_splits)

lemma on_wallet_wallets:
  "on_wallet name f us = (r, us') \<Longrightarrow>
    (r, wallet_of us' name) = f (wallet_of us name) \<and>
    (\<forall>k. k \<noteq> name \<longrightarrow> wallet_of us' k = wallet_of us k) \<and>
    (\<forall>k. userExists us' k \<longleftrightarrow> k = name \<or> userExists us k)"
  by (auto simp: on_wallet_def wallet_of_def userExists_def split: prod.splits)

lemma addUser_existing: "userExists us name \<Longrightarrow> addUser name pw us = us"
  by (auto simp: addUser_def umap_emplace_def userExists_def)

text \<open>
  The accounts as one well-formed table: each key is the name of its account, and every
  wallet is solvent.
\<close>

definition users_ok :: "users \<Rightarrow> bool" where
  "users_ok us \<longleftrightarrow> umap_wf us \<and>
    (\<forall>k u. umap_find us k = Some u \<longrightarrow> user_name u = k \<and> solvent free_balance locked_balance (wallet u))"

lemma empty_wallet_solvent [simp]: "solvent free_balance locked_balance empty_wallet"
  by (simp add: solvent_def balance_defs empty_wallet_def omap_index_def)

lemma users_ok_wallet: "users_ok us \<Longrightarrow> solvent free_balance locked_balance (wallet_of us k)"
  by (auto simp: users_ok_def wallet_of_def split: option.splits)

lemma users_ok_addUser [inv_intros]: "users_ok us \<Longrightarrow> users_ok (addUser name pw us)"
  by (auto simp: users_ok_def addUser_def umap_wf_emplace User_def split: if_splits)

lemma users_ok_getUser [inv_intros]: "users_ok us \<Longrightarrow> getUser name us = (r, us') \<Longrightarrow> users_ok us'"
  by (auto simp: users_ok_def getUser_def umap_wf_emplace User_def split: option.splits if_splits)

lemma users_ok_removeUser [inv_intros]: "users_ok us \<Longrightarrow> users_ok (snd (removeUser name us))"
  by (auto simp: users_ok_def removeUser_def umap.wf_erase split: if_splits)

lemma users_ok_on_wallet:
  assumes "users_ok us" and "on_wallet name f us = (r, us')"
    and "\<And>w'. f (wallet_of us name) = (r, w') \<Longrightarrow> solvent free_balance locked_balance w'"
  shows "users_ok us'"
proof -
  obtain w' where w: "f (wallet_of us name) = (r, w')"
    and us': "us' = umap_put name (user_at us name\<lparr>wallet := w'\<rparr>) us"
    using assms(2) by (auto simp: on_wallet_def split: prod.splits)
  have "user_name (user_at us name) = name"
    using assms(1) by (auto simp: users_ok_def user_at_def User_def split: option.splits)
  then show ?thesis
    using assms(1) assms(3) [OF w] by (auto simp: us' users_ok_def umap.wf_put)
qed

end
