(* ===== verification/Order_Book.thy ===== *)
theory Order_Book
  imports User_Model
begin

text \<open>
  \<open>OrderBook\<close> (src/include/OrderBook.hpp, src/src/server/OrderBook.cpp), without the
  matching of orders, which is in the theory Matching. An order lives in a node of the
  \<open>std::list\<close> of its product; the list owns the node and the node has an address. The
  index \<open>userOrders\<close> and the vectors \<open>getOrders\<close> returns hold addresses only.
  Reading an address whose node has been erased is undefined behaviour (\<open>Undefined\<close>),
  so the absence of dangling pointers is a theorem about the index, not an assumption.
\<close>

section \<open>State\<close>

type_synonym addr = nat
type_synonym node = "addr \<times> entry"

record book =
  filename :: string
  finalizedSales :: "entry list"
  orderMap :: "(string, node list) umap"
  userOrders :: "(string, addr list) umap"
  next_addr :: addr

definition book_nodes :: "book \<Rightarrow> node list" where
  "book_nodes b = concat (map snd (orderMap b))"

definition product_nodes :: "book \<Rightarrow> string \<Rightarrow> node list" where
  "product_nodes b pr = umap_index [] (orderMap b) pr"

definition user_ptrs :: "book \<Rightarrow> string \<Rightarrow> addr list" where
  "user_ptrs b u = umap_index [] (userOrders b) u"

section \<open>Pointers\<close>

definition live :: "book \<Rightarrow> addr \<Rightarrow> entry option" where
  "live b p = map_of (book_nodes b) p"

definition deref :: "book \<Rightarrow> addr \<Rightarrow> entry result" where
  "deref b p = (case live b p of Some e \<Rightarrow> Inr e | None \<Rightarrow> Inl (Undefined ''dangling pointer''))"

definition set_node_amount :: "addr \<Rightarrow> double \<Rightarrow> node \<Rightarrow> node" where
  "set_node_amount p v = (\<lambda>(q, e). (q, if q = p then e\<lparr>amount := v\<rparr> else e))"

text \<open>\<open>p->amount = v\<close>.\<close>

definition set_amount :: "addr \<Rightarrow> double \<Rightarrow> book \<Rightarrow> book" where
  "set_amount p v b = b\<lparr>orderMap := map (\<lambda>(k, ns). (k, map (set_node_amount p v) ns)) (orderMap b)\<rparr>"

section \<open>Queries\<close>

text \<open>
  \<open>iter\<close> is the unspecified iteration order of the \<open>std::unordered_map\<close>: some
  permutation of its keys.
\<close>

definition getKnownProducts :: "(string list \<Rightarrow> string list) \<Rightarrow> book \<Rightarrow> string list" where
  "getKnownProducts iter b = iter (umap_keys (orderMap b))"

definition getAllOrders :: "(string list \<Rightarrow> string list) \<Rightarrow> book \<Rightarrow> entry list" where
  "getAllOrders iter b = concat (map (\<lambda>k. map snd (product_nodes b k)) (iter (umap_keys (orderMap b))))"

fun collect_orders :: "node list \<Rightarrow> (OrderBookType, addr list) umap \<Rightarrow> (OrderBookType, addr list) umap" where
  "collect_orders [] m = m"
| "collect_orders ((p, e) # ns) m =
     collect_orders ns
       (if orderType e = Bid \<or> orderType e = Ask
        then umap_put (orderType e) (umap_index [] m (orderType e) @ [p]) m else m)"

definition getOrders :: "book \<Rightarrow> string \<Rightarrow> (OrderBookType, addr list) umap" where
  "getOrders b pr =
    (case umap_find (orderMap b) pr of None \<Rightarrow> [] | Some ns \<Rightarrow> collect_orders ns [])"

definition getHighPrice :: "entry list \<Rightarrow> double" where
  "getHighPrice orders = (case orders of [] \<Rightarrow> 0
     | e0 # _ \<Rightarrow> foldl (\<lambda>mx e. if mx < price e then price e else mx) (price e0) orders)"

definition getLowPrice :: "entry list \<Rightarrow> double" where
  "getLowPrice orders = (case orders of [] \<Rightarrow> 0
     | e0 # _ \<Rightarrow> foldl (\<lambda>mn e. if price e < mn then price e else mn) (price e0) orders)"

definition getTotalVolume :: "entry list \<Rightarrow> double" where
  "getTotalVolume orders = foldl (\<lambda>v e. v + amount e) 0 orders"

definition getAvgPrice :: "entry list \<Rightarrow> double" where
  "getAvgPrice orders =
    (case foldl (\<lambda>(tot, vol) e. (tot + price e * amount e, vol + amount e)) (0, 0) orders of
       (tot, totalVolume) \<Rightarrow> if deq totalVolume 0 then 0 else fdiv tot totalVolume)"

definition getOrdersForUser :: "book \<Rightarrow> string \<Rightarrow> entry list result" where
  "getOrdersForUser b user =
    (case umap_find (userOrders b) user of
       None \<Rightarrow> Inr []
     | Some ps \<Rightarrow> map_res (deref b) ps)"

definition getSales :: "book \<Rightarrow> entry list" where
  "getSales b = finalizedSales b"

definition insertSales :: "entry list \<Rightarrow> book \<Rightarrow> book" where
  "insertSales sales b = b\<lparr>finalizedSales := finalizedSales b @ sales\<rparr>"

section \<open>Inserting an order\<close>

text \<open>
  The slow path walks the list from its end past every later timestamp; the order goes in
  front of the run it walked over.
\<close>

definition insert_late :: "node \<Rightarrow> node list \<Rightarrow> node list" where
  "insert_late n ns =
    (let later = takeWhile (\<lambda>(_, e). timestamp (snd n) < timestamp e) (rev ns)
     in take (length ns - length later) ns @ n # drop (length ns - length later) ns)"

definition insert_node :: "node \<Rightarrow> node list \<Rightarrow> node list" where
  "insert_node n ns =
    (if ns = [] \<or> timestamp (snd (last ns)) \<le> timestamp (snd n) then ns @ [n] else insert_late n ns)"

definition insertOrder :: "entry \<Rightarrow> book \<Rightarrow> book" where
  "insertOrder order b =
    b\<lparr>orderMap := umap_put (product order)
         (insert_node (next_addr b, order) (product_nodes b (product order))) (orderMap b),
      userOrders := umap_put (username order) (user_ptrs b (username order) @ [next_addr b]) (userOrders b),
      next_addr := Suc (next_addr b)\<rparr>"

section \<open>Removing orders\<close>

text \<open>\<open>std::find_if\<close> over pointers: the position of the first one with the identifier.\<close>

fun find_ptr :: "book \<Rightarrow> nat \<Rightarrow> addr list \<Rightarrow> nat option result" where
  "find_ptr b oid [] = Inr None"
| "find_ptr b oid (p # ps) =
     (case deref b p of
        Inl e \<Rightarrow> Inl e
      | Inr e \<Rightarrow> if order_id e = oid then Inr (Some 0)
          else case find_ptr b oid ps of Inl x \<Rightarrow> Inl x | Inr i \<Rightarrow> Inr (map_option Suc i))"

fun erase_first :: "('a \<Rightarrow> bool) \<Rightarrow> 'a list \<Rightarrow> 'a list" where
  "erase_first P [] = []"
| "erase_first P (x # xs) = (if P x then xs else x # erase_first P xs)"

definition erase_nth :: "nat \<Rightarrow> 'a list \<Rightarrow> 'a list" where
  "erase_nth i xs = take i xs @ drop (Suc i) xs"

definition put_user_ptrs :: "string \<Rightarrow> addr list \<Rightarrow> book \<Rightarrow> book" where
  "put_user_ptrs u ps b =
    b\<lparr>userOrders := (if ps = [] then umap_erase u (userOrders b) else umap_put u ps (userOrders b))\<rparr>"

definition removeOrderById :: "string \<Rightarrow> nat \<Rightarrow> (book, bool) action" where
  "removeOrderById user oid b =
    (case umap_find (userOrders b) user of
       None \<Rightarrow> (Inr False, b)
     | Some userVec \<Rightarrow>
         (case find_ptr b oid userVec of
            Inl e \<Rightarrow> (Inl e, b)
          | Inr None \<Rightarrow> (Inr False, b)
          | Inr (Some i) \<Rightarrow>
              (case deref b (userVec ! i) of
                 Inl e \<Rightarrow> (Inl e, b)
               | Inr e \<Rightarrow>
                   (case umap_find (orderMap b) (product e) of
                      None \<Rightarrow> (Inr False, b)
                    | Some ns \<Rightarrow>
                        if \<exists>n\<in>set ns. order_id (snd n) = oid then
                          (Inr True, put_user_ptrs user (erase_nth i userVec)
                            (b\<lparr>orderMap := umap_put (product e)
                                 (erase_first (\<lambda>n. order_id (snd n) = oid) ns) (orderMap b)\<rparr>))
                        else (Inr False, b)))))"

text \<open>\<open>std::remove_if\<close> reads every pointer of the vector.\<close>

fun remove_ptrs :: "book \<Rightarrow> nat \<Rightarrow> addr list \<Rightarrow> addr list result" where
  "remove_ptrs b oid [] = Inr []"
| "remove_ptrs b oid (p # ps) =
     (case deref b p of
        Inl e \<Rightarrow> Inl e
      | Inr e \<Rightarrow> (case remove_ptrs b oid ps of
            Inl x \<Rightarrow> Inl x
          | Inr qs \<Rightarrow> Inr (if order_id e = oid then qs else p # qs)))"

definition removeFromUserIndex :: "string \<Rightarrow> nat \<Rightarrow> (book, unit) action" where
  "removeFromUserIndex user oid b =
    (case umap_find (userOrders b) user of
       None \<Rightarrow> (Inr (), b)
     | Some userVec \<Rightarrow>
         (case remove_ptrs b oid userVec of
            Inl e \<Rightarrow> (Inl e, b)
          | Inr ps \<Rightarrow> (Inr (), put_user_ptrs user ps b)))"

text \<open>
  The loop of \<open>removeMatchedOrders\<close> over the list of one product: \<open>kept\<close> are the
  nodes it has passed, so the list is \<open>kept @ rest\<close> at every step.
\<close>

fun remove_matched_loop :: "string \<Rightarrow> node list \<Rightarrow> node list \<Rightarrow> (book, unit) action" where
  "remove_matched_loop pr kept [] b = (Inr (), b)"
| "remove_matched_loop pr kept (n # rest) b =
     (if amount (snd n) \<le> 0 then
        bind_act (removeFromUserIndex (username (snd n)) (order_id (snd n)))
          (\<lambda>_ b'. remove_matched_loop pr kept rest (b'\<lparr>orderMap := umap_put pr (kept @ rest) (orderMap b')\<rparr>)) b
      else remove_matched_loop pr (kept @ [n]) rest b)"

definition removeMatchedOrders :: "string \<Rightarrow> (book, unit) action" where
  "removeMatchedOrders pr b =
    (case umap_find (orderMap b) pr of
       None \<Rightarrow> (Inr (), b)
     | Some ns \<Rightarrow> remove_matched_loop pr [] ns b)"

section \<open>Well-formed books\<close>

text \<open>
  \<open>book_ok\<close>: the tables have distinct keys; nodes have distinct addresses, distinct
  identifiers and sit in the list of their own product, each list in the order of the
  timestamps; and the index holds, for every user it has, a non-empty duplicate-free
  vector of pointers to live nodes of that user.
\<close>

definition list_ok :: "string \<Rightarrow> node list \<Rightarrow> bool" where
  "list_ok k ns \<longleftrightarrow> (\<forall>n\<in>set ns. product (snd n) = k) \<and> sorted (map (\<lambda>n. timestamp (snd n)) ns)"

definition index_ok :: "book \<Rightarrow> bool" where
  "index_ok b \<longleftrightarrow> (\<forall>u ps. umap_find (userOrders b) u = Some ps \<longrightarrow>
     ps \<noteq> [] \<and> distinct ps \<and> (\<forall>p\<in>set ps. \<exists>e. (p, e) \<in> set (book_nodes b) \<and> username e = u))"

definition nodes_ok :: "node list \<Rightarrow> addr \<Rightarrow> bool" where
  "nodes_ok ns next \<longleftrightarrow> distinct (map fst ns) \<and> distinct (map (\<lambda>n. order_id (snd n)) ns) \<and>
     (\<forall>n\<in>set ns. fst n < next)"

definition book_ok :: "book \<Rightarrow> bool" where
  "book_ok b \<longleftrightarrow> umap_wf (orderMap b) \<and> umap_wf (userOrders b) \<and>
     nodes_ok (book_nodes b) (next_addr b) \<and>
     (\<forall>k ns. umap_find (orderMap b) k = Some ns \<longrightarrow> list_ok k ns) \<and> index_ok b"

lemma nodes_ok_mset: "mset xs = mset ys \<Longrightarrow> nodes_ok xs n \<longleftrightarrow> nodes_ok ys n"
proof -
  assume ms: "mset xs = mset ys"
  then have "set xs = set ys" by (rule mset_eq_setD)
  moreover have "distinct (map fst xs) \<longleftrightarrow> distinct (map fst ys)"
    by (rule mset_eq_imp_distinct_iff) (simp add: ms)
  moreover have "distinct (map (\<lambda>n. order_id (snd n)) xs) \<longleftrightarrow> distinct (map (\<lambda>n. order_id (snd n)) ys)"
    by (rule mset_eq_imp_distinct_iff) (simp add: ms)
  ultimately show ?thesis by (simp add: nodes_ok_def)
qed

lemma nodes_ok_Cons:
  "nodes_ok (n # ns) k \<longleftrightarrow> nodes_ok ns k \<and> fst n \<notin> fst ` set ns \<and>
     order_id (snd n) \<notin> (\<lambda>m. order_id (snd m)) ` set ns \<and> fst n < k"
  by (auto simp: nodes_ok_def)

lemma live_iff: "nodes_ok (book_nodes b) k \<Longrightarrow> live b p = Some e \<longleftrightarrow> (p, e) \<in> set (book_nodes b)"
  by (auto simp: live_def nodes_ok_def)

lemma deref_live: "live b p = Some e \<Longrightarrow> deref b p = Inr e"
  by (simp add: deref_def)

lemma deref_Inr [simp]: "deref b p = Inr e \<longleftrightarrow> live b p = Some e"
  by (auto simp: deref_def split: option.splits)

lemma book_ok_live: "book_ok b \<Longrightarrow> live b p = Some e \<longleftrightarrow> (p, e) \<in> set (book_nodes b)"
  by (auto simp: book_ok_def live_iff)

lemma book_ok_index:
  "book_ok b \<Longrightarrow> umap_find (userOrders b) u = Some ps \<Longrightarrow> p \<in> set ps \<Longrightarrow>
    \<exists>e. live b p = Some e \<and> username e = u"
  by (auto simp: book_ok_live) (auto simp: book_ok_def index_ok_def)

lemma product_nodes_subset: "set (product_nodes b k) \<subseteq> set (book_nodes b)"
  unfolding product_nodes_def umap_index_def book_nodes_def umap_find_def
  by (cases "map_of (orderMap b) k") (auto dest!: map_of_SomeD)

lemma find_product_nodes: "umap_find (orderMap b) k = Some ns \<Longrightarrow> product_nodes b k = ns"
  by (simp add: product_nodes_def umap_index_def)

lemma list_ok_product_nodes: "book_ok b \<Longrightarrow> list_ok k (product_nodes b k)"
  by (cases "umap_find (orderMap b) k")
    (simp_all add: book_ok_def product_nodes_def umap_index_def list_ok_def)

lemma mset_concat_put:
  "umap_wf m \<Longrightarrow>
    mset (concat (map snd (umap_put k v m))) + mset (umap_index [] m k) = mset (concat (map snd m)) + mset v"
proof (induction m)
  case (Cons p m)
  obtain j w where p: "p = (j, w)" by fastforce
  show ?case
  proof (cases "j = k")
    case True
    with Cons.prems have "k \<notin> fst ` set m" by (auto simp: umap_wf_def p)
    then show ?thesis by (auto simp: p True umap_put_def umap_index_def umap_find_def)
  next
    case False
    have "umap_wf m" using Cons.prems by (simp add: umap_wf_def)
    from Cons.IH [OF this] show ?thesis
      using False by (simp add: p umap_put_def umap_index_def umap_find_def ac_simps)
  qed
qed (simp add: umap_put_def umap_index_def)

lemma mset_nodes_put:
  "umap_wf (orderMap b) \<Longrightarrow>
    mset (book_nodes (b\<lparr>orderMap := umap_put k ns (orderMap b)\<rparr>)) + mset (product_nodes b k)
      = mset (book_nodes b) + mset ns"
  by (simp add: book_nodes_def product_nodes_def mset_concat_put)

section \<open>Insertion\<close>

lemma takeWhile_rev_split:
  assumes "l = takeWhile P (rev ns)"
  shows "ns = take (length ns - length l) ns @ rev l"
    and "length l < length ns \<Longrightarrow> \<not> P (ns ! (length ns - length l - 1))"
proof -
  have l: "l = take (length l) (rev ns)" by (metis assms takeWhile_eq_take)
  have len: "length l \<le> length ns" by (metis assms length_rev length_takeWhile_le)
  have "rev l = rev (take (length l) (rev ns))" using l by simp
  also have "\<dots> = drop (length ns - length l) ns" by (simp add: rev_take)
  finally show "ns = take (length ns - length l) ns @ rev l"
    by (metis append_take_drop_id)
  assume lt: "length l < length ns"
  then have "length (takeWhile P (rev ns)) < length (rev ns)" using assms by simp
  then have "\<not> P (rev ns ! length l)" using nth_length_takeWhile assms by blast
  then show "\<not> P (ns ! (length ns - length l - 1))"
    using lt by (simp add: rev_nth)
qed

lemma insert_late_mset: "mset (insert_late n ns) = add_mset n (mset ns)"
proof -
  have "mset (take k ns) + mset (drop k ns) = mset ns" for k
    by (metis append_take_drop_id mset_append)
  then show ?thesis by (simp add: insert_late_def Let_def)
qed

lemma insert_node_mset: "mset (insert_node n ns) = add_mset n (mset ns)"
  by (simp add: insert_node_def insert_late_mset)

lemma insert_node_set: "set (insert_node n ns) = insert n (set ns)"
  by (metis insert_node_mset set_mset_add_mset_insert set_mset_mset)

text \<open>
  The reference: insert behind every order whose timestamp is not later. Both paths of the
  code compute it on a sorted list, so time priority within a timestamp is arrival order.
\<close>

definition insert_spec :: "node \<Rightarrow> node list \<Rightarrow> node list" where
  "insert_spec n ns =
    filter (\<lambda>m. timestamp (snd m) \<le> timestamp (snd n)) ns @ n #
    filter (\<lambda>m. timestamp (snd n) < timestamp (snd m)) ns"

lemma sorted_split_filter:
  fixes f :: "'a \<Rightarrow> 'b::linorder"
  assumes "ns = xs @ ys" and "\<forall>x\<in>set xs. f x \<le> t" and "\<forall>y\<in>set ys. t < f y"
  shows "filter (\<lambda>m. f m \<le> t) ns = xs" and "filter (\<lambda>m. t < f m) ns = ys"
  using assms by (auto simp: filter_id_conv filter_empty_conv not_le not_less)

lemma insert_node_spec:
  assumes "sorted (map (\<lambda>n. timestamp (snd n)) ns)"
  shows "insert_node n ns = insert_spec n ns"
proof -
  let ?f = "\<lambda>n :: node. timestamp (snd n)"
  show ?thesis
  proof (cases "ns = [] \<or> ?f (last ns) \<le> ?f n")
    case True
    have all: "\<forall>x\<in>set ns. ?f x \<le> ?f n"
    proof (cases "ns = []")
      case False
      have "?f x \<le> ?f (last ns)" if "x \<in> set ns" for x
      proof -
        from that obtain i where "i < length ns" "ns ! i = x" by (auto simp: in_set_conv_nth)
        then show ?thesis
          using sorted_nth_mono [OF assms, of i "length ns - 1"] False by (simp add: last_conv_nth)
      qed
      with True False show ?thesis by (meson order_trans)
    qed simp
    have "insert_spec n ns = ns @ [n]"
      unfolding insert_spec_def
      using sorted_split_filter [of ns ns "[]" ?f "?f n"] all by auto
    then show ?thesis using True by (auto simp: insert_node_def)
  next
    case False
    let ?P = "\<lambda>(_, e). timestamp (snd n) < timestamp e"
    define l where "l = takeWhile ?P (rev ns)"
    note sp = takeWhile_rev_split [OF l_def]
    let ?k = "length ns - length l"
    have later: "\<forall>y\<in>set (rev l). ?f n < ?f y"
      using set_takeWhileD unfolding l_def by fastforce
    have early: "\<forall>x\<in>set (take ?k ns). ?f x \<le> ?f n"
    proof
      fix x assume "x \<in> set (take ?k ns)"
      then obtain i where i: "i < ?k" "x = ns ! i" by (auto simp: in_set_conv_nth)
      then have "\<not> ?P (ns ! (?k - 1))" by (intro sp(2)) simp
      then have "?f (ns ! (?k - 1)) \<le> ?f n" by (auto simp: not_less split: prod.splits)
      moreover have "?f (ns ! i) \<le> ?f (ns ! (?k - 1))"
        using sorted_nth_mono [OF assms, of i "?k - 1"] i by simp
      ultimately show "?f x \<le> ?f n" using i by (meson order_trans)
    qed
    have dr: "drop ?k ns = rev l"
      by (metis sp(1) append_take_drop_id same_append_eq)
    have "insert_spec n ns = take ?k ns @ n # rev l"
      unfolding insert_spec_def using sorted_split_filter [OF sp(1) early later] by simp
    then show ?thesis
      using False dr by (simp add: insert_node_def insert_late_def Let_def l_def [symmetric])
  qed
qed

lemma sorted_insert_spec:
  "sorted (map (\<lambda>n. timestamp (snd n)) ns) \<Longrightarrow> sorted (map (\<lambda>n. timestamp (snd n)) (insert_spec n ns))"
  by (auto simp: insert_spec_def sorted_append sorted_filter intro: order_trans less_imp_le)

lemma list_ok_insert: "list_ok (product (snd n)) ns \<Longrightarrow> list_ok (product (snd n)) (insert_node n ns)"
  unfolding list_ok_def insert_node_set
  by (metis insert_iff insert_node_spec sorted_insert_spec)

lemma insertOrder_nodes:
  "umap_wf (orderMap b) \<Longrightarrow>
    mset (book_nodes (insertOrder e b)) = add_mset (next_addr b, e) (mset (book_nodes b))"
  using mset_nodes_put [of b "product e" "insert_node (next_addr b, e) (product_nodes b (product e))"]
  by (simp add: insertOrder_def insert_node_mset book_nodes_def)

lemma insertOrder_set_nodes:
  "umap_wf (orderMap b) \<Longrightarrow> set (book_nodes (insertOrder e b)) = insert (next_addr b, e) (set (book_nodes b))"
  using insertOrder_nodes [of b e] by (metis set_mset_add_mset_insert set_mset_mset)

lemma insertOrder_fields [simp]:
  "product_nodes (insertOrder e b) k =
    (if k = product e then insert_node (next_addr b, e) (product_nodes b k) else product_nodes b k)"
  "user_ptrs (insertOrder e b) u =
    (if u = username e then user_ptrs b u @ [next_addr b] else user_ptrs b u)"
  "finalizedSales (insertOrder e b) = finalizedSales b"
  "next_addr (insertOrder e b) = Suc (next_addr b)"
  by (auto simp: insertOrder_def product_nodes_def user_ptrs_def umap_index_def)

lemma insertOrder_ok:
  assumes ok: "book_ok b" and fresh: "order_id e \<notin> (\<lambda>n. order_id (snd n)) ` set (book_nodes b)"
  shows "book_ok (insertOrder e b)"
proof -
  let ?b = "insertOrder e b" and ?n = "(next_addr b, e)"
  have wf: "umap_wf (orderMap b)" "umap_wf (userOrders b)"
    and nodes: "nodes_ok (book_nodes b) (next_addr b)" and ix: "index_ok b"
    using ok by (auto simp: book_ok_def)
  have less: "\<forall>n\<in>set (book_nodes b). fst n < next_addr b" using nodes by (simp add: nodes_ok_def)
  have "nodes_ok (?n # book_nodes b) (Suc (next_addr b))"
    using nodes fresh less by (fastforce simp: nodes_ok_def)
  then have n': "nodes_ok (book_nodes ?b) (next_addr ?b)"
    using nodes_ok_mset [of "book_nodes ?b" "?n # book_nodes b"] insertOrder_nodes [OF wf(1)] by simp
  have l': "list_ok k ns" if "umap_find (orderMap ?b) k = Some ns" for k ns
  proof (cases "k = product e")
    case True
    then have "ns = insert_node ?n (product_nodes b k)" using that by (simp add: insertOrder_def)
    then show ?thesis using True list_ok_insert [of ?n] list_ok_product_nodes [OF ok] by simp
  next
    case False
    then show ?thesis using that ok by (simp add: insertOrder_def book_ok_def)
  qed
  have "index_ok ?b"
    unfolding index_ok_def
  proof (intro allI impI)
    fix u ps assume f: "umap_find (userOrders ?b) u = Some ps"
    show "ps \<noteq> [] \<and> distinct ps \<and> (\<forall>p\<in>set ps. \<exists>e. (p, e) \<in> set (book_nodes ?b) \<and> username e = u)"
    proof (cases "u = username e")
      case True
      then have ps: "ps = user_ptrs b u @ [next_addr b]" using f by (simp add: insertOrder_def)
      have old: "distinct (user_ptrs b u) \<and>
          (\<forall>p\<in>set (user_ptrs b u). \<exists>e. (p, e) \<in> set (book_nodes b) \<and> username e = u)"
        using ix by (auto simp: user_ptrs_def umap_index_def index_ok_def split: option.splits)
      then have "next_addr b \<notin> set (user_ptrs b u)" using less by fastforce
      then show ?thesis
        using old True unfolding ps insertOrder_set_nodes [OF wf(1)] by auto
    next
      case False
      then show ?thesis
        using f ix unfolding insertOrder_set_nodes [OF wf(1)]
        by (simp add: insertOrder_def index_ok_def) blast
    qed
  qed
  then show ?thesis
    using wf n' l' unfolding book_ok_def by (simp add: insertOrder_def umap.wf_put)
qed

section \<open>Reads through the index are safe\<close>

lemma getOrdersForUser_ok:
  assumes "book_ok b"
  shows "getOrdersForUser b u = Inr (map (\<lambda>p. the (live b p)) (user_ptrs b u))"
proof (cases "umap_find (userOrders b) u")
  case (Some ps)
  have "map_res (deref b) ps = Inr (map (\<lambda>p. the (live b p)) ps)"
    using book_ok_index [OF assms Some] by (intro map_res_total) fastforce
  then show ?thesis by (simp add: getOrdersForUser_def Some user_ptrs_def umap_index_def)
qed (simp add: getOrdersForUser_def user_ptrs_def umap_index_def)

lemma find_ptr_live:
  assumes "\<forall>p\<in>set ps. \<exists>e. live b p = Some e"
  shows "find_ptr b oid ps = Inr None \<and> (\<forall>p\<in>set ps. \<forall>e. live b p = Some e \<longrightarrow> order_id e \<noteq> oid) \<or>
    (\<exists>i e. find_ptr b oid ps = Inr (Some i) \<and> i < length ps \<and> live b (ps ! i) = Some e \<and> order_id e = oid)"
  using assms
proof (induction ps)
  case (Cons p ps)
  then obtain e where e: "live b p = Some e" by auto
  show ?case
  proof (cases "order_id e = oid")
    case True
    then show ?thesis using e by (intro disjI2 exI [of _ 0] exI [of _ e]) (simp add: deref_live)
  next
    case False
    from Cons have "find_ptr b oid ps = Inr None \<and> (\<forall>p\<in>set ps. \<forall>e. live b p = Some e \<longrightarrow> order_id e \<noteq> oid) \<or>
      (\<exists>i e. find_ptr b oid ps = Inr (Some i) \<and> i < length ps \<and> live b (ps ! i) = Some e \<and> order_id e = oid)"
      by simp
    then show ?thesis
    proof
      assume "find_ptr b oid ps = Inr None \<and> (\<forall>p\<in>set ps. \<forall>e. live b p = Some e \<longrightarrow> order_id e \<noteq> oid)"
      then show ?thesis using e False by (auto simp: deref_live)
    next
      assume "\<exists>i e. find_ptr b oid ps = Inr (Some i) \<and> i < length ps \<and> live b (ps ! i) = Some e \<and> order_id e = oid"
      then obtain i e' where "find_ptr b oid ps = Inr (Some i)" "i < length ps"
        "live b (ps ! i) = Some e'" "order_id e' = oid" by blast
      then show ?thesis
        using e False by (intro disjI2 exI [of _ "Suc i"] exI [of _ e']) (auto simp: deref_live)
    qed
  qed
qed simp

lemma remove_ptrs_live:
  assumes "\<forall>p\<in>set ps. \<exists>e. live b p = Some e"
  shows "remove_ptrs b oid ps = Inr (filter (\<lambda>p. order_id (the (live b p)) \<noteq> oid) ps)"
  using assms by (induction ps) (auto simp: deref_def)

section \<open>Removal\<close>

text \<open>
  \<open>unlink b p e b'\<close>: the node \<open>p\<close> with the order \<open>e\<close> is gone from its list and from
  the index of its user, and nothing else has changed.
\<close>

definition unlink :: "book \<Rightarrow> addr \<Rightarrow> entry \<Rightarrow> book \<Rightarrow> bool" where
  "unlink b p e b' \<longleftrightarrow>
    mset (book_nodes b) = add_mset (p, e) (mset (book_nodes b')) \<and>
    (\<forall>k. k \<noteq> product e \<longrightarrow> product_nodes b' k = product_nodes b k) \<and>
    (\<forall>u. user_ptrs b' u = filter (\<lambda>q. q \<noteq> p) (user_ptrs b u)) \<and>
    finalizedSales b' = finalizedSales b \<and> next_addr b' = next_addr b"

lemma node_in_product:
  assumes "book_ok b" and "(p, e) \<in> set (book_nodes b)"
  shows "umap_find (orderMap b) (product e) = Some (product_nodes b (product e))"
    and "(p, e) \<in> set (product_nodes b (product e))"
proof -
  have wf: "umap_wf (orderMap b)" using assms by (simp add: book_ok_def)
  from assms(2) obtain k ns where k: "(k, ns) \<in> set (orderMap b)" "(p, e) \<in> set ns"
    by (auto simp: book_nodes_def)
  then have f: "umap_find (orderMap b) k = Some ns"
    using wf by (simp add: umap_find_def umap_wf_def)
  then have "product e = k" using assms(1) k by (force simp: book_ok_def list_ok_def)
  with f k find_product_nodes [OF f]
  show "umap_find (orderMap b) (product e) = Some (product_nodes b (product e))"
    and "(p, e) \<in> set (product_nodes b (product e))" by auto
qed

lemma book_ok_same_id:
  "book_ok b \<Longrightarrow> (p, e) \<in> set (book_nodes b) \<Longrightarrow> (q, f) \<in> set (book_nodes b) \<Longrightarrow> order_id e = order_id f \<Longrightarrow>
    p = q \<and> e = f"
  using distinct_map_eq [of "\<lambda>n. order_id (snd n)" "book_nodes b" "(p, e)" "(q, f)"]
  by (auto simp: book_ok_def nodes_ok_def)

lemma book_ok_same_addr:
  "book_ok b \<Longrightarrow> (p, e) \<in> set (book_nodes b) \<Longrightarrow> (p, f) \<in> set (book_nodes b) \<Longrightarrow> e = f"
  using distinct_map_eq [of fst "book_nodes b" "(p, e)" "(p, f)"]
  by (auto simp: book_ok_def nodes_ok_def)

lemma erase_first_mset:
  "\<exists>x\<in>set xs. P x \<Longrightarrow> \<exists>x\<in>set xs. P x \<and> mset xs = add_mset x (mset (erase_first P xs))"
  by (induction xs) auto

lemma erase_first_sorted: "sorted (map f xs) \<Longrightarrow> sorted (map f (erase_first P xs))"
proof (induction xs)
  case (Cons x xs)
  have "set (erase_first P xs) \<subseteq> set xs" by (induction xs) auto
  with Cons show ?case by auto
qed simp

lemma erase_first_subset: "set (erase_first P xs) \<subseteq> set xs"
  by (induction xs) auto

lemma erase_first_list_ok: "list_ok k ns \<Longrightarrow> list_ok k (erase_first P ns)"
  by (auto simp: list_ok_def dest: subsetD [OF erase_first_subset] intro: erase_first_sorted)

lemma erase_nth_filter: "distinct xs \<Longrightarrow> i < length xs \<Longrightarrow> erase_nth i xs = filter (\<lambda>x. x \<noteq> xs ! i) xs"
proof -
  assume d: "distinct xs" and i: "i < length xs"
  have xs: "xs = take i xs @ xs ! i # drop (Suc i) xs" using i by (rule id_take_nth_drop)
  have "xs ! i \<notin> set (take i xs)" "xs ! i \<notin> set (drop (Suc i) xs)"
    using d by (subst (asm) xs, simp)+
  then have "filter (\<lambda>x. x \<noteq> xs ! i) (take i xs @ xs ! i # drop (Suc i) xs) = take i xs @ drop (Suc i) xs"
    by (subst filter_append, subst filter.simps, subst (1 2) filter_True) auto
  then show ?thesis using xs by (simp add: erase_nth_def)
qed

lemma put_user_ptrs_simps [simp]:
  "orderMap (put_user_ptrs u ps b) = orderMap b" "next_addr (put_user_ptrs u ps b) = next_addr b"
  "finalizedSales (put_user_ptrs u ps b) = finalizedSales b"
  "book_nodes (put_user_ptrs u ps b) = book_nodes b"
  "product_nodes (put_user_ptrs u ps b) k = product_nodes b k"
  "user_ptrs (put_user_ptrs u ps b) v = (if v = u then ps else user_ptrs b v)"
  by (auto simp: put_user_ptrs_def book_nodes_def product_nodes_def user_ptrs_def umap_index_def)

lemma umap_find_put_user_ptrs:
  "umap_find (userOrders (put_user_ptrs u ps b)) v =
    (if v = u then (if ps = [] then None else Some ps) else umap_find (userOrders b) v)"
  by (simp add: put_user_ptrs_def)

text \<open>An index entry points to its own user's orders, so erasing one node touches one vector only.\<close>

lemma user_ptrs_nodes:
  assumes "book_ok b"
  shows "distinct (user_ptrs b u)"
    and "p \<in> set (user_ptrs b u) \<Longrightarrow> \<exists>e. (p, e) \<in> set (book_nodes b) \<and> username e = u"
proof -
  have "distinct (user_ptrs b u) \<and>
      (\<forall>p\<in>set (user_ptrs b u). \<exists>e. (p, e) \<in> set (book_nodes b) \<and> username e = u)"
    using assms by (cases "umap_find (userOrders b) u")
      (simp_all add: user_ptrs_def umap_index_def book_ok_def index_ok_def)
  then show "distinct (user_ptrs b u)"
    and "p \<in> set (user_ptrs b u) \<Longrightarrow> \<exists>e. (p, e) \<in> set (book_nodes b) \<and> username e = u" by auto
qed

lemma index_ptr_user:
  "book_ok b \<Longrightarrow> (p, e) \<in> set (book_nodes b) \<Longrightarrow> p \<in> set (user_ptrs b u) \<Longrightarrow> username e = u"
  using user_ptrs_nodes(2) book_ok_same_addr by blast

lemma unlink_ok:
  assumes ok: "book_ok b" and un: "unlink b p e b'"
    and wf: "umap_wf (orderMap b')" "umap_wf (userOrders b')"
    and lists: "list_ok (product e) (product_nodes b' (product e))"
    and maps: "\<forall>k. umap_find (orderMap b') k \<noteq> None \<longrightarrow> umap_find (orderMap b) k \<noteq> None"
    and ixs: "\<forall>u. umap_find (userOrders b') u = (if user_ptrs b' u = [] then None else Some (user_ptrs b' u))"
  shows "book_ok b'"
proof -
  have ms: "mset (book_nodes b) = mset ((p, e) # book_nodes b')" using un by (simp add: unlink_def)
  have no: "nodes_ok ((p, e) # book_nodes b') (next_addr b)"
    using ok nodes_ok_mset [OF ms] by (simp add: book_ok_def)
  have set_eq: "set (book_nodes b) = insert (p, e) (set (book_nodes b'))"
    using ms by (metis list.simps(15) set_mset_mset)
  have "index_ok b'"
    unfolding index_ok_def
  proof (intro allI impI)
    fix u ps assume "umap_find (userOrders b') u = Some ps"
    then have ps: "ps = user_ptrs b' u" "ps \<noteq> []" using ixs by (auto split: if_splits)
    then have sub: "ps = filter (\<lambda>q. q \<noteq> p) (user_ptrs b u)" using un by (simp add: unlink_def)
    note old = user_ptrs_nodes(1) [OF ok, of u] user_ptrs_nodes(2) [OF ok, of _ u]
    then show "ps \<noteq> [] \<and> distinct ps \<and> (\<forall>p\<in>set ps. \<exists>e. (p, e) \<in> set (book_nodes b') \<and> username e = u)"
      using ps sub set_eq by fastforce
  qed
  moreover have "list_ok k ns" if "umap_find (orderMap b') k = Some ns" for k ns
  proof (cases "k = product e")
    case True
    then show ?thesis using lists find_product_nodes [OF that] by simp
  next
    case False
    then have "product_nodes b k = ns" using un find_product_nodes [OF that] by (simp add: unlink_def)
    then show ?thesis using list_ok_product_nodes [OF ok] by blast
  qed
  moreover have "nodes_ok (book_nodes b') (next_addr b')"
    using no un by (simp add: nodes_ok_Cons unlink_def)
  ultimately show ?thesis using wf by (simp add: book_ok_def)
qed

lemma index_find:
  "book_ok b \<Longrightarrow> umap_find (userOrders b) u = (if user_ptrs b u = [] then None else Some (user_ptrs b u))"
  by (auto simp: user_ptrs_def umap_index_def book_ok_def index_ok_def split: option.splits)

text \<open>
  \<open>removeOrderById\<close> removes exactly the user's order with that identifier; it reports
  success exactly when there is one, and otherwise changes nothing.
\<close>

lemma removeOrderById_cases:
  assumes ok: "book_ok b"
  obtains "removeOrderById u oid b = (Inr False, b)"
    "\<forall>p\<in>set (user_ptrs b u). order_id (the (live b p)) \<noteq> oid"
  | p e b' where "removeOrderById u oid b = (Inr True, b')" "p \<in> set (user_ptrs b u)"
    "live b p = Some e" "order_id e = oid" "username e = u" "unlink b p e b'" "book_ok b'"
proof (cases "umap_find (userOrders b) u")
  case None
  then show ?thesis
    by (intro that(1)) (simp_all add: removeOrderById_def user_ptrs_def umap_index_def)
next
  case (Some ps)
  have up: "user_ptrs b u = ps" by (simp add: user_ptrs_def umap_index_def Some)
  have "\<forall>p\<in>set ps. \<exists>e. live b p = Some e" using book_ok_index [OF ok Some] by blast
  from find_ptr_live [OF this, of oid] show ?thesis
  proof
    assume none: "find_ptr b oid ps = Inr None \<and> (\<forall>p\<in>set ps. \<forall>e. live b p = Some e \<longrightarrow> order_id e \<noteq> oid)"
    show ?thesis
    proof (rule that(1))
      show "removeOrderById u oid b = (Inr False, b)" using none Some by (simp add: removeOrderById_def)
      show "\<forall>p\<in>set (user_ptrs b u). order_id (the (live b p)) \<noteq> oid"
        using none book_ok_index [OF ok Some] by (fastforce simp: up)
    qed
  next
    assume "\<exists>i e. find_ptr b oid ps = Inr (Some i) \<and> i < length ps \<and> live b (ps ! i) = Some e \<and> order_id e = oid"
    then obtain i e where i: "find_ptr b oid ps = Inr (Some i)" "i < length ps"
      and e: "live b (ps ! i) = Some e" "order_id e = oid" by blast
    let ?p = "ps ! i" and ?k = "product e" and ?P = "\<lambda>n :: node. order_id (snd n) = oid"
    have inb: "(?p, e) \<in> set (book_nodes b)" using e ok by (simp add: book_ok_live)
    note pn = node_in_product [OF ok inb]
    let ?ns = "product_nodes b ?k"
    have ex: "\<exists>n\<in>set ?ns. ?P n" using pn e by force
    from erase_first_mset [OF ex] obtain n where n: "n \<in> set ?ns" "?P n"
      "mset ?ns = add_mset n (mset (erase_first ?P ?ns))" by blast
    have "n = (?p, e)"
    proof -
      have "n \<in> set (book_nodes b)" using n(1) product_nodes_subset by blast
      then show ?thesis using book_ok_same_id [OF ok inb, of "fst n" "snd n"] n(2) e by (cases n) auto
    qed
    note n' = n(3) [unfolded this]
    define b1 where "b1 = b\<lparr>orderMap := umap_put ?k (erase_first ?P ?ns) (orderMap b)\<rparr>"
    define b' where "b' = put_user_ptrs u (erase_nth i ps) b1"
    have rm: "removeOrderById u oid b = (Inr True, b')"
      using Some i e pn(1) ex by (simp add: removeOrderById_def deref_live b'_def b1_def)
    have wf: "umap_wf (orderMap b)" "umap_wf (userOrders b)" using ok by (auto simp: book_ok_def)
    have "mset (book_nodes b1) + mset ?ns = mset (book_nodes b) + mset (erase_first ?P ?ns)"
      unfolding b1_def by (rule mset_nodes_put [OF wf(1)])
    then have ms: "mset (book_nodes b) = add_mset (?p, e) (mset (book_nodes b'))"
      unfolding n' by (simp add: b'_def)
    have ps: "distinct ps" using ok Some by (auto simp: book_ok_def index_ok_def)
    have user: "username e = u" using book_ok_index [OF ok Some, of ?p] i(2) e by auto
    have uptr: "user_ptrs b' v = filter (\<lambda>q. q \<noteq> ?p) (user_ptrs b v)" for v
    proof (cases "v = u")
      case True
      then show ?thesis using erase_nth_filter [OF ps i(2)] up by (simp add: b'_def)
    next
      case False
      then have "?p \<notin> set (user_ptrs b v)" using index_ptr_user [OF ok inb, of v] user by blast
      then have "filter (\<lambda>q. q \<noteq> ?p) (user_ptrs b v) = user_ptrs b v" by (auto simp: filter_id_conv)
      moreover have "user_ptrs b' v = user_ptrs b v"
        using False by (simp add: b'_def) (simp add: b1_def user_ptrs_def)
      ultimately show ?thesis by simp
    qed
    have un: "unlink b ?p e b'"
      using ms uptr by (simp add: unlink_def b'_def b1_def product_nodes_def umap_index_def)
    have "book_ok b'"
    proof (rule unlink_ok [OF ok un])
      show "umap_wf (orderMap b')" using wf by (simp add: b'_def b1_def umap.wf_put)
      show "umap_wf (userOrders b')"
        using wf by (simp add: b'_def b1_def put_user_ptrs_def umap.wf_put umap.wf_erase)
      have "product_nodes b' ?k = erase_first ?P ?ns"
        by (simp add: b'_def b1_def product_nodes_def [of "_\<lparr>orderMap := _\<rparr>"] umap_index_def)
      then show "list_ok ?k (product_nodes b' ?k)"
        using erase_first_list_ok [OF list_ok_product_nodes [OF ok]] by simp
      show "\<forall>k. umap_find (orderMap b') k \<noteq> None \<longrightarrow> umap_find (orderMap b) k \<noteq> None"
        using pn(1) by (auto simp: b'_def b1_def)
      show "\<forall>v. umap_find (userOrders b') v = (if user_ptrs b' v = [] then None else Some (user_ptrs b' v))"
      proof
        fix v
        have "user_ptrs b1 v = user_ptrs b v" by (simp add: b1_def user_ptrs_def)
        then show "umap_find (userOrders b') v = (if user_ptrs b' v = [] then None else Some (user_ptrs b' v))"
          using index_find [OF ok, of v] unfolding b'_def
          by (simp add: umap_find_put_user_ptrs) (simp add: b1_def)
      qed
    qed
    then show ?thesis
      using that(2) [OF rm _ e(1) e(2) user un] i(2) up by simp
  qed
qed

text \<open>Removing an order from the index of its user reads live pointers only.\<close>

lemma removeFromUserIndex_ok:
  assumes ok: "book_ok b" and n: "(p, e) \<in> set (book_nodes b)"
  shows "removeFromUserIndex (username e) (order_id e) b =
    (Inr (), if user_ptrs b (username e) = [] then b
       else put_user_ptrs (username e) (filter (\<lambda>q. q \<noteq> p) (user_ptrs b (username e))) b)"
proof -
  let ?u = "username e" and ?ps = "user_ptrs b (username e)"
  have ptr: "\<exists>f. live b q = Some f \<and> (q, f) \<in> set (book_nodes b)" if "q \<in> set ?ps" for q
    using user_ptrs_nodes(2) [OF ok that] book_ok_live [OF ok] by blast
  have "remove_ptrs b (order_id e) ?ps = Inr (filter (\<lambda>q. order_id (the (live b q)) \<noteq> order_id e) ?ps)"
    using ptr by (intro remove_ptrs_live) blast
  also have "filter (\<lambda>q. order_id (the (live b q)) \<noteq> order_id e) ?ps = filter (\<lambda>q. q \<noteq> p) ?ps"
  proof (rule filter_cong [OF refl])
    fix q assume "q \<in> set ?ps"
    then obtain f where f: "live b q = Some f" "(q, f) \<in> set (book_nodes b)" using ptr by blast
    show "(order_id (the (live b q)) \<noteq> order_id e) = (q \<noteq> p)"
      using book_ok_same_id [OF ok f(2) n] book_ok_same_addr [OF ok, of p e f] f n by auto
  qed
  finally show ?thesis
    using index_find [OF ok, of ?u] by (simp add: removeFromUserIndex_def)
qed

lemma put_node_list_ok:
  assumes ok: "book_ok b" and ns: "umap_find (orderMap b) pr = Some (kept @ (p, e) # rest)"
  defines "b1 \<equiv> if user_ptrs b (username e) = [] then b
       else put_user_ptrs (username e) (filter (\<lambda>q. q \<noteq> p) (user_ptrs b (username e))) b"
  defines "b' \<equiv> b1\<lparr>orderMap := umap_put pr (kept @ rest) (orderMap b1)\<rparr>"
  shows "unlink b p e b' \<and> book_ok b' \<and> product_nodes b' pr = kept @ rest \<and> product e = pr
    \<and> umap_find (orderMap b') pr = Some (kept @ rest)"
proof -
  have wf: "umap_wf (orderMap b)" "umap_wf (userOrders b)" using ok by (auto simp: book_ok_def)
  have pn: "product_nodes b pr = kept @ (p, e) # rest" by (rule find_product_nodes [OF ns])
  have lok: "list_ok pr (kept @ (p, e) # rest)" using list_ok_product_nodes [OF ok, of pr] pn by simp
  then have pr: "product e = pr" by (simp add: list_ok_def)
  have inb: "(p, e) \<in> set (book_nodes b)" using pn product_nodes_subset [of b pr] by auto
  have om: "orderMap b1 = orderMap b" by (simp add: b1_def)
  have "mset (book_nodes (b1\<lparr>orderMap := umap_put pr (kept @ rest) (orderMap b1)\<rparr>)) + mset (product_nodes b1 pr)
      = mset (book_nodes b1) + mset (kept @ rest)"
    using wf om by (intro mset_nodes_put) simp
  moreover have "product_nodes b1 pr = product_nodes b pr" "book_nodes b1 = book_nodes b"
    by (simp_all add: b1_def)
  ultimately have ms: "mset (book_nodes b) = add_mset (p, e) (mset (book_nodes b'))"
    using pn by (simp add: b'_def)
  have other: "filter (\<lambda>q. q \<noteq> p) (user_ptrs b v) = user_ptrs b v" if "v \<noteq> username e" for v
  proof -
    have "p \<notin> set (user_ptrs b v)" using index_ptr_user [OF ok inb, of v] that by blast
    then show ?thesis by (auto simp: filter_id_conv)
  qed
  have uptr1: "user_ptrs b1 v = filter (\<lambda>q. q \<noteq> p) (user_ptrs b v)" for v
    using other [of v] by (auto simp: b1_def)
  then have uptr: "user_ptrs b' v = filter (\<lambda>q. q \<noteq> p) (user_ptrs b v)" for v
    by (simp add: b'_def user_ptrs_def)
  have pnb': "product_nodes b' pr = kept @ rest" by (simp add: b'_def product_nodes_def umap_index_def)
  have un: "unlink b p e b'"
    unfolding unlink_def using ms uptr om pr
    by (simp add: b'_def product_nodes_def umap_index_def) (simp add: b1_def)
  have "book_ok b'"
  proof (rule unlink_ok [OF ok un])
    show "umap_wf (orderMap b')" using wf om by (simp add: b'_def umap.wf_put)
    show "umap_wf (userOrders b')"
      using wf by (auto simp: b'_def b1_def put_user_ptrs_def umap.wf_put umap.wf_erase)
    show "list_ok (product e) (product_nodes b' (product e))"
      using lok unfolding pr pnb' by (auto simp: list_ok_def sorted_append)
    show "\<forall>k. umap_find (orderMap b') k \<noteq> None \<longrightarrow> umap_find (orderMap b) k \<noteq> None"
      using ns om by (auto simp: b'_def)
    show "\<forall>v. umap_find (userOrders b') v = (if user_ptrs b' v = [] then None else Some (user_ptrs b' v))"
    proof
      fix v
      show "umap_find (userOrders b') v = (if user_ptrs b' v = [] then None else Some (user_ptrs b' v))"
        using index_find [OF ok, of v] other [of v] unfolding uptr
        by (auto simp: b'_def b1_def umap_find_put_user_ptrs)
    qed
  qed
  then show ?thesis using un pnb' pr by (simp add: b'_def)
qed

text \<open>What \<open>removeMatchedOrders\<close> leaves: the orders with something left to fill.\<close>

definition pruned :: "string \<Rightarrow> book \<Rightarrow> book \<Rightarrow> bool" where
  "pruned pr b b' \<longleftrightarrow>
    product_nodes b' pr = filter (\<lambda>n. \<not> amount (snd n) \<le> 0) (product_nodes b pr) \<and>
    (\<forall>k. k \<noteq> pr \<longrightarrow> product_nodes b' k = product_nodes b k) \<and>
    (\<forall>u. user_ptrs b' u = filter (\<lambda>p. \<forall>e. (p, e) \<in> set (product_nodes b pr) \<longrightarrow> \<not> amount e \<le> 0) (user_ptrs b u)) \<and>
    finalizedSales b' = finalizedSales b \<and> next_addr b' = next_addr b"

lemma remove_matched_loop_ok:
  assumes "book_ok b" and "umap_find (orderMap b) pr = Some (kept @ rest)"
  shows "\<exists>b'. remove_matched_loop pr kept rest b = (Inr (), b') \<and> book_ok b' \<and>
    product_nodes b' pr = kept @ filter (\<lambda>n. \<not> amount (snd n) \<le> 0) rest \<and>
    (\<forall>k. k \<noteq> pr \<longrightarrow> product_nodes b' k = product_nodes b k) \<and>
    (\<forall>u. user_ptrs b' u = filter (\<lambda>p. \<forall>e. (p, e) \<in> set rest \<longrightarrow> \<not> amount e \<le> 0) (user_ptrs b u)) \<and>
    finalizedSales b' = finalizedSales b \<and> next_addr b' = next_addr b"
  using assms
proof (induction rest arbitrary: kept b)
  case Nil
  then show ?case by (simp add: find_product_nodes)
next
  case (Cons n rest)
  obtain p e where n: "n = (p, e)" by fastforce
  show ?case
  proof (cases "amount e \<le> 0")
    case False
    have "umap_find (orderMap b) pr = Some ((kept @ [n]) @ rest)" using Cons.prems by simp
    from Cons.IH [OF Cons.prems(1) this] show ?thesis using False by (auto simp: n)
  next
    case True
    define b1 where "b1 = (if user_ptrs b (username e) = [] then b
       else put_user_ptrs (username e) (filter (\<lambda>q. q \<noteq> p) (user_ptrs b (username e))) b)"
    define b2 where "b2 = b1\<lparr>orderMap := umap_put pr (kept @ rest) (orderMap b1)\<rparr>"
    have "umap_find (orderMap b) pr = Some (kept @ (p, e) # rest)" using Cons.prems(2) n by simp
    note st = put_node_list_ok [OF Cons.prems(1) this, folded b1_def, folded b2_def]
    have inb: "(p, e) \<in> set (book_nodes b)"
      using find_product_nodes [OF Cons.prems(2)] product_nodes_subset [of b pr] n by auto
    have "remove_matched_loop pr kept (n # rest) b = remove_matched_loop pr kept rest b2"
      using True removeFromUserIndex_ok [OF Cons.prems(1) inb]
      by (simp add: n bind_act_def b2_def b1_def)
    moreover from Cons.IH [of b2 kept] st obtain b' where
      b': "remove_matched_loop pr kept rest b2 = (Inr (), b')" "book_ok b'"
      "product_nodes b' pr = kept @ filter (\<lambda>n. \<not> amount (snd n) \<le> 0) rest"
      "\<forall>k. k \<noteq> pr \<longrightarrow> product_nodes b' k = product_nodes b2 k"
      "\<forall>u. user_ptrs b' u = filter (\<lambda>p. \<forall>e. (p, e) \<in> set rest \<longrightarrow> \<not> amount e \<le> 0) (user_ptrs b2 u)"
      "finalizedSales b' = finalizedSales b2 \<and> next_addr b' = next_addr b2" by blast
    moreover have un: "unlink b p e b2" using st by blast
    moreover have "filter (\<lambda>q. \<forall>e. (q, e) \<in> set rest \<longrightarrow> \<not> amount e \<le> 0) (filter (\<lambda>q. q \<noteq> p) ps)
      = filter (\<lambda>q. \<forall>e. (q, e) \<in> set (n # rest) \<longrightarrow> \<not> amount e \<le> 0) ps" for ps
      unfolding filter_filter using True by (intro filter_cong) (auto simp: n)
    ultimately show ?thesis
      using True st by (auto simp: n unlink_def)
  qed
qed

lemma removeMatchedOrders_ok:
  assumes "book_ok b"
  shows "\<exists>b'. removeMatchedOrders pr b = (Inr (), b') \<and> book_ok b' \<and> pruned pr b b'"
proof (cases "umap_find (orderMap b) pr")
  case None
  then show ?thesis using assms
    by (simp add: removeMatchedOrders_def pruned_def product_nodes_def umap_index_def)
next
  case (Some ns)
  then show ?thesis
    using remove_matched_loop_ok [OF assms, of pr "[]" ns]
    by (simp add: removeMatchedOrders_def pruned_def find_product_nodes)
qed

section \<open>Writing amounts through pointers\<close>

text \<open>
  The interface the matching loops use: reading an order through a pointer and assigning
  to its \<open>amount\<close>. \<open>writes\<close> is any number of such assignments.
\<close>

inductive writes :: "(addr \<Rightarrow> double \<Rightarrow> 's \<Rightarrow> 's) \<Rightarrow> 's \<Rightarrow> 's \<Rightarrow> bool" for wr where
  writes_refl [intro]: "writes wr s s"
| writes_step: "writes wr s s' \<Longrightarrow> writes wr s (wr p v s')"

lemma writes_trans: "writes wr s' s'' \<Longrightarrow> writes wr s s' \<Longrightarrow> writes wr s s''"
  by (induction rule: writes.induct) (auto intro: writes_step)

lemma writes_one [intro]: "writes wr s (wr p v s)" "writes wr s (wr p v (wr q w s))"
  by (auto intro: writes_step)

locale node_store =
  fixes rd :: "'s \<Rightarrow> addr \<Rightarrow> entry option"
    and wr :: "addr \<Rightarrow> double \<Rightarrow> 's \<Rightarrow> 's"
  assumes rd_wr: "rd (wr p v s) q = map_option (\<lambda>e. if q = p then e\<lparr>amount := v\<rparr> else e) (rd s q)"
begin

lemma writes_live: "writes wr s s' \<Longrightarrow> rd s' p = None \<longleftrightarrow> rd s p = None"
  by (induction rule: writes.induct) (auto simp: rd_wr)

text \<open>Only amounts change.\<close>

lemma writes_read:
  "writes wr s s' \<Longrightarrow> rd s p = Some e \<Longrightarrow> \<exists>v. rd s' p = Some (e\<lparr>amount := v\<rparr>)"
proof (induction rule: writes.induct)
  case writes_refl
  then show ?case by (intro exI [of _ "amount e"]) simp
next
  case (writes_step s s' q w)
  then obtain v where "rd s' p = Some (e\<lparr>amount := v\<rparr>)" by blast
  then show ?case by (cases "p = q") (auto simp: rd_wr)
qed

lemma writes_invariant:
  "writes wr s s' \<Longrightarrow> P s \<Longrightarrow> (\<And>s p v. P s \<Longrightarrow> P (wr p v s)) \<Longrightarrow> P s'"
  by (induction rule: writes.induct) auto

end

lemma map_of_set_node_amount:
  "map_of (map (set_node_amount p v) ns) q = map_option (\<lambda>e. if q = p then e\<lparr>amount := v\<rparr> else e) (map_of ns q)"
  by (induction ns) (auto simp: set_node_amount_def)

lemma book_nodes_set_amount [simp]:
  "book_nodes (set_amount p v b) = map (set_node_amount p v) (book_nodes b)"
  by (simp add: book_nodes_def set_amount_def map_concat comp_def case_prod_beta)

lemma umap_find_map: "umap_find (map (\<lambda>(k, v). (k, f v)) m) j = map_option f (umap_find m j)"
  by (induction m) (auto simp: umap_find_def)

lemma product_nodes_set_amount [simp]:
  "product_nodes (set_amount p v b) k = map (set_node_amount p v) (product_nodes b k)"
  by (cases "umap_find (orderMap b) k")
    (simp_all add: product_nodes_def umap_index_def set_amount_def umap_find_map)

lemma set_amount_fields [simp]:
  "userOrders (set_amount p v b) = userOrders b" "next_addr (set_amount p v b) = next_addr b"
  "finalizedSales (set_amount p v b) = finalizedSales b" "user_ptrs (set_amount p v b) u = user_ptrs b u"
  by (simp_all add: set_amount_def user_ptrs_def)

interpretation nodes: node_store live set_amount
  by unfold_locales (simp add: live_def map_of_set_node_amount)

lemma set_node_amount_fields [simp]:
  "fst (set_node_amount p v n) = fst n" "order_id (snd (set_node_amount p v n)) = order_id (snd n)"
  "product (snd (set_node_amount p v n)) = product (snd n)"
  "timestamp (snd (set_node_amount p v n)) = timestamp (snd n)"
  "price (snd (set_node_amount p v n)) = price (snd n)"
  "orderType (snd (set_node_amount p v n)) = orderType (snd n)"
  "username (snd (set_node_amount p v n)) = username (snd n)"
  by (cases n; auto simp: set_node_amount_def)+

lemma list_ok_set_node_amount: "list_ok k ns \<Longrightarrow> list_ok k (map (set_node_amount p v) ns)"
  by (simp add: list_ok_def comp_def)

lemma set_amount_ok:
  assumes "book_ok b"
  shows "book_ok (set_amount p v b)"
proof -
  have "umap_wf (orderMap (set_amount p v b))"
    using assms by (simp add: book_ok_def umap_wf_def set_amount_def comp_def case_prod_beta)
  moreover have "nodes_ok (book_nodes (set_amount p v b)) (next_addr b)"
    using assms by (simp add: book_ok_def nodes_ok_def comp_def)
  moreover have "list_ok k ns" if "umap_find (orderMap (set_amount p v b)) k = Some ns" for k ns
  proof -
    from that obtain z where "umap_find (orderMap b) k = Some z" "ns = map (set_node_amount p v) z"
      by (auto simp: set_amount_def umap_find_map)
    then show ?thesis using assms list_ok_set_node_amount by (auto simp: book_ok_def)
  qed
  moreover have "index_ok (set_amount p v b)"
    unfolding index_ok_def
  proof (intro allI impI)
    fix u ps assume "umap_find (userOrders (set_amount p v b)) u = Some ps"
    then have f: "umap_find (userOrders b) u = Some ps" by simp
    have "\<exists>e. (q, e) \<in> set (book_nodes (set_amount p v b)) \<and> username e = u" if q: "q \<in> set ps" for q
    proof -
      obtain e where e: "(q, e) \<in> set (book_nodes b)" "username e = u"
        using book_ok_index [OF assms f q] live_iff book_ok_live [OF assms] by blast
      let ?n = "set_node_amount p v (q, e)"
      have "?n \<in> set (book_nodes (set_amount p v b))" using e(1) by simp
      moreover have "?n = (q, snd ?n)" by (simp add: prod_eq_iff)
      moreover have "username (snd ?n) = u" using e by simp
      ultimately show ?thesis by metis
    qed
    then show "ps \<noteq> [] \<and> distinct ps \<and> (\<forall>q\<in>set ps. \<exists>e. (q, e) \<in> set (book_nodes (set_amount p v b)) \<and> username e = u)"
      using assms f by (auto simp: book_ok_def index_ok_def)
  qed
  ultimately show ?thesis using assms by (simp add: book_ok_def)
qed

lemma writes_ok: "writes set_amount b b' \<Longrightarrow> book_ok b \<Longrightarrow> book_ok b'"
  by (rule nodes.writes_invariant) (auto intro: set_amount_ok)

lemma writes_fields:
  "writes set_amount b b' \<Longrightarrow> user_ptrs b' u = user_ptrs b u \<and> next_addr b' = next_addr b \<and>
    finalizedSales b' = finalizedSales b"
  by (erule nodes.writes_invariant) auto

lemma writes_product:
  "writes set_amount b b' \<Longrightarrow> map fst (product_nodes b' k) = map fst (product_nodes b k)"
  by (erule nodes.writes_invariant) (auto simp: comp_def)

lemma live_in_nodes: "live b p = Some e \<Longrightarrow> (p, e) \<in> set (book_nodes b)"
  by (simp add: live_def map_of_SomeD)

section \<open>What getOrders returns\<close>

definition side :: "book \<Rightarrow> string \<Rightarrow> OrderBookType \<Rightarrow> addr list" where
  "side b pr t = map fst (filter (\<lambda>n. orderType (snd n) = t) (product_nodes b pr))"

lemma collect_orders_index:
  "t \<noteq> Sale \<Longrightarrow> umap_index [] (collect_orders ns m) t =
    umap_index [] m t @ map fst (filter (\<lambda>n. orderType (snd n) = t) ns)"
proof (induction ns m rule: collect_orders.induct)
  case (2 p e ns m)
  then show ?case
    by (cases "orderType e"; cases t) (auto simp: umap_index_def)
qed simp

lemma getOrders_side: "t \<noteq> Sale \<Longrightarrow> umap_index [] (getOrders b pr) t = side b pr t"
  by (cases "umap_find (orderMap b) pr")
    (simp_all add: getOrders_def side_def product_nodes_def umap_index_def collect_orders_index [unfolded umap_index_def])

lemma side_live:
  assumes "book_ok b" and "p \<in> set (side b pr t)"
  shows "\<exists>e. live b p = Some e \<and> (p, e) \<in> set (product_nodes b pr) \<and> orderType e = t"
proof -
  obtain e where e: "(p, e) \<in> set (product_nodes b pr)" "orderType e = t"
    using assms(2) by (auto simp: side_def)
  then have "live b p = Some e"
    using assms(1) product_nodes_subset [of b pr] by (auto simp: book_ok_live)
  then show ?thesis using e by blast
qed

lemma side_distinct:
  assumes "book_ok b"
  shows "distinct (side b pr t)"
proof -
  have d: "distinct (map fst (concat (map snd (orderMap b))))"
    using assms by (simp add: book_ok_def nodes_ok_def book_nodes_def)
  have "distinct (map fst (product_nodes b pr))"
  proof (cases "umap_find (orderMap b) pr")
    case (Some ns)
    then have "(pr, ns) \<in> set (orderMap b)" by (simp add: umap_find_def map_of_SomeD)
    then obtain xs ys where "orderMap b = xs @ (pr, ns) # ys" by (meson split_list)
    then show ?thesis using d find_product_nodes [OF Some] by simp
  qed (simp add: product_nodes_def umap_index_def)
  then show ?thesis by (simp add: side_def distinct_map_filter)
qed

end
