(* ===== verification/Matching.thy ===== *)
theory Matching
  imports Order_Book
begin

text \<open>
  \<open>OrderBook::matchAsksToBids\<close> and \<open>OrderBook::processSale\<close>
  (src/src/server/OrderBook.cpp): one pass of the matching engine over a product. The
  pass works on the order book, the accounts, its local vector of sales and the identifier
  counter; an exception leaves whatever had been written. The sorting function is a
  parameter with the contract \<open>std_sort\<close>. The pass holds the book's mutex throughout.
\<close>

section \<open>Settling a sale\<close>

text \<open>The check after a failed \<open>spendLocked\<close>: only the account \<open>default\<close> may overdraw.\<close>

definition require_spent :: "string \<Rightarrow> bool \<Rightarrow> exn \<Rightarrow> (users, unit) action" where
  "require_spent name spent e us =
    (if \<not> spent \<and> getUsername (user_at us name) \<noteq> default_user then (Inl e, us) else (Inr (), us))"

definition buyer_insufficient :: exn where
  "buyer_insufficient = Runtime_error ''Buyer has insufficient funds''"

definition seller_insufficient :: exn where
  "seller_insufficient = Runtime_error ''Seller has insufficient funds''"

definition processSale ::
  "string \<Rightarrow> string \<Rightarrow> entry \<Rightarrow> double \<Rightarrow> double \<Rightarrow> (users, unit) action" where
  "processSale buyer seller s bid_price ask_price =
    (case extractTokens (product s) (CHR ''/'') of
       [base, quote] \<Rightarrow>
         (let totalCost = price s * amount s in
          bind_act (on_wallet buyer (spendLocked quote totalCost)) (\<lambda>spent.
          bind_act (require_spent buyer spent buyer_insufficient) (\<lambda>_.
          bind_act (on_wallet buyer (insertCurrency base (amount s))) (\<lambda>_.
          bind_act (on_wallet seller (spendLocked base (amount s))) (\<lambda>spent.
          bind_act (require_spent seller spent seller_insufficient) (\<lambda>_.
          bind_act (on_wallet seller (insertCurrency quote totalCost)) (\<lambda>_.
          if ask_price < bid_price then
            bind_act (on_wallet buyer (unlockCurrency quote ((bid_price - ask_price) * amount s)))
              (\<lambda>_. return_act ())
          else return_act ())))))))
     | _ \<Rightarrow> throw_act (Invalid_argument ''Invalid product format in sale''))"

section \<open>One pair of orders\<close>

record match_state =
  m_book :: book
  m_users :: users
  m_sales :: "entry list"
  m_nextId :: nat

definition with_users :: "(users, 'a) action \<Rightarrow> (match_state, 'a) action" where
  "with_users f s = (case f (m_users s) of (r, us) \<Rightarrow> (r, s\<lparr>m_users := us\<rparr>))"

definition with_book :: "(book, 'a) action \<Rightarrow> (match_state, 'a) action" where
  "with_book f s = (case f (m_book s) of (r, b) \<Rightarrow> (r, s\<lparr>m_book := b\<rparr>))"

text \<open>
  The three branches of the inner loop differ in the amount sold, in what is left of the
  two orders and in whether the loop over the bids ends (\<open>break\<close>). The sale is recorded
  and the orders are changed before the money moves.
\<close>

definition fill ::
  "string \<Rightarrow> string \<Rightarrow> entry \<Rightarrow> double \<Rightarrow> addr \<Rightarrow> double \<Rightarrow> addr \<Rightarrow> double \<Rightarrow> double \<Rightarrow> double \<Rightarrow> bool
    \<Rightarrow> (match_state, bool) action" where
  "fill buyer seller sale0 sold bid_ptr bid_left ask_ptr ask_left bid_price ask_price stop s =
    (let sl = sale0\<lparr>amount := sold\<rparr> in
     bind_act (with_users (processSale buyer seller sl bid_price ask_price)) (\<lambda>_. return_act stop)
       (s\<lparr>m_sales := m_sales s @ [sl],
          m_book := set_amount ask_ptr ask_left (set_amount bid_ptr bid_left (m_book s))\<rparr>))"

definition trade :: "string \<Rightarrow> string \<Rightarrow> addr \<Rightarrow> entry \<Rightarrow> addr \<Rightarrow> entry \<Rightarrow> (match_state, bool) action" where
  "trade pr ts ask_ptr a bid_ptr b =
    bind_act (with_users (getUser (username b))) (\<lambda>buyer.
    bind_act (with_users (getUser (username a))) (\<lambda>seller s0.
      (case OrderBookEntry (price a) 0 ts pr Sale default_user (m_nextId s0) of
         (sale0, nid) \<Rightarrow>
           (let s = s0\<lparr>m_nextId := nid\<rparr> in
            if deq (amount b) (amount a) then
              fill buyer seller sale0 (amount a) bid_ptr 0 ask_ptr 0 (price b) (price a) True s
            else if amount a < amount b then
              fill buyer seller sale0 (amount a) bid_ptr (amount b - amount a) ask_ptr 0 (price b) (price a) True s
            else if amount b < amount a then
              fill buyer seller sale0 (amount b) bid_ptr 0 ask_ptr (amount a - amount b) (price b) (price a) False s
            else (Inr False, s)))))"

section \<open>The two loops\<close>

fun match_bids :: "string \<Rightarrow> string \<Rightarrow> addr \<Rightarrow> addr list \<Rightarrow> (match_state, unit) action" where
  "match_bids pr ts ask_ptr [] s = (Inr (), s)"
| "match_bids pr ts ask_ptr (bid_ptr # bids) s =
    (case deref (m_book s) bid_ptr of
       Inl e \<Rightarrow> (Inl e, s)
     | Inr b \<Rightarrow>
         if amount b \<le> 0 then match_bids pr ts ask_ptr bids s
         else (case deref (m_book s) ask_ptr of
             Inl e \<Rightarrow> (Inl e, s)
           | Inr a \<Rightarrow>
               if price a \<le> price b then
                 bind_act (trade pr ts ask_ptr a bid_ptr b)
                   (\<lambda>stop. if stop then return_act () else match_bids pr ts ask_ptr bids) s
               else match_bids pr ts ask_ptr bids s))"

fun match_asks :: "string \<Rightarrow> string \<Rightarrow> addr list \<Rightarrow> addr list \<Rightarrow> (match_state, unit) action" where
  "match_asks pr ts bids [] s = (Inr (), s)"
| "match_asks pr ts bids (ask_ptr # asks) s =
    (case deref (m_book s) ask_ptr of
       Inl e \<Rightarrow> (Inl e, s)
     | Inr a \<Rightarrow>
         if amount a \<le> 0 then match_asks pr ts bids asks s
         else bind_act (match_bids pr ts ask_ptr bids) (\<lambda>_. match_asks pr ts bids asks) s)"

text \<open>\<open>std::sort\<close> on a vector of pointers: the comparator reads through them.\<close>

definition sort_ptrs ::
  "((node \<Rightarrow> node \<Rightarrow> bool) \<Rightarrow> node list \<Rightarrow> node list) \<Rightarrow> (entry \<Rightarrow> entry \<Rightarrow> bool) \<Rightarrow> book \<Rightarrow>
    addr list \<Rightarrow> addr list result" where
  "sort_ptrs srt lt b ps =
    (case map_res (\<lambda>p. case deref b p of Inl x \<Rightarrow> Inl x | Inr e \<Rightarrow> Inr (p, e)) ps of
       Inl x \<Rightarrow> Inl x
     | Inr ns \<Rightarrow> (case sort_checked srt (\<lambda>n m. lt (snd n) (snd m)) ns of
           Inl x \<Rightarrow> Inl x
         | Inr ns' \<Rightarrow> Inr (map fst ns')))"

definition matchAsksToBids ::
  "((node \<Rightarrow> node \<Rightarrow> bool) \<Rightarrow> node list \<Rightarrow> node list) \<Rightarrow> string \<Rightarrow> string \<Rightarrow>
    (match_state, entry list) action" where
  "matchAsksToBids srt pr ts s0 =
    (let productOrders = getOrders (m_book s0) pr;
         bids = umap_index [] productOrders Bid;
         asks = umap_index [] productOrders Ask;
         s = s0\<lparr>m_sales := []\<rparr>
     in case sort_ptrs srt compareByPriceAsc (m_book s) asks of
          Inl x \<Rightarrow> (Inl x, s)
        | Inr asks' \<Rightarrow> (case sort_ptrs srt compareByPriceDesc (m_book s) bids of
            Inl x \<Rightarrow> (Inl x, s)
          | Inr bids' \<Rightarrow>
              bind_act (match_asks pr ts bids' asks') (\<lambda>_ s1.
              bind_act (with_book (removeMatchedOrders pr)) (\<lambda>_. return_act (m_sales s1))
                (s1\<lparr>m_book := insertSales (m_sales s1) (m_book s1)\<rparr>)) s))"

end
