(* ===== verification/Example_Book.thy ===== *)
theory Example_Book
  imports Matching
begin

text \<open>
  A small book with two users, on which the properties of a pass are witnessed: an ask of 3
  at 2 and one of 7 at 9, bids of 2 at 5 and of 2 at 4. A pass sells 2 and 1 at the price 2.
\<close>

section \<open>Before the pass\<close>


definition ex_order :: "double \<Rightarrow> double \<Rightarrow> OrderBookType \<Rightarrow> string \<Rightarrow> nat \<Rightarrow> entry" where
  "ex_order p a ty u i = \<lparr>price = p, amount = a, timestamp = ''t'', product = ''A/B'', orderType = ty,
     username = u, order_id = i\<rparr>"

definition ex_book_of :: "string \<Rightarrow> string \<Rightarrow> book" where
  "ex_book_of seller buyer = \<lparr>filename = [], finalizedSales = [],
      orderMap = [(''A/B'', [(0, ex_order (Fin 2) (Fin 3) Ask seller 0),
         (1, ex_order (Fin 5) (Fin 2) Bid buyer 1), (2, ex_order (Fin 4) (Fin 2) Bid buyer 2),
         (3, ex_order (Fin 9) (Fin 7) Ask seller 3)])],
      userOrders = (if seller = buyer then [(buyer, [0, 1, 2, 3])] else [(seller, [0, 3]), (buyer, [1, 2])]), next_addr = 4\<rparr>"

definition ex_book :: book where
  "ex_book = ex_book_of ''s'' ''b''"

definition ex_users :: users where
  "ex_users =
    [(''s'', (User ''s'' ''x'')\<lparr>wallet := \<lparr>currencies = [], locked = [(''A'', Fin 10)]\<rparr>\<rparr>),
     (''b'', (User ''b'' ''y'')\<lparr>wallet := \<lparr>currencies = [], locked = [(''B'', Fin 18)]\<rparr>\<rparr>)]"

definition ex_state :: match_state where
  "ex_state = \<lparr>m_book = ex_book, m_users = ex_users, m_sales = [], m_nextId = 4\<rparr>"

section \<open>Evaluation\<close>

text \<open>Under this congruence \<open>simp\<close> runs an action before it looks at its continuation.\<close>

lemma bind_act_weak_cong: "s = s' \<Longrightarrow> bind_act m f s = bind_act m f s'"
  by simp

lemma ex_tokens: "extractTokens ''A/B'' (CHR ''/'') = [''A'', ''B'']" by code_simp

lemma ex_arith:
  "Fin 18 - Fin 4 = (Fin 14 :: double)" "Fin 14 - Fin 6 = (Fin 8 :: double)" "Fin 8 - Fin 2 = (Fin 6 :: double)"
  "Fin 6 - Fin 2 = (Fin 4 :: double)" "0 + Fin 6 = (Fin 6 :: double)" "Fin 6 + Fin 2 = (Fin 8 :: double)"  "Fin 10 - Fin 2 = (Fin 8 :: double)" "Fin 8 - Fin 1 = (Fin 7 :: double)"
  "Fin 3 - Fin 2 = (Fin 1 :: double)" "Fin 2 - Fin 1 = (Fin 1 :: double)" "Fin 2 * Fin 1 = (Fin 2 :: double)"
  "Fin 2 * Fin 2 = (Fin 4 :: double)" "Fin 5 - Fin 2 = (Fin 3 :: double)"
  "Fin 4 - Fin 2 = (Fin 2 :: double)" "Fin 3 * Fin 2 = (Fin 6 :: double)" "0 + Fin 2 = (Fin 2 :: double)" "0 + Fin 4 = (Fin 4 :: double)"
   "Fin 2 + Fin 1 = (Fin 3 :: double)" "Fin 4 + Fin 2 = (Fin 6 :: double)"
  by code_simp+

lemma ex_sorted: "sort_ptrs stable_sort compareByPriceAsc ex_book [0, 3] = Inr [0, 3]"
  "sort_ptrs stable_sort compareByPriceDesc ex_book [1, 2] = Inr [1, 2]"
  "umap_index [] (getOrders ex_book ''A/B'') Ask = [0, 3]"
  "umap_index [] (getOrders ex_book ''A/B'') Bid = [1, 2]"
  by code_simp+



lemmas ex_defs = ex_book_def ex_book_of_def ex_users_def ex_order_def ex_state_def
lemmas run_defs = deref_def live_def book_nodes_def bind_act_def trade_def OrderBookEntry_def Let_def
  fill_def with_users_def getUser_def umap_find_def set_amount_def set_node_amount_def deq_def
  processSale_def ex_tokens on_wallet_def spendLocked_def insertCurrency_def unlockCurrency_def require_spent_def
  umap_put_def user_at_def getWallet_def empty_wallet_def omap_index_def omap_find_def touch_def User_def
  getUsername_def with_book_def removeMatchedOrders_def insertSales_def removeFromUserIndex_def put_user_ptrs_def



definition ex_sales :: "entry list" where
  "ex_sales = map (\<lambda>(a, i). \<lparr>price = Fin 2, amount = a, timestamp = ''n'', product = ''A/B'', orderType = Sale,
     username = default_user, order_id = i\<rparr>) [(Fin 2, 4), (Fin 1, 5)]"

definition ex_after :: match_state where
  "ex_after = \<lparr>m_book = \<lparr>filename = [], finalizedSales = ex_sales,
      orderMap = [(''A/B'', [(2, ex_order (Fin 4) (Fin 1) Bid ''b'' 2), (3, ex_order (Fin 9) (Fin 7) Ask ''s'' 3)])],
      userOrders = [(''s'', [3]), (''b'', [2])], next_addr = 4\<rparr>,
     m_users =
      [(''s'', (User ''s'' ''x'')\<lparr>wallet := \<lparr>currencies = [(''B'', Fin 6)], locked = [(''A'', Fin 7)]\<rparr>\<rparr>),
       (''b'', (User ''b'' ''y'')\<lparr>wallet := \<lparr>currencies = [(''A'', Fin 3), (''B'', Fin 8)], locked = [(''B'', Fin 4)]\<rparr>\<rparr>)],
     m_sales = ex_sales, m_nextId = 6\<rparr>"

lemma ex_size: "size_t_succ 4 = 5" "size_t_succ 5 = 6" by code_simp+


definition ex_matched :: book where
  "ex_matched = ex_book\<lparr>orderMap := [(''A/B'', [(0, ex_order (Fin 2) 0 Ask ''s'' 0),
     (1, ex_order (Fin 5) 0 Bid ''b'' 1), (2, ex_order (Fin 4) (Fin 1) Bid ''b'' 2),
     (3, ex_order (Fin 9) (Fin 7) Ask ''s'' 3)])]\<rparr>"

lemma ex_loops: "match_asks ''A/B'' ''n'' [1, 2] [0, 3] ex_state = (Inr (), ex_after\<lparr>m_book := ex_matched\<rparr>)"
  by (simp add: ex_state_def ex_after_def ex_sales_def ex_size run_defs ex_defs ex_matched_def ex_arith cong: bind_act_weak_cong)

lemma ex_removed:
  "removeMatchedOrders ''A/B'' (insertSales ex_sales ex_matched) = (Inr (), m_book ex_after)"
  by code_simp

lemma ex_run: "matchAsksToBids stable_sort ''A/B'' ''n'' ex_state = (Inr ex_sales, ex_after)"
proof -
  have s: "ex_state\<lparr>m_sales := []\<rparr> = ex_state" "m_book ex_state = ex_book" by (simp_all add: ex_state_def)
  have "m_sales ex_after = ex_sales" by (simp add: ex_after_def)
  then show ?thesis
    by (simp add: matchAsksToBids_def s ex_sorted ex_loops bind_act_def with_book_def ex_removed del: One_nat_def match_asks.simps)
qed

section \<open>The example is well formed\<close>

lemma ex_book_ok: "book_ok (ex_book_of u v)"
  by (auto simp: book_ok_def ex_defs umap_wf_def nodes_ok_def book_nodes_def index_ok_def list_ok_def
      umap_find_def split: if_splits)

lemma ex_nodes: "product_nodes (ex_book_of u v) ''A/B'' =
    [(0, ex_order (Fin 2) (Fin 3) Ask u 0), (1, ex_order (Fin 5) (Fin 2) Bid v 1),
     (2, ex_order (Fin 4) (Fin 2) Bid v 2), (3, ex_order (Fin 9) (Fin 7) Ask u 3)]"
  by (simp add: product_nodes_def ex_book_of_def umap_index_def umap_find_def)

lemma ex_after_nodes: "product_nodes (m_book ex_after) ''A/B'' =
    [(2, ex_order (Fin 4) (Fin 1) Bid ''b'' 2), (3, ex_order (Fin 9) (Fin 7) Ask ''s'' 3)]"
  by (simp add: product_nodes_def ex_after_def umap_index_def umap_find_def)

lemma ex_values: "value64 (Fin 2)" "value64 (Fin 3)" "value64 (Fin 4)" "value64 (Fin 5)" "value64 (Fin 7)"
  "value64 (Fin 9)" "value64 (Fin 10)" "value64 (Fin 18)"
  by (simp_all, code_simp+)

lemma ex_solvent: "solvent free_balance locked_balance (wallet_of ex_users u)"
  using ex_values
  by (auto simp: wallet_of_def ex_users_def umap_find_def solvent_def balance_defs omap_index_def omap_find_def User_def empty_wallet_def)

lemma ex_users_ok: "users_ok ex_users"
  using ex_solvent
  by (fastforce simp: users_ok_def umap_wf_def umap_find_def ex_users_def User_def wallet_of_def split: if_splits)

lemma ex_state_fields [simp]: "m_book ex_state = ex_book_of ''s'' ''b''" "m_users ex_state = ex_users"
  by (simp_all add: ex_state_def ex_book_def)

lemma ex_after_live: "live (m_book ex_after) 1 = None"
  "live (m_book ex_after) 2 = Some (ex_order (Fin 4) (Fin 1) Bid ''b'' 2)"
  by (simp_all add: live_def book_nodes_def ex_after_def)

end
