(* ===== verification/Book_Properties.thy ===== *)
theory Book_Properties
  imports Example_Book
begin

text \<open>
  The construction of an \<open>OrderBook\<close> from a CSV file, and the properties of the book's
  operations: insertion with time priority, removal, clean-up after a match, statistics.
\<close>

section \<open>Construction from a CSV file\<close>

text \<open>
  The lists \<open>readCSV\<close> returns are moved into the book; their nodes have addresses, here
  numbered in the order of the table. The orders of the file are not entered in the index.
\<close>

fun place_lists :: "addr \<Rightarrow> order_lists \<Rightarrow> (string, node list) umap \<times> addr" where
  "place_lists a [] = ([], a)"
| "place_lists a ((k, es) # m) =
     (case place_lists (a + length es) m of (m', a') \<Rightarrow> ((k, zip [a ..< a + length es] es) # m', a'))"

definition OrderBook :: "string \<Rightarrow> string option \<Rightarrow> nat \<Rightarrow> book \<times> nat" where
  "OrderBook name file nextId =
    (case readCSV file nextId of (entries, nextId') \<Rightarrow>
       (case place_lists 0 entries of (m, a) \<Rightarrow>
          (\<lparr>filename = name, finalizedSales = [], orderMap = m, userOrders = [], next_addr = a\<rparr>, nextId')))"

definition getFilename :: "book \<Rightarrow> string" where
  "getFilename b = filename b"

text \<open>What holds of the lists while lines are read: identifiers are taken from the counter.\<close>

definition entries_of :: "order_lists \<Rightarrow> entry list" where
  "entries_of m = concat (map snd m)"

definition lists_ok :: "order_lists \<Rightarrow> nat \<Rightarrow> bool" where
  "lists_ok m nid \<longleftrightarrow> umap_wf m \<and> (\<forall>k es. umap_find m k = Some es \<longrightarrow> (\<forall>e\<in>set es. product e = k)) \<and>
     distinct (map order_id (entries_of m)) \<and> (\<forall>e\<in>set (entries_of m). order_id e < nid)"

lemma size_t_succ_Suc: "int n + 1 < 2 ^ 64 \<Longrightarrow> size_t_succ n = Suc n"
  unfolding size_t_succ_def by simp

lemma parseLine_id:
  "parseLine ts n = (Inr e, n') \<Longrightarrow> order_id e = n \<and> n' = size_t_succ n"
  "parseLine ts n = (Inl x, n') \<Longrightarrow> n' = n"
  by (auto simp: parse_defs split: list.splits sum.splits)

lemma entries_of_put:
  assumes "umap_wf m"
  shows "mset (entries_of (umap_put k (umap_index [] m k @ [e]) m)) = add_mset e (mset (entries_of m))"
  using mset_concat_put [OF assms, of k "umap_index [] m k @ [e]"] by (simp add: entries_of_def)

lemma read_lines_ok:
  "lists_ok m n \<Longrightarrow> int n + int (length ls) < 2 ^ 64 \<Longrightarrow> read_lines ls m n = (m', n') \<Longrightarrow>
    lists_ok m' n' \<and> n' \<le> n + length ls"
proof (induction ls arbitrary: m n)
  case (Cons l ls)
  show ?case
  proof (cases "parseLine (extractTokens l (CHR '','')) n")
    case (Pair r n1)
    show ?thesis
    proof (cases r)
      case (Inl x)
      then show ?thesis
        using Cons.IH [of m n] Cons.prems Pair parseLine_id(2) by fastforce
    next
      case (Inr e)
      then have id: "order_id e = n" "n1 = Suc n"
        using Pair parseLine_id(1) size_t_succ_Suc [of n] Cons.prems(2) by fastforce+
      let ?m = "umap_put (product e) (umap_index [] m (product e) @ [e]) m"
      have wf: "umap_wf m" using Cons.prems(1) by (simp add: lists_ok_def)
      note ms = entries_of_put [OF wf, of "product e" e]
      have set: "set (entries_of ?m) = insert e (set (entries_of m))"
        using ms by (metis set_mset_add_mset_insert set_mset_mset)
      have "distinct (map order_id (entries_of ?m)) \<longleftrightarrow> distinct (map order_id (e # entries_of m))"
        by (rule mset_eq_imp_distinct_iff) (simp add: ms)
      moreover have "distinct (map order_id (e # entries_of m))"
        using Cons.prems(1) id(1) by (fastforce simp: lists_ok_def)
      ultimately have "lists_ok ?m (Suc n)"
        using Cons.prems(1) id(1) set umap.wf_put [OF wf]
        by (auto simp: lists_ok_def umap_index_def less_Suc_eq split: option.splits)
      then show ?thesis
        using Cons.IH [of ?m "Suc n"] Cons.prems(2,3) Pair Inr id(2) by simp
    qed
  qed
qed simp

lemma place_lists_spec:
  "place_lists a m = (m', a') \<Longrightarrow>
    map fst m' = map fst m \<and> map (map snd \<circ> snd) m' = map snd m \<and>
    map fst (concat (map snd m')) = [a ..< a'] \<and> a \<le> a' \<and>
    map snd (concat (map snd m')) = entries_of m"
proof (induction a m arbitrary: m' a' rule: place_lists.induct)
  case (2 a k es m)
  obtain m1 a1 where r: "place_lists (a + length es) m = (m1, a1)" by fastforce
  with 2 have "map fst (concat (map snd m1)) = [a + length es ..< a1] \<and> a + length es \<le> a1" by auto
  then have "[a ..< a1] = [a ..< a + length es] @ map fst (concat (map snd m1))"
    by (metis le_add1 upt_add_eq_append le_add_diff_inverse)
  then show ?case using 2 r by (auto simp: entries_of_def)
qed (auto simp: entries_of_def)

lemma entries_of_sorted: "mset (entries_of (map (\<lambda>(k, es). (k, sort_key timestamp es)) m)) = mset (entries_of m)"
  by (induction m) (auto simp: entries_of_def)

lemma lists_ok_sorted: "lists_ok m n \<Longrightarrow> lists_ok (map (\<lambda>(k, es). (k, sort_key timestamp es)) m) n"
proof -
  let ?m = "map (\<lambda>(k, es). (k, sort_key timestamp es)) m"
  assume ok: "lists_ok m n"
  have ms: "mset (entries_of ?m) = mset (entries_of m)" by (rule entries_of_sorted)
  then have "distinct (map order_id (entries_of ?m)) = distinct (map order_id (entries_of m))"
    by (intro mset_eq_imp_distinct_iff) (simp only: mset_map)
  moreover have "set (entries_of ?m) = set (entries_of m)" using ms by (rule mset_eq_setD)
  moreover have "map fst ?m = map fst m" by (simp add: comp_def case_prod_beta)
  ultimately show ?thesis
    using ok unfolding lists_ok_def umap_wf_def by (simp del: map_map) (auto simp: umap_find_map)
qed

lemma place_lists_find:
  "place_lists a m = (m', a') \<Longrightarrow> umap_find m' k = Some ns \<Longrightarrow> umap_find m k = Some (map snd ns)"
proof (induction a m arbitrary: m' a' rule: place_lists.induct)
  case (2 a j es m)
  then show ?case by (auto simp: umap_find_def split: prod.splits if_splits)
qed simp

text \<open>
  The book read from a file is well formed, as long as the identifier
  counter does not wrap around while the lines are read, and no user has an order in it.
\<close>

theorem OrderBook_constructed:
  assumes "OrderBook name file n = (b, n')"
    and "int n + int (length (getlines (CHR ''\<newline>'') (case file of None \<Rightarrow> [] | Some t \<Rightarrow> t))) < 2 ^ 64"
  shows "book_ok b \<and> getOrdersForUser b u = Inr []"
proof -
  let ?ls = "getlines (CHR ''\<newline>'') (case file of None \<Rightarrow> [] | Some t \<Rightarrow> t)"
  obtain m1 n1 where rl: "read_lines ?ls [] n = (m1, n1)" by fastforce
  let ?m = "map (\<lambda>(k, es). (k, sort_key timestamp es)) m1"
  obtain om a where pl: "place_lists 0 ?m = (om, a)" by fastforce
  have b: "b = \<lparr>filename = name, finalizedSales = [], orderMap = om, userOrders = [], next_addr = a\<rparr>"
    using assms(1) rl pl by (simp add: OrderBook_def readCSV_def)
  have "lists_ok [] n" by (simp add: lists_ok_def entries_of_def)
  then have "lists_ok m1 n1" using read_lines_ok [OF _ assms(2) rl] by blast
  then have ok: "lists_ok ?m n1" by (rule lists_ok_sorted)
  note sp = place_lists_spec [OF pl]
  have wf: "umap_wf om" using ok sp by (simp add: lists_ok_def umap_wf_def)
  have nodes: "nodes_ok (book_nodes b) (next_addr b)"
  proof -
    have "map (\<lambda>n. order_id (snd n)) (book_nodes b) = map order_id (entries_of ?m)"
    proof -
      have "map (\<lambda>n. order_id (snd n)) ns = map order_id (map snd ns)" for ns :: "node list" by simp
      then show ?thesis using sp by (simp only: b book_nodes_def book.simps)
    qed
    moreover have "\<forall>n\<in>set (book_nodes b). fst n < a"
      using sp by (metis atLeastLessThan_iff b book.select_convs(3) book_nodes_def image_eqI list.set_map set_upt)
    ultimately show ?thesis using ok sp by (simp add: nodes_ok_def lists_ok_def b book_nodes_def)
  qed
  have lists: "list_ok k ns" if "umap_find om k = Some ns" for k ns
  proof -
    have f: "umap_find ?m k = Some (map snd ns)" using place_lists_find [OF pl that] .
    then have pr: "\<forall>e\<in>snd ` set ns. product e = k" using ok by (auto simp: lists_ok_def)
    from f have "\<exists>es. sort_key timestamp es = map snd ns" by (auto simp: umap_find_map)
    then have "sorted (map timestamp (map snd ns))" by (metis sorted_sort_key)
    then show ?thesis using pr by (simp add: list_ok_def comp_def)
  qed
  have "book_ok b" using wf nodes lists by (simp add: book_ok_def b index_ok_def)
  then show ?thesis by (simp add: getOrdersForUser_def b)
qed

theorem OrderBook_constructed_witness:
  "book_ok (fst (OrderBook ''f.csv'' None 5)) \<and> getOrdersForUser (fst (OrderBook ''f.csv'' None 5)) ''u'' = Inr []"
  by (rule OrderBook_constructed [OF surjective_pairing]) (simp add: getlines.simps)

section \<open>The operations on a well-formed book\<close>

text \<open>
  C14: inserting an order with a fresh identifier keeps the book well
  formed; the product's list gets the order behind every order with the same or an earlier
  timestamp, the user's orders get it at the end, and no other product or user is affected.
\<close>

theorem insertOrder_time_priority:
  assumes "book_ok b" and "list_all (\<lambda>n. order_id (snd n) \<noteq> order_id e) (book_nodes b)"
  shows "book_ok (insertOrder e b) \<and>
    product_nodes (insertOrder e b) (product e) =
      filter (\<lambda>m. timestamp (snd m) \<le> timestamp e) (product_nodes b (product e)) @ (next_addr b, e) #
      filter (\<lambda>m. timestamp e < timestamp (snd m)) (product_nodes b (product e)) \<and>
    (\<forall>k. k \<noteq> product e \<longrightarrow> product_nodes (insertOrder e b) k = product_nodes b k) \<and>
    (\<forall>u. getOrdersForUser (insertOrder e b) u =
      map_sum id (\<lambda>es. if u = username e then es @ [e] else es) (getOrdersForUser b u))"
proof -
  have fresh: "order_id e \<notin> (\<lambda>n. order_id (snd n)) ` set (book_nodes b)"
    using assms(2) by (auto simp: list_all_iff)
  have ok: "book_ok (insertOrder e b)" by (rule insertOrder_ok [OF assms(1) fresh])
  have sorted: "sorted (map (\<lambda>n. timestamp (snd n)) (product_nodes b (product e)))"
    using list_ok_product_nodes [OF assms(1)] by (simp add: list_ok_def)
  have wf: "umap_wf (orderMap b)" using assms(1) by (simp add: book_ok_def)
  have new: "live (insertOrder e b) (next_addr b) = Some e"
    unfolding book_ok_live [OF ok] insertOrder_set_nodes [OF wf] by simp
  have old: "live (insertOrder e b) p = live b p" if "p \<in> set (user_ptrs b u)" for p u
  proof -
    from that have "umap_find (userOrders b) u = Some (user_ptrs b u)" "p \<in> set (user_ptrs b u)"
      by (cases "umap_find (userOrders b) u"; simp add: user_ptrs_def umap_index_def)+
    then obtain f where f: "live b p = Some f" using book_ok_index [OF assms(1)] by blast
    then have "live (insertOrder e b) p = Some f"
      unfolding book_ok_live [OF ok] insertOrder_set_nodes [OF wf] book_ok_live [OF assms(1)] by simp
    then show ?thesis using f by simp
  qed
  have "map (\<lambda>p. the (live (insertOrder e b) p)) (user_ptrs b u) = map (\<lambda>p. the (live b p)) (user_ptrs b u)" for u
    using old by (intro map_cong) auto
  then show ?thesis
    using ok insert_node_spec [OF sorted, of "(next_addr b, e)"] new
    by (simp add: insert_spec_def getOrdersForUser_ok [OF ok] getOrdersForUser_ok [OF assms(1)])
qed

theorem insertOrder_time_priority_witness:
  "book_ok (insertOrder (ex_order (Fin 1) (Fin 1) Bid ''c'' 7) (ex_book_of ''s'' ''b'')) \<and>
    product_nodes (insertOrder (ex_order (Fin 1) (Fin 1) Bid ''c'' 7) (ex_book_of ''s'' ''b'')) ''A/B'' =
    product_nodes (ex_book_of ''s'' ''b'') ''A/B'' @ [(4, ex_order (Fin 1) (Fin 1) Bid ''c'' 7)]"
proof -
  have "list_all (\<lambda>n. order_id (snd n) \<noteq> order_id (ex_order (Fin 1) (Fin 1) Bid ''c'' 7)) (book_nodes (ex_book_of ''s'' ''b''))"
    by (simp add: ex_book_of_def book_nodes_def ex_order_def)
  from insertOrder_time_priority [OF ex_book_ok this] show ?thesis
    by (simp add: ex_order_def ex_nodes) (simp add: ex_book_of_def)
qed

text \<open>
  C15: on a well-formed book \<open>removeOrderById\<close> returns true exactly when
  the user has an order with the identifier in the index; then exactly that order is gone from
  its list and from the index and the book is well formed, otherwise nothing has changed.
\<close>

theorem removeOrderById_exact:
  assumes "book_ok b"
  shows "case removeOrderById u oid b of
      (Inr True, b') \<Rightarrow> book_ok b' \<and> (\<exists>p e. p \<in> set (user_ptrs b u) \<and> live b p = Some e \<and> order_id e = oid \<and>
          username e = u \<and> unlink b p e b')
    | (Inr False, b') \<Rightarrow> b' = b \<and> (\<forall>p\<in>set (user_ptrs b u). order_id (the (live b p)) \<noteq> oid)
    | (Inl e, b') \<Rightarrow> False"
  using assms by (cases rule: removeOrderById_cases [of b u oid]) auto

theorem removeOrderById_exact_witness:
  "\<not> is_undefined (fst (removeOrderById ''b'' 2 (ex_book_of ''s'' ''b'')))"
  using removeOrderById_exact [OF ex_book_ok, of "''s''" "''b''" "''b''" 2]
  by (auto split: prod.splits sum.splits)

text \<open>
  After an order has been removed, no order of the book has its
  identifier, the user no longer sees it, and removing it again reports false.
\<close>

theorem cancelled_order_is_gone:
  assumes "book_ok b" and "removeOrderById u oid b = (Inr True, b')"
  shows "(\<forall>n\<in>set (book_nodes b'). order_id (snd n) \<noteq> oid) \<and>
    fst (removeOrderById v oid b') = Inr False"
proof -
  from assms(1) obtain p e where un: "live b p = Some e" "order_id e = oid" "unlink b p e b'" and ok: "book_ok b'"
    by (cases rule: removeOrderById_cases [of b u oid]) (use assms(2) in auto)
  have "nodes_ok ((p, e) # book_nodes b') (next_addr b)"
    using assms(1) un(3) nodes_ok_mset [of "book_nodes b" "(p, e) # book_nodes b'"]
    by (simp add: book_ok_def unlink_def)
  then have gone: "\<forall>n\<in>set (book_nodes b'). order_id (snd n) \<noteq> oid"
    using un(2) by (fastforce simp: nodes_ok_Cons image_iff)
  have "fst (removeOrderById v oid b') = Inr False"
    using ok
  proof (cases rule: removeOrderById_cases [of b' v oid])
    case (2 q f b'')
    then show ?thesis using gone book_ok_live [OF ok] by fastforce
  qed simp
  then show ?thesis using gone by blast
qed

theorem cancelled_order_is_gone_witness:
  "fst (removeOrderById ''s'' 2 (snd (removeOrderById ''b'' 2 (ex_book_of ''s'' ''b'')))) = Inr False"
proof -
  have "removeOrderById ''b'' 2 (ex_book_of ''s'' ''b'') = (Inr True, snd (removeOrderById ''b'' 2 (ex_book_of ''s'' ''b'')))"
    by code_simp
  from cancelled_order_is_gone [OF ex_book_ok this] show ?thesis by blast
qed

text \<open>
  C16: \<open>removeMatchedOrders\<close> on a well-formed book removes from the
  product exactly the orders with nothing left, from the list and from the index of their
  users, keeps the order of the others and reads no dangling pointer.
\<close>

theorem removeMatchedOrders_exact:
  assumes "book_ok b"
  shows "\<exists>b'. removeMatchedOrders pr b = (Inr (), b') \<and> book_ok b' \<and>
    product_nodes b' pr = filter (\<lambda>n. \<not> amount (snd n) \<le> 0) (product_nodes b pr) \<and>
    (\<forall>k. k \<noteq> pr \<longrightarrow> product_nodes b' k = product_nodes b k) \<and>
    (\<forall>u. user_ptrs b' u =
      filter (\<lambda>p. \<forall>e. (p, e) \<in> set (product_nodes b pr) \<longrightarrow> \<not> amount e \<le> 0) (user_ptrs b u))"
  using removeMatchedOrders_ok [OF assms, of pr] by (auto simp: pruned_def)

theorem removeMatchedOrders_exact_witness:
  "fst (removeMatchedOrders ''A/B'' (ex_book_of ''s'' ''b'')) = Inr ()"
  using removeMatchedOrders_exact [OF ex_book_ok, of "''A/B''" "''s''" "''b''"] by auto

section \<open>Statistics\<close>

lemma foldl_max:
  assumes "mx \<noteq> NaN" "\<forall>e\<in>set es. price e \<noteq> NaN"
  shows "(let m = foldl (\<lambda>mx e. if mx < price e then price e else mx) mx es in
    m \<noteq> NaN \<and> mx \<le> m \<and> (\<forall>e\<in>set es. price e \<le> m) \<and> (m = mx \<or> (\<exists>e\<in>set es. m = price e)))"
  using assms
proof (induction es arbitrary: mx)
  case (Cons e es)
  let ?m = "if mx < price e then price e else mx"
  have m: "?m \<noteq> NaN" "mx \<le> ?m" "price e \<le> ?m"
    using Cons.prems by (auto simp: dlt_iff_not_dle intro: dlt_imp_dle)
  define M where "M = foldl (\<lambda>mx e. if mx < price e then price e else mx) ?m es"
  have IH: "M \<noteq> NaN" "?m \<le> M" "\<forall>f\<in>set es. price f \<le> M" "M = ?m \<or> (\<exists>f\<in>set es. M = price f)"
    using Cons.IH [of ?m] m(1) Cons.prems(2) unfolding Let_def M_def [symmetric] by simp_all
  have "mx \<le> M" "price e \<le> M" using IH(2) m(2,3) dle_trans by blast+
  moreover have "M = mx \<or> (\<exists>f\<in>set (e # es). M = price f)" using IH(4) by (auto split: if_splits)
  moreover have "foldl (\<lambda>mx e. if mx < price e then price e else mx) mx (e # es) = M" by (simp add: M_def)
  ultimately show ?case using IH(1,3) unfolding Let_def by simp
qed (simp add: Let_def)

lemma foldl_min:
  assumes "mn \<noteq> NaN" "\<forall>e\<in>set es. price e \<noteq> NaN"
  shows "(let m = foldl (\<lambda>mn e. if price e < mn then price e else mn) mn es in
    m \<noteq> NaN \<and> m \<le> mn \<and> (\<forall>e\<in>set es. m \<le> price e) \<and> (m = mn \<or> (\<exists>e\<in>set es. m = price e)))"
  using assms
proof (induction es arbitrary: mn)
  case (Cons e es)
  let ?m = "if price e < mn then price e else mn"
  have m: "?m \<noteq> NaN" "?m \<le> mn" "?m \<le> price e"
    using Cons.prems by (auto simp: dlt_iff_not_dle intro: dlt_imp_dle)
  define M where "M = foldl (\<lambda>mn e. if price e < mn then price e else mn) ?m es"
  have IH: "M \<noteq> NaN" "M \<le> ?m" "\<forall>f\<in>set es. M \<le> price f" "M = ?m \<or> (\<exists>f\<in>set es. M = price f)"
    using Cons.IH [of ?m] m(1) Cons.prems(2) unfolding Let_def M_def [symmetric] by simp_all
  have "M \<le> mn" "M \<le> price e" using IH(2) m(2,3) dle_trans by blast+
  moreover have "M = mn \<or> (\<exists>f\<in>set (e # es). M = price f)" using IH(4) by (auto split: if_splits)
  moreover have "foldl (\<lambda>mn e. if price e < mn then price e else mn) mn (e # es) = M" by (simp add: M_def)
  ultimately show ?case using IH(1,3) unfolding Let_def by simp
qed (simp add: Let_def)

text \<open>
  Without NaN prices, \<open>getHighPrice\<close> and \<open>getLowPrice\<close> of a non-empty
  list are prices of orders in it and bound all the others.
\<close>

theorem price_range:
  assumes "es \<noteq> []" and "list_all (\<lambda>e. price e \<noteq> NaN) es"
  shows "(\<exists>e\<in>set es. getHighPrice es = price e) \<and> (\<exists>e\<in>set es. getLowPrice es = price e) \<and>
    list_all (\<lambda>e. getLowPrice es \<le> price e \<and> price e \<le> getHighPrice es) es"
proof -
  obtain e0 rest where es: "es = e0 # rest" using assms(1) by (cases es) auto
  have nan: "price e0 \<noteq> NaN" "\<forall>e\<in>set es. price e \<noteq> NaN" using assms(2) es by (auto simp: list_all_iff)
  have hi: "getHighPrice es = foldl (\<lambda>mx e. if mx < price e then price e else mx) (price e0) es"
    and lo: "getLowPrice es = foldl (\<lambda>mn e. if price e < mn then price e else mn) (price e0) es"
    by (simp_all add: getHighPrice_def getLowPrice_def es)
  have mem: "e0 \<in> set es" using es by simp
  show ?thesis
    using foldl_max [OF nan] foldl_min [OF nan] mem
    unfolding hi [symmetric] lo [symmetric] Let_def list_all_iff by auto
qed

theorem price_range_witness:
  "let es = [ex_order (Fin 5) (Fin 2) Bid ''b'' 1, ex_order (Fin 4) (Fin 2) Bid ''b'' 2] in
    list_all (\<lambda>e. getLowPrice es \<le> price e \<and> price e \<le> getHighPrice es) es \<and> getHighPrice es = Fin 5"
proof -
  let ?es = "[ex_order (Fin 5) (Fin 2) Bid ''b'' 1, ex_order (Fin 4) (Fin 2) Bid ''b'' 2]"
  have "list_all (\<lambda>e. price e \<noteq> NaN) ?es" by (simp add: ex_order_def)
  then show ?thesis
    using price_range [of ?es] unfolding Let_def by (simp add: getHighPrice_def ex_order_def)
qed

text \<open>
  \<open>getOrders\<close> returns pointers to the live bids and asks of the product,
  each side in the order of the list, without duplicates.
\<close>

theorem getOrders_split:
  assumes "book_ok b" and "t \<noteq> Sale"
  shows "map (live b) (umap_index [] (getOrders b pr) t) =
      map (Some \<circ> snd) (filter (\<lambda>n. orderType (snd n) = t) (product_nodes b pr)) \<and>
    distinct (umap_index [] (getOrders b pr) t)"
proof -
  have "live b (fst n) = Some (snd n)" if "n \<in> set (product_nodes b pr)" for n
    using that product_nodes_subset [of b pr] by (auto simp: book_ok_live [OF assms(1)])
  then show ?thesis
    using side_distinct [OF assms(1)] by (simp add: getOrders_side [OF assms(2)]) (simp add: side_def)
qed

theorem getOrders_split_witness:
  "distinct (umap_index [] (getOrders (ex_book_of ''s'' ''b'') ''A/B'') Bid)"
  using getOrders_split [OF ex_book_ok, of Bid "''s''" "''b''" "''A/B''"] by blast

end
