(* ===== verification/Account_Properties.thy ===== *)
theory Account_Properties
  imports Example_Book
begin

text \<open>
  The properties of wallets and accounts: any history of calls keeps a wallet solvent, an
  accepted order can be cancelled, refusals change nothing, and registering or looking up a
  user never changes an account.
\<close>

section \<open>Any history of a wallet\<close>

text \<open>The operations a wallet offers, as data, and a history of them. A throw is caught by the caller.\<close>

datatype wallet_call =
    Insert string double
  | Remove string double
  | Lock string double
  | Unlock string double
  | Spend string double
  | Fulfill entry
  | Cancel entry

fun call_wallet :: "wallet_call \<Rightarrow> wallet \<Rightarrow> wallet" where
  "call_wallet (Insert ty x) w = snd (insertCurrency ty x w)"
| "call_wallet (Remove ty x) w = snd (removeCurrency ty x w)"
| "call_wallet (Lock ty x) w = snd (lockCurrency ty x w)"
| "call_wallet (Unlock ty x) w = snd (unlockCurrency ty x w)"
| "call_wallet (Spend ty x) w = snd (spendLocked ty x w)"
| "call_wallet (Fulfill e) w = snd (fulfillOrder e w)"
| "call_wallet (Cancel e) w = snd (cancelOrder e w)"

text \<open>Every amount a call moves is a finite double; what is unlocked is not negative.\<close>

definition good_amount :: "double \<Rightarrow> bool" where
  "good_amount x = (isfinite x \<and> value64 x)"

fun good_call :: "wallet_call \<Rightarrow> bool" where
  "good_call (Insert ty x) = good_amount x"
| "good_call (Remove ty x) = good_amount x"
| "good_call (Lock ty x) = good_amount x"
| "good_call (Unlock ty x) = (good_amount x \<and> 0 \<le> x)"
| "good_call (Spend ty x) = good_amount x"
| "good_call (Fulfill e) = (good_amount (amount e) \<and> good_amount (amount e * price e))"
| "good_call (Cancel e) = (good_amount (amount e) \<and> 0 \<le> amount e \<and> good_amount (amount e * price e) \<and>
     0 \<le> amount e * price e)"

lemma good_amount_nan: "good_amount x \<Longrightarrow> x \<noteq> NaN \<and> isfinite x \<and> value64 x"
  by (auto simp: good_amount_def isfinite_def)

lemma order_call_cases:
  assumes "f = fulfillOrder e \<and> g = lockCurrency \<or> f = cancelOrder e \<and> g = unlockCurrency"
  obtains "snd (f w) = w" | ty where "f w = g ty (amount e) w" | ty where "f w = g ty (amount e * price e) w"
proof (cases "\<exists>base quote. extractTokens (product e) (CHR ''/'') = [base, quote]")
  case True
  then obtain base quote where t: "extractTokens (product e) (CHR ''/'') = [base, quote]" by blast
  show ?thesis
  proof (cases "orderType e")
    case Bid
    then show ?thesis using assms t by (intro that(3) [of quote]) (auto simp: fulfillOrder_def cancelOrder_def)
  next
    case Ask
    then show ?thesis using assms t by (intro that(2) [of base]) (auto simp: fulfillOrder_def cancelOrder_def)
  next
    case Sale
    then show ?thesis using assms t by (intro that(1)) (auto simp: fulfillOrder_def cancelOrder_def)
  qed
next
  case False
  then have "f w = (Inl bad_product, w)"
    using assms by (auto simp: fulfillOrder_def cancelOrder_def split: list.splits)
  then show ?thesis by (intro that(1)) simp
qed

lemma call_wallet_solvent:
  assumes "good_call c" and "solvent free_balance locked_balance w"
  shows "solvent free_balance locked_balance (call_wallet c w)"
proof (cases c)
  case (Insert ty x)
  then show ?thesis
    using assms good_amount_nan wallet.deposit_solvent [of ty x w, OF surjective_pairing] by simp
next
  case (Remove ty x)
  then show ?thesis
    using assms good_amount_nan wallet.withdraw_solvent [of ty x w, OF surjective_pairing] by simp
next
  case (Lock ty x)
  then show ?thesis
    using assms good_amount_nan wallet.lock_solvent [of ty x w, OF surjective_pairing] by simp
next
  case (Unlock ty x)
  then show ?thesis
    using assms good_amount_nan wallet.unlock_solvent [of ty x w, OF surjective_pairing] by simp
next
  case (Spend ty x)
  then show ?thesis
    using assms good_amount_nan wallet.spend_solvent [of ty x w, OF surjective_pairing] by simp
next
  case (Fulfill e)
  note lock = wallet.lock_solvent [OF surjective_pairing assms(2)]
  have g: "good_amount (amount e)" "good_amount (amount e * price e)" using assms(1) Fulfill by simp_all
  show ?thesis
    unfolding Fulfill call_wallet.simps
    by (rule order_call_cases [of "fulfillOrder e" e lockCurrency w])
      (use assms(2) lock good_amount_nan [OF g(1)] good_amount_nan [OF g(2)] in simp_all)
next
  case (Cancel e)
  note unlock = wallet.unlock_solvent [OF surjective_pairing assms(2)]
  have g: "good_amount (amount e)" "good_amount (amount e * price e)" "0 \<le> amount e" "0 \<le> amount e * price e"
    using assms(1) Cancel by simp_all
  show ?thesis
    unfolding Cancel call_wallet.simps
    by (rule order_call_cases [of "cancelOrder e" e unlockCurrency w])
      (use assms(2) unlock g(3,4) good_amount_nan [OF g(1)] good_amount_nan [OF g(2)] in simp_all)
qed

text \<open>
  C12: whatever sequence of calls a new wallet goes through, every free and every locked balance stays a
  non-negative number, as long as every amount is finite and the amounts given to \<open>unlockCurrency\<close> and to
  \<open>cancelOrder\<close> are not negative either (\<open>good_call\<close>). \<open>unlockCurrency\<close> itself does not check the sign; the
  program calls it only with amounts that were locked before or with a price difference that is
  positive.
\<close>

theorem wallet_history_solvent:
  assumes "list_all good_call calls"
  shows "0 \<le> free_balance (fold call_wallet calls empty_wallet) k \<and>
    0 \<le> locked_balance (fold call_wallet calls empty_wallet) k"
proof -
  have "solvent free_balance locked_balance (fold call_wallet calls w)"
    if "solvent free_balance locked_balance w" for w
    using assms that by (induction calls arbitrary: w) (simp_all add: call_wallet_solvent)
  then show ?thesis using empty_wallet_solvent by (auto simp: solvent_def)
qed

theorem wallet_history_solvent_witness:
  "0 \<le> locked_balance (fold call_wallet [Insert ''A'' (Fin 3), Fulfill (ex_order (Fin 9) (Fin 2) Ask ''s'' 1)] empty_wallet) ''A''"
proof -
  have "good_amount (Fin 3)" "good_amount (Fin 2)" "good_amount (Fin 2 * Fin 9)" by code_simp+
  then have "list_all good_call [Insert ''A'' (Fin 3), Fulfill (ex_order (Fin 9) (Fin 2) Ask ''s'' 1)]"
    by (simp add: ex_order_def)
  from wallet_history_solvent [OF this] show ?thesis by blast
qed

section \<open>Placing and cancelling an order\<close>

text \<open>
  C13: an order whose funds were locked can always be cancelled, whatever
  rounding did, and then every balance of other currencies is back where it was, the free
  balance at \<open>(b - x) + x\<close> and the locked one at \<open>(l + x) - x\<close> for the amount \<open>x\<close>.
\<close>

theorem fulfill_then_cancel:
  assumes "fulfillOrder e w = (Inr True, w1)" and "cancelOrder e w1 = (r, w2)"
    and "solvent free_balance locked_balance w" and "value64 (amount e)"
    and "amount e \<noteq> NaN" and "amount e * price e \<noteq> NaN"
  shows "r = Inr True \<and> (\<exists>ty x. (x = amount e \<or> x = amount e * price e) \<and>
    free_balance w2 ty = (free_balance w ty - x) + x \<and> locked_balance w2 ty = (locked_balance w ty + x) - x \<and>
    (\<forall>k. k \<noteq> ty \<longrightarrow> free_balance w2 k = free_balance w k \<and> locked_balance w2 k = locked_balance w k))"
proof -
  obtain base quote where t: "extractTokens (product e) (CHR ''/'') = [base, quote]"
    using assms(1) by (auto simp: fulfillOrder_def split: list.splits)
  show ?thesis
  proof (cases "orderType e")
    case Bid
    then have l: "lockCurrency quote (amount e * price e) w = (Inr True, w1)"
      and u: "unlockCurrency quote (amount e * price e) w1 = (r, w2)"
      using assms(1,2) t by (simp_all add: fulfillOrder_def cancelOrder_def)
    show ?thesis using wallet.lock_then_unlock [OF l u assms(3) value64_times assms(6)] by blast
  next
    case Ask
    then have l: "lockCurrency base (amount e) w = (Inr True, w1)"
      and u: "unlockCurrency base (amount e) w1 = (r, w2)"
      using assms(1,2) t by (simp_all add: fulfillOrder_def cancelOrder_def)
    show ?thesis using wallet.lock_then_unlock [OF l u assms(3,4,5)] by blast
  next
    case Sale
    then show ?thesis using assms(1) t by (simp add: fulfillOrder_def)
  qed
qed

definition ex_wallet :: wallet where
  "ex_wallet = \<lparr>currencies = [(''A'', Fin 3)], locked = []\<rparr>"

lemma ex_wallet_solvent: "solvent free_balance locked_balance ex_wallet"
  using ex_values by (auto simp: solvent_def balance_defs ex_wallet_def omap_index_def omap_find_def)

theorem fulfill_then_cancel_witness:
  "fst (cancelOrder (ex_order (Fin 9) (Fin 2) Ask ''s'' 1) (snd (fulfillOrder (ex_order (Fin 9) (Fin 2) Ask ''s'' 1) ex_wallet)))
    = Inr True"
proof -
  let ?e = "ex_order (Fin 9) (Fin 2) Ask ''s'' 1"
  have f: "fulfillOrder ?e ex_wallet = (Inr True, snd (fulfillOrder ?e ex_wallet))" by code_simp
  have n: "value64 (amount ?e)" "amount ?e \<noteq> NaN" "amount ?e * price ?e \<noteq> NaN" by code_simp+
  from fulfill_then_cancel [OF f surjective_pairing ex_wallet_solvent n] show ?thesis by blast
qed

text \<open>
  \<open>fulfillOrder\<close> answers true exactly for a bid or ask on a
  two-part product whose cost is covered by the free balance; when it answers false or throws,
  the wallet is unchanged.
\<close>

theorem order_refused_without_funds:
  assumes "extractTokens (product e) (CHR ''/'') = [base, quote]"
  shows "case fulfillOrder e w of
      (Inr True, w') \<Rightarrow> (orderType e = Ask \<and> amount e \<le> free_balance w base) \<or>
        (orderType e = Bid \<and> amount e * price e \<le> free_balance w quote)
    | (Inr False, w') \<Rightarrow> w' = w \<and> (orderType e = Ask \<longrightarrow> \<not> amount e \<le> free_balance w base) \<and>
        (orderType e = Bid \<longrightarrow> \<not> amount e * price e \<le> free_balance w quote)
    | (Inl x, w') \<Rightarrow> w' = w \<and> x = negative_amount \<and> (amount e < 0 \<or> amount e * price e < 0)"
  using assms
  by (cases "orderType e")
    (auto simp: fulfillOrder_def lockCurrency_def containsAmmount_eq split: sum.splits bool.splits)

theorem order_refused_without_funds_witness:
  "snd (fulfillOrder (ex_order (Fin 9) (Fin 7) Ask ''s'' 1) ex_wallet) = ex_wallet"
proof -
  let ?e = "ex_order (Fin 9) (Fin 7) Ask ''s'' 1"
  have t: "extractTokens (product ?e) (CHR ''/'') = [''A'', ''B'']" by (simp add: ex_order_def ex_tokens)
  have "fst (fulfillOrder ?e ex_wallet) = Inr False" by code_simp
  then show ?thesis
    using order_refused_without_funds [OF t, of ex_wallet] by (auto split: prod.splits sum.splits bool.splits)
qed

section \<open>Accounts\<close>

text \<open>
  Registering a name never changes an existing account, not even
  the one of that name; a new name gets an empty wallet and validates its password.
\<close>

theorem addUser_keeps_accounts:
  "umap_find (addUser name pw us) k =
    (if k = name \<and> \<not> userExists us name then Some (User name pw) else umap_find us k) \<and>
   validatePassword (User name pw) p = (p = pw) \<and> wallet (User name pw) = empty_wallet"
  by (auto simp: addUser_def userExists_def validatePassword_def User_def)

text \<open>
  \<open>getUser\<close> finds an existing account, creates the account \<open>default\<close> on
  demand and throws for any other name; it never changes an account.
\<close>

theorem getUser_total:
  "case getUser name us of
     (Inr n, us') \<Rightarrow> n = name \<and> userExists us' name \<and> (userExists us name \<or> name = default_user) \<and>
       (\<forall>k. umap_find us' k =
          (if k = name \<and> \<not> userExists us name then Some (User name default_user) else umap_find us k))
   | (Inl e, us') \<Rightarrow> e = Runtime_error (''User not found: '' @ name) \<and> us' = us \<and> \<not> userExists us name \<and> name \<noteq> default_user"
  by (auto simp: getUser_def userExists_def split: option.splits)

end
