(* ===== verification/Json_Error.thy ===== *)
theory Json_Error
  imports Std_Text
begin

text \<open>
  The exceptions of the JSON library (\<open>json.hpp\<close>, class \<open>detail::exception\<close> and the classes
  derived from it): their identifiers and the exact text that \<open>what()\<close> returns. The library
  is compiled without \<open>JSON_DIAGNOSTICS\<close>, so \<open>diagnostics\<close> is the empty text. A message
  passes through a C string and ends at its first zero byte. Also here: the position in the
  input and the sequencing of results of pure functions that may throw.
\<close>

section \<open>Positions\<close>

record json_pos =
  chars_read_total :: nat
  chars_read_current_line :: nat
  lines_read :: nat

section \<open>Exceptions\<close>

definition c_str :: "string \<Rightarrow> string" where
  "c_str w = takeWhile (\<lambda>c. c \<noteq> char_of (0::int)) w"

definition ename :: "string \<Rightarrow> nat \<Rightarrow> string" where
  "ename n i = ''[json.exception.'' @ n @ ''.'' @ show_nat i @ ''] ''"

definition diagnostics :: string where
  "diagnostics = ''''"

definition position_string :: "json_pos \<Rightarrow> string" where
  "position_string p = '' at line '' @ show_nat (lines_read p + 1) @
     '', column '' @ show_nat (chars_read_current_line p)"

definition parse_error :: "nat \<Rightarrow> json_pos \<Rightarrow> string \<Rightarrow> exn" where
  "parse_error i p what = Json_exception (int i)
     (c_str (ename ''parse_error'' i @ ''parse error'' @ position_string p @ '': '' @ diagnostics @ what))"

definition type_error :: "nat \<Rightarrow> string \<Rightarrow> exn" where
  "type_error i what = Json_exception (int i) (c_str (ename ''type_error'' i @ diagnostics @ what))"

definition out_of_range :: "nat \<Rightarrow> string \<Rightarrow> exn" where
  "out_of_range i what = Json_exception (int i) (c_str (ename ''out_of_range'' i @ diagnostics @ what))"

section \<open>Sequencing\<close>

definition bind_res :: "'a result \<Rightarrow> ('a \<Rightarrow> 'b result) \<Rightarrow> 'b result" where
  "bind_res r f = (case r of Inl e \<Rightarrow> Inl e | Inr x \<Rightarrow> f x)"

lemma bind_res_simps [simp]: "bind_res (Inl e) f = Inl e" "bind_res (Inr x) f = f x"
  by (simp_all add: bind_res_def)

lemma bind_res_Inr: "bind_res r f = Inr y \<longleftrightarrow> (\<exists>x. r = Inr x \<and> f x = Inr y)"
  by (cases r) simp_all

lemma bind_res_fundef_cong [fundef_cong]:
  "r = r' \<Longrightarrow> (\<And>x. r' = Inr x \<Longrightarrow> f x = g x) \<Longrightarrow> bind_res r f = bind_res r' g"
  by (cases r') simp_all

lemma bind_res_weak_cong: "r = r' \<Longrightarrow> bind_res r f = bind_res r' f"
  by simp

end
