(* ===== verification/Json_Lexer.thy ===== *)
theory Json_Lexer
  imports Json_Error
begin

unbundle bit_operations_syntax

text \<open>
  The lexer of the JSON library (\<open>json.hpp\<close>, classes \<open>lexer_base\<close>, \<open>lexer\<close> and
  \<open>input_stream_adapter\<close>), function by function. The state is the record \<open>lexer\<close> with the
  member variables of the class; the input adapter is the bytes of the stream that are not
  read yet. A \<open>switch\<close> over the character just read is a chain of conditions on
  \<open>current\<close>, an integer that is \<open>EOF\<close> at the end of the input. A loop of the code is a
  recursive function; all of them end because \<open>lex_get\<close> consumes input (\<open>lex_get_left\<close>).
\<close>

section \<open>Tokens\<close>

datatype token_type =
    uninitialized
  | literal_true
  | literal_false
  | literal_null
  | value_string
  | value_unsigned
  | value_integer
  | value_float
  | begin_array
  | begin_object
  | end_array
  | end_object
  | name_separator
  | value_separator
  | parse_error_token
  | end_of_input
  | literal_or_value

fun token_type_name :: "token_type \<Rightarrow> string" where
  "token_type_name uninitialized = ''<uninitialized>''"
| "token_type_name literal_true = ''true literal''"
| "token_type_name literal_false = ''false literal''"
| "token_type_name literal_null = ''null literal''"
| "token_type_name value_string = ''string literal''"
| "token_type_name value_unsigned = ''number literal''"
| "token_type_name value_integer = ''number literal''"
| "token_type_name value_float = ''number literal''"
| "token_type_name begin_array = [CHR 0x27, CHR ''['', CHR 0x27]"
| "token_type_name begin_object = [CHR 0x27, CHR ''{'', CHR 0x27]"
| "token_type_name end_array = [CHR 0x27, CHR '']'', CHR 0x27]"
| "token_type_name end_object = [CHR 0x27, CHR ''}'', CHR 0x27]"
| "token_type_name name_separator = [CHR 0x27, CHR '':'', CHR 0x27]"
| "token_type_name value_separator = [CHR 0x27, CHR '','', CHR 0x27]"
| "token_type_name parse_error_token = ''<parse error>''"
| "token_type_name end_of_input = ''end of input''"
| "token_type_name literal_or_value =
     CHR 0x27 # ''['' @ CHR 0x27 # '', '' @ CHR 0x27 # ''{'' @ CHR 0x27 # '', or a literal''"

section \<open>The state of the lexer\<close>

abbreviation EOF :: int where
  "EOF \<equiv> - 1"

abbreviation ch :: "char \<Rightarrow> int" where
  "ch c \<equiv> of_char c"

record lexer =
  ia :: string
  ignore_comments :: bool
  current :: int
  next_unget :: bool
  position :: json_pos
  token_string :: string
  token_buffer :: string
  error_message :: string
  number_integer :: int
  number_unsigned :: int
  number_float :: double
  decimal_point_char :: int

text \<open>\<open>localeconv()\<close> of the C locale, which the program never leaves.\<close>

definition get_decimal_point :: char where
  "get_decimal_point = CHR ''.''"

definition new_lexer :: "string \<Rightarrow> bool \<Rightarrow> lexer" where
  "new_lexer adapter ignore =
     \<lparr>ia = adapter, ignore_comments = ignore, current = EOF, next_unget = False,
      position = \<lparr>chars_read_total = 0, chars_read_current_line = 0, lines_read = 0\<rparr>,
      token_string = [], token_buffer = [], error_message = [],
      number_integer = 0, number_unsigned = 0, number_float = 0,
      decimal_point_char = of_char get_decimal_point\<rparr>"

section \<open>Input management\<close>

definition get_character :: "string \<Rightarrow> int \<times> string" where
  "get_character s = (case s of [] \<Rightarrow> (EOF, []) | c # r \<Rightarrow> (of_char c, r))"

definition lex_reset :: "lexer \<Rightarrow> lexer" where
  "lex_reset lx = lx\<lparr>token_buffer := [], token_string := [char_of (current lx)]\<rparr>"

definition count_char :: "int \<Rightarrow> json_pos \<Rightarrow> json_pos" where
  "count_char c p =
     (let p1 = p\<lparr>chars_read_total := chars_read_total p + 1,
                 chars_read_current_line := chars_read_current_line p + 1\<rparr> in
      if c = 0x0A then p1\<lparr>lines_read := lines_read p1 + 1, chars_read_current_line := 0\<rparr> else p1)"

definition lex_get :: "lexer \<Rightarrow> lexer" where
  "lex_get lx =
     (let lx1 = (if next_unget lx then lx\<lparr>next_unget := False\<rparr>
                 else (case get_character (ia lx) of (c, r) \<Rightarrow> lx\<lparr>current := c, ia := r\<rparr>));
          lx2 = (if current lx1 \<noteq> EOF
                 then lx1\<lparr>token_string := token_string lx1 @ [char_of (current lx1)]\<rparr> else lx1)
      in lx2\<lparr>position := count_char (current lx2) (position lx2)\<rparr>)"

definition uncount_char :: "json_pos \<Rightarrow> json_pos" where
  "uncount_char p =
     (let p1 = p\<lparr>chars_read_total := chars_read_total p - 1\<rparr> in
      if chars_read_current_line p1 = 0
      then (if lines_read p1 > 0 then p1\<lparr>lines_read := lines_read p1 - 1\<rparr> else p1)
      else p1\<lparr>chars_read_current_line := chars_read_current_line p1 - 1\<rparr>)"

definition lex_unget :: "lexer \<Rightarrow> lexer" where
  "lex_unget lx =
     (let lx1 = lx\<lparr>next_unget := True, position := uncount_char (position lx)\<rparr> in
      if current lx1 \<noteq> EOF then lx1\<lparr>token_string := butlast (token_string lx1)\<rparr> else lx1)"

definition lex_add :: "int \<Rightarrow> lexer \<Rightarrow> lexer" where
  "lex_add c lx = lx\<lparr>token_buffer := token_buffer lx @ [char_of c]\<rparr>"

definition lex_error :: "string \<Rightarrow> lexer \<Rightarrow> token_type \<times> lexer" where
  "lex_error m lx = (parse_error_token, lx\<lparr>error_message := m\<rparr>)"

subsection \<open>What is left to read\<close>

definition left :: "lexer \<Rightarrow> nat" where
  "left lx = 2 * length (ia lx) + (if next_unget lx \<and> current lx \<noteq> EOF then 1 else 0)"

lemma lex_get_left: "current (lex_get lx) \<noteq> EOF \<Longrightarrow> left (lex_get lx) < left lx"
  by (cases "next_unget lx"; cases "ia lx")
    (simp_all add: lex_get_def left_def get_character_def Let_def split: if_splits)

lemma lex_get_left_le: "left (lex_get lx) \<le> left lx"
  by (cases "next_unget lx"; cases "ia lx")
    (simp_all add: lex_get_def left_def get_character_def Let_def split: if_splits)

lemma lex_get_char: "current (lex_get lx) = c \<Longrightarrow> 0 \<le> c \<Longrightarrow> left (lex_get lx) < left lx"
  by (rule lex_get_left) simp

lemma lex_get_unget [simp]: "next_unget (lex_get lx) = False"
  by (cases "next_unget lx"; cases "ia lx") (simp_all add: lex_get_def get_character_def Let_def)

lemma lex_unget_left: "\<not> next_unget lx \<Longrightarrow> left (lex_unget lx) = left lx + (if current lx \<noteq> EOF then 1 else 0)"
  by (simp add: left_def lex_unget_def Let_def)

lemma left_simps [simp]:
  "left (lex_reset lx) = left lx" "left (lex_add c lx) = left lx"
  "left (lx\<lparr>error_message := m\<rparr>) = left lx"
  by (simp_all add: left_def lex_reset_def lex_add_def)

lemma current_simps [simp]:
  "current (lex_reset lx) = current lx" "current (lex_add c lx) = current lx"
  "next_unget (lex_reset lx) = next_unget lx" "next_unget (lex_add c lx) = next_unget lx"
  by (simp_all add: lex_reset_def lex_add_def)

section \<open>Strings\<close>

definition hex_digit_value :: "int \<Rightarrow> int option" where
  "hex_digit_value c =
     (if ch (CHR ''0'') \<le> c \<and> c \<le> ch (CHR ''9'') then Some (c - 0x30)
      else if ch (CHR ''A'') \<le> c \<and> c \<le> ch (CHR ''F'') then Some (c - 0x37)
      else if ch (CHR ''a'') \<le> c \<and> c \<le> ch (CHR ''f'') then Some (c - 0x57)
      else None)"

fun codepoint_digits :: "nat list \<Rightarrow> int \<Rightarrow> lexer \<Rightarrow> int \<times> lexer" where
  "codepoint_digits [] codepoint lx = (codepoint, lx)"
| "codepoint_digits (factor # factors) codepoint lx =
     (let lx1 = lex_get lx in
      case hex_digit_value (current lx1) of
        Some d \<Rightarrow> codepoint_digits factors (codepoint + push_bit factor d) lx1
      | None \<Rightarrow> (- 1, lx1))"

definition get_codepoint :: "lexer \<Rightarrow> int \<times> lexer" where
  "get_codepoint lx = codepoint_digits [12, 8, 4, 0] 0 lx"

fun bytes_in_ranges :: "(int \<times> int) list \<Rightarrow> lexer \<Rightarrow> bool \<times> lexer" where
  "bytes_in_ranges [] lx = (True, lx)"
| "bytes_in_ranges ((low, high) # ranges) lx =
     (let lx1 = lex_get lx in
      if low \<le> current lx1 \<and> current lx1 \<le> high
      then bytes_in_ranges ranges (lex_add (current lx1) lx1)
      else (False, lx1\<lparr>error_message := ''invalid string: ill-formed UTF-8 byte''\<rparr>))"

definition next_byte_in_range :: "(int \<times> int) list \<Rightarrow> lexer \<Rightarrow> bool \<times> lexer" where
  "next_byte_in_range ranges lx = bytes_in_ranges ranges (lex_add (current lx) lx)"

section \<open>Escapes\<close>

text \<open>The bytes of a code point in UTF-8.\<close>

definition codepoint_bytes :: "int \<Rightarrow> int list" where
  "codepoint_bytes codepoint =
     (if codepoint < 0x80 then [codepoint]
      else if codepoint \<le> 0x7FF then
        [0xC0 OR drop_bit 6 codepoint, 0x80 OR (codepoint AND 0x3F)]
      else if codepoint \<le> 0xFFFF then
        [0xE0 OR drop_bit 12 codepoint, 0x80 OR (drop_bit 6 codepoint AND 0x3F),
         0x80 OR (codepoint AND 0x3F)]
      else
        [0xF0 OR drop_bit 18 codepoint, 0x80 OR (drop_bit 12 codepoint AND 0x3F),
         0x80 OR (drop_bit 6 codepoint AND 0x3F), 0x80 OR (codepoint AND 0x3F)])"

definition bad_escape :: "string \<Rightarrow> lexer \<Rightarrow> bool \<times> lexer" where
  "bad_escape m lx = (False, lx\<lparr>error_message := ''invalid string: '' @ m\<rparr>)"

definition backslash_u :: string where
  "backslash_u = [CHR 0x27, CHR 0x5C, CHR ''u'', CHR 0x27]"

text \<open>The second half of a surrogate pair, after the first one, \<open>codepoint1\<close>.\<close>

definition scan_low_surrogate :: "int \<Rightarrow> lexer \<Rightarrow> (int \<times> lexer) + (bool \<times> lexer)" where
  "scan_low_surrogate codepoint1 lx =
     (let bad = (\<lambda>lx'. Inr (bad_escape ''surrogate U+D800..U+DBFF must be followed by U+DC00..U+DFFF'' lx'));
          lx1 = lex_get lx in
      if current lx1 = 0x5C then
        (let lx2 = lex_get lx1 in
         if current lx2 = ch (CHR ''u'') then
           (case get_codepoint lx2 of (codepoint2, lx3) \<Rightarrow>
              if codepoint2 = - 1 then Inr (bad_escape (backslash_u @ '' must be followed by 4 hex digits'') lx3)
              else if 0xDC00 \<le> codepoint2 \<and> codepoint2 \<le> 0xDFFF
              then Inl (push_bit 10 codepoint1 + codepoint2 - 0x35FDC00, lx3)
              else bad lx3)
         else bad lx2)
      else bad lx1)"

definition scan_unicode :: "lexer \<Rightarrow> bool \<times> lexer" where
  "scan_unicode lx =
     (case get_codepoint lx of (codepoint1, lx1) \<Rightarrow>
        if codepoint1 = - 1 then bad_escape (backslash_u @ '' must be followed by 4 hex digits'') lx1
        else case
          (if 0xD800 \<le> codepoint1 \<and> codepoint1 \<le> 0xDBFF then scan_low_surrogate codepoint1 lx1
           else if 0xDC00 \<le> codepoint1 \<and> codepoint1 \<le> 0xDFFF
           then Inr (bad_escape ''surrogate U+DC00..U+DFFF must follow U+D800..U+DBFF'' lx1)
           else Inl (codepoint1, lx1)) of
            Inr r \<Rightarrow> r
          | Inl (codepoint, lx2) \<Rightarrow> (True, fold lex_add (codepoint_bytes codepoint) lx2))"

definition scan_escape :: "lexer \<Rightarrow> bool \<times> lexer" where
  "scan_escape lx =
     (let lx1 = lex_get lx; c = current lx1 in
      if c = 0x22 then (True, lex_add 0x22 lx1)
      else if c = 0x5C then (True, lex_add 0x5C lx1)
      else if c = ch (CHR ''/'') then (True, lex_add (ch (CHR ''/'')) lx1)
      else if c = ch (CHR ''b'') then (True, lex_add 0x08 lx1)
      else if c = ch (CHR ''f'') then (True, lex_add 0x0C lx1)
      else if c = ch (CHR ''n'') then (True, lex_add 0x0A lx1)
      else if c = ch (CHR ''r'') then (True, lex_add 0x0D lx1)
      else if c = ch (CHR ''t'') then (True, lex_add 0x09 lx1)
      else if c = ch (CHR ''u'') then scan_unicode lx1
      else bad_escape ''forbidden character after backslash'' lx1)"

section \<open>The bytes of a string\<close>

definition hex_upper :: "int \<Rightarrow> char" where
  "hex_upper d = (if d < 10 then char_of (0x30 + d) else char_of (0x37 + d))"

definition hex4_upper :: "int \<Rightarrow> string" where
  "hex4_upper c = map hex_upper [c div 4096 mod 16, c div 256 mod 16, c div 16 mod 16, c mod 16]"

definition control_text :: "int \<Rightarrow> string \<Rightarrow> string \<Rightarrow> string" where
  "control_text c name alternative = ''invalid string: control character U+'' @ hex4_upper c @
     '' ('' @ name @ '') must be escaped to '' @ CHR 0x5C # CHR ''u'' # hex4_upper c @ alternative"

definition escape_also :: "char \<Rightarrow> string" where
  "escape_also c = '' or '' @ [CHR 0x5C, c]"

definition control_error_low :: "int \<Rightarrow> string" where
  "control_error_low c = control_text c
     ([''NUL'', ''SOH'', ''STX'', ''ETX'', ''EOT'', ''ENQ'', ''ACK'', ''BEL'', ''BS'', ''HT'', ''LF'', ''VT'', ''FF'', ''CR'', ''SO'', ''SI''] ! nat c)
     (if c = 0x08 then escape_also (CHR ''b'')
      else if c = 0x09 then escape_also (CHR ''t'')
      else if c = 0x0A then escape_also (CHR ''n'')
      else if c = 0x0C then escape_also (CHR ''f'')
      else if c = 0x0D then escape_also (CHR ''r'')
      else [])"

definition control_error_high :: "int \<Rightarrow> string" where
  "control_error_high c = control_text c
     ([''DLE'', ''DC1'', ''DC2'', ''DC3'', ''DC4'', ''NAK'', ''SYN'', ''ETB'', ''CAN'', ''EM'', ''SUB'', ''ESC'', ''FS'', ''GS'', ''RS'', ''US''] ! nat (c - 0x10)) []"

definition plain_byte :: "int \<Rightarrow> bool" where
  "plain_byte c = (0x20 \<le> c \<and> c \<le> 0x7F \<and> c \<noteq> 0x22 \<and> c \<noteq> 0x5C)"

text \<open>
  The ranges of the bytes that must follow a lead byte; \<open>None\<close> for a byte that cannot start a
  character (80..C1 and F5..FF).
\<close>

definition utf8_ranges :: "int \<Rightarrow> (int \<times> int) list option" where
  "utf8_ranges c =
     (if 0xC2 \<le> c \<and> c \<le> 0xDF then Some [(0x80, 0xBF)]
      else if c = 0xE0 then Some [(0xA0, 0xBF), (0x80, 0xBF)]
      else if 0xE1 \<le> c \<and> c \<le> 0xEC \<or> c = 0xEE \<or> c = 0xEF then Some [(0x80, 0xBF), (0x80, 0xBF)]
      else if c = 0xED then Some [(0x80, 0x9F), (0x80, 0xBF)]
      else if c = 0xF0 then Some [(0x90, 0xBF), (0x80, 0xBF), (0x80, 0xBF)]
      else if 0xF1 \<le> c \<and> c \<le> 0xF3 then Some [(0x80, 0xBF), (0x80, 0xBF), (0x80, 0xBF)]
      else if c = 0xF4 then Some [(0x80, 0x8F), (0x80, 0xBF), (0x80, 0xBF)]
      else None)"

lemma codepoint_digits_left: "left (snd (codepoint_digits fs n lx)) \<le> left lx"
proof (induction fs n lx rule: codepoint_digits.induct)
  case (2 f fs n lx)
  then show ?case using lex_get_left_le [of lx]
    by (auto simp: Let_def split: option.splits intro: order_trans)
qed simp

lemma get_codepoint_left: "left (snd (get_codepoint lx)) \<le> left lx"
  unfolding get_codepoint_def by (rule codepoint_digits_left)

lemma bytes_in_ranges_left: "left (snd (bytes_in_ranges rs lx)) \<le> left lx"
proof (induction rs lx rule: bytes_in_ranges.induct)
  case (2 low high ranges lx)
  then show ?case using lex_get_left_le [of lx] by (auto simp: Let_def intro: order_trans)
qed simp

lemma next_byte_in_range_left: "left (snd (next_byte_in_range rs lx)) \<le> left lx"
  using bytes_in_ranges_left [of rs "lex_add (current lx) lx"] by (simp add: next_byte_in_range_def)

lemma fold_add_left [simp]: "left (fold lex_add cs lx) = left lx"
  by (induction cs arbitrary: lx) simp_all

lemma bad_escape_left [simp]: "left (snd (bad_escape m lx)) = left lx"
  by (simp add: bad_escape_def)

lemma scan_low_surrogate_left:
  "scan_low_surrogate c lx = Inl (d, lx') \<Longrightarrow> left lx' \<le> left lx"
  "scan_low_surrogate c lx = Inr r \<Longrightarrow> left (snd r) \<le> left lx"
  using lex_get_left_le [of lx] lex_get_left_le [of "lex_get lx"]
    get_codepoint_left [of "lex_get (lex_get lx)"]
  by (auto simp: scan_low_surrogate_def Let_def split: if_splits prod.splits)

lemma scan_unicode_left: "left (snd (scan_unicode lx)) \<le> left lx"
proof -
  have "left (snd (get_codepoint lx)) \<le> left lx" by (rule get_codepoint_left)
  then show ?thesis
    by (auto simp: scan_unicode_def split: prod.splits sum.splits if_splits
        dest: scan_low_surrogate_left)
qed

lemma scan_escape_left: "left (snd (scan_escape lx)) \<le> left lx"
  using lex_get_left_le [of lx] scan_unicode_left [of "lex_get lx"]
  by (auto simp: scan_escape_def Let_def)

section \<open>scan_string\<close>

function (sequential) scan_string_chars :: "lexer \<Rightarrow> token_type \<times> lexer" where
  "scan_string_chars lx =
     (let lx1 = lex_get lx; c = current lx1 in
      if c = EOF then lex_error ''invalid string: missing closing quote'' lx1
      else if c = 0x22 then (value_string, lx1)
      else if c = 0x5C then
        (case scan_escape lx1 of (ok, lx2) \<Rightarrow>
           if ok then scan_string_chars lx2 else (parse_error_token, lx2))
      else if 0 \<le> c \<and> c \<le> 0x0F then lex_error (control_error_low c) lx1
      else if 0x10 \<le> c \<and> c \<le> 0x1F then lex_error (control_error_high c) lx1
      else if plain_byte c then scan_string_chars (lex_add c lx1)
      else
        (case utf8_ranges c of
           None \<Rightarrow> lex_error ''invalid string: ill-formed UTF-8 byte'' lx1
         | Some ranges \<Rightarrow>
             (case next_byte_in_range ranges lx1 of (ok, lx2) \<Rightarrow>
                if ok then scan_string_chars lx2 else (parse_error_token, lx2))))"
  by pat_completeness auto
termination
proof (relation "measure left", goal_cases)
  case (2 lx lx1 c ok lx2)
  then show ?case using lex_get_left [of lx] scan_escape_left [of lx1] by (cases "scan_escape lx1") simp
next
  case (3 lx lx1 c)
  then show ?case using lex_get_left [of lx] by simp
next
  case (4 lx lx1 c ranges ok lx2)
  then show ?case using lex_get_left [of lx] next_byte_in_range_left [of ranges lx1]
    by (cases "next_byte_in_range ranges lx1") simp
qed simp

declare scan_string_chars.simps [simp del]

definition scan_string :: "lexer \<Rightarrow> token_type \<times> lexer" where
  "scan_string lx = scan_string_chars (lex_reset lx)"

section \<open>Comments\<close>

function skip_line :: "lexer \<Rightarrow> bool \<times> lexer" where
  "skip_line lx =
     (let lx1 = lex_get lx; c = current lx1 in
      if c = 0x0A \<or> c = 0x0D \<or> c = EOF \<or> c = 0 then (True, lx1) else skip_line lx1)"
  by pat_completeness auto
termination
  by (relation "measure left") (use lex_get_left in auto)

function skip_block :: "lexer \<Rightarrow> bool \<times> lexer" where
  "skip_block lx =
     (let lx1 = lex_get lx; c = current lx1 in
      if c = EOF \<or> c = 0
      then (False, lx1\<lparr>error_message := ''invalid comment; missing closing '' @ CHR 0x27 # ''*/'' @ [CHR 0x27]\<rparr>)
      else if c = ch (CHR ''*'') then
        (let lx2 = lex_get lx1 in
         if current lx2 = ch (CHR ''/'') then (True, lx2) else skip_block (lex_unget lx2))
      else skip_block lx1)"
  by pat_completeness auto
termination
proof (relation "measure left", goal_cases)
  case (2 lx lx1 c lx2)
  then show ?case
    using lex_get_left [of lx] lex_get_left [of lx1] lex_get_left_le [of lx1] lex_unget_left [of lx2] by auto
qed (use lex_get_left in auto)

declare skip_line.simps [simp del] skip_block.simps [simp del]

definition scan_comment :: "lexer \<Rightarrow> bool \<times> lexer" where
  "scan_comment lx =
     (let lx1 = lex_get lx; c = current lx1 in
      if c = ch (CHR ''/'') then skip_line lx1
      else if c = ch (CHR ''*'') then skip_block lx1
      else (False, lx1\<lparr>error_message := ''invalid comment; expecting '' @ [CHR 0x27, CHR ''/'', CHR 0x27] @
             '' or '' @ [CHR 0x27, CHR ''*'', CHR 0x27] @ '' after '' @ [CHR 0x27, CHR ''/'', CHR 0x27]\<rparr>))"

section \<open>Numbers\<close>

text \<open>
  The conversions of the C library on the text of a number that the scanner has accepted;
  \<open>None\<close> is \<open>errno = ERANGE\<close>.
\<close>

definition strtoull :: "string \<Rightarrow> int option" where
  "strtoull s = (let n = radix_value 10 (map digit_val (takeWhile isdigit s)) in
     if n < 2 ^ 64 then Some n else None)"

definition strtoll :: "string \<Rightarrow> int option" where
  "strtoll s = (case take_sign s of (neg, ds) \<Rightarrow>
     let n = signed neg (radix_value 10 (map digit_val (takeWhile isdigit ds))) in
     if - (2 ^ 63) \<le> n \<and> n < 2 ^ 63 then Some n else None)"

definition strtod :: "string \<Rightarrow> double" where
  "strtod s = (case take_sign s of (neg, ds) \<Rightarrow>
     case decimal_part ds of
       None \<Rightarrow> 0
     | Some q \<Rightarrow> if q = 0 then (if neg then NZero else 0) else rnd (if neg then - q else q))"

definition digit :: "int \<Rightarrow> bool" where
  "digit c = (ch (CHR ''0'') \<le> c \<and> c \<le> ch (CHR ''9''))"

definition nonzero_digit :: "int \<Rightarrow> bool" where
  "nonzero_digit c = (ch (CHR ''1'') \<le> c \<and> c \<le> ch (CHR ''9''))"

definition exponent_letter :: "int \<Rightarrow> bool" where
  "exponent_letter c = (c = ch (CHR ''e'') \<or> c = ch (CHR ''E''))"

definition scan_number_done :: "token_type \<Rightarrow> lexer \<Rightarrow> token_type \<times> lexer" where
  "scan_number_done number_type lx =
     (let lx1 = lex_unget lx;
          as_float = (value_float, lx1\<lparr>number_float := strtod (token_buffer lx1)\<rparr>) in
      if number_type = value_unsigned then
        (case strtoull (token_buffer lx1) of
           Some x \<Rightarrow> (value_unsigned, lx1\<lparr>number_unsigned := x\<rparr>)
         | None \<Rightarrow> as_float)
      else if number_type = value_integer then
        (case strtoll (token_buffer lx1) of
           Some x \<Rightarrow> (value_integer, lx1\<lparr>number_integer := x\<rparr>)
         | None \<Rightarrow> as_float)
      else as_float)"

lemma digit_not_EOF: "digit c \<Longrightarrow> c \<noteq> EOF"
  by (auto simp: digit_def)

function scan_number_any2 :: "token_type \<Rightarrow> lexer \<Rightarrow> token_type \<times> lexer" where
  "scan_number_any2 number_type lx =
     (let lx1 = lex_get lx; c = current lx1 in
      if digit c then scan_number_any2 number_type (lex_add c lx1)
      else scan_number_done number_type lx1)"
  by pat_completeness auto
termination
  by (relation "measure (\<lambda>(t, lx). left lx)") (use lex_get_left digit_not_EOF in auto)

declare scan_number_any2.simps [simp del]

definition scan_number_sign :: "token_type \<Rightarrow> lexer \<Rightarrow> token_type \<times> lexer" where
  "scan_number_sign number_type lx =
     (let lx1 = lex_get lx; c = current lx1 in
      if digit c then scan_number_any2 number_type (lex_add c lx1)
      else lex_error ''invalid number; expected digit after exponent sign'' lx1)"

definition scan_number_exponent :: "token_type \<Rightarrow> lexer \<Rightarrow> token_type \<times> lexer" where
  "scan_number_exponent number_type lx =
     (let lx1 = lex_get lx; c = current lx1 in
      if c = ch (CHR ''+'') \<or> c = ch (CHR ''-'') then scan_number_sign value_float (lex_add c lx1)
      else if digit c then scan_number_any2 value_float (lex_add c lx1)
      else lex_error (''invalid number; expected '' @ [CHR 0x27, CHR ''+'', CHR 0x27] @ '', '' @
        [CHR 0x27, CHR ''-'', CHR 0x27] @ '', or digit after exponent'') lx1)"

function scan_number_decimal2 :: "token_type \<Rightarrow> lexer \<Rightarrow> token_type \<times> lexer" where
  "scan_number_decimal2 number_type lx =
     (let lx1 = lex_get lx; c = current lx1 in
      if digit c then scan_number_decimal2 number_type (lex_add c lx1)
      else if exponent_letter c then scan_number_exponent number_type (lex_add c lx1)
      else scan_number_done number_type lx1)"
  by pat_completeness auto
termination
  by (relation "measure (\<lambda>(t, lx). left lx)") (use lex_get_left digit_not_EOF in auto)

declare scan_number_decimal2.simps [simp del]

definition scan_number_decimal1 :: "token_type \<Rightarrow> lexer \<Rightarrow> token_type \<times> lexer" where
  "scan_number_decimal1 number_type lx =
     (let lx1 = lex_get lx; c = current lx1 in
      if digit c then scan_number_decimal2 value_float (lex_add c lx1)
      else lex_error (''invalid number; expected digit after '' @ [CHR 0x27, CHR ''.'', CHR 0x27]) lx1)"

function scan_number_any1 :: "token_type \<Rightarrow> lexer \<Rightarrow> token_type \<times> lexer" where
  "scan_number_any1 number_type lx =
     (let lx1 = lex_get lx; c = current lx1 in
      if digit c then scan_number_any1 number_type (lex_add c lx1)
      else if c = ch (CHR ''.'') then scan_number_decimal1 number_type (lex_add (decimal_point_char lx1) lx1)
      else if exponent_letter c then scan_number_exponent number_type (lex_add c lx1)
      else scan_number_done number_type lx1)"
  by pat_completeness auto
termination
  by (relation "measure (\<lambda>(t, lx). left lx)") (use lex_get_left digit_not_EOF in auto)

declare scan_number_any1.simps [simp del]

definition scan_number_zero :: "token_type \<Rightarrow> lexer \<Rightarrow> token_type \<times> lexer" where
  "scan_number_zero number_type lx =
     (let lx1 = lex_get lx; c = current lx1 in
      if c = ch (CHR ''.'') then scan_number_decimal1 number_type (lex_add (decimal_point_char lx1) lx1)
      else if exponent_letter c then scan_number_exponent number_type (lex_add c lx1)
      else scan_number_done number_type lx1)"

definition scan_number_minus :: "lexer \<Rightarrow> token_type \<times> lexer" where
  "scan_number_minus lx =
     (let lx1 = lex_get lx; c = current lx1 in
      if c = ch (CHR ''0'') then scan_number_zero value_integer (lex_add c lx1)
      else if nonzero_digit c then scan_number_any1 value_integer (lex_add c lx1)
      else lex_error (''invalid number; expected digit after '' @ [CHR 0x27, CHR ''-'', CHR 0x27]) lx1)"

text \<open>\<open>scan_number\<close> is only called on a minus sign or a digit; the last branch is the assertion.\<close>

definition scan_number :: "lexer \<Rightarrow> token_type \<times> lexer" where
  "scan_number lx0 =
     (let lx = lex_reset lx0; c = current lx in
      if c = ch (CHR ''-'') then scan_number_minus (lex_add c lx)
      else if c = ch (CHR ''0'') then scan_number_zero value_unsigned (lex_add c lx)
      else if nonzero_digit c then scan_number_any1 value_unsigned (lex_add c lx)
      else scan_number_minus lx)"

section \<open>The scanner\<close>

fun scan_literal_rest :: "string \<Rightarrow> token_type \<Rightarrow> lexer \<Rightarrow> token_type \<times> lexer" where
  "scan_literal_rest [] return_type lx = (return_type, lx)"
| "scan_literal_rest (l # literal) return_type lx =
     (let lx1 = lex_get lx in
      if char_of (current lx1) \<noteq> l then lex_error ''invalid literal'' lx1
      else scan_literal_rest literal return_type lx1)"

definition scan_literal :: "string \<Rightarrow> token_type \<Rightarrow> lexer \<Rightarrow> token_type \<times> lexer" where
  "scan_literal literal_text return_type lx = scan_literal_rest (tl literal_text) return_type lx"

definition get_token_string :: "lexer \<Rightarrow> string" where
  "get_token_string lx = concat (map (\<lambda>c.
     if (of_char c :: int) \<le> 0x1F then ''<U+'' @ hex4_upper (of_char c) @ ''>'' else [c]) (token_string lx))"

definition skip_bom :: "lexer \<Rightarrow> bool \<times> lexer" where
  "skip_bom lx =
     (let lx1 = lex_get lx in
      if current lx1 = 0xEF then
        (let lx2 = lex_get lx1 in
         if current lx2 = 0xBB then (let lx3 = lex_get lx2 in (current lx3 = 0xBF, lx3))
         else (False, lx2))
      else (True, lex_unget lx1))"

definition json_space :: "int \<Rightarrow> bool" where
  "json_space c = (c = 0x20 \<or> c = 0x09 \<or> c = 0x0A \<or> c = 0x0D)"

function skip_whitespace :: "lexer \<Rightarrow> lexer" where
  "skip_whitespace lx =
     (let lx1 = lex_get lx in if json_space (current lx1) then skip_whitespace lx1 else lx1)"
  by pat_completeness auto
termination
  by (relation "measure left") (use lex_get_left in \<open>auto simp: json_space_def\<close>)

declare skip_whitespace.simps [simp del]

lemma skip_line_left: "left (snd (skip_line lx)) \<le> left lx"
proof (induction lx rule: skip_line.induct)
  case (1 lx)
  then show ?case using lex_get_left_le [of lx]
    by (subst skip_line.simps) (auto simp: Let_def intro: order_trans)
qed

lemma skip_block_left: "left (snd (skip_block lx)) \<le> left lx"
proof (induction lx rule: skip_block.induct)
  case (1 lx)
  show ?case
  proof (cases "current (lex_get lx) = EOF \<or> current (lex_get lx) = 0")
    case True
    then show ?thesis using lex_get_left_le [of lx] by (subst skip_block.simps) (auto simp: Let_def)
  next
    case False
    then have "left (lex_get lx) < left lx" by (auto intro: lex_get_left)
    moreover have "left (lex_unget (lex_get (lex_get lx))) \<le> left (lex_get lx)"
      using lex_unget_left [of "lex_get (lex_get lx)"] lex_get_left [of "lex_get lx"]
        lex_get_left_le [of "lex_get lx"] by (auto split: if_splits)
    ultimately show ?thesis
      using False 1 [of "lex_get lx" "current (lex_get lx)"] lex_get_left_le [of "lex_get lx"]
      by (subst skip_block.simps) (auto simp: Let_def)
  qed
qed

lemma scan_comment_left: "fst (scan_comment lx) \<Longrightarrow> left (snd (scan_comment lx)) < left lx"
  using lex_get_left [of lx] skip_line_left [of "lex_get lx"] skip_block_left [of "lex_get lx"]
  by (auto simp: scan_comment_def Let_def split: if_splits)

lemma scan_comment_left_le: "left (snd (scan_comment lx)) \<le> left lx"
  using lex_get_left_le [of lx] skip_line_left [of "lex_get lx"] skip_block_left [of "lex_get lx"]
  by (auto simp: scan_comment_def Let_def)

lemma skip_whitespace_left: "left (skip_whitespace lx) \<le> left lx"
proof (induction lx rule: skip_whitespace.induct)
  case (1 lx)
  then show ?case using lex_get_left_le [of lx]
    by (subst skip_whitespace.simps) (auto simp: Let_def intro: order_trans)
qed

function skip_comments :: "lexer \<Rightarrow> bool \<times> lexer" where
  "skip_comments lx =
     (if ignore_comments lx \<and> current lx = ch (CHR ''/'') then
        (case scan_comment lx of (ok, lx1) \<Rightarrow>
           if ok then skip_comments (skip_whitespace lx1) else (False, lx1))
      else (True, lx))"
  by pat_completeness auto
termination
proof (relation "measure left", goal_cases)
  case (2 lx ok lx1)
  then show ?case
    using scan_comment_left [of lx] skip_whitespace_left [of lx1] by (cases "scan_comment lx") simp
qed simp

declare skip_comments.simps [simp del]

text \<open>The \<open>switch\<close> on the first character of a token.\<close>

definition scan_token :: "lexer \<Rightarrow> token_type \<times> lexer" where
  "scan_token lx =
     (let c = current lx in
      if c = ch (CHR ''['') then (begin_array, lx)
      else if c = ch (CHR '']'') then (end_array, lx)
      else if c = ch (CHR ''{'') then (begin_object, lx)
      else if c = ch (CHR ''}'') then (end_object, lx)
      else if c = ch (CHR '':'') then (name_separator, lx)
      else if c = ch (CHR '','') then (value_separator, lx)
      else if c = ch (CHR ''t'') then scan_literal ''true'' literal_true lx
      else if c = ch (CHR ''f'') then scan_literal ''false'' literal_false lx
      else if c = ch (CHR ''n'') then scan_literal ''null'' literal_null lx
      else if c = 0x22 then scan_string lx
      else if c = ch (CHR ''-'') \<or> digit c then scan_number lx
      else if c = 0 \<or> c = EOF then (end_of_input, lx)
      else lex_error ''invalid literal'' lx)"

definition scan :: "lexer \<Rightarrow> token_type \<times> lexer" where
  "scan lx =
     (case (if chars_read_total (position lx) = 0 then skip_bom lx else (True, lx)) of (bom_ok, lx1) \<Rightarrow>
        if \<not> bom_ok then lex_error ''invalid BOM; must be 0xEF 0xBB 0xBF if given'' lx1
        else (case skip_comments (skip_whitespace lx1) of (ok, lx2) \<Rightarrow>
          if ok then scan_token lx2 else (parse_error_token, lx2)))"

section \<open>Every token but the last consumes input\<close>

lemma scan_string_chars_left: "left (snd (scan_string_chars lx)) \<le> left lx"
proof (induction lx rule: scan_string_chars.induct)
  case (1 lx)
  have g: "left (lex_get lx) \<le> left lx" by (rule lex_get_left_le)
  show ?case
  proof (cases "current (lex_get lx) = 0x5C")
    case True
    then show ?thesis
      using 1(1) [OF refl refl, of "fst (scan_escape (lex_get lx))" "snd (scan_escape (lex_get lx))"]
        g scan_escape_left [of "lex_get lx"]
      by (subst scan_string_chars.simps) (auto simp: Let_def split: prod.splits)
  next
    case False
    note rec = 1(2) [OF refl refl _ _ False] 1(3) [OF refl refl _ _ False]
    show ?thesis
    proof (cases "utf8_ranges (current (lex_get lx))")
      case None
      then show ?thesis using False g rec(1)
        by (subst scan_string_chars.simps) (auto simp: Let_def lex_error_def)
    next
      case (Some rs)
      then show ?thesis using False g rec(1) rec(2) next_byte_in_range_left [of rs "lex_get lx"]
        by (subst scan_string_chars.simps) (fastforce simp: Let_def lex_error_def split: prod.splits)
    qed
  qed
qed

lemma lex_error_left [simp]: "left (snd (lex_error m lx)) = left lx"
  by (simp add: lex_error_def)

lemma scan_number_done_left: "left (snd (scan_number_done t (lex_get lx))) \<le> left lx"
proof -
  have "left (lex_unget (lex_get lx)) \<le> left lx"
    using lex_unget_left [of "lex_get lx"] lex_get_left [of lx] lex_get_left_le [of lx]
    by (auto split: if_splits)
  then show ?thesis by (auto simp: scan_number_done_def Let_def left_def split: option.splits)
qed

lemma add_get_left:
  assumes "\<And>lx'. left (snd (F lx')) \<le> left lx'"
  shows "left (snd (F (lex_add c (lex_get lx)))) \<le> left lx"
  using assms [of "lex_add c (lex_get lx)"] lex_get_left_le [of lx] by simp

lemma add_reset_left:
  assumes "\<And>lx'. left (snd (F lx')) \<le> left lx'"
  shows "left (snd (F (lex_add c (lex_reset lx)))) \<le> left lx" and "left (snd (F (lex_reset lx))) \<le> left lx"
  using assms [of "lex_add c (lex_reset lx)"] assms [of "lex_reset lx"] by simp_all

lemma scan_number_any2_left: "left (snd (scan_number_any2 t lx)) \<le> left lx"
proof (induction t lx rule: scan_number_any2.induct)
  case (1 t lx)
  show ?case
  proof (cases "digit (current (lex_get lx))")
    case True
    then show ?thesis using 1 [OF refl refl True] lex_get_left_le [of lx]
      by (subst scan_number_any2.simps) (simp add: Let_def)
  next
    case False
    then show ?thesis
      by (subst scan_number_any2.simps) (simp add: Let_def scan_number_done_left)
  qed
qed

lemma scan_number_sign_left: "left (snd (scan_number_sign t lx)) \<le> left lx"
  using lex_get_left_le [of lx]
  by (simp add: scan_number_sign_def Let_def scan_number_done_left
      add_get_left [of "scan_number_any2 t", OF scan_number_any2_left])

lemma scan_number_exponent_left: "left (snd (scan_number_exponent t lx)) \<le> left lx"
  using lex_get_left_le [of lx]
  by (simp add: scan_number_exponent_def Let_def scan_number_done_left
      add_get_left [of "scan_number_any2 value_float", OF scan_number_any2_left]
      add_get_left [of "scan_number_sign value_float", OF scan_number_sign_left])

lemma scan_number_decimal2_left: "left (snd (scan_number_decimal2 t lx)) \<le> left lx"
proof (induction t lx rule: scan_number_decimal2.induct)
  case (1 t lx)
  show ?case
  proof (cases "digit (current (lex_get lx))")
    case True
    then show ?thesis using 1 [OF refl refl True] lex_get_left_le [of lx]
      by (subst scan_number_decimal2.simps) (simp add: Let_def)
  next
    case False
    then show ?thesis
      by (subst scan_number_decimal2.simps) (simp add: Let_def scan_number_done_left
      add_get_left [of "scan_number_exponent t", OF scan_number_exponent_left])
  qed
qed

lemma scan_number_decimal1_left: "left (snd (scan_number_decimal1 t lx)) \<le> left lx"
  using lex_get_left_le [of lx]
  by (simp add: scan_number_decimal1_def Let_def scan_number_done_left
      add_get_left [of "scan_number_decimal2 value_float", OF scan_number_decimal2_left])

lemma scan_number_any1_left: "left (snd (scan_number_any1 t lx)) \<le> left lx"
proof (induction t lx rule: scan_number_any1.induct)
  case (1 t lx)
  show ?case
  proof (cases "digit (current (lex_get lx))")
    case True
    then show ?thesis using 1 [OF refl refl True] lex_get_left_le [of lx]
      by (subst scan_number_any1.simps) (simp add: Let_def)
  next
    case False
    then show ?thesis
      by (subst scan_number_any1.simps) (simp add: Let_def scan_number_done_left
      add_get_left [of "scan_number_exponent t", OF scan_number_exponent_left]
      add_get_left [of "scan_number_decimal1 t", OF scan_number_decimal1_left])
  qed
qed

lemma scan_number_zero_left: "left (snd (scan_number_zero t lx)) \<le> left lx"
  using lex_get_left_le [of lx]
  by (simp add: scan_number_zero_def Let_def scan_number_done_left
      add_get_left [of "scan_number_exponent t", OF scan_number_exponent_left]
      add_get_left [of "scan_number_decimal1 t", OF scan_number_decimal1_left])

lemma scan_number_minus_left: "left (snd (scan_number_minus lx)) \<le> left lx"
  using lex_get_left_le [of lx]
  by (simp add: scan_number_minus_def Let_def scan_number_done_left
      add_get_left [of "scan_number_any1 value_integer", OF scan_number_any1_left]
      add_get_left [of "scan_number_zero value_integer", OF scan_number_zero_left])

lemma scan_number_left: "left (snd (scan_number lx)) \<le> left lx"
  by (simp add: scan_number_def Let_def
      add_reset_left [of "scan_number_any1 value_unsigned", OF scan_number_any1_left]
      add_reset_left [of "scan_number_zero value_unsigned", OF scan_number_zero_left]
      add_reset_left [of scan_number_minus, OF scan_number_minus_left])

lemma scan_literal_rest_left: "left (snd (scan_literal_rest l t lx)) \<le> left lx"
proof (induction l t lx rule: scan_literal_rest.induct)
  case (2 l ls t lx)
  then show ?case using lex_get_left_le [of lx] by (auto simp: Let_def intro: order_trans)
qed simp

lemma scan_literal_left: "left (snd (scan_literal l t lx)) \<le> left lx"
  unfolding scan_literal_def by (rule scan_literal_rest_left)

lemma scan_string_left: "left (snd (scan_string lx)) \<le> left lx"
  using scan_string_chars_left [of "lex_reset lx"] by (simp add: scan_string_def)

lemma scan_token_left: "left (snd (scan_token lx)) \<le> left lx"
  by (simp add: scan_token_def Let_def scan_literal_left scan_string_left scan_number_left)

lemma scan_token_EOF: "current lx = EOF \<Longrightarrow> fst (scan_token lx) = end_of_input"
  by (simp add: scan_token_def Let_def digit_def)

lemma skip_whitespace_consumes: "current (skip_whitespace lx) \<noteq> EOF \<Longrightarrow> left (skip_whitespace lx) < left lx"
proof (induction lx rule: skip_whitespace.induct)
  case (1 lx)
  show ?case
  proof (cases "json_space (current (lex_get lx))")
    case True
    then have "skip_whitespace lx = skip_whitespace (lex_get lx)"
      by (subst skip_whitespace.simps) (simp add: Let_def)
    with True show ?thesis using 1 lex_get_left_le [of lx] by fastforce
  next
    case False
    then have "skip_whitespace lx = lex_get lx" by (subst skip_whitespace.simps) (simp add: Let_def)
    then show ?thesis using 1(2) by (simp add: lex_get_left)
  qed
qed

lemma skip_comments_left: "left (snd (skip_comments lx)) \<le> left lx"
proof (induction lx rule: skip_comments.induct)
  case (1 lx)
  obtain ok lx1 where c: "scan_comment lx = (ok, lx1)" by (cases "scan_comment lx")
  show ?case
  proof (cases "ignore_comments lx \<and> current lx = ch (CHR ''/'') \<and> ok")
    case True
    then have "skip_comments lx = skip_comments (skip_whitespace lx1)"
      by (subst skip_comments.simps) (simp add: c)
    then show ?thesis
      using 1 [OF _ c [symmetric]] True skip_whitespace_left [of lx1] scan_comment_left_le [of lx] c
      by simp
  next
    case False
    then have "skip_comments lx = (True, lx) \<or> skip_comments lx = (False, lx1)"
      by (subst (1 2) skip_comments.simps) (auto simp: c)
    then show ?thesis using scan_comment_left_le [of lx] c by auto
  qed
qed

lemma skip_bom_left: "left (snd (skip_bom lx)) \<le> left lx"
  using lex_get_left_le [of lx] lex_get_left_le [of "lex_get lx"] lex_get_left_le [of "lex_get (lex_get lx)"]
    lex_get_left [of lx] lex_unget_left [of "lex_get lx"]
  by (auto simp: skip_bom_def Let_def)

lemma skip_comments_EOF: "current lx = EOF \<Longrightarrow> skip_comments lx = (True, lx)"
  by (subst skip_comments.simps) simp

theorem scan_consumes:
  assumes "scan lx = (t, lx')"
  shows "left lx' \<le> left lx" and "t \<noteq> end_of_input \<Longrightarrow> t \<noteq> parse_error_token \<Longrightarrow> left lx' < left lx"
proof -
  define start where "start = (if chars_read_total (position lx) = 0 then skip_bom lx else (True, lx))"
  define lx1 where "lx1 = snd start"
  define lx2 where "lx2 = skip_whitespace lx1"
  define ok where "ok = fst (skip_comments lx2)"
  define lx3 where "lx3 = snd (skip_comments lx2)"
  have s: "scan lx = (if \<not> fst start then lex_error ''invalid BOM; must be 0xEF 0xBB 0xBF if given'' lx1
      else if ok then scan_token lx3 else (parse_error_token, lx3))"
    by (simp add: scan_def start_def lx1_def lx2_def lx3_def ok_def case_prod_unfold)
  have l1: "left lx1 \<le> left lx" using skip_bom_left [of lx] by (simp add: lx1_def start_def)
  have l2: "left lx2 \<le> left lx1" unfolding lx2_def by (rule skip_whitespace_left)
  have l3: "left lx3 \<le> left lx2" unfolding lx3_def by (rule skip_comments_left)
  have l4: "left (snd (scan_token lx3)) \<le> left lx3" by (rule scan_token_left)
  show "left lx' \<le> left lx"
    using assms l1 l2 l3 l4 unfolding s by (auto simp: lex_error_def split: if_splits)
  assume t: "t \<noteq> end_of_input" "t \<noteq> parse_error_token"
  have "current lx2 \<noteq> EOF"
  proof
    assume "current lx2 = EOF"
    then have "skip_comments lx2 = (True, lx2)" by (rule skip_comments_EOF)
    with \<open>current lx2 = EOF\<close> have "fst (scan_token lx3) = end_of_input" and ok
      by (simp_all add: lx3_def ok_def scan_token_EOF)
    with t assms show False unfolding s by (auto simp: lex_error_def split: if_splits)
  qed
  then have "left lx2 < left lx1" unfolding lx2_def by (rule skip_whitespace_consumes)
  then show "left lx' < left lx"
    using assms t l1 l3 l4 unfolding s by (auto simp: lex_error_def split: if_splits)
qed

end
