(* ===== verification/Json_Value.thy ===== *)
theory Json_Value
  imports Json_Error Std_Tables
begin

text \<open>
  JSON values (\<open>json.hpp\<close>, class \<open>basic_json\<close>): the tagged union of the value types, the
  constructors the program uses, element access, and the conversions \<open>from_json\<close> from a
  value to a C++ object. An object is a \<open>std::map\<close> from names to values, ordered by name.
\<close>

section \<open>Values\<close>

datatype value_t =
    T_null | T_object | T_array | T_string | T_boolean
  | T_number_integer | T_number_unsigned | T_number_float | T_binary | T_discarded

datatype json =
    JNull
  | JObject "(string, json) omap"
  | JArray "json list"
  | JString string
  | JBool bool
  | JInteger int
  | JUnsigned int
  | JFloat double
  | JBinary "nat list" "nat option"
  | JDiscarded

fun value_type :: "json \<Rightarrow> value_t" where
  "value_type JNull = T_null"
| "value_type (JObject m) = T_object"
| "value_type (JArray js) = T_array"
| "value_type (JString s) = T_string"
| "value_type (JBool b) = T_boolean"
| "value_type (JInteger n) = T_number_integer"
| "value_type (JUnsigned n) = T_number_unsigned"
| "value_type (JFloat x) = T_number_float"
| "value_type (JBinary bs t) = T_binary"
| "value_type JDiscarded = T_discarded"

text \<open>The constructor for an empty value of a type.\<close>

fun json_of_type :: "value_t \<Rightarrow> json" where
  "json_of_type T_object = JObject []"
| "json_of_type T_array = JArray []"
| "json_of_type T_string = JString []"
| "json_of_type T_binary = JBinary [] None"
| "json_of_type T_boolean = JBool False"
| "json_of_type T_number_integer = JInteger 0"
| "json_of_type T_number_unsigned = JUnsigned 0"
| "json_of_type T_number_float = JFloat 0"
| "json_of_type T_null = JNull"
| "json_of_type T_discarded = JDiscarded"

fun type_name :: "json \<Rightarrow> string" where
  "type_name JNull = ''null''"
| "type_name (JObject m) = ''object''"
| "type_name (JArray js) = ''array''"
| "type_name (JString s) = ''string''"
| "type_name (JBool b) = ''boolean''"
| "type_name (JBinary bs t) = ''binary''"
| "type_name JDiscarded = ''discarded''"
| "type_name (JInteger n) = ''number''"
| "type_name (JUnsigned n) = ''number''"
| "type_name (JFloat x) = ''number''"

definition is_object :: "json \<Rightarrow> bool" where
  "is_object j = (value_type j = T_object)"

definition is_array :: "json \<Rightarrow> bool" where
  "is_array j = (value_type j = T_array)"

definition is_string :: "json \<Rightarrow> bool" where
  "is_string j = (value_type j = T_string)"

section \<open>Initializer lists\<close>

text \<open>
  \<open>std::map::emplace\<close>: the first value of a name is kept.
\<close>

definition omap_emplace :: "'k::linorder \<Rightarrow> 'v \<Rightarrow> ('k, 'v) omap \<Rightarrow> ('k, 'v) omap" where
  "omap_emplace k v m = (if omap_find m k = None then omap_put k v m else m)"

fun name_value :: "json \<Rightarrow> (string \<times> json) option" where
  "name_value (JArray [JString k, v]) = Some (k, v)"
| "name_value _ = None"

text \<open>A list of pairs that start with a string is an object, any other list an array.\<close>

definition json_list :: "json list \<Rightarrow> json" where
  "json_list init =
     (if list_all (\<lambda>e. name_value e \<noteq> None) init
      then JObject (fold (\<lambda>e m. case name_value e of Some (k, v) \<Rightarrow> omap_emplace k v m | None \<Rightarrow> m) init [])
      else JArray init)"

section \<open>Element access\<close>

fun json_at :: "json \<Rightarrow> string \<Rightarrow> json result" where
  "json_at (JObject m) k =
     (case omap_find m k of
        Some v \<Rightarrow> Inr v
      | None \<Rightarrow> Inl (out_of_range 403 (''key '' @ CHR 0x27 # k @ CHR 0x27 # '' not found'')))"
| "json_at j k = Inl (type_error 304 (''cannot use at() with '' @ type_name j))"

fun json_contains :: "json \<Rightarrow> string \<Rightarrow> bool" where
  "json_contains (JObject m) k = (omap_find m k \<noteq> None)"
| "json_contains _ k = False"

section \<open>Conversion to C++ values\<close>

definition must_be :: "string \<Rightarrow> json \<Rightarrow> exn" where
  "must_be t j = type_error 302 (''type must be '' @ t @ '', but is '' @ type_name j)"

text \<open>
  \<open>get_arithmetic_value\<close> for the two targets the program uses. Converting a double to an
  integer is undefined when the truncated value does not fit.
\<close>

definition size_of_double :: "double \<Rightarrow> nat result" where
  "size_of_double x =
     (let t = (if 0 \<le> dval x then \<lfloor>dval x\<rfloor> else \<lceil>dval x\<rceil>) in
      if isfinite x \<and> 0 \<le> t \<and> t < 2 ^ 64 then Inr (nat t)
      else Inl (Undefined ''conversion of a double to std::size_t''))"

fun get_double :: "json \<Rightarrow> double result" where
  "get_double (JUnsigned n) = Inr (rnd (of_int n))"
| "get_double (JInteger n) = Inr (rnd (of_int n))"
| "get_double (JFloat x) = Inr x"
| "get_double j = Inl (must_be ''number'' j)"

fun get_size_t :: "json \<Rightarrow> nat result" where
  "get_size_t (JUnsigned n) = Inr (nat n)"
| "get_size_t (JInteger n) = Inr (nat (n mod 2 ^ 64))"
| "get_size_t (JFloat x) = size_of_double x"
| "get_size_t j = Inl (must_be ''number'' j)"

fun get_string :: "json \<Rightarrow> string result" where
  "get_string (JString s) = Inr s"
| "get_string j = Inl (must_be ''string'' j)"

fun get_array :: "(json \<Rightarrow> 'v result) \<Rightarrow> json \<Rightarrow> 'v list result" where
  "get_array f (JArray js) = map_res f js"
| "get_array f j = Inl (must_be ''array'' j)"

definition get_field :: "(json \<Rightarrow> 'v result) \<Rightarrow> string \<times> json \<Rightarrow> (string \<times> 'v) result" where
  "get_field f p = bind_res (f (snd p)) (\<lambda>x. Inr (fst p, x))"

fun get_fields :: "(json \<Rightarrow> 'v result) \<Rightarrow> json \<Rightarrow> (string \<times> 'v) list result" where
  "get_fields f (JObject m) = map_res (get_field f) m"
| "get_fields f j = Inl (must_be ''object'' j)"

definition get_omap :: "(json \<Rightarrow> 'v result) \<Rightarrow> json \<Rightarrow> (string, 'v) omap result" where
  "get_omap f j = bind_res (get_fields f j) (\<lambda>ps. Inr (fold (\<lambda>(k, v) m. omap_emplace k v m) ps []))"

definition get_umap :: "(json \<Rightarrow> 'v result) \<Rightarrow> json \<Rightarrow> (string, 'v) umap result" where
  "get_umap f j = bind_res (get_fields f j) (\<lambda>ps. Inr (fold (\<lambda>(k, v) m. umap_emplace k v m) ps []))"

text \<open>The value of a map: its elements inserted into the object one by one.\<close>

definition json_of_map :: "('v \<Rightarrow> json) \<Rightarrow> (string \<times> 'v) list \<Rightarrow> json" where
  "json_of_map f ps = JObject (fold (\<lambda>(k, v) m. omap_emplace k (f v) m) ps [])"

end
