(* ===== verification/Json_Parser.thy ===== *)
theory Json_Parser
  imports Json_Lexer Json_Value
begin

text \<open>
  The parser of the JSON library (\<open>json.hpp\<close>, classes \<open>parser\<close> and \<open>json_sax_dom_parser\<close>):
  a loop over the tokens with a stack of the open arrays and objects, which reports events
  to the builder of the value. The builder keeps pointers into the value it builds; a pointer
  is a path of array indices and field names from the root.
\<close>

section \<open>References into a value\<close>

datatype path_step = Index nat | Field string

type_synonym json_path = "path_step list"

fun json_deref :: "json_path \<Rightarrow> json \<Rightarrow> json option" where
  "json_deref [] j = Some j"
| "json_deref (Field k # p) (JObject m) = (case omap_find m k of Some v \<Rightarrow> json_deref p v | None \<Rightarrow> None)"
| "json_deref (Index i # p) (JArray js) = (if i < length js then json_deref p (js ! i) else None)"
| "json_deref _ _ = None"

fun json_assign :: "json_path \<Rightarrow> (json \<Rightarrow> json) \<Rightarrow> json \<Rightarrow> json" where
  "json_assign [] g j = g j"
| "json_assign (Field k # p) g (JObject m) =
     (case omap_find m k of Some v \<Rightarrow> JObject (omap_put k (json_assign p g v) m) | None \<Rightarrow> JObject m)"
| "json_assign (Index i # p) g (JArray js) =
     (if i < length js then JArray (js[i := json_assign p g (js ! i)]) else JArray js)"
| "json_assign _ g j = j"

section \<open>The builder\<close>

text \<open>\<open>ref_stack\<close> with its back first.\<close>

record sax_dom =
  sax_root :: json
  ref_stack :: "json_path list"
  object_element :: json_path
  errored :: bool
  allow_exceptions :: bool

definition new_sax :: "json \<Rightarrow> bool \<Rightarrow> sax_dom" where
  "new_sax r allow = \<lparr>sax_root = r, ref_stack = [], object_element = [], errored = False,
     allow_exceptions = allow\<rparr>"

fun array_push :: "json \<Rightarrow> json \<Rightarrow> json" where
  "array_push v (JArray js) = JArray (js @ [v])"
| "array_push v j = j"

definition handle_value :: "json \<Rightarrow> sax_dom \<Rightarrow> json_path \<times> sax_dom" where
  "handle_value v sax =
     (case ref_stack sax of
        [] \<Rightarrow> ([], sax\<lparr>sax_root := v\<rparr>)
      | p # _ \<Rightarrow>
          (case json_deref p (sax_root sax) of
             Some (JArray js) \<Rightarrow>
               (p @ [Index (length js)], sax\<lparr>sax_root := json_assign p (array_push v) (sax_root sax)\<rparr>)
           | _ \<Rightarrow>
               (object_element sax,
                sax\<lparr>sax_root := json_assign (object_element sax) (\<lambda>_. v) (sax_root sax)\<rparr>)))"

definition sax_value :: "json \<Rightarrow> sax_dom \<Rightarrow> sax_dom" where
  "sax_value v sax = snd (handle_value v sax)"

definition sax_start :: "value_t \<Rightarrow> sax_dom \<Rightarrow> sax_dom" where
  "sax_start t sax = (case handle_value (json_of_type t) sax of (p, sax1) \<Rightarrow>
     sax1\<lparr>ref_stack := p # ref_stack sax1\<rparr>)"

text \<open>\<open>operator[]\<close> of \<open>std::map\<close> adds a null value for a new name.\<close>

fun touch_field :: "string \<Rightarrow> json \<Rightarrow> json" where
  "touch_field k (JObject m) = JObject (omap_emplace k JNull m)"
| "touch_field k j = j"

definition sax_key :: "string \<Rightarrow> sax_dom \<Rightarrow> sax_dom" where
  "sax_key k sax = (let p = hd (ref_stack sax) in
     sax\<lparr>sax_root := json_assign p (touch_field k) (sax_root sax), object_element := p @ [Field k]\<rparr>)"

definition sax_end :: "sax_dom \<Rightarrow> sax_dom" where
  "sax_end sax = sax\<lparr>ref_stack := tl (ref_stack sax)\<rparr>"

section \<open>The parser\<close>

record json_parser =
  m_lexer :: lexer
  last_token :: token_type
  open_states :: "bool list"
  sax :: sax_dom

definition get_token :: "json_parser \<Rightarrow> json_parser" where
  "get_token p = (case scan (m_lexer p) of (t, lx) \<Rightarrow> p\<lparr>m_lexer := lx, last_token := t\<rparr>)"

definition new_parser :: "string \<Rightarrow> json \<Rightarrow> bool \<Rightarrow> json_parser" where
  "new_parser input r allow =
     get_token \<lparr>m_lexer = new_lexer input False, last_token = uninitialized, open_states = [],
       sax = new_sax r allow\<rparr>"

definition exception_message :: "token_type \<Rightarrow> string \<Rightarrow> json_parser \<Rightarrow> string" where
  "exception_message expected what p =
     ''syntax error '' @ (if what \<noteq> [] then ''while parsing '' @ what @ '' '' else []) @ ''- '' @
     (if last_token p = parse_error_token
      then error_message (m_lexer p) @ ''; last read: '' @ CHR 0x27 # get_token_string (m_lexer p) @ [CHR 0x27]
      else ''unexpected '' @ token_type_name (last_token p)) @
     (if expected \<noteq> uninitialized then ''; expected '' @ token_type_name expected else [])"

text \<open>What a step of the loop tells it to do next.\<close>

datatype parse_next = Next_value | Value_done | Return bool

definition on_sax :: "(sax_dom \<Rightarrow> sax_dom) \<Rightarrow> json_parser \<Rightarrow> json_parser" where
  "on_sax g p = p\<lparr>sax := g (sax p)\<rparr>"

definition sax_parse_error :: "exn \<Rightarrow> json_parser \<Rightarrow> (parse_next \<times> json_parser) result" where
  "sax_parse_error ex p =
     (if allow_exceptions (sax p) then Inl ex
      else Inr (Return False, on_sax (\<lambda>s. s\<lparr>errored := True\<rparr>) p))"

definition unexpected :: "token_type \<Rightarrow> string \<Rightarrow> json_parser \<Rightarrow> (parse_next \<times> json_parser) result" where
  "unexpected expected what p =
     sax_parse_error (parse_error 101 (position (m_lexer p)) (exception_message expected what p)) p"

definition value_done :: "json \<Rightarrow> json_parser \<Rightarrow> (parse_next \<times> json_parser) result" where
  "value_done v p = Inr (Value_done, on_sax (sax_value v) p)"

text \<open>The key of a field and the colon; then the next token is the start of its value.\<close>

definition parse_key :: "json_parser \<Rightarrow> (parse_next \<times> json_parser) result" where
  "parse_key p =
     (if last_token p \<noteq> value_string then unexpected value_string ''object key'' p
      else
        (let p1 = get_token (on_sax (sax_key (token_buffer (m_lexer p))) p) in
         if last_token p1 \<noteq> name_separator then unexpected name_separator ''object separator'' p1
         else Inr (Next_value, p1)))"

definition parse_begin_object :: "json_parser \<Rightarrow> (parse_next \<times> json_parser) result" where
  "parse_begin_object p =
     (let p1 = get_token (on_sax (sax_start T_object) p) in
      if last_token p1 = end_object then Inr (Value_done, on_sax sax_end p1)
      else bind_res (parse_key p1) (\<lambda>(next, p2).
        case next of
          Next_value \<Rightarrow> Inr (Next_value, get_token (p2\<lparr>open_states := False # open_states p2\<rparr>))
        | _ \<Rightarrow> Inr (next, p2)))"

definition parse_begin_array :: "json_parser \<Rightarrow> (parse_next \<times> json_parser) result" where
  "parse_begin_array p =
     (let p1 = get_token (on_sax (sax_start T_array) p) in
      if last_token p1 = end_array then Inr (Value_done, on_sax sax_end p1)
      else Inr (Next_value, p1\<lparr>open_states := True # open_states p1\<rparr>))"

definition parse_float :: "json_parser \<Rightarrow> (parse_next \<times> json_parser) result" where
  "parse_float p =
     (let res = number_float (m_lexer p) in
      if \<not> isfinite res then
        sax_parse_error (out_of_range 406
          (''number overflow parsing '' @ CHR 0x27 # get_token_string (m_lexer p) @ [CHR 0x27])) p
      else value_done (JFloat res) p)"

definition parse_end_of_input :: "json_parser \<Rightarrow> (parse_next \<times> json_parser) result" where
  "parse_end_of_input p =
     (if chars_read_total (position (m_lexer p)) = 1 then
        sax_parse_error (parse_error 101 (position (m_lexer p))
          ''attempting to parse an empty input; check that your input string or stream contains the expected JSON'') p
      else unexpected literal_or_value ''value'' p)"

text \<open>The \<open>switch\<close> on the last token.\<close>

definition parse_value :: "json_parser \<Rightarrow> (parse_next \<times> json_parser) result" where
  "parse_value p =
     (case last_token p of
        begin_object \<Rightarrow> parse_begin_object p
      | begin_array \<Rightarrow> parse_begin_array p
      | value_float \<Rightarrow> parse_float p
      | literal_false \<Rightarrow> value_done (JBool False) p
      | literal_null \<Rightarrow> value_done JNull p
      | literal_true \<Rightarrow> value_done (JBool True) p
      | value_integer \<Rightarrow> value_done (JInteger (number_integer (m_lexer p))) p
      | value_string \<Rightarrow> value_done (JString (token_buffer (m_lexer p))) p
      | value_unsigned \<Rightarrow> value_done (JUnsigned (number_unsigned (m_lexer p))) p
      | parse_error_token \<Rightarrow> unexpected uninitialized ''value'' p
      | end_of_input \<Rightarrow> parse_end_of_input p
      | _ \<Rightarrow> unexpected literal_or_value ''value'' p)"

text \<open>
  After a value: the innermost open container gets its next element, or is closed
  (\<open>Value_done\<close>: the state of the container around it is evaluated next).
\<close>

definition close_container :: "json_parser \<Rightarrow> (parse_next \<times> json_parser) result" where
  "close_container p = Inr (Value_done, (on_sax sax_end p)\<lparr>open_states := tl (open_states p)\<rparr>)"

definition parse_after_element :: "json_parser \<Rightarrow> (parse_next \<times> json_parser) result" where
  "parse_after_element p =
     (let p1 = get_token p in
      if last_token p1 = value_separator then Inr (Next_value, get_token p1)
      else if last_token p1 = end_array then close_container p1
      else unexpected end_array ''array'' p1)"

definition parse_after_field :: "json_parser \<Rightarrow> (parse_next \<times> json_parser) result" where
  "parse_after_field p =
     (let p1 = get_token p in
      if last_token p1 = value_separator then
        bind_res (parse_key (get_token p1)) (\<lambda>(next, p2).
          case next of Next_value \<Rightarrow> Inr (Next_value, get_token p2) | _ \<Rightarrow> Inr (next, p2))
      else if last_token p1 = end_object then close_container p1
      else unexpected end_object ''object'' p1)"

definition parse_state :: "json_parser \<Rightarrow> (parse_next \<times> json_parser) result" where
  "parse_state p =
     (case open_states p of
        [] \<Rightarrow> Inr (Return True, p)
      | in_array # _ \<Rightarrow> if in_array then parse_after_element p else parse_after_field p)"

text \<open>The loop ends: every step but the last reads a token, and reading consumes input.\<close>

definition last_call :: "token_type \<Rightarrow> bool" where
  "last_call t = (t = end_of_input \<or> t = parse_error_token)"

definition weight :: "json_parser \<Rightarrow> nat" where
  "weight p = 2 * left (m_lexer p) + (if last_call (last_token p) then 0 else 1)"

lemma weight_simps [simp]:
  "weight (on_sax g p) = weight p" "weight (p\<lparr>open_states := st\<rparr>) = weight p"
  "m_lexer (on_sax g p) = m_lexer p" "last_token (on_sax g p) = last_token p"
  by (simp_all add: weight_def on_sax_def)

lemma weight_get: "weight (get_token p) \<le> 2 * left (m_lexer p)"
proof -
  obtain t lx where "scan (m_lexer p) = (t, lx)" by (cases "scan (m_lexer p)")
  then show ?thesis using scan_consumes [of "m_lexer p" t lx]
    by (auto simp: get_token_def weight_def last_call_def)
qed

lemma weight_lexer: "2 * left (m_lexer p) \<le> weight p"
  by (simp add: weight_def)

lemma weight_get_le: "weight (get_token p) \<le> weight p"
  using weight_get weight_lexer order_trans by blast

lemma weight_get_less:
  assumes "\<not> last_call (last_token (get_token p))"
  shows "2 * left (m_lexer (get_token p)) + 1 < weight p"
proof -
  obtain t lx where s: "scan (m_lexer p) = (t, lx)" by (cases "scan (m_lexer p)")
  with assms have "left lx < left (m_lexer p)" using scan_consumes(2) [OF s]
    by (auto simp: get_token_def last_call_def)
  then show ?thesis using s weight_lexer [of p] by (simp add: get_token_def)
qed

lemma last_call_simps [simp]:
  "\<not> last_call value_separator" "\<not> last_call name_separator" "\<not> last_call value_string"
  "\<not> last_call begin_object" "\<not> last_call begin_array" "\<not> last_call end_object" "\<not> last_call end_array"
  "last_call end_of_input" "last_call parse_error_token"
  by (simp_all add: last_call_def)

lemma unexpected_Inr: "unexpected x w p = Inr (n, p1) \<Longrightarrow> n = Return False \<and> weight p1 = weight p"
  by (auto simp: unexpected_def sax_parse_error_def split: if_splits)

lemma parse_key_weight:
  assumes "parse_key p = Inr (n, p1)"
  shows "n \<noteq> Value_done" and "n = Next_value \<Longrightarrow> 2 * left (m_lexer p1) < weight p"
proof -
  show "n \<noteq> Value_done"
    using assms by (auto simp: parse_key_def Let_def dest: unexpected_Inr split: if_splits)
  assume "n = Next_value"
  then have p1: "p1 = get_token (on_sax (sax_key (token_buffer (m_lexer p))) p)" and "last_token p1 = name_separator"
    using assms by (auto simp: parse_key_def Let_def dest: unexpected_Inr split: if_splits)
  then show "2 * left (m_lexer p1) < weight p"
    using weight_get_less [of "on_sax (sax_key (token_buffer (m_lexer p))) p"] by simp
qed

lemma weight_call: "\<not> last_call (last_token p) \<Longrightarrow> weight p = 2 * left (m_lexer p) + 1"
  by (simp add: weight_def)

lemma after_key_weight:
  assumes "bind_res (parse_key q) (\<lambda>(next, p2).
      case next of Next_value \<Rightarrow> Inr (Next_value, get_token (g p2)) | _ \<Rightarrow> Inr (next, p2)) = Inr (n, p1)"
    and "\<And>p2. m_lexer (g p2) = m_lexer p2"
  shows "n \<noteq> Value_done" and "n = Next_value \<Longrightarrow> weight p1 < weight q"
proof -
  obtain m p2 where k: "parse_key q = Inr (m, p2)"
    using assms(1) by (cases "parse_key q") auto
  then have r: "(case m of Next_value \<Rightarrow> Inr (Next_value, get_token (g p2)) | _ \<Rightarrow> Inr (m, p2)) =
      (Inr (n, p1) :: (parse_next \<times> json_parser) result)"
    using assms(1) by simp
  show "n \<noteq> Value_done" using r parse_key_weight(1) [OF k] by (auto split: parse_next.splits)
  assume "n = Next_value"
  then have "m = Next_value" and "p1 = get_token (g p2)" using r by (auto split: parse_next.splits)
  then show "weight p1 < weight q"
    using weight_get [of "g p2"] parse_key_weight(2) [OF k] assms(2) [of p2] by simp
qed

lemma parse_begin_object_weight:
  assumes r: "parse_begin_object p = Inr (n, p1)" and c: "\<not> last_call (last_token p)"
  shows "n = Value_done \<Longrightarrow> weight p1 \<le> weight p" and "n = Next_value \<Longrightarrow> weight p1 < weight p"
proof -
  define q where "q = get_token (on_sax (sax_start T_object) p)"
  have q: "weight q < weight p"
    using weight_get [of "on_sax (sax_start T_object) p"] weight_call [OF c] by (simp add: q_def)
  have r': "(if last_token q = end_object then Inr (Value_done, on_sax sax_end q)
      else bind_res (parse_key q) (\<lambda>(next, p2). case next of
        Next_value \<Rightarrow> Inr (Next_value, get_token (p2\<lparr>open_states := False # open_states p2\<rparr>))
      | _ \<Rightarrow> Inr (next, p2))) = Inr (n, p1)"
    using r by (simp only: parse_begin_object_def q_def Let_def)
  show "n = Value_done \<Longrightarrow> weight p1 \<le> weight p" "n = Next_value \<Longrightarrow> weight p1 < weight p"
    using r' q after_key_weight [of q "\<lambda>p2. p2\<lparr>open_states := False # open_states p2\<rparr>" n p1]
    by (auto split: if_splits)
qed

lemma parse_value_weight:
  assumes "parse_value p = Inr (n, p1)"
  shows "n = Value_done \<Longrightarrow> weight p1 \<le> weight p" and "n = Next_value \<Longrightarrow> weight p1 < weight p"
proof -
  have "(n = Value_done \<longrightarrow> weight p1 \<le> weight p) \<and> (n = Next_value \<longrightarrow> weight p1 < weight p)"
  proof (cases "last_token p = begin_object \<or> last_token p = begin_array")
    case True
    then have c: "\<not> last_call (last_token p)" by auto
    show ?thesis
      using True assms parse_begin_object_weight [OF _ c, of n p1]
        weight_get [of "on_sax (sax_start T_array) p"] weight_call [OF c]
      by (auto simp: parse_value_def parse_begin_array_def Let_def split: if_splits)
  next
    case False
    then show ?thesis
      using assms
      by (auto simp: parse_value_def value_done_def parse_float_def parse_end_of_input_def sax_parse_error_def Let_def
          dest: unexpected_Inr split: token_type.splits if_splits)
  qed
  then show "n = Value_done \<Longrightarrow> weight p1 \<le> weight p" "n = Next_value \<Longrightarrow> weight p1 < weight p" by simp_all
qed

lemma parse_state_weight:
  assumes "parse_state p = Inr (n, p1)" and "n = Value_done \<or> n = Next_value"
  shows "weight p1 < weight p"
proof -
  define q where "q = get_token p"
  have l: "weight q < weight p \<and> weight (get_token q) < weight p \<and> weight (get_token (get_token q)) < weight p"
    if "\<not> last_call (last_token q)"
    using that weight_get_less [of p] weight_call [of q] weight_get_le [of q] weight_get_le [of "get_token q"]
    by (simp add: q_def)
  obtain b bs where st: "open_states p = b # bs"
    using assms by (auto simp: parse_state_def split: list.splits)
  show ?thesis
  proof (cases b)
    case True
    then show ?thesis using assms l
      by (auto simp: parse_state_def st parse_after_element_def Let_def q_def [symmetric] close_container_def
          dest: unexpected_Inr split: if_splits)
  next
    case False
    then show ?thesis using assms l after_key_weight [of "get_token q" "\<lambda>p2. p2" n p1]
      by (auto simp: parse_state_def st parse_after_field_def Let_def q_def [symmetric] close_container_def
          dest: unexpected_Inr split: if_splits)
  qed
qed

function sax_parse_loop :: "bool \<Rightarrow> json_parser \<Rightarrow> (bool \<times> json_parser) result" where
  "sax_parse_loop skip_to_state_evaluation p =
     bind_res (if skip_to_state_evaluation then Inr (Value_done, p) else parse_value p) (\<lambda>(next, p1).
       case next of
         Return b \<Rightarrow> Inr (b, p1)
       | Next_value \<Rightarrow> sax_parse_loop False p1
       | Value_done \<Rightarrow>
           bind_res (parse_state p1) (\<lambda>(next', p2).
             case next' of
               Return b \<Rightarrow> Inr (b, p2)
             | Next_value \<Rightarrow> sax_parse_loop False p2
             | Value_done \<Rightarrow> sax_parse_loop True p2))"
  by pat_completeness auto

termination
proof (relation "measure (\<lambda>(s, p). weight p)", goal_cases)
  case (2 s p x n p1)
  then show ?case using parse_value_weight [of p n p1] by (auto split: if_splits)
next
  case (3 s p x n p1 y n' p2)
  then show ?case using parse_value_weight [of p n p1] parse_state_weight [of p1 n' p2] by (auto split: if_splits)
next
  case (4 s p x n p1 y n' p2)
  then show ?case using parse_value_weight [of p n p1] parse_state_weight [of p1 n' p2] by (auto split: if_splits)
qed simp

declare sax_parse_loop.simps [simp del]

definition sax_parse_internal :: "json_parser \<Rightarrow> (bool \<times> json_parser) result" where
  "sax_parse_internal p = sax_parse_loop False (p\<lparr>open_states := []\<rparr>)"

text \<open>The value is discarded when an error was recorded without an exception.\<close>

definition parse :: "bool \<Rightarrow> json_parser \<Rightarrow> json result" where
  "parse strict_mode p =
     bind_res (sax_parse_internal p) (\<lambda>(b, p1).
     bind_res
       (let p2 = (if strict_mode then get_token p1 else p1) in
        if strict_mode \<and> last_token p2 \<noteq> end_of_input
        then bind_res (unexpected end_of_input ''value'' p2) (\<lambda>(next, p3). Inr p3)
        else Inr p2)
       (\<lambda>p4. Inr (if errored (sax p4) then JDiscarded else sax_root (sax p4))))"

text \<open>\<open>operator>>\<close>: the value at the start of a stream; what follows it is not looked at.\<close>

definition json_read :: "string \<Rightarrow> json result" where
  "json_read input = parse False (new_parser input JNull True)"

end
