(* ===== verification/Json_Dtoa.thy ===== *)
theory Json_Dtoa
  imports Std_Text "HOL-Library.Word" "HOL-Library.Signed_Division"
begin

unbundle bit_operations_syntax

text \<open>
  The shortest decimal text of a double (\<open>json.hpp\<close>, namespace \<open>dtoa_impl\<close> and \<open>to_chars\<close>):
  the algorithm Grisu2, on 64-bit unsigned integers as in the code, with the table of cached
  powers of ten. The digits are a list of characters, the first \<open>length\<close> bytes of the
  buffer. A \<open>JSON_ASSERT\<close> that fails aborts the program: a function with assertions returns
  \<open>None\<close> then. Of the templates over the floating-point type, the instance for \<open>double\<close> is
  modelled.
\<close>

section \<open>Floating-point numbers with a 64-bit significand\<close>

type_synonym uint64 = "64 word"
type_synonym uint32 = "32 word"

definition asserting :: "bool \<Rightarrow> 'a option \<Rightarrow> 'a option" where
  "asserting b r = (if b then r else None)"

text \<open>The members \<open>f\<close> and \<open>e\<close> of the code: \<open>f * 2 ^ e\<close>.\<close>

record diyfp =
  fp_f :: uint64
  fp_e :: int

definition diyfp :: "uint64 \<Rightarrow> int \<Rightarrow> diyfp" where
  "diyfp f e = \<lparr>fp_f = f, fp_e = e\<rparr>"

definition diyfp_sub :: "diyfp \<Rightarrow> diyfp \<Rightarrow> diyfp option" where
  "diyfp_sub x y = asserting (fp_e x = fp_e y \<and> fp_f x \<ge> fp_f y) (Some (diyfp (fp_f x - fp_f y) (fp_e x)))"

text \<open>The upper 64 bits of the product, rounded.\<close>

definition diyfp_mul :: "diyfp \<Rightarrow> diyfp \<Rightarrow> diyfp" where
  "diyfp_mul x y =
     (let u_lo = fp_f x AND 0xFFFFFFFF; u_hi = drop_bit 32 (fp_f x);
          v_lo = fp_f y AND 0xFFFFFFFF; v_hi = drop_bit 32 (fp_f y);
          p0 = u_lo * v_lo; p1 = u_lo * v_hi; p2 = u_hi * v_lo; p3 = u_hi * v_hi;
          p0_hi = drop_bit 32 p0;
          p1_lo = p1 AND 0xFFFFFFFF; p1_hi = drop_bit 32 p1;
          p2_lo = p2 AND 0xFFFFFFFF; p2_hi = drop_bit 32 p2;
          Q = p0_hi + p1_lo + p2_lo;
          Q' = Q + push_bit (64 - 32 - 1) 1;
          h = p3 + p2_hi + p1_hi + drop_bit 32 Q'
      in diyfp h (fp_e x + fp_e y + 64))"

text \<open>Shifting left until the highest bit is set.\<close>

function normalize_loop :: "diyfp \<Rightarrow> diyfp" where
  "normalize_loop x =
     (if fp_f x \<noteq> 0 \<and> drop_bit 63 (fp_f x) = 0
      then normalize_loop (diyfp (push_bit 1 (fp_f x)) (fp_e x - 1)) else x)"
  by pat_completeness auto
termination
proof (relation "measure (\<lambda>x. nat (2 ^ 64 - uint (fp_f x)))", goal_cases)
  case (2 x)
  have "uint (drop_bit 63 (fp_f x)) = uint (fp_f x) div 2 ^ 63"
    by (simp add: drop_bit_eq_div uint_div_distrib)
  with 2 have "uint (fp_f x) \<noteq> 0" and "uint (fp_f x) div 2 ^ 63 = 0"
    by (simp_all add: uint_0_iff)
  then have "0 < uint (fp_f x)" and "uint (fp_f x) < 2 ^ 63"
    using uint_ge_0 [of "fp_f x"] by (auto simp: zdiv_eq_0_iff order_less_le)
  moreover from this have "uint (push_bit 1 (fp_f x)) = 2 * uint (fp_f x)"
    by (simp add: uint_word_ariths mult.commute)
  ultimately show ?case by (simp add: diyfp_def)
qed simp

declare normalize_loop.simps [simp del]

definition diyfp_normalize :: "diyfp \<Rightarrow> diyfp option" where
  "diyfp_normalize x = asserting (fp_f x \<noteq> 0) (Some (normalize_loop x))"

definition diyfp_normalize_to :: "diyfp \<Rightarrow> int \<Rightarrow> diyfp option" where
  "diyfp_normalize_to x target_exponent =
     (let delta = fp_e x - target_exponent in
      asserting (delta \<ge> 0 \<and> drop_bit (nat delta) (push_bit (nat delta) (fp_f x)) = fp_f x)
        (Some (diyfp (push_bit (nat delta) (fp_f x)) target_exponent)))"

section \<open>The boundaries of a double\<close>

text \<open>
  The bit pattern of a positive finite double: the exponent field \<open>E\<close> and the fraction field
  \<open>F\<close>, from the exponent of its leading binary digit.
\<close>

definition bits_E :: "double \<Rightarrow> int" where
  "bits_E x = (let k = ilog2 (dval x) in if k < - 1022 then 0 else k + 1023)"

definition bits_F :: "double \<Rightarrow> int" where
  "bits_F x = (let k = ilog2 (dval x) in
     if k < - 1022 then \<lfloor>dval x * two_to 1074\<rfloor> else \<lfloor>dval x * two_to (52 - k)\<rfloor> - 2 ^ 52)"

definition reinterpret_bits :: "double \<Rightarrow> uint64" where
  "reinterpret_bits x = of_int (bits_E x * 2 ^ 52 + bits_F x)"

record boundaries =
  bd_w :: diyfp
  bd_minus :: diyfp
  bd_plus :: diyfp

definition compute_boundaries :: "double \<Rightarrow> boundaries option" where
  "compute_boundaries value =
     asserting (isfinite value \<and> value > 0)
     (let kPrecision = 53; kBias = 1024 - 1 + (kPrecision - 1); kMinExp = 1 - kBias;
          kHiddenBit = push_bit 52 1 :: uint64;
          bits = reinterpret_bits value;
          E = drop_bit 52 bits;
          F = bits AND (kHiddenBit - 1);
          is_denormal = (E = 0);
          v = (if is_denormal then diyfp F kMinExp else diyfp (F + kHiddenBit) (uint E - kBias));
          lower_boundary_is_closer = (F = 0 \<and> E > 1);
          m_plus = diyfp (2 * fp_f v + 1) (fp_e v - 1);
          m_minus = (if lower_boundary_is_closer then diyfp (4 * fp_f v - 1) (fp_e v - 2)
                     else diyfp (2 * fp_f v - 1) (fp_e v - 1))
      in Option.bind (diyfp_normalize m_plus) (\<lambda>w_plus.
         Option.bind (diyfp_normalize_to m_minus (fp_e w_plus)) (\<lambda>w_minus.
         Option.bind (diyfp_normalize v) (\<lambda>w.
         Some \<lparr>bd_w = w, bd_minus = w_minus, bd_plus = w_plus\<rparr>))))"

section \<open>Cached powers of ten\<close>

definition kAlpha :: int where
  "kAlpha = - 60"

definition kGamma :: int where
  "kGamma = - 32"

text \<open>Rows \<open>(f, e, k)\<close> with \<open>f * 2 ^ e\<close> close to \<open>10 ^ k\<close>.\<close>

definition kCachedPowers :: "(int \<times> int \<times> int) list" where
  "kCachedPowers =
    [(0xAB70FE17C79AC6CA, - 1060, - 300),
     (0xFF77B1FCBEBCDC4F, - 1034, - 292),
     (0xBE5691EF416BD60C, - 1007, - 284),
     (0x8DD01FAD907FFC3C, - 980, - 276),
     (0xD3515C2831559A83, - 954, - 268),
     (0x9D71AC8FADA6C9B5, - 927, - 260),
     (0xEA9C227723EE8BCB, - 901, - 252),
     (0xAECC49914078536D, - 874, - 244),
     (0x823C12795DB6CE57, - 847, - 236),
     (0xC21094364DFB5637, - 821, - 228),
     (0x9096EA6F3848984F, - 794, - 220),
     (0xD77485CB25823AC7, - 768, - 212),
     (0xA086CFCD97BF97F4, - 741, - 204),
     (0xEF340A98172AACE5, - 715, - 196),
     (0xB23867FB2A35B28E, - 688, - 188),
     (0x84C8D4DFD2C63F3B, - 661, - 180),
     (0xC5DD44271AD3CDBA, - 635, - 172),
     (0x936B9FCEBB25C996, - 608, - 164),
     (0xDBAC6C247D62A584, - 582, - 156),
     (0xA3AB66580D5FDAF6, - 555, - 148),
     (0xF3E2F893DEC3F126, - 529, - 140),
     (0xB5B5ADA8AAFF80B8, - 502, - 132),
     (0x87625F056C7C4A8B, - 475, - 124),
     (0xC9BCFF6034C13053, - 449, - 116),
     (0x964E858C91BA2655, - 422, - 108),
     (0xDFF9772470297EBD, - 396, - 100),
     (0xA6DFBD9FB8E5B88F, - 369, - 92),
     (0xF8A95FCF88747D94, - 343, - 84),
     (0xB94470938FA89BCF, - 316, - 76),
     (0x8A08F0F8BF0F156B, - 289, - 68),
     (0xCDB02555653131B6, - 263, - 60),
     (0x993FE2C6D07B7FAC, - 236, - 52),
     (0xE45C10C42A2B3B06, - 210, - 44),
     (0xAA242499697392D3, - 183, - 36),
     (0xFD87B5F28300CA0E, - 157, - 28),
     (0xBCE5086492111AEB, - 130, - 20),
     (0x8CBCCC096F5088CC, - 103, - 12),
     (0xD1B71758E219652C, - 77, - 4),
     (0x9C40000000000000, - 50, 4),
     (0xE8D4A51000000000, - 24, 12),
     (0xAD78EBC5AC620000, 3, 20),
     (0x813F3978F8940984, 30, 28),
     (0xC097CE7BC90715B3, 56, 36),
     (0x8F7E32CE7BEA5C70, 83, 44),
     (0xD5D238A4ABE98068, 109, 52),
     (0x9F4F2726179A2245, 136, 60),
     (0xED63A231D4C4FB27, 162, 68),
     (0xB0DE65388CC8ADA8, 189, 76),
     (0x83C7088E1AAB65DB, 216, 84),
     (0xC45D1DF942711D9A, 242, 92),
     (0x924D692CA61BE758, 269, 100),
     (0xDA01EE641A708DEA, 295, 108),
     (0xA26DA3999AEF774A, 322, 116),
     (0xF209787BB47D6B85, 348, 124),
     (0xB454E4A179DD1877, 375, 132),
     (0x865B86925B9BC5C2, 402, 140),
     (0xC83553C5C8965D3D, 428, 148),
     (0x952AB45CFA97A0B3, 455, 156),
     (0xDE469FBD99A05FE3, 481, 164),
     (0xA59BC234DB398C25, 508, 172),
     (0xF6C69A72A3989F5C, 534, 180),
     (0xB7DCBF5354E9BECE, 561, 188),
     (0x88FCF317F22241E2, 588, 196),
     (0xCC20CE9BD35C78A5, 614, 204),
     (0x98165AF37B2153DF, 641, 212),
     (0xE2A0B5DC971F303A, 667, 220),
     (0xA8D9D1535CE3B396, 694, 228),
     (0xFB9B7CD9A4A7443C, 720, 236),
     (0xBB764C4CA7A44410, 747, 244),
     (0x8BAB8EEFB6409C1A, 774, 252),
     (0xD01FEF10A657842C, 800, 260),
     (0x9B10A4E5E9913129, 827, 268),
     (0xE7109BFBA19C0C9D, 853, 276),
     (0xAC2820D9623BF429, 880, 284),
     (0x80444B5E7AA7CF85, 907, 292),
     (0xBF21E44003ACDD2D, 933, 300),
     (0x8E679C2F5E44FF8F, 960, 308),
     (0xD433179D9C8CB841, 986, 316),
     (0x9E19DB92B4E31BA9, 1013, 324)]"

definition cached_index :: "int \<Rightarrow> int" where
  "cached_index e =
     (let kCachedPowersMinDecExp = - 300; kCachedPowersDecStep = 8;
          f = kAlpha - e - 1;
          k = (f * 78913) sdiv (2 ^ 18) + (if f > 0 then 1 else 0)
      in (- kCachedPowersMinDecExp + k + (kCachedPowersDecStep - 1)) sdiv kCachedPowersDecStep)"

text \<open>The cached power for a binary exponent, with its decimal exponent.\<close>

definition get_cached_power_for_binary_exponent :: "int \<Rightarrow> (diyfp \<times> int) option" where
  "get_cached_power_for_binary_exponent e =
     asserting (- 1500 \<le> e \<and> e \<le> 1500)
     (let index = cached_index e in
      asserting (0 \<le> index \<and> index < int (length kCachedPowers))
      (case kCachedPowers ! nat index of (cf, ce, ck) \<Rightarrow>
         asserting (kAlpha \<le> ce + e + 64 \<and> kGamma \<ge> ce + e + 64) (Some (diyfp (of_int cf) ce, ck))))"

section \<open>Digits\<close>

definition find_largest_pow10 :: "uint32 \<Rightarrow> nat \<times> uint32" where
  "find_largest_pow10 n =
     (if n \<ge> 1000000000 then (10, 1000000000)
      else if n \<ge> 100000000 then (9, 100000000)
      else if n \<ge> 10000000 then (8, 10000000)
      else if n \<ge> 1000000 then (7, 1000000)
      else if n \<ge> 100000 then (6, 100000)
      else if n \<ge> 10000 then (5, 10000)
      else if n \<ge> 1000 then (4, 1000)
      else if n \<ge> 100 then (3, 100)
      else if n \<ge> 10 then (2, 10)
      else (1, 1))"

definition decrement_last :: "string \<Rightarrow> string" where
  "decrement_last buf = butlast buf @ [char_of (of_char (last buf) - 1 :: int)]"

function round_loop :: "string \<Rightarrow> uint64 \<Rightarrow> uint64 \<Rightarrow> uint64 \<Rightarrow> uint64 \<Rightarrow> string option" where
  "round_loop buf distance delta rest ten_k =
     (if 0 < ten_k \<and> distance \<le> delta \<and>
         rest < distance \<and> delta - rest \<ge> ten_k \<and> (rest + ten_k < distance \<or> distance - rest > rest + ten_k - distance)
      then asserting (last buf \<noteq> CHR ''0'')
        (round_loop (decrement_last buf) distance delta (rest + ten_k) ten_k)
      else Some buf)"
  by pat_completeness auto
termination
proof (relation "measure (\<lambda>(buf, distance, delta, rest, ten_k). unat (delta - rest))", goal_cases)
  case (2 buf distance delta rest ten_k)
  then have "rest \<le> delta" and "ten_k \<le> delta - rest" and "0 < ten_k" by auto
  then have "unat (delta - rest - ten_k) < unat (delta - rest)"
    by (simp add: unat_sub word_less_nat_alt word_le_nat_alt)
  then show ?case by (simp add: diff_diff_eq)
qed simp

declare round_loop.simps [simp del]

text \<open>The conditions on \<open>ten_k\<close> and \<open>distance\<close> in the loop are the assertions made here.\<close>

definition grisu2_round :: "string \<Rightarrow> uint64 \<Rightarrow> uint64 \<Rightarrow> uint64 \<Rightarrow> uint64 \<Rightarrow> string option" where
  "grisu2_round buf distance delta rest ten_k =
     asserting (length buf \<ge> 1 \<and> distance \<le> delta \<and> rest \<le> delta \<and> ten_k > 0)
       (round_loop buf distance delta rest ten_k)"

subsection \<open>Digit generation\<close>

text \<open>
  The digits of the integral part \<open>p1\<close>; \<open>n\<close> of them are left. Either the loop stops early
  with the result, or it hands its buffer to the loop over the fractional part.
\<close>

fun integral_digits ::
  "string \<Rightarrow> int \<Rightarrow> uint64 \<Rightarrow> uint64 \<Rightarrow> nat \<Rightarrow> uint64 \<Rightarrow> uint32 \<Rightarrow> uint32 \<Rightarrow> nat \<Rightarrow> (string \<times> int + string) option"
where
  "integral_digits buffer dec_exp distance delta shift p2 p1 pow10 0 = Some (Inr buffer)"
| "integral_digits buffer dec_exp distance delta shift p2 p1 pow10 (Suc n) =
     (let d = p1 div pow10; r = p1 mod pow10 in
      asserting (d \<le> 9)
      (let buffer' = buffer @ [char_of (0x30 + uint d)];
           rest = push_bit shift (ucast r) + p2 in
       if rest \<le> delta then
         map_option (\<lambda>buf. Inl (buf, dec_exp + int n))
           (grisu2_round buffer' distance delta rest (push_bit shift (ucast pow10)))
       else integral_digits buffer' dec_exp distance delta shift p2 r (pow10 div 10) n))"

text \<open>
  The digits of the fractional part. The loop ends for every input: each multiplication by ten
  adds a factor two to what the mask leaves of \<open>p2\<close>.
\<close>

definition twos :: "uint64 \<Rightarrow> nat" where
  "twos p = (if p = 0 then 64 else Max {k. k \<le> 64 \<and> take_bit k p = 0})"

lemma twos_bits: "take_bit (twos p) p = 0" and twos_less: "p \<noteq> 0 \<Longrightarrow> twos p < 64"
proof -
  have fin: "finite {k. k \<le> 64 \<and> take_bit k p = 0}" by simp
  have "0 \<in> {k. k \<le> 64 \<and> take_bit k p = 0}" by simp
  then have ne: "{k. k \<le> 64 \<and> take_bit k p = 0} \<noteq> {}" by blast
  show "take_bit (twos p) p = 0" using Max_in [OF fin ne] by (simp add: twos_def)
  assume p: "p \<noteq> 0"
  then have "twos p \<le> 64 \<and> take_bit (twos p) p = 0" using Max_in [OF fin ne] by (simp add: twos_def)
  moreover have "take_bit 64 p = p" by (simp add: take_bit_word_eq_self)
  ultimately show "twos p < 64" using p by (cases "twos p = 64") auto
qed

lemma twos_ge: "k \<le> 64 \<Longrightarrow> take_bit k p = 0 \<Longrightarrow> k \<le> twos p"
  by (auto simp: twos_def intro: Max_ge)

lemma twos_step:
  assumes "p \<noteq> 0"
  shows "twos p < twos ((p * 10) AND m)"
proof -
  define k where "k = twos p"
  have k: "k < 64" and z: "take_bit k p = 0" using assms twos_bits twos_less by (simp_all add: k_def)
  then obtain q where "p = 2 ^ k * q" by (auto simp: take_bit_eq_0_iff)
  then have "p * 10 = 2 ^ Suc k * (q * 5)" by simp
  then have "take_bit (Suc k) (p * 10) = 0" by (simp only: take_bit_eq_0_iff dvd_triv_left)
  then have "take_bit (Suc k) ((p * 10) AND m) = 0" by (simp only: take_bit_and) simp
  then have "Suc k \<le> twos ((p * 10) AND m)" using k by (intro twos_ge) simp_all
  then show ?thesis unfolding k_def by simp
qed

function fraction_digits ::
  "string \<Rightarrow> uint64 \<Rightarrow> uint64 \<Rightarrow> nat \<Rightarrow> uint64 \<Rightarrow> uint64 \<Rightarrow> nat \<Rightarrow> (string \<times> uint64 \<times> uint64 \<times> uint64 \<times> nat) option"
where
  "fraction_digits buffer distance delta shift fmask p2 m =
     asserting (p2 \<le> (- 1) div 10)
     (let p2' = p2 * 10; d = drop_bit shift p2'; r = p2' AND fmask in
      asserting (d \<le> 9)
      (let buffer' = buffer @ [char_of (0x30 + uint d)]; delta' = delta * 10; distance' = distance * 10 in
       if r \<le> delta' then Some (buffer', distance', delta', r, m + 1)
       else fraction_digits buffer' distance' delta' shift fmask r (m + 1)))"
  by pat_completeness auto

termination
proof (relation "measure (\<lambda>(b, d, dl, s, mk, p2, m). 64 - twos p2)", goal_cases)
  case (2 buffer distance delta shift fmask p2 m)
  then have "(p2 * 10) AND fmask \<noteq> 0" by auto
  then have "p2 \<noteq> 0" by auto
  then show ?case using twos_step [of p2 fmask] twos_less [of p2] 2 by simp
qed simp

declare fraction_digits.simps [simp del]

definition grisu2_digit_gen :: "int \<Rightarrow> diyfp \<Rightarrow> diyfp \<Rightarrow> diyfp \<Rightarrow> (string \<times> int) option" where
  "grisu2_digit_gen dec_exp M_minus w M_plus =
     asserting (fp_e M_plus \<ge> kAlpha \<and> fp_e M_plus \<le> kGamma)
     (Option.bind (diyfp_sub M_plus M_minus) (\<lambda>delta_fp.
      Option.bind (diyfp_sub M_plus w) (\<lambda>dist_fp.
      (let delta = fp_f delta_fp; distance = fp_f dist_fp;
           shift = nat (- fp_e M_plus);
           one = diyfp (push_bit shift 1) (fp_e M_plus);
           p1 = ucast (drop_bit shift (fp_f M_plus)) :: uint32;
           p2 = fp_f M_plus AND (fp_f one - 1)
       in asserting (p1 > 0)
         (case find_largest_pow10 p1 of (k, pow10) \<Rightarrow>
            Option.bind (integral_digits [] dec_exp distance delta shift p2 p1 pow10 k) (\<lambda>r.
            case r of
              Inl result \<Rightarrow> Some result
            | Inr buffer \<Rightarrow>
                asserting (p2 > delta)
                (Option.bind (fraction_digits buffer distance delta shift (fp_f one - 1) p2 0)
                  (\<lambda>(buffer', distance', delta', p2', m).
                     map_option (\<lambda>buf. (buf, dec_exp - int m))
                       (grisu2_round buffer' distance' delta' p2' (fp_f one))))))))))"

text \<open>The digits and the decimal exponent of a number between its boundaries.\<close>

definition grisu2_scaled :: "diyfp \<Rightarrow> diyfp \<Rightarrow> diyfp \<Rightarrow> (string \<times> int) option" where
  "grisu2_scaled m_minus v m_plus =
     asserting (fp_e m_plus = fp_e m_minus \<and> fp_e m_plus = fp_e v)
     (Option.bind (get_cached_power_for_binary_exponent (fp_e m_plus)) (\<lambda>(c_minus_k, cached_k).
        let w = diyfp_mul v c_minus_k;
            w_minus = diyfp_mul m_minus c_minus_k;
            w_plus = diyfp_mul m_plus c_minus_k;
            M_minus = diyfp (fp_f w_minus + 1) (fp_e w_minus);
            M_plus = diyfp (fp_f w_plus - 1) (fp_e w_plus)
        in grisu2_digit_gen (- cached_k) M_minus w M_plus))"

definition grisu2 :: "double \<Rightarrow> (string \<times> int) option" where
  "grisu2 value =
     asserting (isfinite value \<and> value > 0)
     (Option.bind (compute_boundaries value) (\<lambda>w. grisu2_scaled (bd_minus w) (bd_w w) (bd_plus w)))"

section \<open>The text\<close>

definition append_exponent :: "string \<Rightarrow> int \<Rightarrow> string option" where
  "append_exponent buf e =
     asserting (e > - 1000 \<and> e < 1000)
     (let sign = (if e < 0 then CHR ''-'' else CHR ''+''); k = \<bar>e\<bar>;
          digit = (\<lambda>d. char_of (0x30 + d)) in
      Some (buf @ sign #
        (if k < 10 then [CHR ''0'', digit k]
         else if k < 100 then [digit (k div 10), digit (k mod 10)]
         else [digit (k div 100), digit (k mod 100 div 10), digit (k mod 100 mod 10)])))"

definition format_buffer :: "string \<Rightarrow> int \<Rightarrow> int \<Rightarrow> int \<Rightarrow> string option" where
  "format_buffer buf dec_exp min_exp max_exp =
     asserting (min_exp < 0 \<and> max_exp > 0)
     (let k = int (length buf); n = k + dec_exp in
      if k \<le> n \<and> n \<le> max_exp then
        Some (buf @ replicate (nat (n - k)) (CHR ''0'') @ ''.0'')
      else if 0 < n \<and> n \<le> max_exp then
        Some (take (nat n) buf @ ''.'' @ drop (nat n) buf)
      else if min_exp < n \<and> n \<le> 0 then
        Some (''0.'' @ replicate (nat (- n)) (CHR ''0'') @ buf)
      else if k = 1 then append_exponent (buf @ ''e'') (n - 1)
      else append_exponent (take 1 buf @ ''.'' @ drop 1 buf @ ''e'') (n - 1))"

definition to_chars :: "double \<Rightarrow> string option" where
  "to_chars value0 =
     asserting (isfinite value0)
     (let first = (if signbit value0 then ''-'' else []);
          value = (if signbit value0 then - value0 else value0) in
      if deq value 0 then Some (first @ ''0.0'')
      else Option.bind (grisu2 value) (\<lambda>(buf, dec_exp).
        asserting (length buf \<le> 17)
          (map_option (\<lambda>t. first @ t) (format_buffer buf dec_exp (- 4) 15))))"

end
