(* ===== verification/Json_Serializer.thy ===== *)
theory Json_Serializer
  imports Json_Value Json_Dtoa
begin

unbundle bit_operations_syntax

text \<open>
  Printing a JSON value (\<open>json.hpp\<close>, class \<open>serializer\<close>): the state is the text written so far
  and the two buffers of the class. \<open>dump_escaped\<close> decodes UTF-8 with the automaton of the
  table \<open>utf8d\<close>; writing past the end of a buffer is \<open>Undefined\<close>.
\<close>

section \<open>Decoding UTF-8\<close>

definition utf8d :: "int list" where
  "utf8d =
    [0, 0, 0, 0, 0, 0, 0, 0, 0, 0, 0, 0, 0, 0, 0, 0, 0, 0, 0, 0, 0, 0, 0, 0, 0, 0, 0, 0, 0, 0, 0, 0,
     0, 0, 0, 0, 0, 0, 0, 0, 0, 0, 0, 0, 0, 0, 0, 0, 0, 0, 0, 0, 0, 0, 0, 0, 0, 0, 0, 0, 0, 0, 0, 0,
     0, 0, 0, 0, 0, 0, 0, 0, 0, 0, 0, 0, 0, 0, 0, 0, 0, 0, 0, 0, 0, 0, 0, 0, 0, 0, 0, 0, 0, 0, 0, 0,
     0, 0, 0, 0, 0, 0, 0, 0, 0, 0, 0, 0, 0, 0, 0, 0, 0, 0, 0, 0, 0, 0, 0, 0, 0, 0, 0, 0, 0, 0, 0, 0,
     1, 1, 1, 1, 1, 1, 1, 1, 1, 1, 1, 1, 1, 1, 1, 1, 9, 9, 9, 9, 9, 9, 9, 9, 9, 9, 9, 9, 9, 9, 9, 9,
     7, 7, 7, 7, 7, 7, 7, 7, 7, 7, 7, 7, 7, 7, 7, 7, 7, 7, 7, 7, 7, 7, 7, 7, 7, 7, 7, 7, 7, 7, 7, 7,
     8, 8, 2, 2, 2, 2, 2, 2, 2, 2, 2, 2, 2, 2, 2, 2, 2, 2, 2, 2, 2, 2, 2, 2, 2, 2, 2, 2, 2, 2, 2, 2,
     0xA, 0x3, 0x3, 0x3, 0x3, 0x3, 0x3, 0x3, 0x3, 0x3, 0x3, 0x3, 0x3, 0x4, 0x3, 0x3,
     0xB, 0x6, 0x6, 0x6, 0x5, 0x8, 0x8, 0x8, 0x8, 0x8, 0x8, 0x8, 0x8, 0x8, 0x8, 0x8,
     0x0, 0x1, 0x2, 0x3, 0x5, 0x8, 0x7, 0x1, 0x1, 0x1, 0x4, 0x6, 0x1, 0x1, 0x1, 0x1,
     1, 1, 1, 1, 1, 1, 1, 1, 1, 1, 1, 1, 1, 1, 1, 1, 1, 0, 1, 1, 1, 1, 1, 0, 1, 0, 1, 1, 1, 1, 1, 1,
     1, 2, 1, 1, 1, 1, 1, 2, 1, 2, 1, 1, 1, 1, 1, 1, 1, 1, 1, 1, 1, 1, 1, 2, 1, 1, 1, 1, 1, 1, 1, 1,
     1, 2, 1, 1, 1, 1, 1, 1, 1, 2, 1, 1, 1, 1, 1, 1, 1, 1, 1, 1, 1, 1, 1, 3, 1, 3, 1, 1, 1, 1, 1, 1,
     1, 3, 1, 1, 1, 1, 1, 3, 1, 3, 1, 1, 1, 1, 1, 1, 1, 3, 1, 1, 1, 1, 1, 1, 1, 1, 1, 1, 1, 1, 1, 1]"

definition UTF8_ACCEPT :: int where
  "UTF8_ACCEPT = 0"

definition UTF8_REJECT :: int where
  "UTF8_REJECT = 1"

text \<open>The new state and code point; the code point is a 32-bit unsigned integer.\<close>

definition decode :: "int \<Rightarrow> int \<Rightarrow> int \<Rightarrow> int \<times> int" where
  "decode state codep byte =
     (let type = utf8d ! nat byte;
          codep' = (if state \<noteq> UTF8_ACCEPT
                    then (byte AND 0x3F) OR take_bit 32 (push_bit 6 codep)
                    else drop_bit (nat type) 0xFF AND byte);
          index = 256 + state * 16 + type
      in (utf8d ! nat index, codep'))"

section \<open>The state of the serializer\<close>

datatype error_handler_t = strict | replace | ignore

text \<open>
  \<open>string_buffer\<close> holds the bytes written to the buffer of 512 bytes since it was last
  emptied, so its length is the variable \<open>bytes\<close>; \<open>number_buffer\<close> is the whole array.
\<close>

record serializer =
  out :: string
  string_buffer :: string
  number_buffer :: string
  indent_string :: string
  error_handler :: error_handler_t

definition new_serializer :: "char \<Rightarrow> error_handler_t \<Rightarrow> serializer" where
  "new_serializer ichar handler =
     \<lparr>out = [], string_buffer = [], number_buffer = replicate 64 (CHR 0x00),
      indent_string = replicate 512 ichar, error_handler = handler\<rparr>"

definition write_characters :: "string \<Rightarrow> (serializer, unit) action" where
  "write_characters t s = (Inr (), s\<lparr>out := out s @ t\<rparr>)"

section \<open>Strings\<close>

definition put_bytes :: "string \<Rightarrow> nat \<Rightarrow> (serializer, unit) action" where
  "put_bytes t room s =
     (if length (string_buffer s) + room > 512 then (Inl (Undefined ''write past string_buffer''), s)
      else (Inr (), s\<lparr>string_buffer := string_buffer s @ t\<rparr>))"

definition flush_if_full :: "serializer \<Rightarrow> serializer" where
  "flush_if_full s =
     (if 512 - length (string_buffer s) < 13
      then s\<lparr>out := out s @ string_buffer s, string_buffer := []\<rparr> else s)"

definition hex_lower :: "int \<Rightarrow> char" where
  "hex_lower d = (if d < 10 then char_of (0x30 + d) else char_of (0x57 + d))"

definition u_escape :: "int \<Rightarrow> string" where
  "u_escape c = CHR 0x5C # CHR ''u'' #
     map hex_lower [c div 4096 mod 16, c div 256 mod 16, c div 16 mod 16, c mod 16]"

text \<open>
  The bytes for a code point whose last byte is \<open>c\<close>, and the room they take in the buffer
  (\<open>snprintf\<close> also writes a zero byte).
\<close>

definition escape_text :: "bool \<Rightarrow> int \<Rightarrow> char \<Rightarrow> string \<times> nat" where
  "escape_text ensure_ascii codepoint c =
     (if codepoint = 0x08 then ([CHR 0x5C, CHR ''b''], 2)
      else if codepoint = 0x09 then ([CHR 0x5C, CHR ''t''], 2)
      else if codepoint = 0x0A then ([CHR 0x5C, CHR ''n''], 2)
      else if codepoint = 0x0C then ([CHR 0x5C, CHR ''f''], 2)
      else if codepoint = 0x0D then ([CHR 0x5C, CHR ''r''], 2)
      else if codepoint = 0x22 then ([CHR 0x5C, CHR 0x22], 2)
      else if codepoint = 0x5C then ([CHR 0x5C, CHR 0x5C], 2)
      else if codepoint \<le> 0x1F \<or> ensure_ascii \<and> codepoint \<ge> 0x7F then
        (if codepoint \<le> 0xFFFF then (u_escape codepoint, 7)
         else (u_escape (0xD7C0 + drop_bit 10 codepoint) @ u_escape (0xDC00 + (codepoint AND 0x3FF)), 13))
      else ([c], 1))"

definition hex_bytes :: "int \<Rightarrow> string" where
  "hex_bytes byte = (let nibble_to_hex = ''0123456789ABCDEF'' in
     [nibble_to_hex ! nat (byte div 16), nibble_to_hex ! nat (byte mod 16)])"

record escape_state =
  codepoint :: int
  decode_state :: int
  bytes_after_last_accept :: nat
  undumped_chars :: nat

text \<open>\<open>decode\<close> found a whole code point; \<open>c\<close> is its last byte.\<close>

definition accept_char :: "bool \<Rightarrow> char \<Rightarrow> int \<Rightarrow> (serializer, escape_state) action" where
  "accept_char ensure_ascii c codep s =
     (case escape_text ensure_ascii codep c of (t, room) \<Rightarrow>
        case put_bytes t room s of
          (Inl e, s1) \<Rightarrow> (Inl e, s1)
        | (Inr _, s1) \<Rightarrow>
            (let s2 = flush_if_full s1 in
             (Inr \<lparr>codepoint = codep, decode_state = UTF8_ACCEPT,
                   bytes_after_last_accept = length (string_buffer s2), undumped_chars = 0\<rparr>, s2)))"

text \<open>
  \<open>decode\<close> found an invalid byte at \<open>i\<close>; with the handlers other than \<open>strict\<close> the bytes of the
  unfinished code point are dropped.
\<close>

definition replacement :: "bool \<Rightarrow> string" where
  "replacement ensure_ascii =
     (if ensure_ascii then CHR 0x5C # ''ufffd'' else [CHR 0xEF, CHR 0xBF, CHR 0xBD])"

definition reject_char :: "bool \<Rightarrow> char \<Rightarrow> nat \<Rightarrow> int \<Rightarrow> escape_state \<Rightarrow> (serializer, escape_state) action" where
  "reject_char ensure_ascii c i codep es s =
     (if error_handler s = strict then
        (Inl (type_error 316 (''invalid UTF-8 byte at index '' @ show_nat i @ '': 0x'' @ hex_bytes (of_char c))), s)
      else
        (let s1 = s\<lparr>string_buffer := take (bytes_after_last_accept es) (string_buffer s)\<rparr>;
             es1 = es\<lparr>codepoint := codep, decode_state := UTF8_ACCEPT, undumped_chars := 0\<rparr> in
         if error_handler s = replace then
           (case put_bytes (replacement ensure_ascii) (length (replacement ensure_ascii)) s1 of
              (Inl e, s2) \<Rightarrow> (Inl e, s2)
            | (Inr _, s2) \<Rightarrow> (let s3 = flush_if_full s2 in
                (Inr (es1\<lparr>bytes_after_last_accept := length (string_buffer s3)\<rparr>), s3)))
         else (Inr es1, s1)))"

definition pending_char :: "bool \<Rightarrow> char \<Rightarrow> int \<Rightarrow> int \<Rightarrow> escape_state \<Rightarrow> (serializer, escape_state) action" where
  "pending_char ensure_ascii c state codep es s =
     (case (if ensure_ascii then (Inr (), s) else put_bytes [c] 1 s) of
        (Inl e, s1) \<Rightarrow> (Inl e, s1)
      | (Inr _, s1) \<Rightarrow>
          (Inr (es\<lparr>codepoint := codep, decode_state := state, undumped_chars := undumped_chars es + 1\<rparr>), s1))"

text \<open>The end of the string: the buffer is written, or the last code point is incomplete.\<close>

definition finish_escaped :: "bool \<Rightarrow> string \<Rightarrow> escape_state \<Rightarrow> (serializer, unit) action" where
  "finish_escaped ensure_ascii str es s =
     (if decode_state es = UTF8_ACCEPT then
        (if length (string_buffer s) > 0 then write_characters (string_buffer s) s else (Inr (), s))
      else (case error_handler s of
          strict \<Rightarrow> (Inl (type_error 316 (''incomplete UTF-8 string; last byte: 0x'' @ hex_bytes (of_char (last str)))), s)
        | ignore \<Rightarrow> write_characters (take (bytes_after_last_accept es) (string_buffer s)) s
        | replace \<Rightarrow> bind_act (write_characters (take (bytes_after_last_accept es) (string_buffer s)))
            (\<lambda>_. write_characters (replacement ensure_ascii)) s))"

lemma reject_char_undumped: "reject_char ensure_ascii c i codep es s = (Inr es1, s1) \<Longrightarrow> undumped_chars es1 = 0"
  by (auto simp: reject_char_def Let_def split: if_splits prod.splits sum.splits)

text \<open>
  The loop over the bytes. After a rejected byte that ended an unfinished code point the byte
  is read again (\<open>--i\<close>).
\<close>

function dump_bytes :: "bool \<Rightarrow> string \<Rightarrow> nat \<Rightarrow> string \<Rightarrow> escape_state \<Rightarrow> (serializer, unit) action" where
  "dump_bytes ensure_ascii str i [] es s = finish_escaped ensure_ascii str es s"
| "dump_bytes ensure_ascii str i (c # cs) es s =
     (case decode (decode_state es) (codepoint es) (of_char c) of (state, codep) \<Rightarrow>
        if state = UTF8_ACCEPT then
          (case accept_char ensure_ascii c codep s of
             (Inl e, s1) \<Rightarrow> (Inl e, s1)
           | (Inr es1, s1) \<Rightarrow> dump_bytes ensure_ascii str (i + 1) cs es1 s1)
        else if state = UTF8_REJECT then
          (case reject_char ensure_ascii c i codep es s of
             (Inl e, s1) \<Rightarrow> (Inl e, s1)
           | (Inr es1, s1) \<Rightarrow>
               if undumped_chars es > 0 then dump_bytes ensure_ascii str i (c # cs) es1 s1
               else dump_bytes ensure_ascii str (i + 1) cs es1 s1)
        else
          (case pending_char ensure_ascii c state codep es s of
             (Inl e, s1) \<Rightarrow> (Inl e, s1)
           | (Inr es1, s1) \<Rightarrow> dump_bytes ensure_ascii str (i + 1) cs es1 s1))"
  by pat_completeness auto

termination
  by (relation "measure (\<lambda>(a, str, i, cs, es, s). 2 * length cs + (if undumped_chars es > 0 then 1 else 0))")
    (auto dest: reject_char_undumped [OF sym])

definition dump_escaped :: "string \<Rightarrow> bool \<Rightarrow> (serializer, unit) action" where
  "dump_escaped str ensure_ascii s =
     dump_bytes ensure_ascii str 0 str
       \<lparr>codepoint = 0, decode_state = UTF8_ACCEPT, bytes_after_last_accept = 0, undumped_chars = 0\<rparr>
       (s\<lparr>string_buffer := []\<rparr>)"

section \<open>Integers\<close>

function count_digits :: "int \<Rightarrow> nat" where
  "count_digits x =
     (if x < 10 then 1 else if x < 100 then 2 else if x < 1000 then 3 else if x < 10000 then 4
      else count_digits (x div 10000) + 4)"
  by pat_completeness auto
termination
  by (relation "measure nat") auto

declare count_digits.simps [simp del]

definition digits_to_99 :: "(char \<times> char) list" where
  "digits_to_99 =
    [(CHR ''0'', CHR ''0''), (CHR ''0'', CHR ''1''), (CHR ''0'', CHR ''2''), (CHR ''0'', CHR ''3''), (CHR
     ''0'', CHR ''4''), (CHR ''0'', CHR ''5''), (CHR ''0'', CHR ''6''), (CHR ''0'', CHR ''7''), (CHR
     ''0'', CHR ''8''), (CHR ''0'', CHR ''9''), (CHR ''1'', CHR ''0''), (CHR ''1'', CHR ''1''), (CHR
     ''1'', CHR ''2''), (CHR ''1'', CHR ''3''), (CHR ''1'', CHR ''4''), (CHR ''1'', CHR ''5''), (CHR
     ''1'', CHR ''6''), (CHR ''1'', CHR ''7''), (CHR ''1'', CHR ''8''), (CHR ''1'', CHR ''9''), (CHR
     ''2'', CHR ''0''), (CHR ''2'', CHR ''1''), (CHR ''2'', CHR ''2''), (CHR ''2'', CHR ''3''), (CHR
     ''2'', CHR ''4''), (CHR ''2'', CHR ''5''), (CHR ''2'', CHR ''6''), (CHR ''2'', CHR ''7''), (CHR
     ''2'', CHR ''8''), (CHR ''2'', CHR ''9''), (CHR ''3'', CHR ''0''), (CHR ''3'', CHR ''1''), (CHR
     ''3'', CHR ''2''), (CHR ''3'', CHR ''3''), (CHR ''3'', CHR ''4''), (CHR ''3'', CHR ''5''), (CHR
     ''3'', CHR ''6''), (CHR ''3'', CHR ''7''), (CHR ''3'', CHR ''8''), (CHR ''3'', CHR ''9''), (CHR
     ''4'', CHR ''0''), (CHR ''4'', CHR ''1''), (CHR ''4'', CHR ''2''), (CHR ''4'', CHR ''3''), (CHR
     ''4'', CHR ''4''), (CHR ''4'', CHR ''5''), (CHR ''4'', CHR ''6''), (CHR ''4'', CHR ''7''), (CHR
     ''4'', CHR ''8''), (CHR ''4'', CHR ''9''), (CHR ''5'', CHR ''0''), (CHR ''5'', CHR ''1''), (CHR
     ''5'', CHR ''2''), (CHR ''5'', CHR ''3''), (CHR ''5'', CHR ''4''), (CHR ''5'', CHR ''5''), (CHR
     ''5'', CHR ''6''), (CHR ''5'', CHR ''7''), (CHR ''5'', CHR ''8''), (CHR ''5'', CHR ''9''), (CHR
     ''6'', CHR ''0''), (CHR ''6'', CHR ''1''), (CHR ''6'', CHR ''2''), (CHR ''6'', CHR ''3''), (CHR
     ''6'', CHR ''4''), (CHR ''6'', CHR ''5''), (CHR ''6'', CHR ''6''), (CHR ''6'', CHR ''7''), (CHR
     ''6'', CHR ''8''), (CHR ''6'', CHR ''9''), (CHR ''7'', CHR ''0''), (CHR ''7'', CHR ''1''), (CHR
     ''7'', CHR ''2''), (CHR ''7'', CHR ''3''), (CHR ''7'', CHR ''4''), (CHR ''7'', CHR ''5''), (CHR
     ''7'', CHR ''6''), (CHR ''7'', CHR ''7''), (CHR ''7'', CHR ''8''), (CHR ''7'', CHR ''9''), (CHR
     ''8'', CHR ''0''), (CHR ''8'', CHR ''1''), (CHR ''8'', CHR ''2''), (CHR ''8'', CHR ''3''), (CHR
     ''8'', CHR ''4''), (CHR ''8'', CHR ''5''), (CHR ''8'', CHR ''6''), (CHR ''8'', CHR ''7''), (CHR
     ''8'', CHR ''8''), (CHR ''8'', CHR ''9''), (CHR ''9'', CHR ''0''), (CHR ''9'', CHR ''1''), (CHR
     ''9'', CHR ''2''), (CHR ''9'', CHR ''3''), (CHR ''9'', CHR ''4''), (CHR ''9'', CHR ''5''), (CHR
     ''9'', CHR ''6''), (CHR ''9'', CHR ''7''), (CHR ''9'', CHR ''8''), (CHR ''9'', CHR ''9'')]"

definition remove_sign :: "int \<Rightarrow> int" where
  "remove_sign x = - (x + 1) + 1"

text \<open>The digits are written backwards from \<open>ptr\<close>.\<close>

function put_digits :: "int \<Rightarrow> nat \<Rightarrow> string \<Rightarrow> string" where
  "put_digits abs_value ptr buf =
     (if abs_value \<ge> 100 then
        (case digits_to_99 ! nat (abs_value mod 100) of (d0, d1) \<Rightarrow>
           put_digits (abs_value div 100) (ptr - 2) (buf[ptr - 1 := d1, ptr - 2 := d0]))
      else if abs_value \<ge> 10 then
        (case digits_to_99 ! nat abs_value of (d0, d1) \<Rightarrow> buf[ptr - 1 := d1, ptr - 2 := d0])
      else buf[ptr - 1 := char_of (0x30 + abs_value)])"
  by pat_completeness auto
termination
  by (relation "measure (\<lambda>(v, p, b). nat v)") auto

declare put_digits.simps [simp del]

definition dump_integer :: "int \<Rightarrow> (serializer, unit) action" where
  "dump_integer x s =
     (if x = 0 then write_characters ''0'' s
      else
        (let abs_value = (if x < 0 then remove_sign x else x);
             n_chars = (if x < 0 then 1 + count_digits abs_value else count_digits abs_value);
             buf = (if x < 0 then (number_buffer s)[0 := CHR ''-''] else number_buffer s);
             buf' = put_digits abs_value n_chars buf
         in write_characters (take n_chars buf') (s\<lparr>number_buffer := buf'\<rparr>)))"

section \<open>Doubles\<close>

definition dump_float :: "double \<Rightarrow> (serializer, unit) action" where
  "dump_float x s =
     (if \<not> isfinite x then write_characters ''null'' s
      else case to_chars x of
          None \<Rightarrow> (Inl (Undefined ''assertion failed in to_chars''), s)
        | Some t \<Rightarrow> write_characters t s)"

section \<open>dump\<close>

text \<open>
  The indentation string is doubled once when it is too short; writing more of it than it has
  (and its final zero byte) reads past its end.
\<close>

definition grow_indent :: "nat \<Rightarrow> (serializer, unit) action" where
  "grow_indent new_indent s =
     (Inr (), if length (indent_string s) < new_indent
              then s\<lparr>indent_string := indent_string s @ replicate (length (indent_string s)) (CHR '' '')\<rparr>
              else s)"

definition write_indent :: "nat \<Rightarrow> (serializer, unit) action" where
  "write_indent n s =
     (if n > length (indent_string s) + 1 then (Inl (Undefined ''read past indent_string''), s)
      else write_characters (take n (indent_string s @ [CHR 0x00])) s)"

definition seq_act :: "(serializer, unit) action \<Rightarrow> (serializer, unit) action \<Rightarrow> (serializer, unit) action" where
  "seq_act m n = bind_act m (\<lambda>_. n)"

fun seq_acts :: "(serializer, unit) action list \<Rightarrow> (serializer, unit) action" where
  "seq_acts [] = return_act ()"
| "seq_acts [m] = m"
| "seq_acts (m # n # ms) = seq_act m (seq_acts (n # ms))"

text \<open>The elements of a container with a separator between them.\<close>

fun separated :: "string \<Rightarrow> (serializer, unit) action list \<Rightarrow> (serializer, unit) action" where
  "separated sep [] = return_act ()"
| "separated sep [m] = m"
| "separated sep (m # n # ms) = seq_acts [m, write_characters sep, separated sep (n # ms)]"

definition quoted_name :: "string \<Rightarrow> bool \<Rightarrow> string \<Rightarrow> (serializer, unit) action" where
  "quoted_name k ensure_ascii after =
     seq_acts [write_characters [CHR 0x22], dump_escaped k ensure_ascii, write_characters (CHR 0x22 # after)]"

definition dump_container ::
  "char \<Rightarrow> char \<Rightarrow> bool \<Rightarrow> nat \<Rightarrow> nat \<Rightarrow> (serializer, unit) action list \<Rightarrow> (serializer, unit) action" where
  "dump_container opening closing pretty_print indent_step current_indent elements =
     (if elements = [] then write_characters [opening, closing]
      else if pretty_print then
        seq_acts [write_characters [opening, CHR 0x0A], grow_indent (current_indent + indent_step),
          separated [CHR '','', CHR 0x0A] (map (seq_act (write_indent (current_indent + indent_step))) elements),
          write_characters [CHR 0x0A], write_indent current_indent, write_characters [closing]]
      else seq_acts [write_characters [opening], separated '','' elements, write_characters [closing]])"

definition dump_bytes_list :: "string \<Rightarrow> nat list \<Rightarrow> (serializer, unit) action" where
  "dump_bytes_list sep bs = separated sep (map (\<lambda>b. dump_integer (int b)) bs)"

definition dump_binary :: "nat list \<Rightarrow> nat option \<Rightarrow> bool \<Rightarrow> nat \<Rightarrow> nat \<Rightarrow> (serializer, unit) action" where
  "dump_binary bs sub pretty_print indent_step current_indent =
     (let quote = [CHR 0x22];
          subtype_text = (case sub of Some n \<Rightarrow> dump_integer (int n) | None \<Rightarrow> write_characters ''null'') in
      if pretty_print then
        seq_acts [write_characters [CHR ''{'', CHR 0x0A], grow_indent (current_indent + indent_step),
          write_indent (current_indent + indent_step), write_characters (quote @ ''bytes'' @ quote @ '': [''),
          dump_bytes_list '', '' bs,
          write_characters ([CHR '']'', CHR '','', CHR 0x0A]), write_indent (current_indent + indent_step),
          write_characters (quote @ ''subtype'' @ quote @ '': ''), subtype_text,
          write_characters [CHR 0x0A], write_indent current_indent, write_characters ''}'']
      else
        seq_acts [write_characters (''{'' @ quote @ ''bytes'' @ quote @ '':[''), dump_bytes_list '','' bs,
          write_characters (''],'' @ quote @ ''subtype'' @ quote @ '':''), subtype_text, write_characters ''}''])"

fun dump :: "json \<Rightarrow> bool \<Rightarrow> bool \<Rightarrow> nat \<Rightarrow> nat \<Rightarrow> (serializer, unit) action" where
  "dump (JObject m) pretty_print ensure_ascii indent_step current_indent =
     dump_container (CHR ''{'') (CHR ''}'') pretty_print indent_step current_indent
       (map (\<lambda>(k, v). seq_act (quoted_name k ensure_ascii (if pretty_print then '': '' else '':''))
          (dump v pretty_print ensure_ascii indent_step
             (if pretty_print then current_indent + indent_step else current_indent))) m)"
| "dump (JArray js) pretty_print ensure_ascii indent_step current_indent =
     dump_container (CHR ''['') (CHR '']'') pretty_print indent_step current_indent
       (map (\<lambda>v. dump v pretty_print ensure_ascii indent_step
          (if pretty_print then current_indent + indent_step else current_indent)) js)"
| "dump (JString str) pretty_print ensure_ascii indent_step current_indent =
     quoted_name str ensure_ascii []"
| "dump (JBinary bs sub) pretty_print ensure_ascii indent_step current_indent =
     dump_binary bs sub pretty_print indent_step current_indent"
| "dump (JBool b) pretty_print ensure_ascii indent_step current_indent =
     write_characters (if b then ''true'' else ''false'')"
| "dump (JInteger n) pretty_print ensure_ascii indent_step current_indent = dump_integer n"
| "dump (JUnsigned n) pretty_print ensure_ascii indent_step current_indent = dump_integer n"
| "dump (JFloat x) pretty_print ensure_ascii indent_step current_indent = dump_float x"
| "dump JDiscarded pretty_print ensure_ascii indent_step current_indent = write_characters ''<discarded>''"
| "dump JNull pretty_print ensure_ascii indent_step current_indent = write_characters ''null''"

text \<open>The member function \<open>dump\<close> of a value; a negative indent means no pretty printing.\<close>

definition json_dump :: "json \<Rightarrow> int \<Rightarrow> char \<Rightarrow> bool \<Rightarrow> error_handler_t \<Rightarrow> string result" where
  "json_dump j indent indent_char ensure_ascii handler =
     (case (if indent \<ge> 0 then dump j True ensure_ascii (nat indent) 0 else dump j False ensure_ascii 0 0)
        (new_serializer indent_char handler) of
        (Inl e, s) \<Rightarrow> Inl e
      | (Inr _, s) \<Rightarrow> Inr (out s))"

end
