(* ===== verification/Json_Store.thy ===== *)
theory Json_Store
  imports Json_Parser Json_Serializer Order_Book
begin

text \<open>
  Persistence: the conversions \<open>to_json\<close> and \<open>from_json\<close> of \<open>OrderBookEntry\<close>, \<open>Wallet\<close> and
  \<open>User\<close> (src/src/server/OrderBookEntry.cpp, Wallet.cpp, User.cpp), and \<open>save\<close> and \<open>load\<close>
  of \<open>UserStore\<close> and \<open>OrderBook\<close>. A file is its text, or \<open>None\<close> when there is none that can
  be opened; opening it for writing empties it.
\<close>

section \<open>Orders, wallets and users\<close>

definition pair_json :: "string \<Rightarrow> json \<Rightarrow> json" where
  "pair_json k v = json_list [JString k, v]"

definition entry_to_json :: "entry \<Rightarrow> json" where
  "entry_to_json e = json_list
    [pair_json ''price'' (JFloat (price e)),
     pair_json ''amount'' (JFloat (amount e)),
     pair_json ''timestamp'' (JString (timestamp e)),
     pair_json ''product'' (JString (product e)),
     pair_json ''orderType'' (JString (orderTypeToString (orderType e))),
     pair_json ''username'' (JString (username e)),
     pair_json ''id'' (JUnsigned (int (order_id e)))]"

text \<open>A new \<open>OrderBookEntry()\<close> is zero-initialised, so a missing id is 0.\<close>

definition entry_from_json :: "json \<Rightarrow> entry result" where
  "entry_from_json j =
    bind_res (bind_res (json_at j ''price'') get_double) (\<lambda>p.
    bind_res (bind_res (json_at j ''amount'') get_double) (\<lambda>a.
    bind_res (bind_res (json_at j ''timestamp'') get_string) (\<lambda>ts.
    bind_res (bind_res (json_at j ''product'') get_string) (\<lambda>pr.
    bind_res (bind_res (json_at j ''orderType'') get_string) (\<lambda>typeStr.
    bind_res (determineOrderType typeStr) (\<lambda>ty.
    bind_res (bind_res (json_at j ''username'') get_string) (\<lambda>u.
    bind_res (if json_contains j ''id'' then bind_res (json_at j ''id'') get_size_t else Inr 0) (\<lambda>i.
    Inr \<lparr>price = p, amount = a, timestamp = ts, product = pr, orderType = ty, username = u, order_id = i\<rparr>))))))))"

definition balances_json :: "(string, double) omap \<Rightarrow> json" where
  "balances_json m = json_of_map JFloat m"

definition wallet_to_json :: "wallet \<Rightarrow> json" where
  "wallet_to_json w = json_list
    [pair_json ''currencies'' (balances_json (currencies w)),
     pair_json ''locked'' (balances_json (locked w))]"

definition wallet_from_json :: "json \<Rightarrow> wallet result" where
  "wallet_from_json j =
    bind_res (if json_contains j ''currencies'' then bind_res (json_at j ''currencies'') (get_omap get_double)
      else Inr []) (\<lambda>c.
    bind_res (if json_contains j ''locked'' then bind_res (json_at j ''locked'') (get_omap get_double)
      else Inr []) (\<lambda>l.
    Inr \<lparr>currencies = c, locked = l\<rparr>))"

definition user_to_json :: "user \<Rightarrow> json" where
  "user_to_json u = json_list
    [pair_json ''username'' (JString (user_name u)),
     pair_json ''password'' (JString (password u)),
     pair_json ''wallet'' (wallet_to_json (wallet u))]"

definition user_from_json :: "json \<Rightarrow> user result" where
  "user_from_json j =
    bind_res (bind_res (json_at j ''username'') get_string) (\<lambda>n.
    bind_res (bind_res (json_at j ''password'') get_string) (\<lambda>p.
    bind_res (if json_contains j ''wallet'' then bind_res (json_at j ''wallet'') wallet_from_json
      else Inr empty_wallet) (\<lambda>w.
    Inr \<lparr>user_name = n, password = p, wallet = w\<rparr>)))"

section \<open>UserStore\<close>

type_synonym text_file = "string option"

text \<open>
  \<open>dump(4)\<close> of the value to a file that has been opened, hence emptied; when it throws, the
  file stays empty.
\<close>

definition write_json :: "json \<Rightarrow> (text_file, unit) action" where
  "write_json j f =
     (case json_dump j 4 (CHR '' '') False strict of
        Inl e \<Rightarrow> (Inl e, Some [])
      | Inr t \<Rightarrow> (Inr (), Some t))"

definition users_json :: "users \<Rightarrow> json" where
  "users_json us = json_of_map user_to_json us"

definition UserStore_save :: "bool \<Rightarrow> users \<Rightarrow> (text_file, unit) action" where
  "UserStore_save is_open us f = (if is_open then write_json (users_json us) f else (Inr (), f))"

definition read_users :: "string \<Rightarrow> users result" where
  "read_users t = bind_res (json_read t) (get_umap user_from_json)"

definition UserStore_load :: "text_file \<Rightarrow> (users, unit) action" where
  "UserStore_load f us =
     (case f of
        None \<Rightarrow> (Inr (), us)
      | Some t \<Rightarrow>
          (case read_users t of
             Inr us' \<Rightarrow> (Inr (), us')
           | Inl e \<Rightarrow> (if catchable e then Inr () else Inl e, us)))"

section \<open>OrderBook\<close>

definition orders_json :: "(string, node list) umap \<Rightarrow> json" where
  "orders_json om = json_of_map (\<lambda>ns. JArray (map (\<lambda>n. entry_to_json (snd n)) ns)) om"

text \<open>\<open>j["orderMap"] = ...\<close> on a null value makes it an object.\<close>

definition book_json :: "book \<Rightarrow> json" where
  "book_json b = JObject (omap_put ''finalizedSales'' (JArray (map entry_to_json (finalizedSales b)))
     (omap_put ''orderMap'' (orders_json (orderMap b)) []))"

definition OrderBook_save :: "bool \<Rightarrow> book \<Rightarrow> (text_file, unit) action" where
  "OrderBook_save is_open b f = (if is_open then write_json (book_json b) f else (Inr (), f))"

text \<open>The lists that are read are new nodes, at addresses that were not used before.\<close>

fun place_orders :: "(string \<times> entry list) list \<Rightarrow> addr \<Rightarrow> (string, node list) umap" where
  "place_orders [] a = []"
| "place_orders ((k, es) # ps) a = (k, zip [a ..< a + length es] es) # place_orders ps (a + length es)"

definition set_orders :: "(string, entry list) umap \<Rightarrow> book \<Rightarrow> book" where
  "set_orders om b = b\<lparr>orderMap := place_orders om (next_addr b),
     next_addr := next_addr b + length (concat (map snd om))\<rparr>"

text \<open>\<open>get_to\<close> for an optional field; what an earlier field has changed stays when it throws.\<close>

definition load_field :: "json \<Rightarrow> string \<Rightarrow> (json \<Rightarrow> 'v result) \<Rightarrow> ('v \<Rightarrow> book \<Rightarrow> book) \<Rightarrow> (book, unit) action" where
  "load_field j k get put b =
     (if json_contains j k then
        (case bind_res (json_at j k) get of Inl e \<Rightarrow> (Inl e, b) | Inr v \<Rightarrow> (Inr (), put v b))
      else (Inr (), b))"

definition load_book :: "json \<Rightarrow> (book, unit) action" where
  "load_book j = bind_act (load_field j ''orderMap'' (get_umap (get_array entry_from_json)) set_orders)
     (\<lambda>_. load_field j ''finalizedSales'' (get_array entry_from_json) (\<lambda>es b. b\<lparr>finalizedSales := es\<rparr>))"

definition OrderBook_load :: "text_file \<Rightarrow> (book, unit) action" where
  "OrderBook_load f b =
     (case f of
        None \<Rightarrow> (Inr (), b)
      | Some t \<Rightarrow>
          (case (case json_read t of Inl e \<Rightarrow> (Inl e, b) | Inr j \<Rightarrow> load_book j b) of
             (Inr _, b') \<Rightarrow> (Inr (), b')
           | (Inl e, b') \<Rightarrow> (if catchable e then Inr () else Inl e, b')))"

end
