(* ===== verification/Server.thy ===== *)
theory Server
  imports Book_Properties Account_Properties Json_Store
begin

text \<open>
  The server (src/include/ServerMain.hpp, src/src/server/ServerMain.cpp): the commands of a
  client connection, the queue of products to match, and the start and end of the program.
  Each command handler runs without interruption here, also \<open>MARKET\<close> and \<open>STATS\<close>, which in the source
  release the lock of the book before they follow the pointers of \<open>getOrders\<close>; the theory
  Interleaving splits every command into its critical sections, and the theory Simulation shows
  that the two agree when nothing comes in between. The time and the iteration order of an
  unordered map are parameters.
\<close>

section \<open>State\<close>

record server =
  orderBook :: book
  userStore :: users
  nextId :: nat
  pendingProducts :: "string list"
  isRunning :: bool

text \<open>A connection: the local variable \<open>username\<close> and what has been written to the socket.\<close>

record session = server +
  session_user :: string
  sent :: string

definition on_users :: "(users, 'a) action \<Rightarrow> (session, 'a) action" where
  "on_users f s = (case f (userStore s) of (r, us) \<Rightarrow> (r, s\<lparr>userStore := us\<rparr>))"

definition on_book :: "(book, 'a) action \<Rightarrow> (session, 'a) action" where
  "on_book f s = (case f (orderBook s) of (r, b) \<Rightarrow> (r, s\<lparr>orderBook := b\<rparr>))"

definition lift_res :: "'a result \<Rightarrow> ('s, 'a) action" where
  "lift_res r s = (r, s)"

text \<open>\<open>try { m } catch (const std::exception&) { h }\<close>.\<close>

definition try_catch :: "('s, 'a) action \<Rightarrow> ('s, 'a) action \<Rightarrow> ('s, 'a) action" where
  "try_catch m h s = (case m s of
     (Inl e, s') \<Rightarrow> (if catchable e then h s' else (Inl e, s'))
   | (Inr x, s') \<Rightarrow> (Inr x, s'))"

definition write_socket :: "string \<Rightarrow> (session, unit) action" where
  "write_socket t s = (Inr (), s\<lparr>sent := sent s @ t\<rparr>)"

text \<open>
  What a command ends with: a response that is written at the end of the loop body, a
  \<open>continue\<close> (the handler has written itself), or the \<open>break\<close> of \<open>EXIT\<close>.
\<close>

datatype reply = Response string | Continue | Break

type_synonym handler = "(session, reply) action"

definition respond :: "string \<Rightarrow> handler" where
  "respond t = return_act (Response t)"

definition write_and_continue :: "string \<Rightarrow> handler" where
  "write_and_continue t = bind_act (write_socket (t @ ''\<newline>'')) (\<lambda>_. return_act Continue)"

section \<open>Accounts\<close>

definition handle_register :: "string list \<Rightarrow> handler" where
  "handle_register tokens s =
     (if length tokens = 3 then
        (let u = tokens ! 1; p = tokens ! 2 in
         if u = default_user then respond ''ERR Username not allowed. Please choose another.'' s
         else if userExists (userStore s) u then respond ''ERR User already exists. Please LOGIN.'' s
         else respond (''OK User registered as '' @ u)
           (s\<lparr>userStore := addUser u p (userStore s), session_user := u\<rparr>))
      else respond ''ERR Invalid REGISTER command'' s)"

definition handle_login :: "string list \<Rightarrow> handler" where
  "handle_login tokens s =
     (if length tokens = 3 then
        (let u = tokens ! 1; p = tokens ! 2 in
         if u = default_user then respond ''ERR Username not allowed. Please choose another.'' s
         else if userExists (userStore s) u then
           bind_act (on_users (getUser u)) (\<lambda>name s1.
             if \<not> validatePassword (user_at (userStore s1) name) p
             then write_and_continue ''ERR Invalid credentials. Try again.'' s1
             else respond (''OK Logged in as '' @ u) (s1\<lparr>session_user := u\<rparr>)) s
         else respond ''ERR Invalid username. Please REGISTER first.'' s)
      else respond ''ERR Invalid LOGIN command'' s)"

section \<open>Orders\<close>

definition startMatchingProduct :: "string \<Rightarrow> (session, unit) action" where
  "startMatchingProduct pr s = (Inr (),
     if pr \<in> set (pendingProducts s) then s else s\<lparr>pendingProducts := pendingProducts s @ [pr]\<rparr>)"

text \<open>\<open>std::ctime\<close> ends its text with a newline.\<close>

definition getCurrentTimestamp :: "string \<Rightarrow> string" where
  "getCurrentTimestamp ctime = butlast ctime"

definition user_wallet :: "(wallet, 'a) action \<Rightarrow> (session, 'a) action" where
  "user_wallet f s = bind_act (on_users (getUser (session_user s))) (\<lambda>name. on_users (on_wallet name f)) s"

definition new_entry :: "string \<Rightarrow> double \<Rightarrow> double \<Rightarrow> string \<Rightarrow> OrderBookType \<Rightarrow> (session, entry) action" where
  "new_entry ctime p a pr ty s =
     (case OrderBookEntry p a (getCurrentTimestamp ctime) pr ty (session_user s) (nextId s) of
        (obe, nid) \<Rightarrow> (Inr obe, s\<lparr>nextId := nid\<rparr>))"

definition place_order :: "string \<Rightarrow> string \<Rightarrow> string \<Rightarrow> string \<Rightarrow> string \<Rightarrow> handler" where
  "place_order ctime command pr amount_token price_token =
     bind_act (lift_res (stod amount_token)) (\<lambda>a.
     bind_act (lift_res (stod price_token)) (\<lambda>p.
     bind_act (new_entry ctime p a pr (if command = ''ASK'' then Ask else Bid)) (\<lambda>obe.
     bind_act (user_wallet (fulfillOrder obe)) (\<lambda>paid.
     if \<not> paid then
       write_and_continue (''ERR Insufficient funds in wallet to place this '' @ command @ ''.'')
     else
       bind_act (on_book (\<lambda>b. (Inr (), insertOrder obe b))) (\<lambda>_.
       bind_act (startMatchingProduct pr) (\<lambda>_.
       respond (''OK '' @ command @ '' placed for '' @ pr)))))))"

definition handle_order :: "string \<Rightarrow> string \<Rightarrow> string list \<Rightarrow> handler" where
  "handle_order ctime command tokens s =
     (if session_user s = [] then respond ''ERR Login required'' s
      else if length tokens = 4 then
        try_catch (place_order ctime command (map toupper (tokens ! 1)) (tokens ! 2) (tokens ! 3))
          (respond ''ERR Invalid order'') s
      else respond (''ERR Invalid '' @ command @ '' command'') s)"

definition order_line :: "entry \<Rightarrow> string" where
  "order_line e = '' ID: '' @ show_nat (order_id e) @ '' | '' @ orderTypeToString (orderType e) @
     '' | '' @ product e @ '' | Amount: '' @ show_double (amount e) @ '' | Price: '' @ show_double (price e) @
     '' | Timestamp: '' @ timestamp e @ ''\<newline>''"

definition handle_orders :: handler where
  "handle_orders s =
     (if session_user s = [] then respond ''ERR Login required'' s
      else
        bind_act (lift_res (getOrdersForUser (orderBook s) (session_user s))) (\<lambda>orders.
          respond (''Ongoing orders of user '' @ session_user s @ '':\<newline>'' @ concat (map order_line orders) @
            (if orders = [] then ''    (no ongoing orders)'' else []))) s)"

text \<open>The comparison of an \<open>int\<close> with a \<open>std::size_t\<close> converts the \<open>int\<close>.\<close>

definition size_t_of_int :: "int \<Rightarrow> nat" where
  "size_t_of_int n = nat (n mod 2 ^ 64)"

definition cancel_order :: "string \<Rightarrow> handler" where
  "cancel_order id_token s =
     bind_act (lift_res (stoi id_token)) (\<lambda>orderId.
     bind_act (lift_res (getOrdersForUser (orderBook s) (session_user s))) (\<lambda>orders.
     case find (\<lambda>e. size_t_of_int orderId = order_id e) orders of
       None \<Rightarrow> respond ''ERR Order not found or not owned by user.''
     | Some order \<Rightarrow>
         bind_act (user_wallet (cancelOrder order)) (\<lambda>_.
         bind_act (on_book (removeOrderById (session_user s) (size_t_of_int orderId))) (\<lambda>success.
         respond (if success then ''OK Order cancelled.'' else ''ERR Order not found.''))))) s"

definition handle_cancel :: "string list \<Rightarrow> handler" where
  "handle_cancel tokens s =
     (if session_user s = [] then respond ''ERR Login required'' s
      else if length tokens = 2 then try_catch (cancel_order (tokens ! 1)) (respond ''ERR Invalid order ID'') s
      else respond ''ERR Invalid CANCEL command'' s)"

section \<open>Money\<close>

definition handle_wallet :: handler where
  "handle_wallet s =
     (if session_user s = [] then respond ''ERR Login required'' s
      else bind_act (user_wallet (\<lambda>w. (Inr (wallet_toString w), w))) respond s)"

definition transfer :: "string \<Rightarrow> string \<Rightarrow> string \<Rightarrow> handler" where
  "transfer command pr amount_token =
     bind_act (lift_res (stod amount_token)) (\<lambda>amt.
     if command = ''WITHDRAW'' then
       bind_act (user_wallet (removeCurrency pr amt)) (\<lambda>ok.
         respond (if ok then ''OK Withdrew '' @ to_string amt @ '' '' @ pr else ''ERR Insufficient funds''))
     else
       bind_act (user_wallet (insertCurrency pr amt)) (\<lambda>_.
         respond (''OK Deposited '' @ to_string amt @ '' '' @ pr)))"

definition handle_transfer :: "string \<Rightarrow> string list \<Rightarrow> handler" where
  "handle_transfer command tokens s =
     (if session_user s = [] then respond ''ERR Login required'' s
      else if length tokens = 3 then
        try_catch (transfer command (map toupper (tokens ! 1)) (tokens ! 2)) (respond ''ERR Invalid amount'') s
      else respond (''ERR Invalid '' @ command @ '' command'') s)"

section \<open>Market data\<close>

text \<open>The orders behind the pointers that \<open>getOrders\<close> returned.\<close>

definition read_orders :: "book \<Rightarrow> (OrderBookType, addr list) umap \<Rightarrow> OrderBookType \<Rightarrow> entry list result" where
  "read_orders b productOrders ty = map_res (deref b) (umap_index [] productOrders ty)"

definition tab :: string where
  "tab = [CHR 0x09]"

definition market_line :: "book \<Rightarrow> string \<Rightarrow> string result" where
  "market_line b pr =
     (let productOrders = getOrders b pr in
      if productOrders = [] then Inr []
      else
        bind_res (read_orders b productOrders Bid) (\<lambda>bids.
        bind_res (read_orders b productOrders Ask) (\<lambda>asks.
        Inr (''\<newline> Product: '' @ pr @ tab @ '' Best bid: '' @ show_double (getHighPrice bids) @
             tab @ '' Best ask: '' @ show_double (getLowPrice asks)))))"

definition handle_market :: "(string list \<Rightarrow> string list) \<Rightarrow> handler" where
  "handle_market iter s =
     bind_act (lift_res (map_res (market_line (orderBook s)) (getKnownProducts iter (orderBook s))))
       (\<lambda>ls. respond (concat ls)) s"

definition stats_text :: "entry list \<Rightarrow> entry list \<Rightarrow> string" where
  "stats_text bids asks =
     ''\<newline>  Bids '' @ tab @ tab @ tab @ '': '' @ show_nat (length bids) @ ''\<newline>'' @
     ''  High Bid '' @ tab @ tab @ '': '' @ show_double (getHighPrice bids) @ ''\<newline>'' @
     ''  Avg Bid Price '' @ tab @ '': '' @ show_double (getAvgPrice bids) @ ''\<newline>'' @
     ''  Total Bid Volume '' @ tab @ '': '' @ show_double (getTotalVolume bids) @ ''\<newline>'' @
     ''\<newline>  Asks '' @ tab @ tab @ tab @ '': '' @ show_nat (length asks) @ ''\<newline>'' @
     ''  Low Ask '' @ tab @ tab @ '': '' @ show_double (getLowPrice asks) @ ''\<newline>'' @
     ''  Avg Ask Price '' @ tab @ '': '' @ show_double (getAvgPrice asks) @ ''\<newline>'' @
     ''  Total Ask Volume '' @ tab @ '': '' @ show_double (getTotalVolume asks)"

definition handle_stats :: "string list \<Rightarrow> handler" where
  "handle_stats tokens s =
     (if length tokens = 2 then
        (let productOrders = getOrders (orderBook s) (map toupper (tokens ! 1)) in
         bind_act (lift_res (read_orders (orderBook s) productOrders Bid)) (\<lambda>bids.
         bind_act (lift_res (read_orders (orderBook s) productOrders Ask)) (\<lambda>asks.
         respond (stats_text bids asks))) s)
      else respond ''ERR Invalid STATS command. Usage: STATS <PRODUCT>'' s)"

section \<open>A message\<close>

definition strip_newlines :: "string \<Rightarrow> string" where
  "strip_newlines msg = rev (dropWhile (\<lambda>c. c = CHR 0x0A \<or> c = CHR 0x0D) (rev msg))"

definition dispatch :: "string \<Rightarrow> (string list \<Rightarrow> string list) \<Rightarrow> string list \<Rightarrow> handler" where
  "dispatch ctime iter tokens =
     (let command = map toupper (hd tokens) in
      if command = ''REGISTER'' then handle_register tokens
      else if command = ''LOGIN'' then handle_login tokens
      else if command = ''ASK'' \<or> command = ''BID'' then handle_order ctime command tokens
      else if command = ''ORDERS'' then handle_orders
      else if command = ''CANCEL'' then handle_cancel tokens
      else if command = ''WALLET'' then handle_wallet
      else if command = ''DEPOSIT'' \<or> command = ''WITHDRAW'' then handle_transfer command tokens
      else if command = ''MARKET'' then handle_market iter
      else if command = ''STATS'' then handle_stats tokens
      else if command = ''EXIT'' then return_act Break
      else respond ''ERR Unknown command. Type HELP for list.'')"

text \<open>
  One round of the loop on the bytes of one \<open>read_some\<close>; the result says whether the
  connection stays open. An exception that no handler catches ends the connection.
\<close>

definition handle_message :: "string \<Rightarrow> (string list \<Rightarrow> string list) \<Rightarrow> string \<Rightarrow> (session, bool) action" where
  "handle_message ctime iter data =
     try_catch
       (let tokens = getlines (CHR '' '') (strip_newlines data) in
        if tokens = [] then return_act True
        else bind_act (dispatch ctime iter tokens) (\<lambda>r.
          case r of
            Response t \<Rightarrow> bind_act (write_socket (t @ ''\<newline>'')) (\<lambda>_. return_act True)
          | Continue \<Rightarrow> return_act True
          | Break \<Rightarrow> return_act False))
       (return_act False)"

definition welcome_text :: string where
  "welcome_text = ''Welcome to MiniATS Server\<newline>''"

definition open_session :: "server \<Rightarrow> session" where
  "open_session s = server.extend s (session.fields [] welcome_text)"

text \<open>A client that sends these messages one after the other; a closed connection takes no more.\<close>

fun handleClient :: "string \<Rightarrow> (string list \<Rightarrow> string list) \<Rightarrow> string list \<Rightarrow> (session, unit) action" where
  "handleClient ctime iter [] s = (Inr (), s)"
| "handleClient ctime iter (data # rest) s =
     bind_act (handle_message ctime iter data)
       (\<lambda>stay. if stay then handleClient ctime iter rest else return_act ()) s"

section \<open>The matching engine\<close>

text \<open>
  A task that matches one product. It runs under \<open>std::async\<close> and nobody reads its future, so
  an exception it ends with is never seen.
\<close>

definition run_task :: "((node \<Rightarrow> node \<Rightarrow> bool) \<Rightarrow> node list \<Rightarrow> node list) \<Rightarrow> string \<Rightarrow> string \<Rightarrow>
  ('a server_scheme, unit) action" where
  "run_task srt ctime pr s =
     (case matchAsksToBids srt pr (getCurrentTimestamp ctime)
        \<lparr>m_book = orderBook s, m_users = userStore s, m_sales = [], m_nextId = nextId s\<rparr> of
        (r, t) \<Rightarrow>
          (case r of Inl e \<Rightarrow> (if catchable e then Inr () else Inl e) | Inr _ \<Rightarrow> Inr (),
           s\<lparr>orderBook := m_book t, userStore := m_users t, nextId := m_nextId t\<rparr>))"

text \<open>One round of the loop of \<open>startMatching\<close> with a product in the queue.\<close>

definition match_next :: "((node \<Rightarrow> node \<Rightarrow> bool) \<Rightarrow> node list \<Rightarrow> node list) \<Rightarrow> string \<Rightarrow> (server, unit) action" where
  "match_next srt ctime s =
     (case pendingProducts s of
        [] \<Rightarrow> (Inr (), s)
      | pr # rest \<Rightarrow> if isRunning s then run_task srt ctime pr (s\<lparr>pendingProducts := rest\<rparr>) else (Inr (), s))"

definition queue_products :: "(string list \<Rightarrow> string list) \<Rightarrow> server \<Rightarrow> server" where
  "queue_products iter s = s\<lparr>pendingProducts := pendingProducts s @ getKnownProducts iter (orderBook s)\<rparr>"

section \<open>Start and end of the program\<close>

text \<open>
  The files: orders, sales and users. \<open>start\<close> constructs the server object and runs \<open>init\<close> up to
  the loops; \<open>cleanup\<close> is the signal handler up to the exit. An exception of \<open>save\<close> leaves
  \<open>cleanup\<close> before the program is stopped.
\<close>

record files =
  orders_csv :: text_file
  sales_csv :: text_file
  users_json_file :: text_file

definition start :: "(string list \<Rightarrow> string list) \<Rightarrow> files \<Rightarrow> server result" where
  "start iter fs =
     (case OrderBook ''orders.csv'' (orders_csv fs) first_id of (b, nid) \<Rightarrow>
        (case UserStore_load (users_json_file fs) [] of
           (Inl e, us) \<Rightarrow> Inl e
         | (Inr _, us) \<Rightarrow> Inr (queue_products iter
             \<lparr>orderBook = b, userStore = us, nextId = nid, pendingProducts = [], isRunning = True\<rparr>)))"

definition contents :: "text_file \<Rightarrow> string" where
  "contents f = (case f of None \<Rightarrow> [] | Some t \<Rightarrow> t)"

definition export_sales :: "'a server_scheme \<Rightarrow> files \<Rightarrow> files" where
  "export_sales s fs = fs\<lparr>
     sales_csv := Some (entriesToCSV True True (getSales (orderBook s)) (contents (sales_csv fs)))\<rparr>"

definition export_orders :: "(string list \<Rightarrow> string list) \<Rightarrow> 'a server_scheme \<Rightarrow> files \<Rightarrow> files" where
  "export_orders iter s fs = fs\<lparr>
     orders_csv := Some (entriesToCSV True False (getAllOrders iter (orderBook s)) (contents (orders_csv fs)))\<rparr>"

definition export :: "(string list \<Rightarrow> string list) \<Rightarrow> 'a server_scheme \<Rightarrow> files \<Rightarrow> files" where
  "export iter s fs = export_orders iter s (export_sales s fs)"

definition cleanup :: "(string list \<Rightarrow> string list) \<Rightarrow> server \<Rightarrow> (files, server) action" where
  "cleanup iter s fs =
     (let fs1 = export iter s fs in
      case UserStore_save True (userStore s) (users_json_file fs1) of
        (Inl e, f) \<Rightarrow> (Inl e, fs1\<lparr>users_json_file := f\<rparr>)
      | (Inr _, f) \<Rightarrow> (Inr (s\<lparr>isRunning := False\<rparr>), fs1\<lparr>users_json_file := f\<rparr>))"

end
