(* ===== verification/Matching_Loops.thy ===== *)
theory Matching_Loops
  imports Matching
begin

text \<open>
  What the two loops of \<open>OrderBook::matchAsksToBids\<close> do to the book and to the vector of
  sales: the effect of one trade, an induction rule that lifts any reflexive and transitive
  relation from single trades to the loops (normal end or throw), and the consequences every
  property of a pass rests on: only amounts change, they only shrink, and no crossing pair
  of live orders is left.
\<close>

section \<open>What one trade does to the book\<close>

definition amt :: "book \<Rightarrow> addr \<Rightarrow> double" where
  "amt b p = amount (the (live b p))"

definition prc :: "book \<Rightarrow> addr \<Rightarrow> double" where
  "prc b p = price (the (live b p))"

definition is_live :: "book \<Rightarrow> addr \<Rightarrow> bool" where
  "is_live b p = (live b p \<noteq> None)"

lemma writes_is_live: "writes set_amount b b' \<Longrightarrow> is_live b' p = is_live b p"
  by (simp add: is_live_def nodes.writes_live)

lemma writes_prc: "writes set_amount b b' \<Longrightarrow> is_live b p \<Longrightarrow> prc b' p = prc b p"
  using nodes.writes_read [of b b' p] by (auto simp: prc_def is_live_def)

lemma amt_set_amount: "is_live b q \<Longrightarrow> amt (set_amount p v b) q = (if q = p then v else amt b q)"
  by (auto simp: amt_def is_live_def nodes.rd_wr)

lemma is_live_set_amount [simp]: "is_live (set_amount p v b) q = is_live b q"
  by (auto simp: is_live_def nodes.rd_wr)

text \<open>The record of a sale: the ask's price, the time of the pass, no user.\<close>

definition is_sale :: "string \<Rightarrow> string \<Rightarrow> double \<Rightarrow> double \<Rightarrow> entry \<Rightarrow> bool" where
  "is_sale pr ts p a e \<longleftrightarrow> price e = p \<and> amount e = a \<and> timestamp e = ts \<and> product e = pr \<and>
     orderType e = Sale \<and> username e = default_user"

lemma with_users_frame:
  "with_users f s = (r, s') \<Longrightarrow> m_book s' = m_book s \<and> m_sales s' = m_sales s \<and> m_nextId s' = m_nextId s \<and>
    f (m_users s) = (r, m_users s')"
  by (auto simp: with_users_def split: prod.splits)

lemma fill_effect:
  assumes "fill buyer seller sl sold bp bl ap al bpr apr stop s = (r, s')"
  shows "m_book s' = set_amount ap al (set_amount bp bl (m_book s)) \<and>
    m_sales s' = m_sales s @ [sl\<lparr>amount := sold\<rparr>] \<and> m_nextId s' = m_nextId s \<and>
    processSale buyer seller (sl\<lparr>amount := sold\<rparr>) bpr apr (m_users s) = (map_sum id (\<lambda>_. ()) r, m_users s') \<and>
    (\<forall>x. r = Inr x \<longrightarrow> x = stop)"
  using assms unfolding fill_def Let_def
  by (auto elim!: bind_act_cases dest!: with_users_frame)

text \<open>
  The effect of a trade on the book: nothing (an account was not found, or the amounts do
  not compare because one is NaN), or one of the three branches of the code.
\<close>

inductive trade_effect ::
  "string \<Rightarrow> string \<Rightarrow> addr \<Rightarrow> entry \<Rightarrow> addr \<Rightarrow> entry \<Rightarrow> book \<Rightarrow> entry list \<Rightarrow> bool \<Rightarrow> book \<Rightarrow> bool"
  for pr ts ap a bp b bk where
  no_trade: "trade_effect pr ts ap a bp b bk [] False bk"
| both_filled: "deq (amount b) (amount a) \<Longrightarrow> is_sale pr ts (price a) (amount a) sl \<Longrightarrow>
    trade_effect pr ts ap a bp b bk [sl] True (set_amount ap 0 (set_amount bp 0 bk))"
| ask_filled: "amount a < amount b \<Longrightarrow> is_sale pr ts (price a) (amount a) sl \<Longrightarrow>
    trade_effect pr ts ap a bp b bk [sl] True (set_amount ap 0 (set_amount bp (amount b - amount a) bk))"
| bid_filled: "amount b < amount a \<Longrightarrow> is_sale pr ts (price a) (amount b) sl \<Longrightarrow>
    trade_effect pr ts ap a bp b bk [sl] False (set_amount ap (amount a - amount b) (set_amount bp 0 bk))"

inductive_cases trade_effectE: "trade_effect pr ts ap a bp b bk sls stop bk'"

lemma trade_cases:
  assumes "trade pr ts ap a bp b s = (r, s')"
  obtains sls stop where "trade_effect pr ts ap a bp b (m_book s) sls stop (m_book s')"
    "m_sales s' = m_sales s @ sls" "\<And>x. r = Inr x \<Longrightarrow> x = stop"
    "\<And>x. r = Inr x \<Longrightarrow> sls = [] \<Longrightarrow>
       \<not> deq (amount b) (amount a) \<and> \<not> amount a < amount b \<and> \<not> amount b < amount a"
  using assms unfolding trade_def
proof (rule bind_act_cases, goal_cases)
  case (1 e)
  show ?case
    using 1(3) with_users_frame [OF 1(2)] no_trade by (intro 1(1) [of "[]" False]) auto
next
  case (2 buyer s1)
  note th = 2(1) and b1 = with_users_frame [OF 2(2)]
  from 2(3) show ?case
  proof (rule bind_act_cases, goal_cases)
    case (1 e)
    show ?case
      using 1(2) b1 with_users_frame [OF 1(1)] no_trade by (intro th [of "[]" False]) auto
  next
    case (2 seller s2)
    note b2 = with_users_frame [OF 2(1)]
    let ?e = "\<lambda>v. \<lparr>price = price a, amount = v, timestamp = ts, product = pr, orderType = Sale,
        username = default_user, order_id = m_nextId s2\<rparr>"
    have sl: "is_sale pr ts (price a) v (?e v)" for v by (simp add: is_sale_def)
    have e0: "(?e w)\<lparr>amount := v\<rparr> = ?e v" for v w by simp
    from 2(2) consider
      "deq (amount b) (amount a)"
        "fill buyer seller (?e 0) (amount a) bp 0 ap 0 (price b) (price a) True
          (s2\<lparr>m_nextId := size_t_succ (m_nextId s2)\<rparr>) = (r, s')"
      | "\<not> deq (amount b) (amount a)" "amount a < amount b"
        "fill buyer seller (?e 0) (amount a) bp (amount b - amount a) ap 0 (price b) (price a) True
          (s2\<lparr>m_nextId := size_t_succ (m_nextId s2)\<rparr>) = (r, s')"
      | "\<not> deq (amount b) (amount a)" "\<not> amount a < amount b" "amount b < amount a"
        "fill buyer seller (?e 0) (amount b) bp 0 ap (amount a - amount b) (price b) (price a) False
          (s2\<lparr>m_nextId := size_t_succ (m_nextId s2)\<rparr>) = (r, s')"
      | "\<not> deq (amount b) (amount a)" "\<not> amount a < amount b" "\<not> amount b < amount a"
        "r = Inr False" "s' = s2\<lparr>m_nextId := size_t_succ (m_nextId s2)\<rparr>"
      by (auto simp: OrderBookEntry_def Let_def split: if_splits)
    then show ?case
    proof cases
      case 1
      show ?thesis
        using fill_effect [OF 1(2)] b1 b2 both_filled [OF 1(1) sl, of ap bp "m_book s"]
        by (intro th [of "[?e (amount a)]" True]) auto
    next
      case 2
      show ?thesis
        using fill_effect [OF 2(3)] b1 b2 ask_filled [OF 2(2) sl, of ap bp "m_book s"]
        by (intro th [of "[?e (amount a)]" True]) auto
    next
      case 3
      show ?thesis
        using fill_effect [OF 3(4)] b1 b2 bid_filled [OF 3(3) sl, of ap bp "m_book s"]
        by (intro th [of "[?e (amount b)]" False]) auto
    next
      case 4
      show ?thesis
        using b1 b2 4 no_trade by (intro th [of "[]" False]) auto
    qed
  qed
qed

lemma trade_effect_writes: "trade_effect pr ts ap a bp b bk sls stop bk' \<Longrightarrow> writes set_amount bk bk'"
  by (induction rule: trade_effect.induct) auto

section \<open>An induction rule for the loops\<close>

text \<open>
  Whatever reflexive and transitive relation every trade of a pass satisfies, between the
  book and the sales before and after it, the whole loop satisfies, also when it throws.
\<close>

lemma match_bids_rel:
  assumes "match_bids pr ts ap bids s = (r, s')"
    and refl: "\<And>x. R x x" and trans: "\<And>x y z. R x y \<Longrightarrow> R y z \<Longrightarrow> R x z"
    and step: "\<And>bk sl a b bp sls stop bk'. bp \<in> set bids \<Longrightarrow> live bk ap = Some a \<Longrightarrow> live bk bp = Some b \<Longrightarrow>
      \<not> amount b \<le> 0 \<Longrightarrow> price a \<le> price b \<Longrightarrow> trade_effect pr ts ap a bp b bk sls stop bk' \<Longrightarrow>
      R (bk, sl) (bk', sl @ sls)"
  shows "R (m_book s, m_sales s) (m_book s', m_sales s')"
  using assms(1) step
proof (induction bids arbitrary: s)
  case (Cons p bids)
  have IH: "match_bids pr ts ap bids s1 = (r, s') \<Longrightarrow> R (m_book s1, m_sales s1) (m_book s', m_sales s')" for s1
    using Cons.IH Cons.prems(2) by (meson list.set_intros(2))
  show ?case
  proof (cases "deref (m_book s) p")
    case (Inr b)
    show ?thesis
    proof (cases "amount b \<le> 0 \<or> (\<exists>e. deref (m_book s) ap = Inl e)")
      case True
      then show ?thesis using Cons.prems(1) IH Inr refl by (auto split: if_splits)
    next
      case False
      then obtain a where a: "deref (m_book s) ap = Inr a" "\<not> amount b \<le> 0"
        by (cases "deref (m_book s) ap") auto
      show ?thesis
      proof (cases "price a \<le> price b")
        case True
        with Cons.prems Inr a
        have "bind_act (trade pr ts ap a p b)
            (\<lambda>stop. if stop then return_act () else match_bids pr ts ap bids) s = (r, s')" by simp
        moreover have tr: "R (m_book s, m_sales s) (m_book s1, m_sales s1)"
          if "trade pr ts ap a p b s = (x, s1)" for x s1
        proof -
          from that obtain sls stop where te: "trade_effect pr ts ap a p b (m_book s) sls stop (m_book s1)"
            and sl: "m_sales s1 = m_sales s @ sls" by (rule trade_cases)
          have "live (m_book s) ap = Some a" "live (m_book s) p = Some b" using a Inr by simp_all
          from Cons.prems(2) [OF _ this a(2) True te, of "m_sales s"] show ?thesis by (simp add: sl)
        qed
        ultimately show ?thesis
          by (elim bind_act_cases) (auto dest!: tr IH intro: trans split: if_splits)
      qed (use Cons.prems IH Inr a in auto)
    qed
  qed (use Cons.prems refl in auto)
qed (use refl in auto)

lemma match_asks_rel:
  assumes "match_asks pr ts bids asks s = (r, s')"
    and refl: "\<And>x. R x x" and trans: "\<And>x y z. R x y \<Longrightarrow> R y z \<Longrightarrow> R x z"
    and step: "\<And>bk sl ap a b bp sls stop bk'. ap \<in> set asks \<Longrightarrow> bp \<in> set bids \<Longrightarrow>
      live bk ap = Some a \<Longrightarrow> live bk bp = Some b \<Longrightarrow>
      \<not> amount b \<le> 0 \<Longrightarrow> price a \<le> price b \<Longrightarrow> trade_effect pr ts ap a bp b bk sls stop bk' \<Longrightarrow>
      R (bk, sl) (bk', sl @ sls)"
  shows "R (m_book s, m_sales s) (m_book s', m_sales s')"
  using assms(1) step
proof (induction asks arbitrary: s)
  case (Cons p asks)
  have IH: "match_asks pr ts bids asks s1 = (r, s') \<Longrightarrow> R (m_book s1, m_sales s1) (m_book s', m_sales s')" for s1
    using Cons.IH Cons.prems(2) by (meson list.set_intros(2))
  have inner: "R (m_book s, m_sales s) (m_book s1, m_sales s1)"
    if "match_bids pr ts p bids s = (x, s1)" for x s1
    using that refl trans
  proof (rule match_bids_rel)
    fix bk sl a b bp sls stop bk'
    assume "bp \<in> set bids" "live bk p = Some a" "live bk bp = Some b" "\<not> amount b \<le> 0" "price a \<le> price b"
      "trade_effect pr ts p a bp b bk sls stop bk'"
    then show "R (bk, sl) (bk', sl @ sls)" by (intro Cons.prems(2)) auto
  qed
  show ?case
  proof (cases "deref (m_book s) p")
    case (Inr a)
    show ?thesis
    proof (cases "amount a \<le> 0")
      case False
      with Cons.prems Inr
      have "bind_act (match_bids pr ts p bids) (\<lambda>_. match_asks pr ts bids asks) s = (r, s')" by simp
      then show ?thesis
        by (elim bind_act_cases) (auto dest!: inner IH intro: trans)
    qed (use Cons.prems IH Inr in auto)
  qed (use Cons.prems refl in auto)
qed (use refl in auto)

lemma match_bids_writes:
  assumes "match_bids pr ts ap bids s = (r, s')"
  shows "writes set_amount (m_book s) (m_book s')"
  using match_bids_rel [OF assms, of "\<lambda>x y. writes set_amount (fst x) (fst y)"]
  by (auto intro: writes_trans trade_effect_writes)

lemma match_asks_writes:
  assumes "match_asks pr ts bids asks s = (r, s')"
  shows "writes set_amount (m_book s) (m_book s')"
  using match_asks_rel [OF assms, of "\<lambda>x y. writes set_amount (fst x) (fst y)"]
  by (auto intro: writes_trans trade_effect_writes)

section \<open>Amounts only shrink\<close>

lemma minus_not_nan: "x < y \<Longrightarrow> y - x \<noteq> NaN" for x y :: double
  by (cases x; cases y) (auto simp: minus_double_def fadd_def)

text \<open>
  \<open>shrinks b b'\<close>: an order that can still be filled afterwards could be filled before, and
  no amount becomes NaN.
\<close>

definition shrinks :: "book \<Rightarrow> book \<Rightarrow> bool" where
  "shrinks b b' \<longleftrightarrow> (\<forall>q. is_live b q \<longrightarrow> is_live b' q \<and> (0 < amt b' q \<longrightarrow> 0 < amt b q) \<and>
     (amt b q \<noteq> NaN \<longrightarrow> amt b' q \<noteq> NaN) \<and> (amt b q = NaN \<longrightarrow> amt b' q = NaN))"

lemma shrinks_refl: "shrinks b b"
  by (simp add: shrinks_def)

lemma shrinks_trans: "shrinks b b' \<Longrightarrow> shrinks b' b'' \<Longrightarrow> shrinks b b''"
  by (auto simp: shrinks_def)

lemma trade_effect_shrinks:
  assumes te: "trade_effect pr ts ap a bp b bk sls stop bk'" and l: "live bk ap = Some a" "live bk bp = Some b"
    and pos: "\<not> amount b \<le> 0"
  shows "shrinks bk bk'"
proof -
  have la: "is_live bk ap" "amt bk ap = amount a" and lb: "is_live bk bp" "amt bk bp = amount b"
    using l by (auto simp: is_live_def amt_def)
  have b0: "0 < amount b" if "amount b \<noteq> NaN" using pos that by (auto simp: dlt_iff_not_dle)
  from te show ?thesis
  proof cases
    case no_trade
    then show ?thesis by (simp add: shrinks_refl)
  next
    case (both_filled sl)
    then have "amount a \<noteq> NaN" "amount b \<noteq> NaN" by (auto simp: deq_def)
    then show ?thesis using both_filled la lb by (auto simp: shrinks_def amt_set_amount)
  next
    case (ask_filled sl)
    then have "amount a \<noteq> NaN" "amount b \<noteq> NaN" "amount b - amount a \<noteq> NaN"
      using dlt_not_nan minus_not_nan by blast+
    then show ?thesis using ask_filled la lb b0 by (auto simp: shrinks_def amt_set_amount)
  next
    case (bid_filled sl)
    then have "amount a \<noteq> NaN" "amount b \<noteq> NaN" "amount a - amount b \<noteq> NaN"
      using dlt_not_nan minus_not_nan by blast+
    moreover have "0 < amount a" using bid_filled b0 calculation dlt_trans by blast
    ultimately show ?thesis using bid_filled la lb by (auto simp: shrinks_def amt_set_amount)
  qed
qed

lemma match_bids_shrinks:
  assumes "match_bids pr ts ap bids s = (r, s')"
  shows "shrinks (m_book s) (m_book s')"
  using match_bids_rel [OF assms, of "\<lambda>x y. shrinks (fst x) (fst y)"]
  by (auto intro: shrinks_refl shrinks_trans trade_effect_shrinks)

lemma match_asks_shrinks:
  assumes "match_asks pr ts bids asks s = (r, s')"
  shows "shrinks (m_book s) (m_book s')"
  using match_asks_rel [OF assms, of "\<lambda>x y. shrinks (fst x) (fst y)"]
  by (auto intro: shrinks_refl shrinks_trans trade_effect_shrinks)

section \<open>No crossing pair is left\<close>

definition crossing :: "book \<Rightarrow> addr \<Rightarrow> addr \<Rightarrow> bool" where
  "crossing b ap bp \<longleftrightarrow> 0 < amt b ap \<and> 0 < amt b bp \<and> prc b ap \<le> prc b bp"

lemma crossing_antimono:
  "writes set_amount b b' \<Longrightarrow> shrinks b b' \<Longrightarrow> is_live b ap \<Longrightarrow> is_live b bp \<Longrightarrow>
    crossing b' ap bp \<Longrightarrow> crossing b ap bp"
  by (auto simp: crossing_def shrinks_def writes_prc)

text \<open>After a trade that does not end the loop, the bid is used up or the ask's amount is NaN.\<close>

lemma trade_effect_continues:
  assumes te: "trade_effect pr ts ap a bp b bk sls stop bk'" and "live bk ap = Some a" "live bk bp = Some b"
    and "ap \<noteq> bp" and "\<not> stop"
    and "sls = [] \<Longrightarrow> \<not> deq (amount b) (amount a) \<and> \<not> amount a < amount b \<and> \<not> amount b < amount a"
  shows "\<not> 0 < amt bk' bp \<or> amt bk' ap = NaN"
proof -
  have l: "is_live bk ap" "amt bk ap = amount a" "is_live bk bp" "amt bk bp = amount b"
    using assms by (auto simp: is_live_def amt_def)
  from te show ?thesis
  proof cases
    case no_trade
    then have "amount a = NaN \<or> amount b = NaN"
      using assms(6) double_trichotomy by blast
    then show ?thesis using no_trade l by auto
  qed (use assms l in \<open>auto simp: amt_set_amount\<close>)
qed

lemma trade_effect_stops:
  assumes te: "trade_effect pr ts ap a bp b bk sls True bk'" and "live bk ap = Some a"
  shows "amt bk' ap = 0"
proof -
  have "is_live bk ap" using assms by (simp add: is_live_def)
  with te show ?thesis by cases (auto simp: amt_set_amount)
qed

lemma match_bids_uncrossed:
  assumes "match_bids pr ts ap bids s = (Inr (), s')" and "is_live (m_book s) ap"
    and "\<forall>p\<in>set bids. is_live (m_book s) p \<and> p \<noteq> ap" and "bp \<in> set bids"
  shows "\<not> crossing (m_book s') ap bp"
  using assms
proof (induction bids arbitrary: s)
  case (Cons p bids)
  obtain b where b: "live (m_book s) p = Some b" using Cons.prems(3) by (auto simp: is_live_def)
  obtain a where a: "live (m_book s) ap = Some a" using Cons.prems(2) by (auto simp: is_live_def)
  have am: "amt (m_book s) p = amount b" "prc (m_book s) p = price b" "prc (m_book s) ap = price a"
    using a b by (simp_all add: amt_def prc_def)
  have live_s: "is_live (m_book s) p" "is_live (m_book s) ap" "p \<noteq> ap" using Cons.prems by auto
  have skip: "\<not> crossing (m_book s') ap bp"
    if run: "match_bids pr ts ap bids s1 = (Inr (), s')" and w: "writes set_amount (m_book s) (m_book s1)"
      and no: "bp = p \<Longrightarrow> \<not> crossing (m_book s1) ap p" for s1
  proof (cases "bp \<in> set bids")
    case True
    show ?thesis
      using run True Cons.prems(2,3) writes_is_live [OF w] by (intro Cons.IH [OF run]) auto
  next
    case False
    then have "bp = p" using Cons.prems(4) by simp
    then show ?thesis
      using no crossing_antimono [OF match_bids_writes [OF run] match_bids_shrinks [OF run]]
        live_s writes_is_live [OF w] by blast
  qed
  show ?case
  proof (cases "amount b \<le> 0 \<or> \<not> price a \<le> price b")
    case True
    then have "match_bids pr ts ap bids s = (Inr (), s')"
      using Cons.prems(1) by (auto simp: deref_live [OF a] deref_live [OF b] split: if_splits)
    moreover have "\<not> crossing (m_book s) ap p" using True am dlt_not_dle by (auto simp: crossing_def)
    ultimately show ?thesis by (intro skip) auto
  next
    case False
    with Cons.prems(1) obtain stop s1 where tr: "trade pr ts ap a p b s = (Inr stop, s1)"
      and rest: "(if stop then return_act () else match_bids pr ts ap bids) s1 = (Inr (), s')"
      by (auto simp: deref_live a b bind_act_Inr)
    from tr obtain sls where te: "trade_effect pr ts ap a p b (m_book s) sls stop (m_book s1)"
      and none: "sls = [] \<Longrightarrow> \<not> deq (amount b) (amount a) \<and> \<not> amount a < amount b \<and> \<not> amount b < amount a"
      by (rule trade_cases) auto
    show ?thesis
    proof (cases stop)
      case True
      then have "amt (m_book s') ap = 0" using trade_effect_stops te a rest by auto
      then show ?thesis by (simp add: crossing_def)
    next
      case False
      then have "\<not> crossing (m_book s1) ap p"
        using trade_effect_continues [OF te a b live_s(3) [symmetric] False none] by (auto simp: crossing_def)
      then show ?thesis
        using rest False trade_effect_writes [OF te] by (intro skip [of s1]) auto
    qed
  qed
qed simp

lemma match_asks_uncrossed:
  assumes "match_asks pr ts bids asks s = (Inr (), s')"
    and "\<forall>p\<in>set asks. is_live (m_book s) p" "\<forall>p\<in>set bids. is_live (m_book s) p"
    and "set asks \<inter> set bids = {}" and "ap \<in> set asks" and "bp \<in> set bids"
  shows "\<not> crossing (m_book s') ap bp"
  using assms
proof (induction asks arbitrary: s)
  case (Cons p asks)
  obtain a where a: "live (m_book s) p = Some a" using Cons.prems(2) by (auto simp: is_live_def)
  have later: "\<not> crossing (m_book s') ap bp"
    if run: "match_asks pr ts bids asks s1 = (Inr (), s')" and w: "writes set_amount (m_book s) (m_book s1)"
      and no: "ap = p \<Longrightarrow> \<not> crossing (m_book s1) p bp" for s1
  proof (cases "ap \<in> set asks")
    case True
    show ?thesis
      using run True Cons.prems(2-6) writes_is_live [OF w] by (intro Cons.IH [OF run]) auto
  next
    case False
    then have "ap = p" using Cons.prems(5) by simp
    then show ?thesis
      using no crossing_antimono [OF match_asks_writes [OF run] match_asks_shrinks [OF run]]
        Cons.prems(2,3,6) writes_is_live [OF w] by (auto simp: is_live_def)
  qed
  show ?case
  proof (cases "amount a \<le> 0")
    case True
    then have "\<not> crossing (m_book s) p bp" using a dlt_not_dle by (auto simp: crossing_def amt_def)
    then show ?thesis using Cons.prems(1) True by (intro later [of s]) (auto simp: deref_live a)
  next
    case False
    with Cons.prems(1) obtain s1 where run: "match_bids pr ts p bids s = (Inr (), s1)"
      and rest: "match_asks pr ts bids asks s1 = (Inr (), s')"
      by (auto simp: deref_live a bind_act_Inr)
    have "\<not> crossing (m_book s1) p bp"
      using Cons.prems by (intro match_bids_uncrossed [OF run]) auto
    then show ?thesis by (intro later [OF rest match_bids_writes [OF run]])
  qed
qed simp

end
