(* ===== verification/Settlement.thy ===== *)
theory Settlement
  imports Matching_Loops Example_Book
begin

text \<open>
  The money side of a trade: which exceptions \<open>processSale\<close> can throw, what it moves between
  the two wallets, that it keeps every balance a non-negative number when the orders are
  finite and non-negative, and that it leaves all other accounts alone.
\<close>

section \<open>Settlement\<close>

lemma keeps_on_wallet_solvent:
  assumes "\<And>w r w'. f w = (r, w') \<Longrightarrow> solvent free_balance locked_balance w \<Longrightarrow>
    solvent free_balance locked_balance w' \<and> (\<forall>e. r = Inl e \<longrightarrow> Q e)"
  shows "keeps users_ok Q (on_wallet name f)"
proof (rule keepsI)
  fix us r us' assume ok: "users_ok us" and run: "on_wallet name f us = (r, us')"
  obtain w' where w': "f (wallet_of us name) = (r, w')"
    using on_wallet_wallets [OF run] by metis
  show "users_ok us' \<and> (\<forall>e. r = Inl e \<longrightarrow> Q e)"
    using assms [OF w' users_ok_wallet [OF ok]] users_ok_on_wallet [OF ok run] assms users_ok_wallet [OF ok]
    by blast
qed

text \<open>A price, an amount and their product that a solvent wallet can be charged.\<close>

definition payable :: "double \<Rightarrow> bool" where
  "payable x \<longleftrightarrow> isfinite x \<and> 0 \<le> x \<and> value64 x"

lemma payable_simps: "payable x \<Longrightarrow> isfinite x \<and> 0 \<le> x \<and> value64 x \<and> x \<noteq> NaN \<and> \<not> x < 0"
  by (auto simp: payable_def dest: dlt_not_dle)

lemma keeps_insertCurrency: "payable x \<Longrightarrow> keeps users_ok Q (on_wallet name (insertCurrency ty x))"
  using wallet.deposit_solvent [of ty x]
  by (intro keeps_on_wallet_solvent) (auto simp: insertCurrency_def dest: payable_simps split: if_splits)

lemma spendLocked_returns: "spendLocked ty x w \<noteq> (Inl e, w')"
  by (simp add: spendLocked_def Let_def)

lemma unlockCurrency_returns: "unlockCurrency ty x w \<noteq> (Inl e, w')"
  by (simp add: unlockCurrency_def Let_def)

lemma keeps_spendLocked: "payable x \<Longrightarrow> keeps users_ok Q (on_wallet name (spendLocked ty x))"
  using wallet.spend_solvent [of ty x]
  by (intro keeps_on_wallet_solvent) (auto simp: spendLocked_returns dest: payable_simps)

lemma keeps_unlockCurrency: "payable x \<Longrightarrow> keeps users_ok Q (on_wallet name (unlockCurrency ty x))"
  using wallet.unlock_solvent [of ty x]
  by (intro keeps_on_wallet_solvent) (auto simp: unlockCurrency_returns dest: payable_simps)

lemma users_ok_username: "users_ok us \<Longrightarrow> getUsername (user_at us name) = name"
  by (auto simp: users_ok_def user_at_def User_def getUsername_def split: option.splits)

lemma keeps_require_spent: "name = default_user \<or> Q e \<Longrightarrow> keeps users_ok Q (require_spent name spent e)"
  by (rule keepsI) (auto simp: require_spent_def users_ok_username split: if_splits)

lemma keeps_getUser:
  "name = default_user \<or> Q (Runtime_error (''User not found: '' @ name)) \<Longrightarrow> keeps users_ok Q (getUser name)"
proof (rule keepsI)
  fix us r us' assume "name = default_user \<or> Q (Runtime_error (''User not found: '' @ name))" "users_ok us"
    and g: "getUser name us = (r, us')"
  then show "users_ok us' \<and> (\<forall>e. r = Inl e \<longrightarrow> Q e)"
    using users_ok_getUser [OF _ g] by (auto elim!: getUser_cases)
qed

definition bad_sale_product :: exn where
  "bad_sale_product = Invalid_argument ''Invalid product format in sale''"

lemma keeps_processSale:
  assumes "payable (amount sl)" "payable (price sl * amount sl)"
    and "ask_price < bid_price \<Longrightarrow> payable ((bid_price - ask_price) * amount sl)"
    and "buyer = default_user \<or> Q buyer_insufficient" "seller = default_user \<or> Q seller_insufficient"
    and "length (extractTokens (product sl) (CHR ''/'')) = 2 \<or> Q bad_sale_product"
  shows "keeps users_ok Q (processSale buyer seller sl bid_price ask_price)"
proof (cases "\<exists>base quote. extractTokens (product sl) (CHR ''/'') = [base, quote]")
  case True
  then obtain base quote where t: "extractTokens (product sl) (CHR ''/'') = [base, quote]" by blast
  note steps = keeps_insertCurrency keeps_spendLocked keeps_unlockCurrency keeps_require_spent
  show ?thesis
    unfolding processSale_def t Let_def
    by (auto intro!: keeps_bind steps assms)
next
  case False
  then have "processSale buyer seller sl bid_price ask_price = throw_act bad_sale_product"
    by (auto simp: processSale_def bad_sale_product_def split: list.splits)
  moreover have "Q bad_sale_product"
    using assms(6) False by (auto simp: numeral_2_eq_2 length_Suc_conv)
  ultimately show ?thesis by (simp add: keeps_throw)
qed

text \<open>Nobody else's wallet is touched.\<close>

lemma keeps_on_wallet_frame:
  "name \<noteq> k \<Longrightarrow> (\<And>w e w'. f w = (Inl e, w') \<Longrightarrow> Q e) \<Longrightarrow> keeps (\<lambda>us. wallet_of us k = w0) Q (on_wallet name f)"
  by (rule keepsI) (metis on_wallet_wallets)

lemma processSale_frame:
  assumes "processSale buyer seller sl bid_price ask_price us = (r, us')" and "k \<noteq> buyer" "k \<noteq> seller"
  shows "wallet_of us' k = wallet_of us k"
proof -
  have rs: "keeps (\<lambda>us. wallet_of us k = w0) (\<lambda>_. True) (require_spent n sp e)" for n sp e w0
    by (rule keepsI) (auto simp: require_spent_def split: if_splits)
  have "keeps (\<lambda>u. wallet_of u k = wallet_of us k) (\<lambda>_. True) (processSale buyer seller sl bid_price ask_price)"
    unfolding processSale_def Let_def using assms(2,3)
    by (auto split: list.split intro!: keeps_bind keeps_on_wallet_frame rs keeps_throw)
  from keepsD [OF this refl assms(1)] show ?thesis by blast
qed

lemma minus_payable:
  assumes x: "payable x" and y: "payable y" and le: "y \<le> x"
  shows "payable (x - y)" and "x - y \<le> x"
proof -
  note px = payable_simps [OF x] and py = payable_simps [OF y]
  have lo: "0 \<le> x - y" using le py by (intro minus_nonneg) auto
  show hi: "x - y \<le> x" using px py by (intro minus_le) auto
  have "isfinite (x - y)" by (rule finite_below [OF lo hi]) (simp add: px)
  then show "payable (x - y)" using px py lo by (simp add: payable_def value64_minus)
qed

section \<open>Orders that can be settled\<close>

definition fine :: "entry \<Rightarrow> bool" where
  "fine e \<longleftrightarrow> payable (price e) \<and> payable (amount e) \<and> isfinite (price e * amount e)"

lemma fine_le:
  assumes b: "fine b" and x: "payable x" "x \<le> price b" and y: "payable y" "y \<le> amount b"
  shows "payable (x * y)"
proof -
  note px = payable_simps [OF x(1)] and py = payable_simps [OF y(1)]
  have pb: "isfinite (price b)" "isfinite (amount b)" "isfinite (price b * amount b)"
    using b by (auto simp: fine_def payable_def)
  have lo: "0 \<le> x * y" using px py by (intro times_nonneg) auto
  have "x * y \<le> price b * amount b" using px py x y pb by (intro times_mono) auto
  then have "isfinite (x * y)" using finite_below lo pb(3) by blast
  then show ?thesis using lo by (simp add: payable_def)
qed

lemma fine_amount: "fine e \<Longrightarrow> payable v \<Longrightarrow> v \<le> amount e \<Longrightarrow> fine (e\<lparr>amount := v\<rparr>)"
  using fine_le [of e "price e" v] payable_simps [of "price e"]
  by (simp add: fine_def) (simp add: payable_def)

section \<open>One trade\<close>

lemma getUser_value: "with_users (getUser name) s = (Inr x, s') \<Longrightarrow> x = name"
  by (auto simp: with_users_def getUser_def split: prod.splits option.splits if_splits)

lemma keeps_with_users: "keeps P Q f \<Longrightarrow> keeps (\<lambda>s. P (m_users s)) Q (with_users f)"
  by (rule keepsI) (auto dest!: with_users_frame dest: keepsD)

lemma keeps_fill:
  assumes "payable sold" "payable (price sl * sold)" "apr < bpr \<Longrightarrow> payable ((bpr - apr) * sold)"
    and "buyer = default_user \<or> Q buyer_insufficient" "seller = default_user \<or> Q seller_insufficient"
    and "length (extractTokens (product sl) (CHR ''/'')) = 2 \<or> Q bad_sale_product"
  shows "keeps (\<lambda>s. users_ok (m_users s)) Q (fill buyer seller sl sold bp bl ap al bpr apr stop)"
proof (rule keepsI)
  fix s r s' assume ok: "users_ok (m_users s)"
    and "fill buyer seller sl sold bp bl ap al bpr apr stop s = (r, s')"
  then have p: "processSale buyer seller (sl\<lparr>amount := sold\<rparr>) bpr apr (m_users s) = (map_sum id (\<lambda>_. ()) r, m_users s')"
    by (blast dest: fill_effect)
  have "keeps users_ok Q (processSale buyer seller (sl\<lparr>amount := sold\<rparr>) bpr apr)"
    using assms by (intro keeps_processSale) simp_all
  from keepsD [OF this ok p] show "users_ok (m_users s') \<and> (\<forall>e. r = Inl e \<longrightarrow> Q e)"
    by auto
qed

text \<open>
  The exceptions a pass may end with. \<open>Q\<close> is open: with it empty the same lemmas show
  that orders of the account \<open>default\<close> never make a pass fail.
\<close>

definition trade_errors :: "string \<Rightarrow> entry \<Rightarrow> entry \<Rightarrow> (exn \<Rightarrow> bool) \<Rightarrow> bool" where
  "trade_errors pr a b Q \<longleftrightarrow>
    (\<forall>o'\<in>{a, b}. username o' = default_user \<or> Q (Runtime_error (''User not found: '' @ username o'))) \<and>
    (username b = default_user \<or> Q buyer_insufficient) \<and> (username a = default_user \<or> Q seller_insufficient) \<and>
    (length (extractTokens pr (CHR ''/'')) = 2 \<or> Q bad_sale_product)"

lemma keeps_trade:
  assumes a: "fine a" and b: "fine b" and le: "price a \<le> price b" and "trade_errors pr a b Q"
  shows "keeps (\<lambda>s. users_ok (m_users s)) Q (trade pr ts ap a bp b)"
proof -
  have pa: "payable (price a)" "payable (amount a)" and pb: "payable (price b)" "payable (amount b)"
    using a b by (auto simp: fine_def)
  have charge: "payable (price a * v) \<and> payable ((price b - price a) * v)" if "payable v" "v \<le> amount b" for v
    using fine_le [OF b pa(1) le that] minus_payable [OF pb(1) pa(1) le] fine_le [OF b _ _ that] by blast
  let ?e = "\<lambda>n. \<lparr>price = price a, amount = 0, timestamp = ts, product = pr, orderType = Sale,
      username = default_user, order_id = n\<rparr>"
  have cont: "keeps (\<lambda>s. users_ok (m_users s)) Q
      (\<lambda>s0. case OrderBookEntry (price a) 0 ts pr Sale default_user (m_nextId s0) of
         (sale0, nid) \<Rightarrow> (let s = s0\<lparr>m_nextId := nid\<rparr> in
            if deq (amount b) (amount a) then
              fill (username b) (username a) sale0 (amount a) bp 0 ap 0 (price b) (price a) True s
            else if amount a < amount b then
              fill (username b) (username a) sale0 (amount a) bp (amount b - amount a) ap 0 (price b) (price a) True s
            else if amount b < amount a then
              fill (username b) (username a) sale0 (amount b) bp 0 ap (amount a - amount b) (price b) (price a) False s
            else (Inr False, s)))"
  proof (rule keepsI, goal_cases)
    case (1 s r s')
    let ?s = "s\<lparr>m_nextId := size_t_succ (m_nextId s)\<rparr>"
    have ok: "users_ok (m_users ?s)" using 1(1) by simp
    have f: "keeps (\<lambda>s. users_ok (m_users s)) Q
        (fill (username b) (username a) (?e n) v bp x ap y (price b) (price a) st)"
      if "payable v" "v \<le> amount b" for v x y st n
      using that charge [OF that] assms(4) by (intro keeps_fill) (auto simp: trade_errors_def)
    have eqle: "deq (amount b) (amount a) \<Longrightarrow> amount a \<le> amount b" by (simp add: deq_iff)
    have ltle: "amount a < amount b \<Longrightarrow> amount a \<le> amount b" by (rule dlt_imp_dle)
    have refl: "amount b \<le> amount b" using payable_simps [OF pb(2)] by simp
    show ?case
      using 1(2) keepsD [OF f [OF pa(2) eqle] ok] keepsD [OF f [OF pa(2) ltle] ok] keepsD [OF f [OF pb(2) refl] ok] ok
      by (simp add: OrderBookEntry_def Let_def split: if_splits) auto
  qed
  show ?thesis
    unfolding trade_def
    using assms(4) keeps_with_users [OF keeps_getUser [of "username b" Q]]
      keeps_with_users [OF keeps_getUser [of "username a" Q]]
    by (intro keeps_bind_value [where v = "username b"] keeps_bind_value [where v = "username a"] cont)
      (simp_all add: trade_errors_def getUser_value)
qed

lemma trade_effect_fine:
  assumes te: "trade_effect pr ts ap a bp b bk sls stop bk'" and l: "live bk ap = Some a" "live bk bp = Some b"
    and "fine a" "fine b" and e: "live bk q = Some e" "fine e" "live bk' q = Some e'"
  shows "fine e'"
proof -
  have pa: "payable (amount a)" and pb: "payable (amount b)" using assms(4,5) by (auto simp: fine_def)
  have zero: "fine (x\<lparr>amount := 0\<rparr>)" if "fine x" for x
    using that by (intro fine_amount) (auto simp: payable_def fine_def)
  from te show ?thesis
  proof cases
    case no_trade
    then show ?thesis using e by simp
  next
    case both_filled
    then show ?thesis using e zero by (auto simp: nodes.rd_wr split: if_splits)
  next
    case ask_filled
    note m = minus_payable [OF pb pa dlt_imp_dle [OF ask_filled(4)]]
    show ?thesis
      using ask_filled e l zero fine_amount [OF assms(5) m] by (auto simp: nodes.rd_wr split: if_splits)
  next
    case bid_filled
    note m = minus_payable [OF pa pb dlt_imp_dle [OF bid_filled(4)]]
    show ?thesis
      using bid_filled e l zero fine_amount [OF assms(4) m] by (auto simp: nodes.rd_wr split: if_splits)
  qed
qed

section \<open>The exceptions of a trade can be caught\<close>

lemma keeps_on_wallet_any:
  "(\<And>w e w'. f w = (Inl e, w') \<Longrightarrow> Q e) \<Longrightarrow> keeps (\<lambda>_. True) Q (on_wallet name f)"
  by (rule keepsI) (metis on_wallet_wallets)

lemma catchable_errors [simp]:
  "catchable buyer_insufficient" "catchable seller_insufficient" "catchable bad_sale_product"
  "catchable negative_amount"
  by (simp_all add: catchable_def buyer_insufficient_def seller_insufficient_def bad_sale_product_def negative_amount_def)

lemma keeps_processSale_catchable:
  "keeps (\<lambda>_. True) catchable (processSale buyer seller sl bpr apr)"
proof -
  have rs: "keeps (\<lambda>_. True) catchable (require_spent n sp e)" if "catchable e" for n sp e
    by (rule keepsI) (auto simp: require_spent_def that split: if_splits)
  have ins: "keeps (\<lambda>_. True) catchable (on_wallet n (insertCurrency ty x))" for n ty x
    by (rule keeps_on_wallet_any) (auto simp: insertCurrency_def split: if_splits)
  have th: "keeps (\<lambda>_. True) catchable (throw_act (Invalid_argument m))" for m
    by (rule keeps_throw) (simp add: catchable_def)
  show ?thesis
    unfolding processSale_def Let_def
    by (auto split: list.split intro!: keeps_bind rs ins th keeps_on_wallet_any
        simp: spendLocked_returns unlockCurrency_returns)
qed

lemma trade_catchable:
  assumes "trade pr ts ap a bp b s = (Inl e, s1)"
  shows "catchable e"
proof -
  have g: "catchable e" if "with_users (getUser n) s = (Inl e, s')" for n s s'
    using that by (auto simp: with_users_def getUser_def catchable_def split: prod.splits option.splits if_splits)
  have f: "catchable e" if "fill buyer seller sl sold bp' bl ap' al bpr apr stop s = (Inl e, s')"
    for buyer seller sl sold bp' bl ap' al bpr apr stop s s'
  proof -
    from fill_effect [OF that] have "processSale buyer seller (sl\<lparr>amount := sold\<rparr>) bpr apr (m_users s)
      = (Inl e, m_users s')" by simp
    then show ?thesis using keepsD [OF keeps_processSale_catchable] by blast
  qed
  from assms show ?thesis
    unfolding trade_def
    by (auto elim!: bind_act_cases dest: g f simp: Let_def OrderBookEntry_def split: prod.splits if_splits)
qed

section \<open>What a settlement moves\<close>

definition set_wallet :: "string \<Rightarrow> wallet \<Rightarrow> users \<Rightarrow> users" where
  "set_wallet name w us = umap_put name (user_at us name\<lparr>wallet := w\<rparr>) us"

lemma on_wallet_eq: "on_wallet name f us = (case f (wallet_of us name) of (r, w) \<Rightarrow> (r, set_wallet name w us))"
  by (simp add: on_wallet_def set_wallet_def split: prod.splits)

lemma wallet_of_set_wallet [simp]: "wallet_of (set_wallet n w us) k = (if k = n then w else wallet_of us k)"
  by (simp add: wallet_of_def set_wallet_def)

lemma require_spent_True [simp]: "require_spent n True e us = (Inr (), us)"
  by (simp add: require_spent_def)

lemma set_wallet_name [simp]: "getUsername (user_at (set_wallet n w us) k) = getUsername (user_at us k)"
  by (auto simp: set_wallet_def getUsername_def user_at_def)

text \<open>All free balances, all locked balances, and the change of one of them.\<close>

definition free_of :: "users \<Rightarrow> string \<Rightarrow> string \<Rightarrow> double" where
  "free_of us u c = free_balance (wallet_of us u) c"

definition locked_of :: "users \<Rightarrow> string \<Rightarrow> string \<Rightarrow> double" where
  "locked_of us u c = locked_balance (wallet_of us u) c"

definition adjust :: "string \<Rightarrow> string \<Rightarrow> (double \<Rightarrow> double) \<Rightarrow> (string \<Rightarrow> string \<Rightarrow> double) \<Rightarrow> string \<Rightarrow> string \<Rightarrow> double" where
  "adjust u c f b = (\<lambda>v d. if v = u \<and> d = c then f (b v d) else b v d)"

lemma settle_effects:
  "\<exists>us'. on_wallet n (spendLocked c x) us = (Inr (x \<le> locked_of us n c), us') \<and> free_of us' = free_of us \<and>
     locked_of us' = (if x \<le> locked_of us n c then adjust n c (\<lambda>b. b - x) (locked_of us) else locked_of us) \<and>
     (\<forall>k. getUsername (user_at us' k) = getUsername (user_at us k))"
  "\<exists>us'. on_wallet n (insertCurrency c x) us = (if x < 0 then Inl negative_amount else Inr (), us') \<and>
     free_of us' = (if x < 0 then free_of us else adjust n c (\<lambda>b. b + x) (free_of us)) \<and> locked_of us' = locked_of us \<and>
     (\<forall>k. getUsername (user_at us' k) = getUsername (user_at us k))"
  "\<exists>us'. on_wallet n (unlockCurrency c x) us = (Inr (x \<le> locked_of us n c), us') \<and>
     free_of us' = (if x \<le> locked_of us n c then adjust n c (\<lambda>b. b + x) (free_of us) else free_of us) \<and>
     locked_of us' = (if x \<le> locked_of us n c then adjust n c (\<lambda>b. b - x) (locked_of us) else locked_of us) \<and>
     (\<forall>k. getUsername (user_at us' k) = getUsername (user_at us k))"
  by (auto simp: on_wallet_eq spendLocked_def insertCurrency_def unlockCurrency_def Let_def free_of_def locked_of_def
      adjust_def balance_defs fun_eq_iff)

text \<open>
  C10: settling a sale between any two users (the same user on both sides included) moves
  exactly this, for every user and every currency: the cost leaves the buyer's locked quote currency, the
  amount sold becomes free for the buyer in the base currency and leaves the seller's locked base
  currency, the cost becomes free for the seller, and when the ask was below the bid and so much is
  still locked, the difference becomes free again for the buyer. A buyer who has not locked the cost
  makes it throw before anything has moved; a seller who has not locked the amount makes it throw
  after the buyer has paid and received, and nothing is taken back.
\<close>

theorem settlement_moves:
  assumes t: "extractTokens (product sl) (CHR ''/'') = [base, quote]"
    and "buyer \<noteq> default_user" and "seller \<noteq> default_user"
    and "getUsername (user_at us buyer) = buyer" and "getUsername (user_at us seller) = seller"
    and "\<not> amount sl < 0" and "\<not> price sl * amount sl < 0"
    and "processSale buyer seller sl bid_price ask_price us = (r, us')"
  shows "let cost = price sl * amount sl; sold = amount sl; refund = (bid_price - ask_price) * amount sl;
      F1 = adjust buyer base (\<lambda>b. b + sold) (free_of us); L1 = adjust buyer quote (\<lambda>b. b - cost) (locked_of us);
      F2 = adjust seller quote (\<lambda>b. b + cost) F1; L2 = adjust seller base (\<lambda>b. b - sold) L1
    in if \<not> cost \<le> locked_of us buyer quote then
         r = Inl buyer_insufficient \<and> free_of us' = free_of us \<and> locked_of us' = locked_of us
       else if \<not> sold \<le> L1 seller base then
         r = Inl seller_insufficient \<and> free_of us' = F1 \<and> locked_of us' = L1
       else if ask_price < bid_price \<and> refund \<le> L2 buyer quote then
         r = Inr () \<and> free_of us' = adjust buyer quote (\<lambda>b. b + refund) F2 \<and>
         locked_of us' = adjust buyer quote (\<lambda>b. b - refund) L2
       else r = Inr () \<and> free_of us' = F2 \<and> locked_of us' = L2"
proof -
  let ?cost = "price sl * amount sl" and ?sold = "amount sl" and ?refund = "(bid_price - ask_price) * amount sl"
  let ?F1 = "adjust buyer base (\<lambda>b. b + ?sold) (free_of us)" and ?L1 = "adjust buyer quote (\<lambda>b. b - ?cost) (locked_of us)"
  let ?F2 = "adjust seller quote (\<lambda>b. b + ?cost) ?F1" and ?L2 = "adjust seller base (\<lambda>b. b - ?sold) ?L1"
  obtain u1 where u1: "on_wallet buyer (spendLocked quote ?cost) us = (Inr (?cost \<le> locked_of us buyer quote), u1)"
    "free_of u1 = free_of us" "locked_of u1 = (if ?cost \<le> locked_of us buyer quote then ?L1 else locked_of us)"
    "getUsername (user_at u1 k) = getUsername (user_at us k)" for k using settle_effects(1) by blast
  obtain u2 where u2: "on_wallet buyer (insertCurrency base ?sold) u1 = (Inr (), u2)"
    "free_of u2 = adjust buyer base (\<lambda>b. b + ?sold) (free_of u1)" "locked_of u2 = locked_of u1"
    "getUsername (user_at u2 k) = getUsername (user_at us k)" for k
    using settle_effects(2) [of buyer base ?sold u1] assms(6) u1(4) by auto
  obtain u3 where u3: "on_wallet seller (spendLocked base ?sold) u2 = (Inr (?sold \<le> locked_of u2 seller base), u3)"
    "free_of u3 = free_of u2"
    "locked_of u3 = (if ?sold \<le> locked_of u2 seller base then adjust seller base (\<lambda>b. b - ?sold) (locked_of u2) else locked_of u2)"
    "getUsername (user_at u3 k) = getUsername (user_at us k)" for k
    using settle_effects(1) [of seller base ?sold u2] u2(4) by auto
  obtain u4 where u4: "on_wallet seller (insertCurrency quote ?cost) u3 = (Inr (), u4)"
    "free_of u4 = adjust seller quote (\<lambda>b. b + ?cost) (free_of u3)" "locked_of u4 = locked_of u3"
    using settle_effects(2) [of seller quote ?cost u3] assms(7) by auto
  obtain u5 where u5: "on_wallet buyer (unlockCurrency quote ?refund) u4 = (Inr (?refund \<le> locked_of u4 buyer quote), u5)"
    "free_of u5 = (if ?refund \<le> locked_of u4 buyer quote then adjust buyer quote (\<lambda>b. b + ?refund) (free_of u4) else free_of u4)"
    "locked_of u5 = (if ?refund \<le> locked_of u4 buyer quote then adjust buyer quote (\<lambda>b. b - ?refund) (locked_of u4) else locked_of u4)"
    using settle_effects(3) by blast
  show ?thesis
  proof (cases "?cost \<le> locked_of us buyer quote")
    case False
    then show ?thesis
      using assms(8) u1 assms(2,4) by (simp add: processSale_def t Let_def bind_act_def require_spent_def)
  next
    case paid: True
    note step = processSale_def t Let_def bind_act_def u1(1) u2(1) u3(1)
    show ?thesis
    proof (cases "?sold \<le> ?L1 seller base")
      case False
      then show ?thesis
        using assms(3,5,8) u1(2,3) u2(2,3) u3(2-4) paid by (simp add: step require_spent_def)
    next
      case True
      then have "processSale buyer seller sl bid_price ask_price us = (Inr (), if ask_price < bid_price then u5 else u4)"
        using paid u1(3) u2(3) by (simp add: step u4(1) u5(1))
      then show ?thesis
        using assms(8) paid True u1(2,3) u2(2,3) u3(2,3) u4(2,3) u5(2,3) by (auto simp: Let_def)
    qed
  qed
qed

text \<open>Two at the price 2 against a bid of 5, against a bid of 2, and twenty the seller does not have.\<close>

theorem settlement_moves_witness:
  "(case processSale ''b'' ''s'' (ex_order (Fin 2) (Fin 2) Sale default_user 4) (Fin 5) (Fin 2) ex_users of (r, us') \<Rightarrow>
     r = Inr () \<and> locked_of us' ''b'' ''B'' = Fin 8 \<and> free_of us' ''b'' ''B'' = Fin 6 \<and> free_of us' ''b'' ''A'' = Fin 2 \<and>
     locked_of us' ''s'' ''A'' = Fin 8 \<and> free_of us' ''s'' ''B'' = Fin 4) \<and>
   (case processSale ''b'' ''s'' (ex_order (Fin 2) (Fin 2) Sale default_user 4) (Fin 2) (Fin 2) ex_users of (r, us') \<Rightarrow>
     r = Inr () \<and> locked_of us' ''b'' ''B'' = Fin 14 \<and> free_of us' ''b'' ''B'' = 0)"
proof -
  have own: "getUsername (user_at ex_users ''b'') = ''b''" "getUsername (user_at ex_users ''s'') = ''s''"
    and bal: "locked_of ex_users ''b'' ''B'' = Fin 18" "locked_of ex_users ''s'' ''A'' = Fin 10"
      "free_of ex_users ''b'' ''B'' = 0" "free_of ex_users ''b'' ''A'' = 0" "free_of ex_users ''s'' ''B'' = 0"
    by code_simp+
  have ar: "\<not> Fin 2 < (0 :: double)" "\<not> Fin 4 < (0 :: double)" "Fin 3 * Fin 2 = (Fin 6 :: double)"
    "''b'' \<noteq> default_user" "''s'' \<noteq> default_user" "extractTokens (product (ex_order (Fin 2) (Fin 2) Sale default_user 4)) (CHR ''/'') = [''A'', ''B'']"
    by code_simp+
  let ?o = "ex_order (Fin 2) (Fin 2) Sale default_user 4"
  obtain r u r' u' where p: "processSale ''b'' ''s'' ?o (Fin 5) (Fin 2) ex_users = (r, u)"
    "processSale ''b'' ''s'' ?o (Fin 2) (Fin 2) ex_users = (r', u')" by fastforce
  have o: "amount ?o = Fin 2" "price ?o = Fin 2" by (simp_all add: ex_order_def)
  show ?thesis
    using settlement_moves [OF ar(6,4,5) own _ _ p(1)] settlement_moves [OF ar(6,4,5) own _ _ p(2)]
    by (simp add: p o ex_arith ar(1-3) bal adjust_def Let_def)
qed

section \<open>A trade touches two accounts\<close>

lemma trade_frame:
  assumes tr: "trade pr ts ap a bp b s = (x, s1)" and "username a \<noteq> k" "username b \<noteq> k"
  shows "wallet_of (m_users s1) k = wallet_of (m_users s) k"
proof -
  let ?P = "\<lambda>s. wallet_of (m_users s) k = w0"
  have g: "keeps (\<lambda>s. wallet_of (m_users s) k = w0) (\<lambda>_. True) (with_users (getUser n))" for n w0
    by (intro keeps_with_users [of "\<lambda>us. wallet_of us k = w0"]) (auto intro!: keepsI simp: getUser_wallets)
  have f: "wallet_of (m_users s') k = wallet_of (m_users s) k"
    if "fill (username b) (username a) sl v bp' bl ap' al bpr apr stop s = (r, s')" for sl v bp' bl ap' al bpr apr stop s r s'
  proof -
    from fill_effect [OF that] have "processSale (username b) (username a) (sl\<lparr>amount := v\<rparr>) bpr apr (m_users s)
        = (map_sum id (\<lambda>_. ()) r, m_users s')" by blast
    then show ?thesis by (rule processSale_frame) (use assms in auto)
  qed
  from tr show ?thesis
    unfolding trade_def
  proof (cases rule: bind_act_cases)
    case (1 e)
    then show ?thesis using keepsD [OF g refl] by blast
  next
    case (2 buyer s2)
    have b: "buyer = username b" using getUser_value [OF 2(1)] .
    have w2: "wallet_of (m_users s2) k = wallet_of (m_users s) k" using keepsD [OF g refl 2(1)] by blast
    from 2(2) show ?thesis
    proof (cases rule: bind_act_cases)
      case (1 e)
      then show ?thesis using keepsD [OF g refl] w2 by metis
    next
      case (2 seller s3)
      have "seller = username a" using getUser_value [OF 2(1)] .
      moreover have "wallet_of (m_users s3) k = wallet_of (m_users s) k" using keepsD [OF g refl 2(1)] w2 by metis
      ultimately show ?thesis
        using 2(2) b by (auto simp: OrderBookEntry_def Let_def dest!: f split: if_splits)
    qed
  qed
qed

end
