(* ===== verification/Matching_Pass.thy ===== *)
theory Matching_Pass
  imports Settlement
begin

text \<open>
  A whole pass of \<open>OrderBook::matchAsksToBids\<close>: sorting, the two loops, the sales that are
  appended to the finalized ones and the removal of what is filled. Rules for invariants of
  the loops, and the properties of a pass on the book and on the accounts.
\<close>

section \<open>Sorting the pointers\<close>

text \<open>The vectors the pass sorts hold pointers to live orders.\<close>

lemma deref_nodes:
  "\<forall>p\<in>set ps. is_live b p \<Longrightarrow>
    map_res (\<lambda>p. case deref b p of Inl x \<Rightarrow> Inl x | Inr e \<Rightarrow> Inr (p, e)) ps
      = Inr (map (\<lambda>p. (p, the (live b p))) ps)"
  by (rule map_res_total) (auto simp: is_live_def deref_def)

lemma sort_ptrs_eq:
  "\<forall>p\<in>set ps. is_live b p \<Longrightarrow> sort_ptrs srt lt b ps =
    map_sum id (map fst)
      (sort_checked srt (\<lambda>n m. lt (snd n) (snd m)) (map (\<lambda>p. (p, the (live b p))) ps))"
  by (simp add: sort_ptrs_def deref_nodes map_sum_def split: sum.splits)

lemma sort_ptrs_Inr:
  assumes srt: "std_sort srt" and live: "\<forall>p\<in>set ps. is_live b p" and "sort_ptrs srt lt b ps = Inr ps'"
  shows "mset ps' = mset ps" and "sorted_wrt (\<lambda>p q. \<not> lt (the (live b q)) (the (live b p))) ps'"
proof -
  let ?f = "\<lambda>p. (p, the (live b p))"
  from assms(3) obtain ns where ns: "sort_checked srt (\<lambda>n m. lt (snd n) (snd m)) (map ?f ps) = Inr ns"
    and ps': "ps' = map fst ns"
    by (auto simp: sort_ptrs_eq [OF live] map_sum_def split: sum.splits)
  note sorted = std_sort.sort_checked_Inr [OF srt ns]
  have "mset ps' = image_mset fst (mset (map ?f ps))" using sorted ps' by (metis mset_map)
  then show "mset ps' = mset ps" by (simp add: image_mset.compositionality comp_def)
  have "n = ?f (fst n)" if "n \<in> set ns" for n using sorted that by auto
  then have snd_eq: "snd n = the (live b (fst n))" if "n \<in> set ns" for n using that by (metis snd_conv)
  have "sorted_wrt (\<lambda>n m. \<not> lt (snd m) (snd n)) ns" using sorted by blast
  then show "sorted_wrt (\<lambda>p q. \<not> lt (the (live b q)) (the (live b p))) ps'"
    unfolding ps' sorted_wrt_map
    by (rule sorted_wrt_mono_rel [rotated]) (simp add: snd_eq)
qed

text \<open>
  The comparators are strict weak orders on exactly those vectors that hold no NaN price together with
  two different prices.
\<close>

lemma price_comparator_valid:
  "strict_weak_order (\<lambda>a b. f a < f b) xs \<longleftrightarrow> \<not> (NaN \<in> f ` set xs \<and> (\<exists>x\<in>set xs. \<exists>y\<in>set xs. f x < f y))"
  for f :: "'a \<Rightarrow> double"
proof (cases "NaN \<in> f ` set xs")
  case True
  then obtain z where z: "z \<in> set xs" "f z = NaN" by auto
  have nan: "\<not> f x < NaN" "\<not> NaN < f x" for x by simp_all
  show ?thesis
  proof
    assume swo: "strict_weak_order (\<lambda>a b. f a < f b) xs"
    have "\<not> f x < f y" if "x \<in> set xs" "y \<in> set xs" for x y
      using swo that z nan unfolding strict_weak_order_iff by metis
    then show "\<not> (NaN \<in> f ` set xs \<and> (\<exists>x\<in>set xs. \<exists>y\<in>set xs. f x < f y))" by blast
  next
    assume "\<not> (NaN \<in> f ` set xs \<and> (\<exists>x\<in>set xs. \<exists>y\<in>set xs. f x < f y))"
    then have "\<forall>x\<in>set xs. \<forall>y\<in>set xs. \<not> f x < f y" using True by blast
    then show "strict_weak_order (\<lambda>a b. f a < f b) xs" unfolding strict_weak_order_iff by simp
  qed
next
  case False
  then have "\<forall>x\<in>set xs. f x \<noteq> NaN" by (metis imageI)
  then show ?thesis using double_strict_weak(1) [of xs f] False by simp
qed

lemma strict_weak_order_flip:
  assumes "strict_weak_order lt xs"
  shows "strict_weak_order (\<lambda>a b. lt b a) xs"
proof -
  have irr: "\<not> lt x x" if "x \<in> set xs" for x
    using assms that unfolding strict_weak_order_iff by blast
  have three: "(lt x y \<and> lt y z \<longrightarrow> lt x z) \<and>
      (\<not> lt x y \<and> \<not> lt y x \<and> \<not> lt y z \<and> \<not> lt z y \<longrightarrow> \<not> lt x z \<and> \<not> lt z x)"
    if "x \<in> set xs" "y \<in> set xs" "z \<in> set xs" for x y z
    using assms that unfolding strict_weak_order_iff by blast
  show ?thesis
    unfolding strict_weak_order_iff
  proof (intro conjI ballI)
    fix x y z assume "x \<in> set xs" "y \<in> set xs" "z \<in> set xs"
    then show "lt y x \<and> lt z y \<longrightarrow> lt z x"
      and "\<not> lt y x \<and> \<not> lt x y \<and> \<not> lt z y \<and> \<not> lt y z \<longrightarrow> \<not> lt z x \<and> \<not> lt x z"
      using three [of z y x] by blast+
  qed (rule irr)
qed

lemma price_comparator_valid_desc:
  "strict_weak_order (\<lambda>a b. f b < f a) xs \<longleftrightarrow> \<not> (NaN \<in> f ` set xs \<and> (\<exists>x\<in>set xs. \<exists>y\<in>set xs. f x < f y))"
  for f :: "'a \<Rightarrow> double"
  using strict_weak_order_flip [of "\<lambda>a b. f a < f b" xs] strict_weak_order_flip [of "\<lambda>a b. f b < f a" xs]
    price_comparator_valid [of f xs] by blast

definition mixed_prices :: "double list \<Rightarrow> bool" where
  "mixed_prices xs \<longleftrightarrow> NaN \<in> set xs \<and> (\<exists>x\<in>set xs. \<exists>y\<in>set xs. x < y)"

lemma sort_ptrs_cases:
  assumes "\<forall>p\<in>set ps. is_live b p" and "lt = compareByPriceAsc \<or> lt = compareByPriceDesc"
  shows "if mixed_prices (map (prc b) ps) then sort_ptrs srt lt b ps = Inl (Undefined ''std::sort'')
    else \<exists>ps'. sort_ptrs srt lt b ps = Inr ps'"
proof -
  let ?ns = "map (\<lambda>p. (p, the (live b p))) ps" and ?f = "\<lambda>n :: node. price (snd n)"
  have img: "?f ` set ?ns = set (map (prc b) ps)" by (auto simp: prc_def image_iff)
  have "strict_weak_order (\<lambda>n m. lt (snd n) (snd m)) ?ns \<longleftrightarrow>
      \<not> (NaN \<in> ?f ` set ?ns \<and> (\<exists>x\<in>set ?ns. \<exists>y\<in>set ?ns. ?f x < ?f y))"
    using assms(2)
  proof
    assume "lt = compareByPriceAsc"
    then show ?thesis using price_comparator_valid [of ?f ?ns] by (simp only: compareByPriceAsc_def)
  next
    assume "lt = compareByPriceDesc"
    then show ?thesis using price_comparator_valid_desc [of ?f ?ns] by (simp only: compareByPriceDesc_def)
  qed
  also have "\<dots> \<longleftrightarrow> \<not> mixed_prices (map (prc b) ps)" unfolding img mixed_prices_def by (simp add: prc_def)
  finally show ?thesis by (simp add: sort_ptrs_eq [OF assms(1)] sort_checked_def)
qed

section \<open>The pass as a whole\<close>

text \<open>No order of the product has a NaN price or amount: the parser of the server accepts \<open>nan\<close>.\<close>

definition comparable :: "book \<Rightarrow> string \<Rightarrow> bool" where
  "comparable b pr = list_all (\<lambda>n. price (snd n) \<noteq> NaN \<and> amount (snd n) \<noteq> NaN) (product_nodes b pr)"

lemma ex_comparable: "comparable (ex_book_of u v) ''A/B''"
  by (simp add: comparable_def ex_nodes ex_order_def)

text \<open>
  \<open>pass_run\<close> names what a pass consists of once the sorting has succeeded: the two sorted
  vectors, the run of the loops, and, when they end normally, the removal of what is filled.
\<close>

definition pass_run :: "string \<Rightarrow> string \<Rightarrow> match_state \<Rightarrow> addr list \<Rightarrow> addr list \<Rightarrow> unit result \<Rightarrow> match_state \<Rightarrow> bool" where
  "pass_run pr ts s asks bids r s1 \<longleftrightarrow>
    mset asks = mset (side (m_book s) pr Ask) \<and> mset bids = mset (side (m_book s) pr Bid) \<and>
    sorted_wrt (\<lambda>p q. \<not> prc (m_book s) q < prc (m_book s) p) asks \<and>
    sorted_wrt (\<lambda>p q. \<not> prc (m_book s) p < prc (m_book s) q) bids \<and>
    match_asks pr ts bids asks (s\<lparr>m_sales := []\<rparr>) = (r, s1)"

lemma side_facts:
  assumes "book_ok b"
  shows "\<forall>p\<in>set (side b pr t). is_live b p" and "set (side b pr Ask) \<inter> set (side b pr Bid) = {}"
    and "comparable b pr \<Longrightarrow> \<forall>p\<in>set (side b pr t). prc b p \<noteq> NaN \<and> amt b p \<noteq> NaN"
proof -
  show "\<forall>p\<in>set (side b pr t). is_live b p" by (fastforce simp: is_live_def dest: side_live [OF assms])
  show "set (side b pr Ask) \<inter> set (side b pr Bid) = {}"
    using side_live [OF assms] by (metis OrderBookType.distinct(1) disjoint_iff option.sel)
  show "\<forall>p\<in>set (side b pr t). prc b p \<noteq> NaN \<and> amt b p \<noteq> NaN" if c: "comparable b pr"
  proof
    fix p assume "p \<in> set (side b pr t)"
    from side_live [OF assms this] obtain e where "live b p = Some e" "(p, e) \<in> set (product_nodes b pr)" by blast
    then show "prc b p \<noteq> NaN \<and> amt b p \<noteq> NaN"
      using c by (auto simp: comparable_def list_all_iff prc_def amt_def)
  qed
qed

lemma insertSales_ok [simp]: "book_ok (insertSales sl b) = book_ok b"
  by (simp add: insertSales_def book_ok_def book_nodes_def index_ok_def)

lemma insertSales_fields [simp]:
  "product_nodes (insertSales sl b) k = product_nodes b k" "user_ptrs (insertSales sl b) u = user_ptrs b u"
  "book_nodes (insertSales sl b) = book_nodes b" "finalizedSales (insertSales sl b) = finalizedSales b @ sl"
  "next_addr (insertSales sl b) = next_addr b" "live (insertSales sl b) = live b"
  by (simp_all add: insertSales_def product_nodes_def user_ptrs_def book_nodes_def live_def fun_eq_iff)

text \<open>The prices of one side of a product; a pass sorts each side by them.\<close>

definition side_prices :: "book \<Rightarrow> string \<Rightarrow> OrderBookType \<Rightarrow> double list" where
  "side_prices b pr t = map (\<lambda>n. price (snd n)) (filter (\<lambda>n. orderType (snd n) = t) (product_nodes b pr))"

lemma side_prices_eq: "book_ok b \<Longrightarrow> map (prc b) (side b pr t) = side_prices b pr t"
  using product_nodes_subset [of b pr]
  by (auto simp: side_prices_def side_def prc_def dest!: subsetD simp flip: book_ok_live)

text \<open>A pass whose vectors can be sorted runs the loops and, unless they throw, removes what is filled.\<close>

lemma match_sorted_cases:
  assumes run: "matchAsksToBids srt pr ts s = (r, s')" and ok: "book_ok (m_book s)"
    and srt: "std_sort srt" and "\<forall>t\<in>{Ask, Bid}. \<not> mixed_prices (side_prices (m_book s) pr t)"
  obtains (threw) asks bids e where "pass_run pr ts s asks bids (Inl e) s'" "r = Inl e"
  | (returned) asks bids s1 b' where "pass_run pr ts s asks bids (Inr ()) s1" "r = Inr (m_sales s1)"
    "book_ok b'" "pruned pr (insertSales (m_sales s1) (m_book s1)) b'"
    "s' = s1\<lparr>m_book := b'\<rparr>"
proof -
  let ?b = "m_book s" and ?s = "s\<lparr>m_sales := []\<rparr>"
  note live = side_facts(1) [OF ok]
  obtain asks bids where
    asks: "sort_ptrs srt compareByPriceAsc ?b (side ?b pr Ask) = Inr asks" and
    bids: "sort_ptrs srt compareByPriceDesc ?b (side ?b pr Bid) = Inr bids"
    using sort_ptrs_cases [OF live] assms(4) side_prices_eq [OF ok] by (metis insertCI)
  have pr: "pass_run pr ts s asks bids r1 s1" if "match_asks pr ts bids asks ?s = (r1, s1)" for r1 s1
    using sort_ptrs_Inr [OF srt live asks] sort_ptrs_Inr [OF srt live bids] that
    by (simp add: pass_run_def compareByPriceAsc_def compareByPriceDesc_def prc_def)
  from run have "bind_act (match_asks pr ts bids asks) (\<lambda>_ s1.
      bind_act (with_book (removeMatchedOrders pr)) (\<lambda>_. return_act (m_sales s1))
        (s1\<lparr>m_book := insertSales (m_sales s1) (m_book s1)\<rparr>)) ?s = (r, s')"
    by (simp add: matchAsksToBids_def getOrders_side asks bids)
  then show thesis
  proof (rule bind_act_cases)
    fix e assume "match_asks pr ts bids asks ?s = (Inl e, s')" "r = Inl e"
    then show thesis using pr threw by blast
  next
    fix x s1 assume m: "match_asks pr ts bids asks ?s = (Inr x, s1)"
      and rest: "bind_act (with_book (removeMatchedOrders pr)) (\<lambda>_. return_act (m_sales s1))
        (s1\<lparr>m_book := insertSales (m_sales s1) (m_book s1)\<rparr>) = (r, s')"
    have "book_ok (m_book s1)" using writes_ok [OF match_asks_writes [OF m]] ok by simp
    then have "book_ok (insertSales (m_sales s1) (m_book s1))" by simp
    from removeMatchedOrders_ok [OF this, of pr] obtain b' where
      b': "removeMatchedOrders pr (insertSales (m_sales s1) (m_book s1)) = (Inr (), b')" "book_ok b'"
      "pruned pr (insertSales (m_sales s1) (m_book s1)) b'" by blast
    then have "r = Inr (m_sales s1)" "s' = s1\<lparr>m_book := b'\<rparr>"
      using rest by (auto simp: bind_act_def with_book_def)
    then show thesis using returned pr m b' by simp
  qed
qed

lemma comparable_prices:
  assumes "comparable b pr"
  shows "\<forall>t\<in>{Ask, Bid}. \<not> mixed_prices (side_prices b pr t)"
proof -
  have "NaN \<notin> set (side_prices b pr t)" for t
    using assms unfolding comparable_def list_all_iff side_prices_def by auto
  then show ?thesis by (simp add: mixed_prices_def)
qed

lemma match_cases:
  assumes "matchAsksToBids srt pr ts s = (r, s')" and "book_ok (m_book s)"
    and "std_sort srt" and "comparable (m_book s) pr"
  obtains (threw) asks bids e where "pass_run pr ts s asks bids (Inl e) s'" "r = Inl e"
  | (returned) asks bids s1 b' where "pass_run pr ts s asks bids (Inr ()) s1" "r = Inr (m_sales s1)"
    "book_ok b'" "pruned pr (insertSales (m_sales s1) (m_book s1)) b'"
    "s' = s1\<lparr>m_book := b'\<rparr>"
  using match_sorted_cases [OF assms(1-3) comparable_prices [OF assms(4)]] by metis

text \<open>Otherwise it ends before it has changed anything.\<close>

lemma match_mixed:
  assumes ok: "book_ok (m_book s)" and "t \<in> {Ask, Bid}" and "mixed_prices (side_prices (m_book s) pr t)"
  shows "matchAsksToBids srt pr ts s = (Inl (Undefined ''std::sort''), s\<lparr>m_sales := []\<rparr>)"
proof -
  let ?b = "m_book s"
  have sort: "if mixed_prices (side_prices ?b pr t) then sort_ptrs srt lt ?b (side ?b pr t) = Inl (Undefined ''std::sort'')
      else \<exists>ps. sort_ptrs srt lt ?b (side ?b pr t) = Inr ps"
    if "lt = compareByPriceAsc \<or> lt = compareByPriceDesc" for lt t
    using sort_ptrs_cases [OF side_facts(1) [OF ok] that] side_prices_eq [OF ok] by metis
  show ?thesis
    using assms(2,3) sort [of compareByPriceAsc Ask] sort [of compareByPriceDesc Bid]
    by (auto simp: matchAsksToBids_def getOrders_side split: if_splits)
qed

section \<open>From the end of the loops to the book the pass leaves\<close>

lemma writes_side: "writes set_amount b b' \<Longrightarrow> side b' pr t = side b pr t"
  by (erule nodes.writes_invariant) (simp_all add: side_def filter_map comp_def)

lemma pass_run_writes: "pass_run pr ts s asks bids r s1 \<Longrightarrow> writes set_amount (m_book s) (m_book s1)"
  using match_asks_writes by (fastforce simp: pass_run_def)

lemma pass_run_shrinks: "pass_run pr ts s asks bids r s1 \<Longrightarrow> shrinks (m_book s) (m_book s1)"
  using match_asks_shrinks by (fastforce simp: pass_run_def)

lemma pass_run_sets:
  "pass_run pr ts s asks bids r s1 \<Longrightarrow>
    set asks = set (side (m_book s) pr Ask) \<and> set bids = set (side (m_book s) pr Bid)"
  using mset_eq_setD by (auto simp: pass_run_def)

lemma pass_run_distinct:
  "pass_run pr ts s asks bids r s1 \<Longrightarrow> book_ok (m_book s) \<Longrightarrow> distinct asks \<and> distinct bids"
  using mset_eq_imp_distinct_iff side_distinct unfolding pass_run_def by blast

text \<open>An order in the final book is an order of the initial one, with something left to fill.\<close>

lemma final_node:
  assumes ok: "book_ok (m_book s)" and pr: "pass_run pr ts s asks bids r s1"
    and "pruned pr (insertSales sl (m_book s1)) b'" and e: "(p, e) \<in> set (product_nodes b' pr)"
  shows "live (m_book s1) p = Some e" and "\<not> amount e \<le> 0"
    and "p \<in> set (side (m_book s) pr (orderType e))"
    and "prc (m_book s) p = price e" and "amt (m_book s1) p = amount e"
proof -
  note w = pass_run_writes [OF pr]
  have e1: "(p, e) \<in> set (product_nodes (m_book s1) pr)" and pos: "\<not> amount e \<le> 0"
    using assms(3) e by (auto simp: pruned_def)
  show "\<not> amount e \<le> 0" by (rule pos)
  have "book_ok (m_book s1)" using writes_ok [OF w ok] .
  then show l: "live (m_book s1) p = Some e"
    using e1 product_nodes_subset [of "m_book s1" pr] by (auto simp: book_ok_live)
  have "p \<in> set (side (m_book s1) pr (orderType e))" using e1 by (force simp: side_def)
  then show inside: "p \<in> set (side (m_book s) pr (orderType e))" by (simp add: writes_side [OF w])
  have "is_live (m_book s) p" using side_facts(1) [OF ok] inside by blast
  then show "prc (m_book s) p = price e" using writes_prc [OF w, of p] l by (simp add: prc_def)
  show "amt (m_book s1) p = amount e" using l by (simp add: amt_def)
qed

lemma run_uncrossed:
  assumes "pass_run pr ts s asks bids (Inr ()) s1" and ok: "book_ok (m_book s)"
    and "p \<in> set (side (m_book s) pr Ask)" and "q \<in> set (side (m_book s) pr Bid)"
  shows "\<not> crossing (m_book s1) p q"
proof -
  note sets = pass_run_sets [OF assms(1)]
  show ?thesis
    using assms sets side_facts(1,2) [OF ok]
    by (intro match_asks_uncrossed [where bids = bids and asks = asks and s = "s\<lparr>m_sales := []\<rparr>"])
      (auto simp: pass_run_def)
qed

text \<open>
  C1: when a pass over orders without a NaN price or amount returns, the product's book is uncrossed: every
  remaining bid is priced strictly below every remaining ask.
\<close>

theorem pass_leaves_uncrossed:
  assumes "matchAsksToBids srt pr ts s = (Inr sales, s')" and "book_ok (m_book s)"
    and "std_sort srt" and "comparable (m_book s) pr"
    and "(p, a) \<in> set (product_nodes (m_book s') pr)" and "orderType a = Ask"
    and "(q, b) \<in> set (product_nodes (m_book s') pr)" and "orderType b = Bid"
  shows "price b < price a"
  using assms(1-4)
proof (cases rule: match_cases)
  case (returned asks bids s1 b')
  have pn: "m_book s' = b'" using returned by simp
  note fa = final_node [OF assms(2) returned(1,4) assms(5) [unfolded pn], unfolded assms(6)]
  note fb = final_node [OF assms(2) returned(1,4) assms(7) [unfolded pn], unfolded assms(8)]
  note sh = pass_run_shrinks [OF returned(1)] and w = pass_run_writes [OF returned(1)]
  note nan = side_facts(3) [OF assms(2,4)]
  have live: "is_live (m_book s) p" "is_live (m_book s) q"
    using side_facts(1) [OF assms(2)] fa(3) fb(3) by blast+
  have "amount a \<noteq> NaN" "amount b \<noteq> NaN"
    using sh live nan fa(3,5) fb(3,5) unfolding shrinks_def by metis+
  then have "0 < amount a" "0 < amount b" using fa(2) fb(2) by (simp_all add: dlt_iff_not_dle)
  moreover have "\<not> crossing (m_book s1) p q" by (rule run_uncrossed [OF returned(1) assms(2) fa(3) fb(3)])
  ultimately have "\<not> price a \<le> price b"
    using writes_prc [OF w] live fa(4,5) fb(4,5) by (simp add: crossing_def)
  moreover have "price a \<noteq> NaN" "price b \<noteq> NaN" using nan fa(3,4) fb(3,4) by metis+
  ultimately show ?thesis by (simp add: dlt_iff_not_dle)
qed simp

theorem pass_leaves_uncrossed_witness:
  "matchAsksToBids stable_sort ''A/B'' ''n'' ex_state = (Inr ex_sales, ex_after) \<and>
    price (ex_order (Fin 4) (Fin 1) Bid ''b'' 2) < price (ex_order (Fin 9) (Fin 7) Ask ''s'' 3)"
proof
  have o: "orderType (ex_order x y t u i) = t" for x y t u i by (simp add: ex_order_def)
  show "price (ex_order (Fin 4) (Fin 1) Bid ''b'' 2) < price (ex_order (Fin 9) (Fin 7) Ask ''s'' 3)"
    by (rule pass_leaves_uncrossed [OF ex_run, of 3 _ 2])
      (simp_all add: ex_book_ok ex_comparable stable.std_sort_axioms ex_after_nodes o)
qed (rule ex_run)

section \<open>An invariant rule for the loops\<close>

text \<open>
  \<open>J ap\<close> holds while the ask \<open>ap\<close> still has something to sell, \<open>I\<close> always; a trade that
  ends the inner loop need only restore \<open>I\<close>. \<open>E\<close> is what a trade that throws leaves.
\<close>

lemma match_bids_rule:
  assumes "match_bids pr ts ap bids s = (r, s')" and "J s"
    and "\<forall>p\<in>set bids. is_live (m_book s) p" and "is_live (m_book s) ap"
    and JI: "\<And>s. J s \<Longrightarrow> I s"
    and step: "\<And>bp a b s x s1. J s \<Longrightarrow> bp \<in> set bids \<Longrightarrow> live (m_book s) ap = Some a \<Longrightarrow>
      live (m_book s) bp = Some b \<Longrightarrow> \<not> amount b \<le> 0 \<Longrightarrow> price a \<le> price b \<Longrightarrow>
      trade pr ts ap a bp b s = (x, s1) \<Longrightarrow> (case x of Inl e \<Rightarrow> E e s1 | Inr stop \<Rightarrow> I s1 \<and> (\<not> stop \<longrightarrow> J s1))"
  shows "case r of Inl e \<Rightarrow> E e s' | Inr u \<Rightarrow> I s'"
  using assms(1-4) step
proof (induction bids arbitrary: s)
  case Nil
  then show ?case using JI by auto
next
  case (Cons p bids)
  have IH: "case r of Inl e \<Rightarrow> E e s' | Inr u \<Rightarrow> I s'"
    if "match_bids pr ts ap bids s1 = (r, s')" "J s1" "writes set_amount (m_book s) (m_book s1)" for s1
    using Cons.IH [OF that(1,2) _ _ Cons.prems(5) [OF _ list.set_intros(2)]]
      Cons.prems(3,4) writes_is_live [OF that(3)] by simp
  obtain a b where a: "live (m_book s) ap = Some a" and b: "live (m_book s) p = Some b"
    using Cons.prems(3,4) by (auto simp: is_live_def)
  show ?case
  proof (cases "amount b \<le> 0 \<or> \<not> price a \<le> price b")
    case True
    then have "match_bids pr ts ap bids s = (r, s')"
      using Cons.prems(1) by (auto simp: deref_live [OF a] deref_live [OF b] split: if_splits)
    then show ?thesis using Cons.prems(2) by (intro IH) auto
  next
    case False
    then have "bind_act (trade pr ts ap a p b)
        (\<lambda>stop. if stop then return_act () else match_bids pr ts ap bids) s = (r, s')"
      using Cons.prems(1) by (simp add: deref_live [OF a] deref_live [OF b])
    then show ?thesis
    proof (cases rule: bind_act_cases)
      case (1 e)
      then show ?thesis using Cons.prems(5) [OF Cons.prems(2) _ a b _ _ 1(1)] False by auto
    next
      case (2 stop s1)
      note st = Cons.prems(5) [OF Cons.prems(2) _ a b _ _ 2(1)]
      have w: "writes set_amount (m_book s) (m_book s1)"
        using 2(1) by (rule trade_cases) (rule trade_effect_writes)
      show ?thesis using 2(2) st False IH [OF _ _ w] by (cases stop) auto
    qed
  qed
qed

lemma match_asks_rule:
  assumes "match_asks pr ts bids asks s = (r, s')" and "I s"
    and "\<forall>p\<in>set asks. is_live (m_book s) p" and "\<forall>p\<in>set bids. is_live (m_book s) p"
    and IJ: "\<And>ap a s. I s \<Longrightarrow> ap \<in> set asks \<Longrightarrow> live (m_book s) ap = Some a \<Longrightarrow> \<not> amount a \<le> 0 \<Longrightarrow> J ap s"
    and JI: "\<And>ap s. J ap s \<Longrightarrow> I s"
    and step: "\<And>ap bp a b s x s1. J ap s \<Longrightarrow> ap \<in> set asks \<Longrightarrow> bp \<in> set bids \<Longrightarrow>
      live (m_book s) ap = Some a \<Longrightarrow> live (m_book s) bp = Some b \<Longrightarrow> \<not> amount b \<le> 0 \<Longrightarrow> price a \<le> price b \<Longrightarrow>
      trade pr ts ap a bp b s = (x, s1) \<Longrightarrow> (case x of Inl e \<Rightarrow> E e s1 | Inr stop \<Rightarrow> I s1 \<and> (\<not> stop \<longrightarrow> J ap s1))"
  shows "case r of Inl e \<Rightarrow> E e s' | Inr u \<Rightarrow> I s'"
  using assms(1-3) assms(4) IJ step
proof (induction asks arbitrary: s)
  case Nil
  from Nil(1,2) show ?case by auto
next
  case (Cons p asks)
  have IH: "case r of Inl e \<Rightarrow> E e s' | Inr u \<Rightarrow> I s'"
    if "match_asks pr ts bids asks s1 = (r, s')" "I s1" "writes set_amount (m_book s) (m_book s1)" for s1
  proof (rule Cons.IH [OF that(1,2)])
    show "\<forall>p\<in>set asks. is_live (m_book s1) p" "\<forall>p\<in>set bids. is_live (m_book s1) p"
      using Cons.prems(3,4) writes_is_live [OF that(3)] by simp_all
  qed (rule Cons.prems(5) [OF _ list.set_intros(2)], assumption+, rule Cons.prems(6) [OF _ list.set_intros(2)], assumption+)
  obtain a where a: "live (m_book s) p = Some a" using Cons.prems(3) by (auto simp: is_live_def)
  show ?case
  proof (cases "amount a \<le> 0")
    case True
    then have "match_asks pr ts bids asks s = (r, s')" using Cons.prems(1) by (simp add: deref_live [OF a])
    then show ?thesis using Cons.prems(2) by (intro IH) auto
  next
    case False
    have j: "J p s" using Cons.prems(5) [OF Cons.prems(2) _ a False] by simp
    have inner: "case r1 of Inl e \<Rightarrow> E e s1 | Inr u \<Rightarrow> I s1" if "match_bids pr ts p bids s = (r1, s1)" for r1 s1
      using match_bids_rule [OF that, of "J p", OF j _ _ JI Cons.prems(6) [OF _ list.set_intros(1)]]
        Cons.prems(3,4) by simp
    from False Cons.prems(1)
    have "bind_act (match_bids pr ts p bids) (\<lambda>_. match_asks pr ts bids asks) s = (r, s')"
      by (simp add: deref_live [OF a])
    then show ?thesis
    proof (cases rule: bind_act_cases)
      case (1 e)
      then show ?thesis using inner by fastforce
    next
      case (2 u s1)
      then show ?thesis using inner [OF 2(1)] IH match_bids_writes by simp
    qed
  qed
qed

text \<open>The form for an invariant that an exception keeps as well.\<close>

lemma match_asks_inv:
  assumes "match_asks pr ts bids asks s = (r, s')" and "I s"
    and "\<forall>p\<in>set asks. is_live (m_book s) p" and "\<forall>p\<in>set bids. is_live (m_book s) p"
    and IJ: "\<And>ap a s. I s \<Longrightarrow> ap \<in> set asks \<Longrightarrow> live (m_book s) ap = Some a \<Longrightarrow> \<not> amount a \<le> 0 \<Longrightarrow> J ap s"
    and JI: "\<And>ap s. J ap s \<Longrightarrow> I s"
    and step: "\<And>ap bp a b s x s1. J ap s \<Longrightarrow> ap \<in> set asks \<Longrightarrow> bp \<in> set bids \<Longrightarrow>
      live (m_book s) ap = Some a \<Longrightarrow> live (m_book s) bp = Some b \<Longrightarrow> \<not> amount b \<le> 0 \<Longrightarrow> price a \<le> price b \<Longrightarrow>
      trade pr ts ap a bp b s = (x, s1) \<Longrightarrow> I s1 \<and> (x = Inr False \<longrightarrow> J ap s1) \<and> (\<forall>e. x = Inl e \<longrightarrow> Q e)"
  shows "I s' \<and> (\<forall>e. r = Inl e \<longrightarrow> Q e)"
proof -
  have "case r of Inl e \<Rightarrow> I s' \<and> Q e | Inr u \<Rightarrow> I s'"
  proof (rule match_asks_rule [where I = I and J = J and E = "\<lambda>e s. I s \<and> Q e", OF assms(1-4) IJ JI])
    fix ap bp a b s x s1
    assume "J ap s" "ap \<in> set asks" "bp \<in> set bids" "live (m_book s) ap = Some a" "live (m_book s) bp = Some b"
      "\<not> amount b \<le> 0" "price a \<le> price b" "trade pr ts ap a bp b s = (x, s1)"
    from step [OF this] show "case x of Inl e \<Rightarrow> I s1 \<and> Q e | Inr stop \<Rightarrow> I s1 \<and> (\<not> stop \<longrightarrow> J ap s1)"
      by (auto split: sum.split)
  qed
  then show ?thesis by (auto split: sum.splits)
qed

section \<open>Accounts stay solvent and the pass fails only as a settlement can\<close>

definition pass_inv :: "addr set \<Rightarrow> (entry \<Rightarrow> bool) \<Rightarrow> match_state \<Rightarrow> bool" where
  "pass_inv ps C s \<longleftrightarrow> users_ok (m_users s) \<and> (\<forall>p\<in>ps. \<exists>e. live (m_book s) p = Some e \<and> fine e \<and> C e)"

lemma trade_pass_inv:
  assumes inv: "pass_inv ps C s" and "ap \<in> ps" "bp \<in> ps"
    and a: "live (m_book s) ap = Some a" and b: "live (m_book s) bp = Some b" and le: "price a \<le> price b"
    and tr: "trade pr ts ap a bp b s = (x, s1)"
    and O_amount: "\<And>e v. C e \<Longrightarrow> C (e\<lparr>amount := v\<rparr>)"
    and errs: "\<And>a b. C a \<Longrightarrow> C b \<Longrightarrow> trade_errors pr a b Q"
  shows "pass_inv ps C s1 \<and> (\<forall>e. x = Inl e \<longrightarrow> Q e)"
proof -
  have fab: "fine a" "fine b" "C a" "C b" using inv assms(2,3) a b by (auto simp: pass_inv_def)
  from tr obtain sls stop where te: "trade_effect pr ts ap a bp b (m_book s) sls stop (m_book s1)"
    by (rule trade_cases)
  have us: "users_ok (m_users s)" using inv by (simp add: pass_inv_def)
  have "users_ok (m_users s1) \<and> (\<forall>e. x = Inl e \<longrightarrow> Q e)"
    using keepsD [OF keeps_trade [OF fab(1,2) le errs [OF fab(3,4)]] us tr] .
  moreover have "\<exists>e. live (m_book s1) p = Some e \<and> fine e \<and> C e" if p: "p \<in> ps" for p
  proof -
    from inv p obtain e where e: "live (m_book s) p = Some e" "fine e" "C e" by (auto simp: pass_inv_def)
    from nodes.writes_read [OF trade_effect_writes [OF te] e(1)] obtain v
      where v: "live (m_book s1) p = Some (e\<lparr>amount := v\<rparr>)" by blast
    then show ?thesis using trade_effect_fine [OF te a b fab(1,2) e(1,2) v] O_amount e(3) by blast
  qed
  ultimately show ?thesis by (simp add: pass_inv_def)
qed

lemma run_solvent:
  assumes pr: "pass_run pr ts s asks bids r s1" and ok: "book_ok (m_book s)" and us: "users_ok (m_users s)"
    and fine: "\<forall>n\<in>set (product_nodes (m_book s) pr). fine (snd n) \<and> C (snd n)"
    and O_amount: "\<And>e v. C e \<Longrightarrow> C (e\<lparr>amount := v\<rparr>)"
    and errs: "\<And>a b. C a \<Longrightarrow> C b \<Longrightarrow> trade_errors pr a b Q"
  shows "users_ok (m_users s1) \<and> (\<forall>e. r = Inl e \<longrightarrow> Q e)"
proof -
  let ?ps = "set asks \<union> set bids"
  note sets = pass_run_sets [OF pr]
  have live: "\<forall>p\<in>?ps. is_live (m_book s) p" using sets side_facts(1) [OF ok] by blast
  have "\<exists>e. live (m_book s) p = Some e \<and> fine e \<and> C e" if p: "p \<in> ?ps" for p
  proof -
    obtain t where "p \<in> set (side (m_book s) pr t)" using p sets by blast
    from side_live [OF ok this] obtain e where "live (m_book s) p = Some e" "(p, e) \<in> set (product_nodes (m_book s) pr)"
      by blast
    then show ?thesis using fine by fastforce
  qed
  then have inv: "pass_inv ?ps C (s\<lparr>m_sales := []\<rparr>)" using us by (simp add: pass_inv_def)
  have "pass_inv ?ps C s1 \<and> (\<forall>e. r = Inl e \<longrightarrow> Q e)"
  proof (rule match_asks_inv [where J = "\<lambda>_. pass_inv ?ps C"])
    show "match_asks pr ts bids asks (s\<lparr>m_sales := []\<rparr>) = (r, s1)" using pr by (simp add: pass_run_def)
    show "pass_inv ?ps C (s\<lparr>m_sales := []\<rparr>)" by (rule inv)
  next
    fix ap bp a b s x s1
    assume "pass_inv ?ps C s" "ap \<in> set asks" "bp \<in> set bids" "live (m_book s) ap = Some a"
      "live (m_book s) bp = Some b" "price a \<le> price b" "trade pr ts ap a bp b s = (x, s1)"
    then have "pass_inv ?ps C s1 \<and> (\<forall>e. x = Inl e \<longrightarrow> Q e)"
      using O_amount errs by (intro trade_pass_inv [of ?ps C s ap bp a b]) auto
    then show "pass_inv ?ps C s1 \<and> (x = Inr False \<longrightarrow> pass_inv ?ps C s1) \<and> (\<forall>e. x = Inl e \<longrightarrow> Q e)"
      by simp
  qed (use live in auto)
  then show ?thesis by (simp add: pass_inv_def)
qed

section \<open>Memory safety\<close>

lemma run_catchable:
  assumes pr: "pass_run pr ts s asks bids (Inl e) s1" and ok: "book_ok (m_book s)"
  shows "catchable e"
proof -
  note sets = pass_run_sets [OF pr]
  have live: "\<forall>p\<in>set asks \<union> set bids. is_live (m_book s) p" using sets side_facts(1) [OF ok] by blast
  have "True \<and> (\<forall>x. Inl e = (Inl x :: unit result) \<longrightarrow> catchable x)"
    using pr live unfolding pass_run_def
    by (intro match_asks_inv [where I = "\<lambda>_. True" and J = "\<lambda>_ _. True" and s = "s\<lparr>m_sales := []\<rparr>"])
      (auto dest: trade_catchable)
  then show ?thesis by blast
qed

text \<open>
  C4: a pass over any well-formed book leaves the book well formed (sorted lists, unique identifiers, an
  index without dangling pointers), also when it ends with an exception, and reads no dangling pointer: its only
  undefined behaviour is a call of \<open>std::sort\<close> with an invalid comparator, which happens exactly when the
  asks or the bids of the product hold a NaN price beside two different prices, and then before
  anything but the local vector of sales has changed.
\<close>

theorem pass_memory_safe:
  assumes "matchAsksToBids srt pr ts s = (r, s')" and "book_ok (m_book s)" and "std_sort srt"
  shows "book_ok (m_book s') \<and>
    (if \<exists>t\<in>{Ask, Bid}. mixed_prices (side_prices (m_book s) pr t)
     then r = Inl (Undefined ''std::sort'') \<and> s' = s\<lparr>m_sales := []\<rparr> else \<not> is_undefined r)"
proof (cases "\<exists>t\<in>{Ask, Bid}. mixed_prices (side_prices (m_book s) pr t)")
  case True
  then have "r = Inl (Undefined ''std::sort'') \<and> s' = s\<lparr>m_sales := []\<rparr>"
    using match_mixed [OF assms(2)] assms(1) by fastforce
  then show ?thesis using True assms(2) by simp
next
  case False
  then have calm: "\<forall>t\<in>{Ask, Bid}. \<not> mixed_prices (side_prices (m_book s) pr t)" by blast
  have "\<not> is_undefined r \<and> book_ok (m_book s')"
    using assms calm
  proof (cases rule: match_sorted_cases)
    case (threw asks bids e)
    then show ?thesis
      using run_catchable [OF threw(1) assms(2)] writes_ok [OF pass_run_writes [OF threw(1)] assms(2)]
      by (simp add: is_undefined_Inl)
  qed simp
  then show ?thesis using False by simp
qed

text \<open>A pass that runs to its end, and one over three asks, one of them priced \<open>nan\<close>.\<close>

definition ex_nan_book :: book where
  "ex_nan_book = \<lparr>filename = [], finalizedSales = [],
     orderMap = [(''A/B'', [(0, ex_order (Fin 3) (Fin 1) Ask ''s'' 0), (1, ex_order NaN (Fin 1) Ask ''s'' 1),
       (2, ex_order (Fin 1) (Fin 1) Ask ''s'' 2)])],
     userOrders = [(''s'', [0, 1, 2])], next_addr = 3\<rparr>"

lemma ex_nan_book_ok: "book_ok ex_nan_book"
  by (auto simp: book_ok_def ex_nan_book_def ex_order_def umap_wf_def nodes_ok_def book_nodes_def index_ok_def list_ok_def
      umap_find_def split: if_splits)

lemma ex_nan_prices: "side_prices ex_nan_book ''A/B'' Ask = [Fin 3, NaN, Fin 1]"
  by (simp add: side_prices_def product_nodes_def ex_nan_book_def umap_index_def umap_find_def ex_order_def)

lemma ex_nan_mixed: "\<exists>t\<in>{Ask, Bid}. mixed_prices (side_prices ex_nan_book ''A/B'' t)"
  by (rule bexI [of _ Ask]) (auto simp: ex_nan_prices mixed_prices_def)

theorem pass_memory_safe_witness:
  "\<not> is_undefined (fst (matchAsksToBids stable_sort ''A/B'' ''n'' ex_state)) \<and>
    book_ok (m_book (snd (matchAsksToBids stable_sort ''A/B'' ''n'' ex_state))) \<and>
    fst (matchAsksToBids stable_sort ''A/B'' ''n'' (ex_state\<lparr>m_book := ex_nan_book\<rparr>)) = Inl (Undefined ''std::sort'')"
proof -
  have "\<not> (\<exists>t\<in>{Ask, Bid}. mixed_prices (side_prices (m_book ex_state) ''A/B'' t))"
    using comparable_prices [OF ex_comparable, of "''s''" "''b''"] by simp
  moreover have "book_ok (m_book ex_state)" "book_ok (m_book (ex_state\<lparr>m_book := ex_nan_book\<rparr>))"
    by (simp_all add: ex_book_ok ex_nan_book_ok)
  ultimately show ?thesis
    using pass_memory_safe [of stable_sort "''A/B''" "''n''" ex_state, OF surjective_pairing _ stable.std_sort_axioms]
      pass_memory_safe [of stable_sort "''A/B''" "''n''" "ex_state\<lparr>m_book := ex_nan_book\<rparr>", OF surjective_pairing _ stable.std_sort_axioms]
      ex_nan_mixed by simp
qed

section \<open>Settlement over a whole pass\<close>

definition settlement_error :: "exn \<Rightarrow> bool" where
  "settlement_error e \<longleftrightarrow> e = buyer_insufficient \<or> e = seller_insufficient \<or> e = bad_sale_product \<or>
     (\<exists>n. e = Runtime_error (''User not found: '' @ n))"

definition fine_orders :: "book \<Rightarrow> string \<Rightarrow> bool" where
  "fine_orders b pr = list_all (\<lambda>n. fine (snd n)) (product_nodes b pr)"

lemma ex_fine: "fine_orders (ex_book_of u v) ''A/B''"
proof -
  have "value64 (Fin x) \<Longrightarrow> 0 \<le> x \<Longrightarrow> payable (Fin x)" for x by (simp add: payable_def del: is_value_simps)
  moreover have "isfinite (Fin 2 * Fin 3)" "isfinite (Fin 5 * Fin 2)" "isfinite (Fin 4 * Fin 2)" "isfinite (Fin 9 * Fin 7)"
    by code_simp+
  ultimately show ?thesis using ex_values by (simp add: fine_orders_def ex_nodes ex_order_def fine_def)
qed

lemma fine_comparable: "fine_orders b pr \<Longrightarrow> comparable b pr"
  by (auto simp: fine_orders_def comparable_def list_all_iff fine_def dest: payable_simps)

text \<open>
  C5: if the orders of the product have finite non-negative prices, amounts and
  costs, a pass keeps every balance of every account a non-negative number, and the only
  exceptions it can end with are a missing account, a buyer or seller whose locked funds do
  not cover the trade, and a product name without exactly two parts.
\<close>

theorem pass_solvent:
  assumes "matchAsksToBids srt pr ts s = (r, s')" and "book_ok (m_book s)" and "std_sort srt"
    and "fine_orders (m_book s) pr" and "users_ok (m_users s)"
  shows "users_ok (m_users s') \<and> (case r of Inl e \<Rightarrow> settlement_error e | Inr sales \<Rightarrow> True)"
proof -
  have fine: "\<forall>n\<in>set (product_nodes (m_book s) pr). fine (snd n) \<and> True"
    using assms(4) by (simp add: fine_orders_def list_all_iff)
  have te: "trade_errors pr a b settlement_error" for a b
    by (auto simp: trade_errors_def settlement_error_def)
  show ?thesis
    using assms(1-3) fine_comparable [OF assms(4)]
  proof (cases rule: match_cases)
    case (threw asks bids e)
    show ?thesis
      using run_solvent [OF threw(1) assms(2,5) fine, of settlement_error] te threw(2) by simp
  next
    case (returned asks bids s1 b')
    show ?thesis
      using run_solvent [OF returned(1) assms(2,5) fine, of settlement_error] te returned by simp
  qed
qed

theorem pass_solvent_witness:
  "users_ok (m_users (snd (matchAsksToBids stable_sort ''A/B'' ''n'' ex_state))) \<and>
    (case fst (matchAsksToBids stable_sort ''A/B'' ''n'' ex_state) of Inl e \<Rightarrow> settlement_error e | Inr sales \<Rightarrow> True)"
  by (rule pass_solvent [where srt = stable_sort and pr = "''A/B''" and ts = "''n''" and s = ex_state])
    (simp_all add: ex_book_ok ex_fine stable.std_sort_axioms ex_users_ok)

text \<open>
  A pass over orders of the account \<open>default\<close> (the ones read from
  the CSV file) always returns: \<open>default\<close> may overdraw, so no settlement fails.
\<close>

theorem default_pass_succeeds:
  assumes "matchAsksToBids srt pr ts s = (r, s')" and "book_ok (m_book s)" and "std_sort srt"
    and "fine_orders (m_book s) pr" and "users_ok (m_users s)"
    and "length (extractTokens pr (CHR ''/'')) = 2"
    and "list_all (\<lambda>n. username (snd n) = default_user) (product_nodes (m_book s) pr)"
  shows "\<exists>sales. r = Inr sales"
  using assms(1-3) fine_comparable [OF assms(4)]
proof (cases rule: match_cases)
  case (threw asks bids e)
  have "\<forall>n\<in>set (product_nodes (m_book s) pr). fine (snd n) \<and> username (snd n) = default_user"
    using assms(4,7) by (simp add: fine_orders_def list_all_iff)
  from run_solvent [OF threw(1) assms(2,5) this, of "\<lambda>_. False"] show ?thesis
    using assms(6) by (auto simp: trade_errors_def)
qed auto

theorem default_pass_succeeds_witness:
  "\<exists>sales. fst (matchAsksToBids stable_sort ''A/B'' ''n''
    (ex_state\<lparr>m_book := ex_book_of default_user default_user\<rparr>)) = Inr sales"
  by (rule default_pass_succeeds [OF surjective_pairing])
    (simp_all add: ex_book_ok ex_fine stable.std_sort_axioms ex_users_ok ex_tokens ex_nodes ex_order_def)

section \<open>A pass touches only the accounts of the orders it fills\<close>

text \<open>
  C11: a pass does not touch the wallet of a user without an order in the
  product.
\<close>

theorem pass_spares_others:
  assumes "matchAsksToBids srt pr ts s = (r, s')" and "book_ok (m_book s)" and "std_sort srt"
    and "comparable (m_book s) pr"
    and "list_all (\<lambda>n. username (snd n) \<noteq> k) (product_nodes (m_book s) pr)"
  shows "wallet_of (m_users s') k = wallet_of (m_users s) k"
proof -
  have run: "wallet_of (m_users s1) k = wallet_of (m_users s) k"
    if pr: "pass_run pr ts s asks bids r1 s1" for asks bids r1 s1
  proof -
    let ?ps = "set asks \<union> set bids"
    let ?I = "\<lambda>s1. wallet_of (m_users s1) k = wallet_of (m_users s) k \<and> (\<forall>p\<in>?ps. \<exists>e. live (m_book s1) p = Some e \<and> username e \<noteq> k)"
    note sets = pass_run_sets [OF pr]
    have live: "\<forall>p\<in>?ps. is_live (m_book s) p" using sets side_facts(1) [OF assms(2)] by blast
    have own: "\<exists>e. live (m_book s) p = Some e \<and> username e \<noteq> k" if p: "p \<in> ?ps" for p
    proof -
      obtain t where "p \<in> set (side (m_book s) pr t)" using p sets by blast
      from side_live [OF assms(2) this] show ?thesis using assms(5) by (fastforce simp: list_all_iff)
    qed
    have "?I s1 \<and> (\<forall>e. r1 = Inl e \<longrightarrow> True)"
    proof (rule match_asks_inv [where J = "\<lambda>_. ?I"])
      show "match_asks pr ts bids asks (s\<lparr>m_sales := []\<rparr>) = (r1, s1)" using pr by (simp add: pass_run_def)
      show "?I (s\<lparr>m_sales := []\<rparr>)" using own by simp
    next
      fix ap bp a b t x t1
      assume I: "?I t" and l: "ap \<in> set asks" "bp \<in> set bids" "live (m_book t) ap = Some a"
        "live (m_book t) bp = Some b" and tr: "trade pr ts ap a bp b t = (x, t1)"
      have "username a \<noteq> k" "username b \<noteq> k" using I l by (metis UnCI option.inject)+
      then have w: "wallet_of (m_users t1) k = wallet_of (m_users t) k" by (rule trade_frame [OF tr])
      have wr: "writes set_amount (m_book t) (m_book t1)"
        using tr by (rule trade_cases) (rule trade_effect_writes)
      have "\<exists>e. live (m_book t1) p = Some e \<and> username e \<noteq> k" if "p \<in> ?ps" for p
        using I that nodes.writes_read [OF wr] by fastforce
      then show "?I t1 \<and> (x = Inr False \<longrightarrow> ?I t1) \<and> (\<forall>e. x = Inl e \<longrightarrow> True)" using w I by simp
    qed (use live in auto)
    then show ?thesis by simp
  qed
  show ?thesis
    using assms(1-4)
  proof (cases rule: match_cases)
    case (threw asks bids e)
    then show ?thesis using run by blast
  next
    case (returned asks bids s1 b')
    then show ?thesis using run by simp
  qed
qed

theorem pass_spares_others_witness:
  "wallet_of (m_users (snd (matchAsksToBids stable_sort ''A/B'' ''n'' ex_state))) ''c'' = wallet_of ex_users ''c''"
  using pass_spares_others [where srt = stable_sort and pr = "''A/B''" and ts = "''n''" and s = ex_state and k = "''c''",
      OF surjective_pairing]
  by (simp add: ex_book_ok ex_comparable stable.std_sort_axioms ex_nodes ex_order_def)

end
