(* ===== verification/Interleaving.thy ===== *)
theory Interleaving
  imports Server Matching_Pass
begin

text \<open>
  The server with all its threads. A client thread (\<open>ServerMain::handleClient\<close>) gives up its
  locks between the calls it makes to the stores, so a command is a sequence of steps here,
  one for each critical section, and steps of different connections and of the matching
  tasks interleave. A matching pass holds the lock of the book from its beginning to its
  end and is one step. The theory Server has the same commands run without interruption.
\<close>

section \<open>Connections\<close>

text \<open>
  Where a connection stands between two critical sections, with the local variables of the
  handler that are still used.
\<close>

datatype phase =
    Idle
  | Registering string string   \<comment> \<open>\<open>userExists\<close> has answered no\<close>
  | Placing entry               \<comment> \<open>the funds are locked\<close>
  | Queueing string             \<comment> \<open>the order is in the book\<close>
  | Cancelling nat entry        \<comment> \<open>the order was found; this is the copy\<close>
  | Removing nat                \<comment> \<open>the funds are unlocked\<close>
  | Reading "addr list"         \<comment> \<open>\<open>getOrders\<close> has returned these pointers\<close>

record conn =
  conn_user :: string
  conn_phase :: phase

text \<open>\<open>tasks\<close> are the products taken from the queue whose pass has not run yet.\<close>

record system = server +
  conns :: "nat \<Rightarrow> conn"
  tasks :: "string list"
  faulty :: bool

definition put_conn :: "nat \<Rightarrow> string \<Rightarrow> phase \<Rightarrow> system \<Rightarrow> system" where
  "put_conn i u ph s = s\<lparr>conns := (conns s)(i := \<lparr>conn_user = u, conn_phase = ph\<rparr>)\<rparr>"

definition start_system :: "'a server_scheme \<Rightarrow> system" where
  "start_system s = server.extend (server.truncate s)
     (system.fields (\<lambda>_. \<lparr>conn_user = [], conn_phase = Idle\<rparr>) [] False)"

section \<open>Steps\<close>

text \<open>
  The first step of a command carries its parsed arguments. A step that would let the
  identifier counter wrap around is not part of the model, and neither is the data race on
  the counter itself (the constructor of an order increments it without a lock).
  \<open>TakeProduct\<close> is a round of the loop of \<open>startMatching\<close>; \<open>RunTask\<close> is a whole task, whether the
  pass returns or throws (the future keeps the exception), and sets \<open>faulty\<close> when the pass runs
  into undefined behaviour.
\<close>

datatype event =
    RegisterCheck nat string string
  | RegisterAdd nat
  | Login nat string string
  | Deposit nat string double
  | Withdraw nat string double
  | PlaceLock nat OrderBookType string double double string
  | PlaceInsert nat
  | PlaceQueue nat
  | CancelFind nat nat
  | CancelUnlock nat
  | CancelRemove nat
  | ReadPointers nat string
  | ReadOrders nat
  | TakeProduct
  | RunTask nat string

definition may_act :: "nat \<Rightarrow> system \<Rightarrow> bool" where
  "may_act i s \<longleftrightarrow> conn_user (conns s i) \<noteq> [] \<and> conn_phase (conns s i) = Idle"

fun perform_step :: "((node \<Rightarrow> node \<Rightarrow> bool) \<Rightarrow> node list \<Rightarrow> node list) \<Rightarrow> event \<Rightarrow> system \<Rightarrow> system option" where
  "perform_step srt (RegisterCheck i v p) s =
     (if conn_phase (conns s i) = Idle \<and> v \<noteq> default_user \<and> \<not> userExists (userStore s) v
      then Some (put_conn i (conn_user (conns s i)) (Registering v p) s) else None)"
| "perform_step srt (RegisterAdd i) s =
     (case conn_phase (conns s i) of
        Registering v p \<Rightarrow> Some (put_conn i v Idle (s\<lparr>userStore := addUser v p (userStore s)\<rparr>))
      | _ \<Rightarrow> None)"
| "perform_step srt (Login i v p) s =
     (if conn_phase (conns s i) = Idle \<and> v \<noteq> default_user \<and> userExists (userStore s) v \<and>
        validatePassword (user_at (userStore s) v) p
      then Some (put_conn i v Idle s) else None)"
| "perform_step srt (Deposit i ty x) s =
     (if may_act i s then
        Some (s\<lparr>userStore := snd (on_wallet (conn_user (conns s i)) (insertCurrency ty x) (userStore s))\<rparr>)
      else None)"
| "perform_step srt (Withdraw i ty x) s =
     (if may_act i s then
        Some (s\<lparr>userStore := snd (on_wallet (conn_user (conns s i)) (removeCurrency ty x) (userStore s))\<rparr>)
      else None)"
| "perform_step srt (PlaceLock i ty pr a p ts) s =
     (let u = conn_user (conns s i) in
      case OrderBookEntry p a ts pr ty u (nextId s) of (e, nid) \<Rightarrow>
        if may_act i s \<and> ty \<noteq> Sale \<and> nextId s < nid then
          (case on_wallet u (fulfillOrder e) (userStore s) of (r, us) \<Rightarrow>
             Some (put_conn i u (if r = Inr True then Placing e else Idle) (s\<lparr>nextId := nid, userStore := us\<rparr>)))
        else None)"
| "perform_step srt (PlaceInsert i) s =
     (case conn_phase (conns s i) of
        Placing e \<Rightarrow> Some (put_conn i (conn_user (conns s i)) (Queueing (product e))
          (s\<lparr>orderBook := insertOrder e (orderBook s)\<rparr>))
      | _ \<Rightarrow> None)"
| "perform_step srt (PlaceQueue i) s =
     (case conn_phase (conns s i) of
        Queueing pr \<Rightarrow> Some (put_conn i (conn_user (conns s i)) Idle
          (if pr \<in> set (pendingProducts s) then s else s\<lparr>pendingProducts := pendingProducts s @ [pr]\<rparr>))
      | _ \<Rightarrow> None)"
| "perform_step srt (CancelFind i oid) s =
     (let u = conn_user (conns s i) in
      if may_act i s then
        (case getOrdersForUser (orderBook s) u of
           Inl e \<Rightarrow> Some (s\<lparr>faulty := True\<rparr>)
         | Inr orders \<Rightarrow>
             (case find (\<lambda>e. oid = order_id e) orders of
                None \<Rightarrow> None
              | Some e \<Rightarrow> Some (put_conn i u (Cancelling oid e) s)))
      else None)"
| "perform_step srt (CancelUnlock i) s =
     (let u = conn_user (conns s i) in
      case conn_phase (conns s i) of
        Cancelling oid e \<Rightarrow>
          (case on_wallet u (cancelOrder e) (userStore s) of
             (Inl x, us) \<Rightarrow> Some (put_conn i u Idle (s\<lparr>userStore := us\<rparr>))
           | (Inr x, us) \<Rightarrow> Some (put_conn i u (Removing oid) (s\<lparr>userStore := us\<rparr>)))
      | _ \<Rightarrow> None)"
| "perform_step srt (CancelRemove i) s =
     (let u = conn_user (conns s i) in
      case conn_phase (conns s i) of
        Removing oid \<Rightarrow>
          (case removeOrderById u oid (orderBook s) of
             (Inl x, b) \<Rightarrow> Some (s\<lparr>faulty := True\<rparr>)
           | (Inr x, b) \<Rightarrow> Some (put_conn i u Idle (s\<lparr>orderBook := b\<rparr>)))
      | _ \<Rightarrow> None)"
| "perform_step srt (ReadPointers i pr) s =
     (if conn_phase (conns s i) = Idle then
        Some (put_conn i (conn_user (conns s i))
          (Reading (umap_index [] (getOrders (orderBook s) pr) Bid @ umap_index [] (getOrders (orderBook s) pr) Ask)) s)
      else None)"
| "perform_step srt (ReadOrders i) s =
     (case conn_phase (conns s i) of
        Reading ps \<Rightarrow>
          (case map_res (deref (orderBook s)) ps of
             Inl x \<Rightarrow> Some (s\<lparr>faulty := True\<rparr>)
           | Inr es \<Rightarrow> Some (put_conn i (conn_user (conns s i)) Idle s))
      | _ \<Rightarrow> None)"
| "perform_step srt TakeProduct s =
     (case pendingProducts s of
        [] \<Rightarrow> None
      | pr # rest \<Rightarrow>
          if isRunning s then Some (s\<lparr>pendingProducts := rest, tasks := tasks s @ [pr]\<rparr>) else None)"
| "perform_step srt (RunTask k ctime) s =
     (if k < length (tasks s) then
        (case run_task srt ctime (tasks s ! k) s of
           (Inl e, s') \<Rightarrow> Some (s'\<lparr>faulty := True\<rparr>)
         | (Inr x, s') \<Rightarrow>
             if nextId s \<le> nextId s' then Some (s'\<lparr>tasks := take k (tasks s) @ drop (Suc k) (tasks s)\<rparr>) else None)
      else None)"

definition perform :: "((node \<Rightarrow> node \<Rightarrow> bool) \<Rightarrow> node list \<Rightarrow> node list) \<Rightarrow> event \<Rightarrow> system \<Rightarrow> system option" where
  "perform srt ev s = (if faulty s then None else perform_step srt ev s)"

text \<open>The states a run of events from a server can reach, with events of a given kind.\<close>

inductive reachable :: "((node \<Rightarrow> node \<Rightarrow> bool) \<Rightarrow> node list \<Rightarrow> node list) \<Rightarrow> (event \<Rightarrow> bool) \<Rightarrow> server \<Rightarrow> system \<Rightarrow> bool"
  for srt and G and s0 where
  initial: "reachable srt G s0 (start_system s0)"
| step: "reachable srt G s0 s \<Longrightarrow> G ev \<Longrightarrow> perform srt ev s = Some s' \<Longrightarrow> reachable srt G s0 s'"

text \<open>A run as a list of events, for evaluation.\<close>

fun run_events :: "((node \<Rightarrow> node \<Rightarrow> bool) \<Rightarrow> node list \<Rightarrow> node list) \<Rightarrow> event list \<Rightarrow> system \<Rightarrow> system option" where
  "run_events srt [] s = Some s"
| "run_events srt (ev # evs) s = (case perform srt ev s of None \<Rightarrow> None | Some s' \<Rightarrow> run_events srt evs s')"

lemma run_events_reachable:
  "reachable srt G s0 s \<Longrightarrow> list_all G evs \<Longrightarrow> run_events srt evs s = Some s' \<Longrightarrow> reachable srt G s0 s'"
  by (induction evs arbitrary: s) (auto split: option.splits intro: reachable.step)

end
