(* ===== verification/Server_Invariants.thy ===== *)
theory Server_Invariants
  imports Server
begin

text \<open>
  What the messages of a client keep. The locale \<open>client_invariant\<close> collects the
  primitive effects the handlers are made of, as laws of a predicate on the state of a
  session; in it every handler is proved to keep the predicate and to end without undefined
  behaviour. Its interpretations are the well-formedness of the server, the isolation of
  the other users, and (in a later theory) the solvency of all accounts.
\<close>

section \<open>Well-formed servers\<close>

text \<open>
  Identifiers in the book are below the counter; every order belongs to an account (or to
  \<open>default\<close>, which is created on demand); the queue has no duplicates.
\<close>

definition ids_below :: "book \<Rightarrow> nat \<Rightarrow> bool" where
  "ids_below b n \<longleftrightarrow> (\<forall>x\<in>set (book_nodes b). order_id (snd x) < n)"

definition owners_exist :: "book \<Rightarrow> users \<Rightarrow> bool" where
  "owners_exist b us \<longleftrightarrow>
    (\<forall>x\<in>set (book_nodes b). username (snd x) = default_user \<or> userExists us (username (snd x)))"

definition accounts_ok :: "users \<Rightarrow> bool" where
  "accounts_ok us \<longleftrightarrow> umap_wf us \<and> (\<forall>k u. umap_find us k = Some u \<longrightarrow> user_name u = k)"

definition server_ok :: "('a server_scheme) \<Rightarrow> bool" where
  "server_ok s \<longleftrightarrow> book_ok (orderBook s) \<and> ids_below (orderBook s) (nextId s) \<and>
     owners_exist (orderBook s) (userStore s) \<and> accounts_ok (userStore s) \<and> distinct (pendingProducts s)"

definition session_ok :: "session \<Rightarrow> bool" where
  "session_ok s \<longleftrightarrow> server_ok s \<and>
     (session_user s \<noteq> [] \<longrightarrow> userExists (userStore s) (session_user s) \<and> session_user s \<noteq> default_user)"

lemma users_ok_accounts: "users_ok us \<Longrightarrow> accounts_ok us"
  by (auto simp: users_ok_def accounts_ok_def)

lemma accounts_ok_on_wallet:
  assumes "accounts_ok us" and "on_wallet name f us = (r, us')"
  shows "accounts_ok us'"
  using assms
  by (auto simp: accounts_ok_def on_wallet_def user_at_def User_def umap.wf_put split: prod.splits option.splits if_splits)

lemma accounts_ok_addUser: "accounts_ok us \<Longrightarrow> accounts_ok (addUser name pw us)"
  by (auto simp: accounts_ok_def addUser_def umap_wf_emplace User_def split: if_splits)

lemma userExists_on_wallet: "on_wallet name f us = (r, us') \<Longrightarrow> userExists us k \<Longrightarrow> userExists us' k"
  using on_wallet_wallets by blast

lemma userExists_addUser: "userExists (addUser name pw us) k \<longleftrightarrow> k = name \<or> userExists us k"
  by (auto simp: userExists_def addUser_def)

lemma getUser_existing: "userExists us name \<Longrightarrow> getUser name us = (Inr name, us)"
  by (auto simp: getUser_def userExists_def)

lemma owners_exist_mono: "owners_exist b us \<Longrightarrow> (\<And>k. userExists us k \<Longrightarrow> userExists us' k) \<Longrightarrow> owners_exist b us'"
  by (auto simp: owners_exist_def)

lemma umap_put_same: "umap_find m k = Some v \<Longrightarrow> umap_put k v m = m"
  by (induction m) (auto simp: umap_find_def umap_put_def split: if_splits)

lemma on_wallet_read:
  assumes "userExists us name" and "snd (f (wallet_of us name)) = wallet_of us name"
  shows "snd (on_wallet name f us) = us"
proof -
  obtain u where u: "umap_find us name = Some u" using assms(1) by (auto simp: userExists_def)
  then have w: "wallet_of us name = wallet u" "getWallet u = wallet u" "user_at us name = u"
    by (simp_all add: wallet_of_def getWallet_def user_at_def)
  have "u\<lparr>wallet := wallet u\<rparr> = u" by simp
  then show ?thesis
    using assms(2) umap_put_same [OF u] by (auto simp: on_wallet_def w split: prod.splits)
qed

section \<open>Actions of a session\<close>

lemma keeps_lift [intro]: "(\<And>e. x = Inl e \<Longrightarrow> Q e) \<Longrightarrow> keeps P Q (lift_res x)"
  by (auto simp: keeps_def lift_res_def)

lemma keeps_try_catch [intro]:
  assumes "keeps P catchable m" and "keeps P catchable h"
  shows "keeps P catchable (try_catch m h)"
proof (rule keepsI)
  fix s r s' assume p: "P s" and t: "try_catch m h s = (r, s')"
  obtain x s1 where m: "m s = (x, s1)" by fastforce
  note k = keepsD [OF assms(1) p m]
  show "P s' \<and> (\<forall>e. r = Inl e \<longrightarrow> catchable e)"
    using t m k keepsD [OF assms(2)] by (cases x) (auto simp: try_catch_def)
qed

lemma stod_catchable: "stod t = Inl e \<Longrightarrow> catchable e"
  by (auto simp: stod_def to_double_def catchable_def Let_def split: prod.splits option.splits if_splits)

lemma stoi_catchable: "stoi t = Inl e \<Longrightarrow> catchable e"
  by (auto simp: stoi_def catchable_def Let_def split: prod.splits if_splits)

lemma wallet_catchable:
  "insertCurrency ty x w = (Inl e, w') \<Longrightarrow> catchable e"
  "removeCurrency ty x w = (Inl e, w') \<Longrightarrow> catchable e"
  "fulfillOrder o1 w = (Inl e, w') \<Longrightarrow> catchable e"
  "cancelOrder o1 w = (Inl e, w') \<Longrightarrow> catchable e"
  by (auto simp: insertCurrency_def removeCurrency_def containsAmmount_eq negative_amount_def catchable_def
      fulfillOrder_def cancelOrder_def lockCurrency_def unlockCurrency_def bad_product_def Let_def
      split: if_splits bool.splits list.splits OrderBookType.splits)

lemma keeps_wallet:
  assumes "\<And>s. P s \<Longrightarrow> session_user s = u \<and> userExists (userStore s) u"
    and "\<And>s r us. P s \<Longrightarrow> on_wallet u f (userStore s) = (r, us) \<Longrightarrow> P (s\<lparr>userStore := us\<rparr>)"
    and "\<And>w e w'. f w = (Inl e, w') \<Longrightarrow> Q e"
  shows "keeps P Q (user_wallet f)"
proof (rule keepsI)
  fix s r s' assume p: "P s" and uw: "user_wallet f s = (r, s')"
  note u = assms(1) [OF p]
  obtain us where w: "on_wallet u f (userStore s) = (r, us)" and s': "s' = s\<lparr>userStore := us\<rparr>"
    using uw u getUser_existing [of "userStore s" u]
    by (auto simp: user_wallet_def bind_act_def on_users_def split: prod.splits)
  from w have "\<exists>w'. f (wallet_of (userStore s) u) = (r, w')" by (auto simp: on_wallet_def split: prod.splits)
  then show "P s' \<and> (\<forall>e. r = Inl e \<longrightarrow> Q e)"
    using assms(2) [OF p w] assms(3) s' by auto
qed

lemma read_orders_ok:
  assumes "book_ok b" and "t \<noteq> Sale"
  shows "read_orders b (getOrders b pr) t = Inr (map (\<lambda>p. the (live b p)) (side b pr t))"
  unfolding read_orders_def getOrders_side [OF assms(2)]
  using side_live [OF assms(1)] by (intro map_res_total) fastforce

lemma market_line_ok: "book_ok b \<Longrightarrow> \<exists>t. market_line b pr = Inr t"
  by (simp add: market_line_def read_orders_ok Let_def)

lemma keeps_bind_dep:
  assumes "keeps P Q m" and "\<And>x s s'. m s = (Inr x, s') \<Longrightarrow> keeps P Q (f x)"
  shows "keeps P Q (bind_act m f)"
proof (rule keepsI)
  fix s r s' assume p: "P s" and "bind_act m f s = (r, s')"
  from this(2) show "P s' \<and> (\<forall>e. r = Inl e \<longrightarrow> Q e)"
  proof (cases rule: bind_act_cases)
    case (1 e)
    then show ?thesis using keepsD [OF assms(1) p 1(1)] by simp
  next
    case (2 x s1)
    then show ?thesis using keepsD [OF assms(1) p 2(1)] keepsD [OF assms(2) [OF 2(1)] _ 2(2)] by blast
  qed
qed

text \<open>The eleven ways a command is handled.\<close>

lemma dispatch_cases:
  assumes "map toupper (hd tokens) = ''REGISTER'' \<Longrightarrow> R (handle_register tokens)"
    and "map toupper (hd tokens) = ''LOGIN'' \<Longrightarrow> R (handle_login tokens)"
    and "\<And>c. R (handle_order ctime c tokens)" and "R handle_orders" and "R (handle_cancel tokens)"
    and "R handle_wallet" and "\<And>c. R (handle_transfer c tokens)" and "R (handle_market iter)"
    and "R (handle_stats tokens)" and "R (return_act Break)" and "\<And>t. R (respond t)"
  shows "R (dispatch ctime iter tokens)"
proof -
  have chain: "R (if c then x else y)" if "c \<Longrightarrow> R x" and "R y" for c x y
    using that by (cases c) simp_all
  show ?thesis
    unfolding dispatch_def Let_def by (rule chain, erule assms)+ (intro chain assms)+
qed

section \<open>The contract of a client\<close>

text \<open>
  \<open>P k\<close> is a predicate on the session of the user \<open>u\<close>, in which at least \<open>k\<close> more
  identifiers can be taken before the counter wraps around; \<open>good_order\<close> (on price and
  amount) and \<open>good_money\<close> are what it needs of the numbers in a message.
\<close>

locale client_invariant =
  fixes P :: "nat \<Rightarrow> session \<Rightarrow> bool" and u :: string
    and good_order :: "double \<Rightarrow> double \<Rightarrow> bool" and good_money :: "double \<Rightarrow> bool"
  assumes base: "P k s \<Longrightarrow> session_ok s \<and> session_user s = u \<and> int (nextId s) + int k < 2 ^ 64"
    and spare: "P (Suc k) s \<Longrightarrow> P k s"
    and sent_law: "P k s \<Longrightarrow> P k (s\<lparr>sent := t\<rparr>)"
    and queue_law: "P k s \<Longrightarrow> u \<noteq> [] \<Longrightarrow> pr \<notin> set (pendingProducts s) \<Longrightarrow>
      P k (s\<lparr>pendingProducts := pendingProducts s @ [pr]\<rparr>)"
    and id_law: "P (Suc k) s \<Longrightarrow> u \<noteq> [] \<Longrightarrow> P k (s\<lparr>nextId := Suc (nextId s)\<rparr>)"
    and deposit_law: "P k s \<Longrightarrow> u \<noteq> [] \<Longrightarrow> good_money x \<Longrightarrow> on_wallet u (insertCurrency ty x) (userStore s) = (r1, us) \<Longrightarrow>
      P k (s\<lparr>userStore := us\<rparr>)"
    and withdraw_law: "P k s \<Longrightarrow> u \<noteq> [] \<Longrightarrow> good_money x \<Longrightarrow> on_wallet u (removeCurrency ty x) (userStore s) = (r2, us) \<Longrightarrow>
      P k (s\<lparr>userStore := us\<rparr>)"
    and fulfill_law: "P k s \<Longrightarrow> u \<noteq> [] \<Longrightarrow> good_order (price e) (amount e) \<Longrightarrow>
      on_wallet u (fulfillOrder e) (userStore s) = (r2, us) \<Longrightarrow> P k (s\<lparr>userStore := us\<rparr>)"
    and insert_law: "P k s \<Longrightarrow> u \<noteq> [] \<Longrightarrow> good_order (price e) (amount e) \<Longrightarrow> username e = u \<Longrightarrow>
      order_id e < nextId s \<Longrightarrow> order_id e \<notin> (\<lambda>n. order_id (snd n)) ` set (book_nodes (orderBook s)) \<Longrightarrow>
      P k (s\<lparr>orderBook := insertOrder e (orderBook s)\<rparr>)"
    and cancel_law: "P k s \<Longrightarrow> u \<noteq> [] \<Longrightarrow> (p, e) \<in> set (book_nodes (orderBook s)) \<Longrightarrow> username e = u \<Longrightarrow>
      on_wallet u (cancelOrder e) (userStore s) = (r2, us) \<Longrightarrow> P k (s\<lparr>userStore := us\<rparr>)"
    and remove_law: "P k s \<Longrightarrow> u \<noteq> [] \<Longrightarrow> unlink (orderBook s) p e b \<Longrightarrow> book_ok b \<Longrightarrow> username e = u \<Longrightarrow>
      P k (s\<lparr>orderBook := b\<rparr>)"
begin

lemma book: "P k s \<Longrightarrow> book_ok (orderBook s)"
  using base by (auto simp: session_ok_def server_ok_def)

lemma logged_in: "P k s \<Longrightarrow> u \<noteq> [] \<Longrightarrow> session_user s = u \<and> userExists (userStore s) u"
  using base by (fastforce simp: session_ok_def)

lemma keeps_write: "keeps (P k) catchable (write_socket t)"
  by (auto simp: keeps_def write_socket_def sent_law)

lemma keeps_respond: "keeps (P k) catchable (respond t)"
  by (auto simp: respond_def)

lemma keeps_write_and_continue: "keeps (P k) catchable (write_and_continue t)"
  unfolding write_and_continue_def by (intro keeps_bind keeps_write keeps_return)

lemma keeps_queue: "u \<noteq> [] \<Longrightarrow> keeps (P k) catchable (startMatchingProduct pr)"
  by (auto simp: keeps_def startMatchingProduct_def queue_law)

lemma keeps_stod: "keeps (P k) catchable (lift_res (stod t))"
  by (rule keeps_lift) (rule stod_catchable)

lemma keeps_orders: "keeps (P k) catchable (\<lambda>s. lift_res (getOrdersForUser (orderBook s) u) s)"
  using book by (auto simp: keeps_def lift_res_def getOrdersForUser_ok)

text \<open>The guard of every command that needs a login.\<close>

lemma keeps_guard:
  assumes "u \<noteq> [] \<Longrightarrow> keeps (P k) catchable n"
  shows "keeps (P k) catchable (\<lambda>s. if session_user s = [] then respond t s else n s)"
proof (rule keepsI)
  fix s r s' assume p: "P k s" and m: "(if session_user s = [] then respond t s else n s) = (r, s')"
  show "P k s' \<and> (\<forall>e. r = Inl e \<longrightarrow> catchable e)"
    using base [OF p] m keepsD [OF keeps_respond p] keepsD [OF assms p] by (cases "u = []") auto
qed

lemma keeps_handle_wallet: "keeps (P k) catchable handle_wallet"
  unfolding handle_wallet_def [abs_def]
proof (rule keeps_guard)
  assume u: "u \<noteq> []"
  have "keeps (P k) catchable (user_wallet (\<lambda>w. (Inr (wallet_toString w), w)))"
  proof (rule keeps_wallet [of "P k" u])
    fix s and r :: "string result" and us
    assume p: "P k s" and w: "on_wallet u (\<lambda>w. (Inr (wallet_toString w), w)) (userStore s) = (r, us)"
    have "us = userStore s"
      using on_wallet_read [of "userStore s" u "\<lambda>w. (Inr (wallet_toString w), w)"] logged_in [OF p u] w by simp
    then show "P k (s\<lparr>userStore := us\<rparr>)" using p by simp
  qed (use logged_in [OF _ u] in auto)
  then show "keeps (P k) catchable (bind_act (user_wallet (\<lambda>w. (Inr (wallet_toString w), w))) respond)"
    by (intro keeps_bind keeps_respond)
qed

lemma keeps_transfer:
  assumes "\<And>x. stod t = Inr x \<Longrightarrow> good_money x" and "u \<noteq> []"
  shows "keeps (P k) catchable (transfer command pr t)"
proof -
  have rem: "keeps (P k) catchable (user_wallet (removeCurrency pr x))"
    and ins: "keeps (P k) catchable (user_wallet (insertCurrency pr x))" if "good_money x" for x
    using logged_in [OF _ assms(2)] withdraw_law [OF _ assms(2) that] deposit_law [OF _ assms(2) that] wallet_catchable(1,2)
    by (auto intro!: keeps_wallet [of "P k" u])
  show ?thesis
    unfolding transfer_def
  proof (rule keeps_bind_dep [OF keeps_stod])
    fix x and s s' :: session assume "lift_res (stod t) s = (Inr x, s')"
    then have "good_money x" using assms(1) by (simp add: lift_res_def)
    then show "keeps (P k) catchable (if command = ''WITHDRAW'' then
        bind_act (user_wallet (removeCurrency pr x)) (\<lambda>ok.
          respond (if ok then ''OK Withdrew '' @ to_string x @ '' '' @ pr else ''ERR Insufficient funds''))
      else bind_act (user_wallet (insertCurrency pr x)) (\<lambda>_. respond (''OK Deposited '' @ to_string x @ '' '' @ pr)))"
      using rem ins by (intro keeps_if keeps_bind keeps_respond)
  qed
qed

lemma keeps_handle_transfer:
  assumes "\<And>x. length tokens = 3 \<Longrightarrow> stod (tokens ! 2) = Inr x \<Longrightarrow> good_money x"
  shows "keeps (P k) catchable (handle_transfer command tokens)"
  unfolding handle_transfer_def [abs_def]
proof (rule keeps_guard)
  assume u: "u \<noteq> []"
  show "keeps (P k) catchable (\<lambda>s. if length tokens = 3
      then try_catch (transfer command (map toupper (tokens ! 1)) (tokens ! 2)) (respond ''ERR Invalid amount'') s
      else respond (''ERR Invalid '' @ command @ '' command'') s)"
    using keeps_try_catch [OF keeps_transfer [OF assms u] keeps_respond] keeps_respond
    by (cases "length tokens = 3") (simp_all only: if_True if_False refl)
qed

lemma keeps_handle_orders: "keeps (P k) catchable handle_orders"
  unfolding handle_orders_def [abs_def]
proof (rule keeps_guard, rule keepsI)
  fix s r s'
  assume p: "P k s" and h: "bind_act (lift_res (getOrdersForUser (orderBook s) (session_user s))) (\<lambda>orders.
          respond (''Ongoing orders of user '' @ session_user s @ '':\<newline>'' @ concat (map order_line orders) @
            (if orders = [] then ''    (no ongoing orders)'' else []))) s = (r, s')"
  then show "P k s' \<and> (\<forall>e. r = Inl e \<longrightarrow> catchable e)"
    using getOrdersForUser_ok [OF book [OF p], of "session_user s"]
    by (auto simp: bind_act_def lift_res_def respond_def)
qed

lemma keeps_handle_market: "keeps (P k) catchable (handle_market iter)"
proof (rule keepsI)
  fix s r s' assume p: "P k s" and h: "handle_market iter s = (r, s')"
  obtain f where "\<And>pr. market_line (orderBook s) pr = Inr (f pr)"
    using market_line_ok [OF book [OF p]] by metis
  then have "map_res (market_line (orderBook s)) prs = Inr (map f prs)" for prs
    by (intro map_res_total)
  then show "P k s' \<and> (\<forall>e. r = Inl e \<longrightarrow> catchable e)"
    using p h by (auto simp: handle_market_def bind_act_def lift_res_def respond_def)
qed

lemma keeps_handle_stats: "keeps (P k) catchable (handle_stats tokens)"
  by (auto simp: keeps_def handle_stats_def bind_act_def lift_res_def respond_def read_orders_ok [OF book] Let_def)

text \<open>
  Placing an order: between taking the identifier and inserting the order, the identifier is
  reserved for it.
\<close>

definition reserved :: "nat \<Rightarrow> entry \<Rightarrow> session \<Rightarrow> bool" where
  "reserved k e s \<longleftrightarrow> P k s \<and> order_id e < nextId s \<and>
     order_id e \<notin> (\<lambda>n. order_id (snd n)) ` set (book_nodes (orderBook s))"

lemma keeps_reserved_fulfill:
  assumes "good_order (price e) (amount e)" and "u \<noteq> []"
  shows "keeps (reserved k e) catchable (user_wallet (fulfillOrder e))"
proof (rule keeps_wallet [of "reserved k e" u])
  fix s r us assume "reserved k e s" and "on_wallet u (fulfillOrder e) (userStore s) = (r, us)"
  then show "reserved k e (s\<lparr>userStore := us\<rparr>)"
    using fulfill_law [OF _ assms(2,1)] by (simp add: reserved_def)
qed (use logged_in [OF _ assms(2)] wallet_catchable(3) in \<open>auto simp: reserved_def\<close>)

lemma placed:
  assumes "reserved k e s" and "good_order (price e) (amount e)" and "username e = u" and "u \<noteq> []"
    and "bind_act (user_wallet (fulfillOrder e)) (\<lambda>paid.
      if \<not> paid then write_and_continue t
      else bind_act (on_book (\<lambda>b. (Inr (), insertOrder e b))) (\<lambda>_.
        bind_act (startMatchingProduct pr) (\<lambda>_. respond t'))) s = (r, s')"
  shows "P k s' \<and> (\<forall>x. r = Inl x \<longrightarrow> catchable x)"
  using assms(5)
proof (cases rule: bind_act_cases)
  case (1 x)
  then show ?thesis
    using keepsD [OF keeps_reserved_fulfill [OF assms(2,4)] assms(1)] by (auto simp: reserved_def)
next
  case (2 paid s1)
  then have res: "reserved k e s1"
    using keepsD [OF keeps_reserved_fulfill [OF assms(2,4)] assms(1)] by blast
  then have P1: "P k s1" by (simp add: reserved_def)
  show ?thesis
  proof (cases paid)
    case False
    then show ?thesis using keepsD [OF keeps_write_and_continue P1] 2(2) by simp
  next
    case True
    let ?s2 = "s1\<lparr>orderBook := insertOrder e (orderBook s1)\<rparr>"
    have "P k ?s2" using res assms(2-4) by (intro insert_law) (auto simp: reserved_def)
    moreover have "bind_act (startMatchingProduct pr) (\<lambda>_. respond t') ?s2 = (r, s')"
      using 2(2) True by (simp add: bind_act_def on_book_def)
    ultimately show ?thesis
      using keepsD [OF keeps_bind [OF keeps_queue [OF assms(4)] keeps_respond], of k ?s2] by simp
  qed
qed

lemma place_order_inv:
  assumes "P (Suc k) s" and "u \<noteq> []"
    and "\<And>a p. stod ta = Inr a \<Longrightarrow> stod tp = Inr p \<Longrightarrow> good_order p a"
    and "place_order ctime command pr ta tp s = (r, s')"
  shows "P k s' \<and> (\<forall>e. r = Inl e \<longrightarrow> catchable e)"
proof (cases "stod ta")
  case (Inl x)
  then show ?thesis
    using assms spare stod_catchable by (auto simp: place_order_def bind_act_def lift_res_def)
next
  case a: (Inr a)
  show ?thesis
  proof (cases "stod tp")
    case (Inl x)
    then show ?thesis
      using assms a spare stod_catchable by (auto simp: place_order_def bind_act_def lift_res_def)
  next
    case p: (Inr p)
    let ?ty = "if command = ''ASK'' then Ask else Bid"
    define e where "e = fst (OrderBookEntry p a (getCurrentTimestamp ctime) pr ?ty u (nextId s))"
    define s1 where "s1 = s\<lparr>nextId := Suc (nextId s)\<rparr>"
    have e: "price e = p" "amount e = a" "username e = u" "order_id e = nextId s"
      by (simp_all add: e_def OrderBookEntry_def)
    have ids: "ids_below (orderBook s) (nextId s)"
      using base [OF assms(1)] by (simp add: session_ok_def server_ok_def)
    have "new_entry ctime p a pr ?ty s = (Inr e, s1)"
      using base [OF assms(1)]
      by (simp add: new_entry_def OrderBookEntry_def e_def s1_def size_t_succ_small)
    then have run: "bind_act (user_wallet (fulfillOrder e)) (\<lambda>paid.
        if \<not> paid then write_and_continue (''ERR Insufficient funds in wallet to place this '' @ command @ ''.'')
        else bind_act (on_book (\<lambda>b. (Inr (), insertOrder e b))) (\<lambda>_.
          bind_act (startMatchingProduct pr) (\<lambda>_. respond (''OK '' @ command @ '' placed for '' @ pr)))) s1 = (r, s')"
      using assms(4) a p by (simp add: place_order_def lift_res_def bind_act_def)
    have "reserved k e s1"
      using id_law [OF assms(1,2)] e(4) ids by (auto simp: reserved_def s1_def ids_below_def)
    moreover have "good_order (price e) (amount e)" using assms(3) [OF a p] e by simp
    ultimately show ?thesis using placed [OF _ _ e(3) assms(2) run] by blast
  qed
qed

lemma order_inv:
  assumes "P (Suc k) s"
    and "\<And>a p. length tokens = 4 \<Longrightarrow> stod (tokens ! 2) = Inr a \<Longrightarrow> stod (tokens ! 3) = Inr p \<Longrightarrow> good_order p a"
    and "handle_order ctime command tokens s = (r, s')"
  shows "P k s' \<and> (\<forall>e. r = Inl e \<longrightarrow> catchable e)"
proof (cases "session_user s = [] \<or> length tokens \<noteq> 4")
  case True
  then show ?thesis
    using assms(3) keepsD [OF keeps_respond spare [OF assms(1)]] by (auto simp: handle_order_def split: if_splits)
next
  case False
  let ?m = "place_order ctime command (map toupper (tokens ! 1)) (tokens ! 2) (tokens ! 3)"
  have u: "u \<noteq> []" using False base [OF assms(1)] by simp
  obtain x s1 where m: "?m s = (x, s1)" by fastforce
  then have k: "P k s1 \<and> (\<forall>e. x = Inl e \<longrightarrow> catchable e)"
    using assms(2) False by (intro place_order_inv [OF assms(1) u]) auto
  have "try_catch ?m (respond ''ERR Invalid order'') s = (r, s')"
    using False assms(3) by (simp add: handle_order_def)
  then show ?thesis
    using m k keepsD [OF keeps_respond] by (cases x) (auto simp: try_catch_def)
qed

lemma keeps_remove: "u \<noteq> [] \<Longrightarrow> keeps (P k) catchable (on_book (removeOrderById u oid))"
proof (rule keepsI)
  fix s r s' assume u: "u \<noteq> []" and p: "P k s" and h: "on_book (removeOrderById u oid) s = (r, s')"
  from book [OF p] show "P k s' \<and> (\<forall>e. r = Inl e \<longrightarrow> catchable e)"
  proof (cases rule: removeOrderById_cases [of "orderBook s" u oid])
    case 1
    then show ?thesis using p h by (auto simp: on_book_def)
  next
    case (2 q e b)
    then show ?thesis using h remove_law [OF p u 2(6,7,5)] by (auto simp: on_book_def)
  qed
qed

lemma cancel_inv:
  assumes "P k s" and "u \<noteq> []" and "cancel_order t s = (r, s')"
  shows "P k s' \<and> (\<forall>e. r = Inl e \<longrightarrow> catchable e)"
proof (cases "stoi t")
  case (Inl x)
  then show ?thesis
    using assms stoi_catchable by (auto simp: cancel_order_def bind_act_def lift_res_def)
next
  case (Inr oid)
  note ok = book [OF assms(1)]
  have su: "session_user s = u" using base [OF assms(1)] by simp
  let ?orders = "map (\<lambda>p. the (live (orderBook s) p)) (user_ptrs (orderBook s) u)"
  have os: "getOrdersForUser (orderBook s) u = Inr ?orders" by (rule getOrdersForUser_ok [OF ok])
  show ?thesis
  proof (cases "find (\<lambda>e. size_t_of_int oid = order_id e) ?orders")
    case None
    then show ?thesis
      using assms(1,3) os Inr su by (auto simp: cancel_order_def bind_act_def lift_res_def respond_def)
  next
    case (Some e)
    then have "e \<in> set ?orders" by (metis find_Some_iff nth_mem)
    then obtain q where q: "q \<in> set (user_ptrs (orderBook s) u)" "e = the (live (orderBook s) q)" by auto
    from q(1) have "umap_find (userOrders (orderBook s)) u = Some (user_ptrs (orderBook s) u)"
      by (cases "umap_find (userOrders (orderBook s)) u"; simp add: user_ptrs_def umap_index_def)
    from book_ok_index [OF ok this q(1)] have l: "live (orderBook s) q = Some e" "username e = u"
      using q(2) by auto
    have in_book: "(q, e) \<in> set (book_nodes (orderBook s))" using book_ok_live [OF ok] l(1) by simp
    have run: "bind_act (user_wallet (cancelOrder e)) (\<lambda>_.
        bind_act (on_book (removeOrderById u (size_t_of_int oid))) (\<lambda>success.
        respond (if success then ''OK Order cancelled.'' else ''ERR Order not found.''))) s = (r, s')"
      using assms(3) Inr su os Some by (simp add: cancel_order_def bind_act_def lift_res_def del: map_map)
    obtain x us where w: "on_wallet u (cancelOrder e) (userStore s) = (x, us)" by fastforce
    have uw: "user_wallet (cancelOrder e) s = (x, s\<lparr>userStore := us\<rparr>)"
      using w su logged_in [OF assms(1,2)] getUser_existing
      by (simp add: user_wallet_def bind_act_def on_users_def)
    have P1: "P k (s\<lparr>userStore := us\<rparr>)" by (rule cancel_law [OF assms(1,2) in_book l(2) w])
    show ?thesis
    proof (cases x)
      case (Inl y)
      then have "catchable y" using w wallet_catchable(4) by (auto simp: on_wallet_def split: prod.splits)
      then show ?thesis using run uw Inl P1 by (auto simp: bind_act_def)
    next
      case (Inr y)
      have "bind_act (on_book (removeOrderById u (size_t_of_int oid))) (\<lambda>success.
        respond (if success then ''OK Order cancelled.'' else ''ERR Order not found.'')) (s\<lparr>userStore := us\<rparr>) = (r, s')"
        using run uw Inr by (simp add: bind_act_def)
      from keepsD [OF keeps_bind [OF keeps_remove [OF assms(2)] keeps_respond] P1 this] show ?thesis .
    qed
  qed
qed

lemma cancel_handler_inv:
  assumes "P k s" and "handle_cancel tokens s = (r, s')"
  shows "P k s' \<and> (\<forall>e. r = Inl e \<longrightarrow> catchable e)"
proof (cases "session_user s = [] \<or> length tokens \<noteq> 2")
  case True
  then show ?thesis
    using assms(2) keepsD [OF keeps_respond assms(1)] by (auto simp: handle_cancel_def split: if_splits)
next
  case False
  have u: "u \<noteq> []" using False base [OF assms(1)] by simp
  obtain x s1 where m: "cancel_order (tokens ! 1) s = (x, s1)" by fastforce
  note k = cancel_inv [OF assms(1) u m]
  have "try_catch (cancel_order (tokens ! 1)) (respond ''ERR Invalid order ID'') s = (r, s')"
    using False assms(2) by (simp add: handle_cancel_def)
  then show ?thesis
    using m k keepsD [OF keeps_respond] by (cases x) (auto simp: try_catch_def)
qed

text \<open>A message that is neither \<open>REGISTER\<close> nor \<open>LOGIN\<close>.\<close>

definition good_numbers :: "string list \<Rightarrow> bool" where
  "good_numbers tokens \<longleftrightarrow>
    (length tokens = 3 \<longrightarrow> (\<forall>x. stod (tokens ! 2) = Inr x \<longrightarrow> good_money x)) \<and>
    (length tokens = 4 \<longrightarrow> (\<forall>a p. stod (tokens ! 2) = Inr a \<longrightarrow> stod (tokens ! 3) = Inr p \<longrightarrow> good_order p a))"

lemma dispatch_inv:
  assumes "P (Suc k) s" and "good_numbers tokens"
    and "map toupper (hd tokens) \<notin> {''REGISTER'', ''LOGIN''}"
    and "dispatch ctime iter tokens s = (r, s')"
  shows "P k s' \<and> (\<forall>e. r = Inl e \<longrightarrow> catchable e)"
proof -
  note p = spare [OF assms(1)]
  note num = assms(2) [unfolded good_numbers_def]
  have "\<forall>r s'. dispatch ctime iter tokens s = (r, s') \<longrightarrow> P k s' \<and> (\<forall>e. r = Inl e \<longrightarrow> catchable e)"
  proof (rule dispatch_cases [where R = "\<lambda>h. \<forall>r s'. h s = (r, s') \<longrightarrow> P k s' \<and> (\<forall>e. r = Inl e \<longrightarrow> catchable e)"])
    show "\<forall>r s'. handle_order ctime c tokens s = (r, s') \<longrightarrow> P k s' \<and> (\<forall>e. r = Inl e \<longrightarrow> catchable e)" for c
      using order_inv [OF assms(1), of tokens ctime c] num by blast
    show "\<forall>r s'. handle_transfer c tokens s = (r, s') \<longrightarrow> P k s' \<and> (\<forall>e. r = Inl e \<longrightarrow> catchable e)" for c
      using keepsD [OF keeps_handle_transfer spare [OF assms(1)], of tokens] num by blast
  qed (use p assms(3) keepsD [OF keeps_handle_orders p] cancel_handler_inv [OF p]
      keepsD [OF keeps_handle_wallet p] keepsD [OF keeps_handle_market p]
      keepsD [OF keeps_handle_stats p] keepsD [OF keeps_respond p] in simp_all)
  then show ?thesis using assms(4) by blast
qed

lemma message_inv:
  assumes "P (Suc k) s"
    and "good_numbers (getlines (CHR '' '') (strip_newlines data))"
    and "map toupper (hd (getlines (CHR '' '') (strip_newlines data))) \<notin> {''REGISTER'', ''LOGIN''}"
    and "handle_message ctime iter data s = (r, s')"
  shows "P k s' \<and> (\<exists>stay. r = Inr stay)"
proof -
  let ?tokens = "getlines (CHR '' '') (strip_newlines data)"
  show ?thesis
  proof (cases "?tokens = []")
    case True
    then show ?thesis using spare [OF assms(1)] assms(4) by (auto simp: handle_message_def try_catch_def)
  next
    case False
    obtain x s1 where d: "dispatch ctime iter ?tokens s = (x, s1)" by fastforce
    note k = dispatch_inv [OF assms(1-3) d]
    show ?thesis
      using assms(4) False d k sent_law
      by (cases x) (auto simp: handle_message_def try_catch_def bind_act_def write_socket_def Let_def
          split: reply.splits if_splits)
  qed
qed

end

section \<open>Well-formedness\<close>

lemma session_ok_users:
  assumes "session_ok s" and "accounts_ok us" and "\<And>k. userExists (userStore s) k \<Longrightarrow> userExists us k"
  shows "session_ok (s\<lparr>userStore := us\<rparr>)"
  using assms owners_exist_mono [of "orderBook s" "userStore s" us] by (auto simp: session_ok_def server_ok_def)

lemma session_ok_wallet:
  assumes "session_ok s" and "on_wallet v f (userStore s) = (r, us)"
  shows "session_ok (s\<lparr>userStore := us\<rparr>)"
  using assms accounts_ok_on_wallet [OF _ assms(2)] userExists_on_wallet [OF assms(2)]
  by (intro session_ok_users) (auto simp: session_ok_def server_ok_def)

lemma session_ok_insert:
  assumes "session_ok s" and "username e = session_user s" and "session_user s \<noteq> []" and "order_id e < nextId s"
    and "order_id e \<notin> (\<lambda>n. order_id (snd n)) ` set (book_nodes (orderBook s))"
  shows "session_ok (s\<lparr>orderBook := insertOrder e (orderBook s)\<rparr>)"
proof -
  have ok: "book_ok (orderBook s)" using assms(1) by (simp add: session_ok_def server_ok_def)
  then have "umap_wf (orderMap (orderBook s))" by (simp add: book_ok_def)
  from insertOrder_set_nodes [OF this, of e] insertOrder_ok [OF ok assms(5)] assms(1-4)
  show ?thesis by (simp add: session_ok_def server_ok_def ids_below_def owners_exist_def)
qed

lemma unlink_set: "unlink b p e b' \<Longrightarrow> set (book_nodes b') \<subseteq> set (book_nodes b)"
  unfolding unlink_def by (metis set_mset_add_mset_insert set_mset_mset subset_insertI)

lemma session_ok_remove:
  assumes "session_ok s" and "set (book_nodes b) \<subseteq> set (book_nodes (orderBook s))" and "book_ok b"
  shows "session_ok (s\<lparr>orderBook := b\<rparr>)"
  using assms by (auto simp: session_ok_def server_ok_def ids_below_def owners_exist_def)

interpretation own: client_invariant "\<lambda>k s. session_ok s \<and> session_user s = u \<and> int (nextId s) + int k < 2 ^ 64" u "\<lambda>p a. True" "\<lambda>x. True" for u
proof unfold_locales
  fix k s p b and e :: entry
  assume "session_ok s \<and> session_user s = u \<and> int (nextId s) + int k < 2 ^ 64"
    and "unlink (orderBook s) p e b" and "book_ok b"
  then show "session_ok (s\<lparr>orderBook := b\<rparr>) \<and> session_user (s\<lparr>orderBook := b\<rparr>) = u \<and>
      int (nextId (s\<lparr>orderBook := b\<rparr>)) + int k < 2 ^ 64"
    using session_ok_remove unlink_set by simp
qed (auto simp: session_ok_wallet session_ok_insert, auto simp: session_ok_def server_ok_def ids_below_def)

section \<open>Isolation\<close>

text \<open>
  What belongs to the other users: their wallets, and the orders that carry their names.
\<close>

definition of_others :: "string \<Rightarrow> 'a server_scheme \<Rightarrow> (string \<Rightarrow> wallet) \<times> node multiset" where
  "of_others u s =
    ((wallet_of (userStore s))(u := empty_wallet),
     filter_mset (\<lambda>n. username (snd n) \<noteq> u) (mset (book_nodes (orderBook s))))"

lemma of_others_wallet:
  "on_wallet u f (userStore s) = (r, us) \<Longrightarrow> of_others u (s\<lparr>userStore := us\<rparr>) = of_others u s"
  using on_wallet_wallets [of u f "userStore s" r us] by (auto simp: of_others_def fun_eq_iff)

interpretation isolation: client_invariant
  "\<lambda>k s. session_ok s \<and> session_user s = u \<and> int (nextId s) + int k < 2 ^ 64 \<and> of_others u s = x" u
  "\<lambda>p a. True" "\<lambda>x. True" for u x
proof unfold_locales
  fix k s and e :: entry assume "session_ok s \<and> session_user s = u \<and> int (nextId s) + int k < 2 ^ 64 \<and> of_others u s = x" and "username e = u" and "u \<noteq> []"
    and "order_id e < nextId s" and "order_id e \<notin> (\<lambda>n. order_id (snd n)) ` set (book_nodes (orderBook s))"
  then show "session_ok (s\<lparr>orderBook := insertOrder e (orderBook s)\<rparr>) \<and>
      session_user (s\<lparr>orderBook := insertOrder e (orderBook s)\<rparr>) = u \<and>
      int (nextId (s\<lparr>orderBook := insertOrder e (orderBook s)\<rparr>)) + int k < 2 ^ 64 \<and>
      of_others u (s\<lparr>orderBook := insertOrder e (orderBook s)\<rparr>) = x"
    using session_ok_insert [of s e] insertOrder_nodes [of "orderBook s" e]
    by (auto simp: of_others_def session_ok_def server_ok_def book_ok_def)
next
  fix k s p b and e :: entry assume "session_ok s \<and> session_user s = u \<and> int (nextId s) + int k < 2 ^ 64 \<and> of_others u s = x" and "unlink (orderBook s) p e b"
    and "book_ok b" and "username e = u"
  then show "session_ok (s\<lparr>orderBook := b\<rparr>) \<and> session_user (s\<lparr>orderBook := b\<rparr>) = u \<and>
      int (nextId (s\<lparr>orderBook := b\<rparr>)) + int k < 2 ^ 64 \<and> of_others u (s\<lparr>orderBook := b\<rparr>) = x"
    using session_ok_remove [of s b] unlink_set [of "orderBook s" p e b] by (auto simp: of_others_def unlink_def)
qed (auto simp: session_ok_wallet of_others_wallet,
  auto simp: session_ok_def server_ok_def ids_below_def of_others_def)

section \<open>Without a login\<close>

text \<open>Everything a command without a login could change, apart from the names of accounts.\<close>

definition stock :: "'a server_scheme \<Rightarrow> book \<times> nat \<times> string list \<times> (string \<Rightarrow> wallet)" where
  "stock s = (orderBook s, nextId s, pendingProducts s, wallet_of (userStore s))"

interpretation anonymous: client_invariant
  "\<lambda>k s. session_ok s \<and> session_user s = [] \<and> int (nextId s) + int k < 2 ^ 64 \<and> stock s = x" "[]"
  "\<lambda>p a. True" "\<lambda>x. True" for x
  by unfold_locales (auto simp: session_ok_def server_ok_def stock_def)

end
