(* ===== verification/Pass_System.thy ===== *)
theory Pass_System
  imports Matching_Pass
begin

text \<open>
  What a matching pass keeps of a server in which every order is finite and non-negative:
  the rule the invariant of the interleaved server uses.
\<close>

section \<open>Accounts are never removed\<close>

lemma exists_on_wallet: "keeps (\<lambda>us. userExists us k) (\<lambda>_. True) (on_wallet name f)"
  by (rule keepsI) (use on_wallet_wallets in blast)

lemma exists_getUser: "keeps (\<lambda>us. userExists us k) (\<lambda>_. True) (getUser name)"
  by (rule keepsI) (auto simp: userExists_def elim!: getUser_cases)

lemma exists_processSale: "keeps (\<lambda>us. userExists us k) (\<lambda>_. True) (processSale buyer seller sl bid_price ask_price)"
proof -
  have rs: "keeps (\<lambda>us. userExists us k) (\<lambda>_. True) (require_spent n sp e)" for n sp e
    by (rule keepsI) (auto simp: require_spent_def split: if_splits)
  show ?thesis
    unfolding processSale_def Let_def
    by (auto split: list.split intro!: keeps_bind exists_on_wallet rs keeps_throw)
qed

lemma exists_fill: "keeps (\<lambda>s. userExists (m_users s) k) (\<lambda>_. True) (fill buyer seller sl v bp bl ap al bpr apr stop)"
proof (rule keepsI)
  fix s r s' assume u: "userExists (m_users s) k" and "fill buyer seller sl v bp bl ap al bpr apr stop s = (r, s')"
  then have "processSale buyer seller (sl\<lparr>amount := v\<rparr>) bpr apr (m_users s) = (map_sum id (\<lambda>_. ()) r, m_users s')"
    by (blast dest: fill_effect)
  from keepsD [OF exists_processSale u this]
  show "userExists (m_users s') k \<and> (\<forall>e. r = Inl e \<longrightarrow> True)" by blast
qed

lemma exists_trade: "keeps (\<lambda>s. userExists (m_users s) k) (\<lambda>_. True) (trade pr ts ap a bp b)"
proof -
  have g: "keeps (\<lambda>s. userExists (m_users s) k) (\<lambda>_. True) (with_users (getUser n))" for n
    by (rule keeps_with_users [of "\<lambda>us. userExists us k", OF exists_getUser])
  show ?thesis
    unfolding trade_def
  proof (intro keeps_bind g, rule keepsI, goal_cases)
    case (1 buyer seller s r s')
    let ?s = "s\<lparr>m_nextId := size_t_succ (m_nextId s)\<rparr>"
    have "userExists (m_users ?s) k" using 1(1) by simp
    from keepsD [OF exists_fill this] 1 show ?case
      by (simp add: OrderBookEntry_def Let_def split: if_splits) auto
  qed
qed

section \<open>A pass over a book of finite orders\<close>

definition all_fine :: "book \<Rightarrow> bool" where
  "all_fine b \<longleftrightarrow> (\<forall>n\<in>set (book_nodes b). fine (snd n))"

text \<open>What a pass leaves of an order: the same order with a smaller amount.\<close>

definition same_order :: "entry \<Rightarrow> entry \<Rightarrow> bool" where
  "same_order e e' \<longleftrightarrow> (\<exists>v. e' = e\<lparr>amount := v\<rparr>)"

lemma pruned_subset:
  assumes "pruned pr b b'" and "book_ok b'"
  shows "set (book_nodes b') \<subseteq> set (book_nodes b)"
proof
  fix n assume n: "n \<in> set (book_nodes b')"
  obtain p e where pe: "n = (p, e)" by fastforce
  have "(p, e) \<in> set (product_nodes b' (product e))" using node_in_product(2) [OF assms(2)] n pe by blast
  moreover have "set (product_nodes b' k) \<subseteq> set (product_nodes b k)" for k
    using assms(1) by (cases "k = pr") (auto simp: pruned_def)
  ultimately show "n \<in> set (book_nodes b)" using product_nodes_subset [of b] pe by blast
qed

lemma run_keeps:
  assumes pr: "pass_run pr ts s asks bids r s1" and ok: "book_ok (m_book s)" and us: "users_ok (m_users s)"
    and fine: "all_fine (m_book s)"
  shows "users_ok (m_users s1) \<and> all_fine (m_book s1) \<and>
    (userExists (m_users s) k \<longrightarrow> userExists (m_users s1) k) \<and>
    (\<forall>p e'. (p, e') \<in> set (book_nodes (m_book s1)) \<longrightarrow> (\<exists>e. (p, e) \<in> set (book_nodes (m_book s)) \<and> same_order e e'))"
proof -
  let ?ps = "{p. is_live (m_book s) p}" and ?I = "pass_inv {p. is_live (m_book s) p} (\<lambda>_. True)"
  let ?E = "\<lambda>t. userExists (m_users s) k \<longrightarrow> userExists (m_users t) k"
  note sets = pass_run_sets [OF pr]
  have live: "\<forall>p\<in>set asks \<union> set bids. is_live (m_book s) p" using sets side_facts(1) [OF ok] by blast
  have run: "match_asks pr ts bids asks (s\<lparr>m_sales := []\<rparr>) = (r, s1)" using pr by (simp add: pass_run_def)
  have inv: "?I (s\<lparr>m_sales := []\<rparr>)"
    using us fine book_ok_live [OF ok] by (fastforce simp: pass_inv_def is_live_def all_fine_def)
  have "?I s1 \<and> (\<forall>e. r = Inl e \<longrightarrow> True)"
  proof (rule match_asks_inv [where I = ?I and J = "\<lambda>_. ?I", OF run inv])
    fix ap bp a b t x t1
    assume "?I t" "ap \<in> set asks" "bp \<in> set bids" "live (m_book t) ap = Some a"
      "live (m_book t) bp = Some b" "price a \<le> price b" "trade pr ts ap a bp b t = (x, t1)"
    then show "?I t1 \<and> (x = Inr False \<longrightarrow> ?I t1) \<and> (\<forall>e. x = Inl e \<longrightarrow> True)"
      using live trade_pass_inv [of ?ps "\<lambda>_. True" t ap bp a b pr ts x t1 "\<lambda>_. True"]
      by (auto simp: trade_errors_def)
  qed (use live in auto)
  then have I1: "?I s1" by blast
  have ex: "?E s1 \<and> (\<forall>e. r = Inl e \<longrightarrow> True)"
  proof (rule match_asks_inv [where I = ?E and J = "\<lambda>_. ?E", OF run])
    fix ap bp a b t x t1
    assume "?E t" "trade pr ts ap a bp b t = (x, t1)"
    then show "?E t1 \<and> (x = Inr False \<longrightarrow> ?E t1) \<and> (\<forall>e. x = Inl e \<longrightarrow> True)"
      using keepsD [OF exists_trade] by blast
  qed (use live in auto)
  note w = pass_run_writes [OF pr]
  have ok1: "book_ok (m_book s1)" by (rule writes_ok [OF w ok])
  have nodes: "\<exists>e. (p, e) \<in> set (book_nodes (m_book s)) \<and> same_order e e' \<and> fine e'"
    if "(p, e') \<in> set (book_nodes (m_book s1))" for p e'
  proof -
    have l1: "live (m_book s1) p = Some e'" using that book_ok_live [OF ok1] by blast
    then have "is_live (m_book s) p" using writes_is_live [OF w, of p] by (simp add: is_live_def)
    then obtain e where e: "live (m_book s) p = Some e" and p: "p \<in> ?ps" by (auto simp: is_live_def)
    from nodes.writes_read [OF w e] l1 have "same_order e e'" by (auto simp: same_order_def)
    moreover have "fine e'" using I1 p l1 by (fastforce simp: pass_inv_def)
    ultimately show ?thesis using e book_ok_live [OF ok] by blast
  qed
  show ?thesis
    using I1 ex nodes by (fastforce simp: pass_inv_def all_fine_def)
qed

lemma pass_keeps:
  assumes "matchAsksToBids srt pr ts s = (r, s')" and "book_ok (m_book s)" and "std_sort srt"
    and "all_fine (m_book s)" and "users_ok (m_users s)"
  shows "(\<forall>e. r = Inl e \<longrightarrow> catchable e) \<and> book_ok (m_book s') \<and> users_ok (m_users s') \<and> all_fine (m_book s') \<and>
    (userExists (m_users s) k \<longrightarrow> userExists (m_users s') k) \<and>
    (\<forall>p e'. (p, e') \<in> set (book_nodes (m_book s')) \<longrightarrow> (\<exists>e. (p, e) \<in> set (book_nodes (m_book s)) \<and> same_order e e'))"
proof -
  have "fine_orders (m_book s) pr"
    using assms(4) product_nodes_subset [of "m_book s" pr] by (auto simp: all_fine_def fine_orders_def list_all_iff)
  from assms(1-3) fine_comparable [OF this] show ?thesis
  proof (cases rule: match_cases)
    case (threw asks bids e)
    show ?thesis
      using run_keeps [OF threw(1) assms(2,5,4), of k] run_catchable [OF threw(1) assms(2)] threw(2)
        writes_ok [OF pass_run_writes [OF threw(1)] assms(2)] by blast
  next
    case (returned asks bids s1 b')
    note k = run_keeps [OF returned(1) assms(2,5,4), of k]
    have sub: "set (book_nodes b') \<subseteq> set (book_nodes (m_book s1))"
      using pruned_subset [OF returned(4,3)] by simp
    then have "all_fine b'" using k by (auto simp: all_fine_def)
    moreover have "\<forall>p e'. (p, e') \<in> set (book_nodes b') \<longrightarrow> (\<exists>e. (p, e) \<in> set (book_nodes (m_book s)) \<and> same_order e e')"
      using k sub by blast
    ultimately show ?thesis using k returned by simp
  qed
qed

end
