(* ===== verification/Interleaving_Invariant.thy ===== *)
theory Interleaving_Invariant
  imports Interleaving Server_Invariants Pass_System Account_Properties
begin

text \<open>
  The invariant of the interleaved server, by induction over its runs: whatever the clients
  and the matching tasks do between each other's steps, as long as the numbers the clients
  send are finite and not negative, the book stays well formed, every account solvent, and
  the identifiers that are reserved for orders on their way into the book stay distinct.
\<close>

section \<open>Good events and the invariant\<close>

definition good_order :: "double \<Rightarrow> double \<Rightarrow> bool" where
  "good_order p a \<longleftrightarrow> payable p \<and> payable a \<and> isfinite (p * a)"

fun good_event :: "event \<Rightarrow> bool" where
  "good_event (Deposit i ty x) = payable x"
| "good_event (Withdraw i ty x) = payable x"
| "good_event (PlaceLock i ty pr a p ts) = good_order p a"
| "good_event _ = True"

fun phase_ok :: "system \<Rightarrow> string \<Rightarrow> phase \<Rightarrow> bool" where
  "phase_ok s u (Registering v p) = (v \<noteq> default_user)"
| "phase_ok s u (Placing e) = (u \<noteq> [] \<and> username e = u \<and> order_id e < nextId s \<and> fine e \<and>
     order_id e \<notin> (\<lambda>n. order_id (snd n)) ` set (book_nodes (orderBook s)))"
| "phase_ok s u (Cancelling oid e) = (u \<noteq> [] \<and> fine e)"
| "phase_ok s u ph = True"

definition conn_ok :: "system \<Rightarrow> conn \<Rightarrow> bool" where
  "conn_ok s c \<longleftrightarrow> (conn_user c \<noteq> [] \<longrightarrow> userExists (userStore s) (conn_user c) \<and> conn_user c \<noteq> default_user) \<and>
     phase_ok s (conn_user c) (conn_phase c)"

definition placing :: "conn \<Rightarrow> nat option" where
  "placing c = (case conn_phase c of Placing e \<Rightarrow> Some (order_id e) | _ \<Rightarrow> None)"

definition system_ok :: "system \<Rightarrow> bool" where
  "system_ok s \<longleftrightarrow> book_ok (orderBook s) \<and> ids_below (orderBook s) (nextId s) \<and>
     owners_exist (orderBook s) (userStore s) \<and> users_ok (userStore s) \<and> all_fine (orderBook s) \<and>
     (\<forall>i. conn_ok s (conns s i)) \<and>
     (\<forall>i j. i \<noteq> j \<longrightarrow> placing (conns s i) \<noteq> None \<longrightarrow> placing (conns s i) \<noteq> placing (conns s j))"

lemma system_ok_apart:
  "system_ok s \<Longrightarrow> i \<noteq> j \<Longrightarrow> placing (conns s i) \<noteq> None \<Longrightarrow> placing (conns s i) \<noteq> placing (conns s j)"
  by (auto simp: system_ok_def)

text \<open>
  A step changes at most one connection. The rule: the stores change to ones that are
  still in order, nothing another connection relies on is lost, and the connection itself
  is in order afterwards.
\<close>

definition stores_ok :: "book \<Rightarrow> users \<Rightarrow> nat \<Rightarrow> bool" where
  "stores_ok b us n \<longleftrightarrow> book_ok b \<and> ids_below b n \<and> owners_exist b us \<and> users_ok us \<and> all_fine b"

lemma system_step:
  assumes ok: "system_ok s" and st: "stores_ok (orderBook s') (userStore s') (nextId s')"
    and conns: "conns s' = (conns s)(i := c)" and c: "conn_ok s' c"
    and users: "\<And>k. userExists (userStore s) k \<Longrightarrow> userExists (userStore s') k"
    and ids: "nextId s \<le> nextId s'"
    and book: "\<And>n. n \<in> set (book_nodes (orderBook s')) \<Longrightarrow>
      (\<exists>m\<in>set (book_nodes (orderBook s)). order_id (snd m) = order_id (snd n)) \<or>
      placing (conns s i) = Some (order_id (snd n))"
    and fresh: "placing c = None \<or> placing c = placing (conns s i) \<or>
      placing c = Some (nextId s) \<and> (\<forall>m\<in>set (book_nodes (orderBook s)). order_id (snd m) < nextId s)"
  shows "system_ok s'"
proof -
  have others: "conn_ok s' (conns s j)" if "j \<noteq> i" for j
  proof -
    have cj: "conn_ok s (conns s j)" using ok by (simp add: system_ok_def)
    show ?thesis
    proof (cases "conn_phase (conns s j)")
      case (Placing e)
      have "order_id e \<notin> (\<lambda>n. order_id (snd n)) ` set (book_nodes (orderBook s'))"
      proof
        assume "order_id e \<in> (\<lambda>n. order_id (snd n)) ` set (book_nodes (orderBook s'))"
        then obtain n where n: "n \<in> set (book_nodes (orderBook s'))" "order_id (snd n) = order_id e" by auto
        from book [OF n(1)] show False
        proof
          assume "\<exists>m\<in>set (book_nodes (orderBook s)). order_id (snd m) = order_id (snd n)"
          then show False using cj Placing n(2) by (force simp: conn_ok_def)
        next
          assume "placing (conns s i) = Some (order_id (snd n))"
          then have "placing (conns s i) = placing (conns s j) \<and> placing (conns s i) \<noteq> None"
            using Placing n(2) by (simp add: placing_def)
          then show False using system_ok_apart [OF ok] that by metis
        qed
      qed
      then show ?thesis using cj users ids Placing by (auto simp: conn_ok_def)
    next
      case (Registering v p)
      then show ?thesis using cj users by (auto simp: conn_ok_def)
    next
      case (Cancelling oid e)
      then show ?thesis using cj users by (auto simp: conn_ok_def)
    qed (use cj users in \<open>auto simp: conn_ok_def\<close>)
  qed
  have apart: "placing (conns s j) \<noteq> placing c" if "j \<noteq> i" "placing c \<noteq> None" for j
    using fresh
  proof (elim disjE conjE)
    assume "placing c = placing (conns s i)"
    then show ?thesis using system_ok_apart [OF ok] that by metis
  next
    assume c: "placing c = Some (nextId s)"
    have cj: "conn_ok s (conns s j)" using ok by (simp add: system_ok_def)
    then show ?thesis
      using c by (auto simp: placing_def conn_ok_def split: phase.splits)
  qed (use that in simp)
  have "placing (conns s' j) \<noteq> None \<longrightarrow> placing (conns s' j) \<noteq> placing (conns s' l)" if "j \<noteq> l" for j l
    using that apart [of l] apart [of j] system_ok_apart [OF ok that] by (cases "i \<in> {j, l}") (auto simp: conns)
  then show ?thesis
    using st others c by (auto simp: system_ok_def stores_ok_def conns)
qed

section \<open>The steps keep the invariant\<close>

lemma times_commute: "x * y = y * x" for x y :: double
  by (auto simp: times_double_def mult.commute)

lemma fine_calls:
  assumes "fine e"
  shows "good_call (Fulfill e)" and "good_call (Cancel e)"
proof -
  have "payable (price e)" "payable (amount e)" "isfinite (amount e * price e)"
    using assms times_commute [of "price e" "amount e"] by (auto simp: fine_def)
  moreover from this(1,2) have "0 \<le> amount e * price e"
    using payable_simps by (intro times_nonneg) auto
  ultimately show "good_call (Fulfill e)" "good_call (Cancel e)"
    by (auto simp: good_amount_def payable_def)
qed

lemma users_ok_call:
  assumes "users_ok us" and "on_wallet u f us = (r, us')" and "good_call c" and "\<And>w. snd (f w) = call_wallet c w"
  shows "users_ok us'"
proof (rule users_ok_on_wallet [OF assms(1,2)])
  fix w' assume "f (wallet_of us u) = (r, w')"
  then have "w' = call_wallet c (wallet_of us u)" using assms(4) [of "wallet_of us u"] by simp
  then show "solvent free_balance locked_balance w'"
    using call_wallet_solvent [OF assms(3) users_ok_wallet [OF assms(1)]] by simp
qed

lemma stores_ok_users:
  assumes "system_ok s" and "users_ok us" and "\<And>k. userExists (userStore s) k \<Longrightarrow> userExists us k" and "nextId s \<le> n"
  shows "stores_ok (orderBook s) us n"
  using assms owners_exist_mono [of "orderBook s" "userStore s" us]
  by (fastforce simp: system_ok_def stores_ok_def ids_below_def)

lemma stores_ok_self: "system_ok s \<Longrightarrow> stores_ok (orderBook s) (userStore s) (nextId s)"
  by (rule stores_ok_users) (auto simp: system_ok_def)

lemma put_conn_simps [simp]:
  "orderBook (put_conn i u ph s) = orderBook s" "userStore (put_conn i u ph s) = userStore s"
  "nextId (put_conn i u ph s) = nextId s" "pendingProducts (put_conn i u ph s) = pendingProducts s"
  "conns (put_conn i u ph s) = (conns s)(i := \<lparr>conn_user = u, conn_phase = ph\<rparr>)"
  "tasks (put_conn i u ph s) = tasks s" "faulty (put_conn i u ph s) = faulty s"
  by (simp_all add: put_conn_def)

text \<open>Steps that change only where a connection stands.\<close>

lemma local_step:
  assumes "system_ok s" and "conn_ok s \<lparr>conn_user = u, conn_phase = ph\<rparr>" and "\<And>e. ph \<noteq> Placing e"
    and "stores_ok (orderBook s) us (nextId s)" and "\<And>k. userExists (userStore s) k \<Longrightarrow> userExists us k"
  shows "system_ok (put_conn i u ph (s\<lparr>userStore := us\<rparr>))"
proof (rule system_step [OF assms(1), of _ i "\<lparr>conn_user = u, conn_phase = ph\<rparr>"])
  show "conn_ok (put_conn i u ph (s\<lparr>userStore := us\<rparr>)) \<lparr>conn_user = u, conn_phase = ph\<rparr>"
    using assms(2,3,5) by (cases ph) (auto simp: conn_ok_def)
  show "placing \<lparr>conn_user = u, conn_phase = ph\<rparr> = None \<or>
      placing \<lparr>conn_user = u, conn_phase = ph\<rparr> = placing (conns s i) \<or>
      placing \<lparr>conn_user = u, conn_phase = ph\<rparr> = Some (nextId s) \<and> (\<forall>m\<in>set (book_nodes (orderBook s)). order_id (snd m) < nextId s)"
    using assms(3) by (simp add: placing_def split: phase.split)
qed (use assms(4,5) in auto)

lemma conn_step:
  assumes "system_ok s" and "conn_ok s \<lparr>conn_user = u, conn_phase = ph\<rparr>" and "\<And>e. ph \<noteq> Placing e"
  shows "system_ok (put_conn i u ph s)"
  using local_step [OF assms stores_ok_self [OF assms(1)], of i] by simp

lemma wallet_step:
  assumes "system_ok s" and "on_wallet u f (userStore s) = (r, us)" and "good_call c" and "\<And>w. snd (f w) = call_wallet c w"
    and "conn_ok s \<lparr>conn_user = u, conn_phase = ph\<rparr>" and "\<And>e. ph \<noteq> Placing e"
  shows "system_ok (put_conn i u ph (s\<lparr>userStore := us\<rparr>))"
proof -
  have "users_ok us" using users_ok_call [OF _ assms(2-4)] assms(1) by (simp add: system_ok_def)
  then have "stores_ok (orderBook s) us (nextId s)"
    using userExists_on_wallet [OF assms(2)] by (intro stores_ok_users [OF assms(1)]) auto
  then show ?thesis
    using userExists_on_wallet [OF assms(2)] by (intro local_step [OF assms(1,5,6)])
qed

lemma put_conn_same: "conns s i = \<lparr>conn_user = u, conn_phase = ph\<rparr> \<Longrightarrow> put_conn i u ph s = s"
  by (simp add: put_conn_def fun_upd_idem)

lemma may_act_conn: "may_act i s \<Longrightarrow> conns s i = \<lparr>conn_user = conn_user (conns s i), conn_phase = Idle\<rparr>"
  by (cases "conns s i") (simp add: may_act_def)

lemma conn_ok_user: "system_ok s \<Longrightarrow> conn_ok s \<lparr>conn_user = conn_user (conns s i), conn_phase = Idle\<rparr>"
  by (auto simp: system_ok_def conn_ok_def)

lemma system_ok_conn: "system_ok s \<Longrightarrow> conn_ok s (conns s i)"
  by (simp add: system_ok_def)

lemma money_step:
  assumes "system_ok s" and "may_act i s" and "good_call c" and "\<And>w. snd (f w) = call_wallet c w"
    and "s' = s\<lparr>userStore := snd (on_wallet (conn_user (conns s i)) f (userStore s))\<rparr>"
  shows "system_ok s'"
proof -
  let ?u = "conn_user (conns s i)"
  obtain r us where o: "on_wallet ?u f (userStore s) = (r, us)" by fastforce
  have "system_ok (put_conn i ?u Idle (s\<lparr>userStore := us\<rparr>))"
    by (rule wallet_step [OF assms(1) o assms(3,4) conn_ok_user [OF assms(1)]]) simp
  moreover have "put_conn i ?u Idle (s\<lparr>userStore := us\<rparr>) = s\<lparr>userStore := us\<rparr>"
    using may_act_conn [OF assms(2)] by (intro put_conn_same) simp
  ultimately show ?thesis using assms(5) o by simp
qed

lemma place_lock_step:
  assumes "system_ok s" and "good_order p a" and "perform_step srt (PlaceLock i ty pr a p ts) s = Some s'"
  shows "system_ok s'"
proof -
  let ?u = "conn_user (conns s i)" and ?n = "size_t_succ (nextId s)"
  let ?e = "\<lparr>price = p, amount = a, timestamp = ts, product = pr, orderType = ty, username = ?u, order_id = nextId s\<rparr>"
  obtain r us where o: "on_wallet ?u (fulfillOrder ?e) (userStore s) = (r, us)" by fastforce
  let ?ph = "if r = Inr True then Placing ?e else Idle"
  have act: "may_act i s" and n: "nextId s < ?n" and s': "s' = put_conn i ?u ?ph (s\<lparr>nextId := ?n, userStore := us\<rparr>)"
    using assms(3) o by (auto simp: OrderBookEntry_def Let_def split: if_splits)
  have f: "fine ?e" using assms(2) by (simp add: good_order_def fine_def)
  have "users_ok us"
    using users_ok_call [OF _ o fine_calls(1) [OF f]] assms(1) by (simp add: system_ok_def)
  then have st: "stores_ok (orderBook s) us ?n"
    using userExists_on_wallet [OF o] n by (intro stores_ok_users [OF assms(1)]) auto
  have below: "\<forall>m\<in>set (book_nodes (orderBook s)). order_id (snd m) < nextId s"
    using assms(1) by (simp add: system_ok_def ids_below_def)
  have c: "conn_ok s' \<lparr>conn_user = ?u, conn_phase = ?ph\<rparr>"
    using conn_ok_user [OF assms(1), of i] userExists_on_wallet [OF o] act n f below
    by (auto simp: conn_ok_def s' may_act_def)
  show ?thesis
    by (rule system_step [OF assms(1) _ _ c, of i])
      (use st userExists_on_wallet [OF o] n below in \<open>auto simp: s' placing_def\<close>)
qed

lemma place_insert_step:
  assumes "system_ok s" and "conn_phase (conns s i) = Placing e"
  shows "system_ok (put_conn i (conn_user (conns s i)) (Queueing (product e))
    (s\<lparr>orderBook := insertOrder e (orderBook s)\<rparr>))"
proof -
  let ?u = "conn_user (conns s i)" and ?b = "insertOrder e (orderBook s)"
  have e: "?u \<noteq> []" "username e = ?u" "order_id e < nextId s" "fine e" "userExists (userStore s) ?u"
    "order_id e \<notin> (\<lambda>n. order_id (snd n)) ` set (book_nodes (orderBook s))"
    using system_ok_conn [OF assms(1), of i] assms(2) by (simp_all add: conn_ok_def)
  have ok: "book_ok (orderBook s)" "umap_wf (orderMap (orderBook s))"
    using assms(1) by (auto simp: system_ok_def book_ok_def)
  note nodes = insertOrder_set_nodes [OF ok(2), of e]
  have "stores_ok ?b (userStore s) (nextId s)"
    using assms(1) insertOrder_ok [OF ok(1) e(6)] e(2-5) nodes
    by (auto simp: stores_ok_def system_ok_def ids_below_def owners_exist_def all_fine_def)
  moreover have "conn_ok s \<lparr>conn_user = ?u, conn_phase = Idle\<rparr>" by (rule conn_ok_user [OF assms(1)])
  ultimately show ?thesis
    using assms(2) nodes
    by (intro system_step [OF assms(1), where i = i]) (auto simp: conn_ok_def placing_def)
qed

lemma cancel_find_step:
  assumes "system_ok s" and "perform_step srt (CancelFind i oid) s = Some s'"
  shows "system_ok s'"
proof -
  let ?u = "conn_user (conns s i)"
  have ok: "book_ok (orderBook s)" using assms(1) by (simp add: system_ok_def)
  let ?es = "map (\<lambda>p. the (live (orderBook s) p)) (user_ptrs (orderBook s) ?u)"
  obtain e where find: "find (\<lambda>e. oid = order_id e) ?es = Some e"
    and act: "may_act i s" and s': "s' = put_conn i ?u (Cancelling oid e) s"
    using assms(2) getOrdersForUser_ok [OF ok, of ?u]
    by (auto simp: Let_def simp del: map_map split: if_splits option.splits)
  have e: "e \<in> set ?es" using find by (metis find_Some_iff nth_mem)
  from e obtain q where q: "q \<in> set (user_ptrs (orderBook s) ?u)" "e = the (live (orderBook s) q)" by auto
  from q(1) have "umap_find (userOrders (orderBook s)) ?u = Some (user_ptrs (orderBook s) ?u)"
    by (cases "umap_find (userOrders (orderBook s)) ?u"; simp add: user_ptrs_def umap_index_def)
  from book_ok_index [OF ok this q(1)] have "live (orderBook s) q = Some e" using q(2) by auto
  then have "fine e" using assms(1) book_ok_live [OF ok] by (auto simp: system_ok_def all_fine_def)
  then show ?thesis
    using conn_ok_user [OF assms(1), of i] act
    by (auto simp: s' conn_ok_def may_act_def intro!: conn_step [OF assms(1)])
qed

lemma cancel_remove_step:
  assumes "system_ok s" and "perform_step srt (CancelRemove i) s = Some s'"
  shows "system_ok s' \<and> faulty s' = faulty s"
proof -
  let ?u = "conn_user (conns s i)"
  obtain oid where ph: "conn_phase (conns s i) = Removing oid"
    using assms(2) by (auto simp: Let_def split: phase.splits)
  have ok: "book_ok (orderBook s)" using assms(1) by (simp add: system_ok_def)
  from ok obtain x b where rm: "removeOrderById ?u oid (orderBook s) = (Inr x, b)"
    and b: "book_ok b" "set (book_nodes b) \<subseteq> set (book_nodes (orderBook s))"
  proof (cases rule: removeOrderById_cases [of "orderBook s" ?u oid])
    case 1
    then show ?thesis using that ok by blast
  next
    case (2 p e b')
    then show ?thesis using that unlink_set by blast
  qed
  have s': "s' = put_conn i ?u Idle (s\<lparr>orderBook := b\<rparr>)" using assms(2) ph rm by (simp add: Let_def)
  have "stores_ok b (userStore s) (nextId s)"
    using assms(1) b by (auto simp: system_ok_def stores_ok_def ids_below_def owners_exist_def all_fine_def)
  then have "system_ok s'"
    using conn_ok_user [OF assms(1), of i] b(2) unfolding s'
    by (intro system_step [OF assms(1), where i = i]) (auto simp: conn_ok_def placing_def)
  then show ?thesis by (simp add: s')
qed

lemma run_task_step:
  assumes "system_ok s" and "std_sort srt" and "perform_step srt (RunTask k ctime) s = Some s'"
  shows "system_ok s' \<and> faulty s' = faulty s"
proof -
  let ?m = "\<lparr>m_book = orderBook s, m_users = userStore s, m_sales = [], m_nextId = nextId s\<rparr>"
  obtain r t where m: "matchAsksToBids srt (tasks s ! k) (getCurrentTimestamp ctime) ?m = (r, t)" by fastforce
  have ok: "book_ok (m_book ?m)" "all_fine (m_book ?m)" "users_ok (m_users ?m)"
    using assms(1) by (simp_all add: system_ok_def)
  note p = pass_keeps [OF m ok(1) assms(2) ok(2,3)]
  have c: "\<forall>e. r = Inl e \<longrightarrow> catchable e" using p by blast
  have s': "s' = s\<lparr>orderBook := m_book t, userStore := m_users t, nextId := m_nextId t,
      tasks := take k (tasks s) @ drop (Suc k) (tasks s)\<rparr>" and n: "nextId s \<le> m_nextId t"
    using assms(3) m c by (auto simp: run_task_def split: if_splits sum.splits)
  have nodes: "\<exists>e. (q, e) \<in> set (book_nodes (orderBook s)) \<and> same_order e e'"
    if "(q, e') \<in> set (book_nodes (m_book t))" for q e' using p that by simp
  have ids: "(\<lambda>n. order_id (snd n)) ` set (book_nodes (m_book t)) \<subseteq> (\<lambda>n. order_id (snd n)) ` set (book_nodes (orderBook s))"
  proof
    fix x assume "x \<in> (\<lambda>n. order_id (snd n)) ` set (book_nodes (m_book t))"
    then obtain q e' where x: "(q, e') \<in> set (book_nodes (m_book t))" "x = order_id e'" by auto
    from nodes [OF x(1)] show "x \<in> (\<lambda>n. order_id (snd n)) ` set (book_nodes (orderBook s))"
      unfolding x(2) same_order_def by force
  qed
  have users: "userExists (userStore s) v \<Longrightarrow> userExists (m_users t) v" for v
    using pass_keeps [OF m ok(1) assms(2) ok(2,3), of v] by simp
  have "stores_ok (m_book t) (m_users t) (m_nextId t)"
    unfolding stores_ok_def
  proof (intro conjI)
    show "ids_below (m_book t) (m_nextId t)"
      using ids n assms(1) unfolding ids_below_def system_ok_def by (fastforce dest: subsetD)
    have owners: "owners_exist (orderBook s) (userStore s)" using assms(1) by (simp add: system_ok_def)
    show "owners_exist (m_book t) (m_users t)"
      unfolding owners_exist_def
    proof
      fix n assume "n \<in> set (book_nodes (m_book t))"
      then obtain e where "(fst n, e) \<in> set (book_nodes (orderBook s))" "same_order e (snd n)"
        using nodes [of "fst n" "snd n"] by auto
      then have "username (snd n) = default_user \<or> userExists (userStore s) (username (snd n))"
        using owners unfolding owners_exist_def same_order_def by fastforce
      then show "username (snd n) = default_user \<or> userExists (m_users t) (username (snd n))" using users by blast
    qed
  qed (use p in simp_all)
  moreover have "conn_ok s' (conns s' i)" for i
  proof -
    note ci = system_ok_conn [OF assms(1), of i]
    show ?thesis
    proof (cases "conn_phase (conns s i)")
      case (Placing e)
      have "order_id e \<notin> (\<lambda>n. order_id (snd n)) ` set (book_nodes (m_book t))"
        using ids ci Placing by (auto simp: conn_ok_def)
      then show ?thesis using ci users n Placing by (auto simp: conn_ok_def s')
    qed (use ci users in \<open>auto simp: conn_ok_def s'\<close>)
  qed
  ultimately show ?thesis
    using system_ok_apart [OF assms(1)] unfolding system_ok_def by (simp add: s' stores_ok_def)
qed

lemma conn_ok_faulty: "conn_ok (s\<lparr>faulty := x\<rparr>) c = conn_ok s c"
  by (cases "conn_phase c") (simp_all add: conn_ok_def)

lemma conn_ok_queue: "conn_ok (s\<lparr>pendingProducts := ps, tasks := ts\<rparr>) c = conn_ok s c"
  by (cases "conn_phase c") (simp_all add: conn_ok_def)

lemma register_add_step:
  assumes "system_ok s" and "conn_phase (conns s i) = Registering v p"
  shows "system_ok (put_conn i v Idle (s\<lparr>userStore := addUser v p (userStore s)\<rparr>))"
proof -
  let ?us = "addUser v p (userStore s)"
  have v: "v \<noteq> default_user" using system_ok_conn [OF assms(1), of i] assms(2) by (simp add: conn_ok_def)
  have st: "stores_ok (orderBook s) ?us (nextId s)"
    using assms(1) users_ok_addUser by (intro stores_ok_users [OF assms(1)]) (auto simp: userExists_addUser system_ok_def)
  show ?thesis
    using st v
    by (intro system_step [OF assms(1), of _ i "\<lparr>conn_user = v, conn_phase = Idle\<rparr>"])
      (auto simp: userExists_addUser conn_ok_def placing_def)
qed

lemma cancel_unlock_step:
  assumes "system_ok s" and "perform_step srt (CancelUnlock i) s = Some s'"
  shows "system_ok s' \<and> faulty s' = faulty s"
proof -
  let ?u = "conn_user (conns s i)"
  obtain oid e where ph: "conn_phase (conns s i) = Cancelling oid e"
    using assms(2) by (auto simp: Let_def split: phase.splits)
  then have f: "fine e" using system_ok_conn [OF assms(1), of i] by (simp add: conn_ok_def)
  obtain r us where o: "on_wallet ?u (cancelOrder e) (userStore s) = (r, us)" by fastforce
  have s': "s' = put_conn i ?u (case r of Inl x \<Rightarrow> Idle | Inr x \<Rightarrow> Removing oid) (s\<lparr>userStore := us\<rparr>)"
    using assms(2) ph o by (auto simp: Let_def split: sum.splits)
  have "conn_ok s \<lparr>conn_user = ?u, conn_phase = ph'\<rparr>" if "ph' = Idle \<or> ph' = Removing oid" for ph'
    using conn_ok_user [OF assms(1), of i] that by (auto simp: conn_ok_def)
  then show ?thesis
    using wallet_step [OF assms(1) o fine_calls(2) [OF f]] unfolding s' by (cases r) auto
qed

lemma perform_step_keeps:
  assumes "system_ok s" and "good_event ev" and "std_sort srt" and "perform_step srt ev s = Some s'"
  shows "system_ok s' \<and> (faulty s' \<longrightarrow> faulty s \<or> (\<exists>i. ev = ReadOrders i))"
proof (cases ev)
  case (RegisterCheck i v p)
  have "system_ok (put_conn i (conn_user (conns s i)) (Registering v p) s)" if "v \<noteq> default_user"
    using conn_ok_user [OF assms(1), of i] that by (intro conn_step [OF assms(1)]) (auto simp: conn_ok_def)
  then show ?thesis using assms(4) RegisterCheck by (auto split: if_splits)
next
  case (RegisterAdd i)
  then show ?thesis using assms(4) register_add_step [OF assms(1)] by (auto split: phase.splits)
next
  case (Login i v p)
  then have "system_ok (put_conn i v Idle s)" if "userExists (userStore s) v" "v \<noteq> default_user"
    using that by (intro conn_step [OF assms(1)]) (auto simp: conn_ok_def)
  then show ?thesis using assms(4) Login by (auto split: if_splits)
next
  case (Deposit i ty x)
  then show ?thesis
    using assms(2,4) money_step [OF assms(1), of i "Insert ty x" "insertCurrency ty x"]
    by (auto simp: good_amount_def payable_def split: if_splits)
next
  case (Withdraw i ty x)
  then show ?thesis
    using assms(2,4) money_step [OF assms(1), of i "Remove ty x" "removeCurrency ty x"]
    by (auto simp: good_amount_def payable_def split: if_splits)
next
  case (PlaceLock i ty pr a p ts)
  then have "faulty s' = faulty s"
    using assms(4) by (auto simp: Let_def OrderBookEntry_def split: if_splits prod.splits)
  then show ?thesis using place_lock_step [OF assms(1)] assms(2,4) PlaceLock by simp
next
  case (PlaceInsert i)
  then show ?thesis using assms(4) place_insert_step [OF assms(1)] by (auto split: phase.splits)
next
  case (PlaceQueue i)
  let ?c = "\<lparr>conn_user = conn_user (conns s i), conn_phase = Idle\<rparr>"
  have "system_ok (put_conn i (conn_user (conns s i)) Idle (s\<lparr>pendingProducts := ps\<rparr>))" for ps
    using stores_ok_self [OF assms(1)] conn_ok_user [OF assms(1), of i]
    by (intro system_step [OF assms(1), of _ i ?c]) (auto simp: conn_ok_def placing_def)
  moreover from this [of "pendingProducts s"] have "system_ok (put_conn i (conn_user (conns s i)) Idle s)" by simp
  ultimately show ?thesis using assms(4) PlaceQueue by (auto split: phase.splits if_splits)
next
  case (CancelFind i oid)
  have "book_ok (orderBook s)" using assms(1) by (simp add: system_ok_def)
  then have "faulty s' = faulty s"
    using assms(4) CancelFind by (auto simp: Let_def getOrdersForUser_ok split: if_splits option.splits)
  then show ?thesis using cancel_find_step [OF assms(1)] assms(4) CancelFind by simp
next
  case (CancelUnlock i)
  then show ?thesis using cancel_unlock_step [OF assms(1)] assms(4) by simp
next
  case (CancelRemove i)
  then show ?thesis using cancel_remove_step [OF assms(1)] assms(4) by simp
next
  case (ReadPointers i pr)
  have "system_ok (put_conn i (conn_user (conns s i)) (Reading ps) s)" for ps
    using conn_ok_user [OF assms(1), of i] by (intro conn_step [OF assms(1)]) (auto simp: conn_ok_def)
  then show ?thesis using assms(4) ReadPointers by (auto split: if_splits)
next
  case (ReadOrders i)
  have "system_ok (s\<lparr>faulty := True\<rparr>)" using assms(1) by (simp add: system_ok_def conn_ok_faulty)
  then show ?thesis
    using assms(4) ReadOrders conn_step [OF assms(1) conn_ok_user [OF assms(1)]]
    by (auto split: phase.splits sum.splits)
next
  case TakeProduct
  have "system_ok (s\<lparr>pendingProducts := ps, tasks := ts\<rparr>)" for ps ts
    using assms(1) by (simp add: system_ok_def conn_ok_queue)
  then show ?thesis using assms(4) TakeProduct by (auto split: list.splits if_splits)
next
  case (RunTask k ctime)
  then show ?thesis using run_task_step [OF assms(1,3)] assms(4) by simp
qed

end
