(* ===== verification/Server_Properties.thy ===== *)
theory Server_Properties
  imports Server_Invariants
begin

text \<open>
  The properties of a client connection: no message leads to undefined behaviour, nothing
  happens without a login, a client reaches only its own wallet and orders, and what placing
  and cancelling an order do.
\<close>

section \<open>Registering and logging in\<close>

lemma three_tokens: "length tokens = 3 \<Longrightarrow> \<exists>c v p. tokens = [c, v, p]"
  by (auto simp: numeral_3_eq_3 length_Suc_conv)

lemma register_cases:
  assumes "handle_register tokens s = (r, s')"
  obtains (refused) "\<exists>t. r = Inr (Response t)" "s' = s"
  | (registered) c v p where "\<exists>t. r = Inr (Response t)" "tokens = [c, v, p]" "v \<noteq> default_user"
      "\<not> userExists (userStore s) v" "s' = s\<lparr>userStore := addUser v p (userStore s), session_user := v\<rparr>"
proof (cases "length tokens = 3")
  case True
  then obtain c v p where t: "tokens = [c, v, p]" using three_tokens by blast
  show ?thesis
  proof (cases "v \<noteq> default_user \<and> \<not> userExists (userStore s) v")
    case True
    then show ?thesis using assms t by (intro registered) (auto simp: handle_register_def respond_def)
  next
    case False
    then show ?thesis using assms t by (intro refused) (auto simp: handle_register_def respond_def split: if_splits)
  qed
next
  case False
  then show ?thesis using assms by (intro refused) (auto simp: handle_register_def respond_def)
qed

lemma login_cases:
  assumes "handle_login tokens s = (r, s')"
  obtains (refused) "\<exists>t. r = Inr (Response t)" "s' = s"
  | (invalid) t where "r = Inr Continue" "s' = s\<lparr>sent := sent s @ t\<rparr>"
  | (logged_in) c v p w where "\<exists>t. r = Inr (Response t)" "tokens = [c, v, p]" "v \<noteq> default_user"
      "umap_find (userStore s) v = Some w" "password w = p" "s' = s\<lparr>session_user := v\<rparr>"
proof (cases "length tokens = 3")
  case True
  then obtain c v p where t: "tokens = [c, v, p]" using three_tokens by blast
  show ?thesis
  proof (cases "v = default_user \<or> \<not> userExists (userStore s) v")
    case True
    then show ?thesis using assms t by (intro refused) (auto simp: handle_login_def respond_def split: if_splits)
  next
    case False
    then obtain w where w: "umap_find (userStore s) v = Some w" by (auto simp: userExists_def)
    have run: "handle_login tokens s = (if password w \<noteq> p
        then write_and_continue ''ERR Invalid credentials. Try again.'' s
        else respond (''OK Logged in as '' @ v) (s\<lparr>session_user := v\<rparr>))"
      using False w t getUser_existing [of "userStore s" v]
      by (auto simp: handle_login_def bind_act_def on_users_def validatePassword_def user_at_def)
    show ?thesis
    proof (cases "password w = p")
      case True
      show ?thesis using assms run t w False True by (intro logged_in) (auto simp: respond_def)
    next
      case False
      then show ?thesis
        using assms run by (intro invalid) (auto simp: write_and_continue_def write_socket_def bind_act_def)
    qed
  qed
next
  case False
  then show ?thesis using assms by (intro refused) (auto simp: handle_login_def respond_def split: if_splits)
qed

lemma register_ok:
  assumes "session_ok s" and "handle_register tokens s = (r, s')"
  shows "session_ok s' \<and> (\<exists>x. r = Inr x)"
  using assms(2)
proof (cases rule: register_cases)
  case (registered c v p)
  then have "session_ok (s\<lparr>userStore := addUser v p (userStore s)\<rparr>)"
    using assms(1) accounts_ok_addUser
    by (intro session_ok_users) (auto simp: userExists_addUser, auto simp: session_ok_def server_ok_def)
  then show ?thesis using registered by (auto simp: session_ok_def server_ok_def userExists_addUser)
qed (use assms(1) in auto)

lemma login_ok:
  assumes "session_ok s" and "handle_login tokens s = (r, s')"
  shows "session_ok s' \<and> (\<exists>x. r = Inr x)"
  using assms(2)
  by (cases rule: login_cases) (use assms(1) in \<open>auto simp: session_ok_def server_ok_def userExists_def\<close>)

text \<open>The end of a message: the response is written, and every catchable exception closes the connection.\<close>

lemma message_cases:
  assumes "handle_message ctime iter data s = (r, s')"
  obtains (empty) "getlines (CHR '' '') (strip_newlines data) = []" "r = Inr True" "s' = s"
  | (replied) x s1 t b where "dispatch ctime iter (getlines (CHR '' '') (strip_newlines data)) s = (Inr x, s1)"
      "r = Inr b" "s' = s1\<lparr>sent := sent s1 @ t\<rparr>"
  | (threw) e where "dispatch ctime iter (getlines (CHR '' '') (strip_newlines data)) s = (Inl e, s')"
      "r = (if catchable e then Inr False else Inl e)"
proof -
  let ?tokens = "getlines (CHR '' '') (strip_newlines data)"
  obtain x s1 where d: "dispatch ctime iter ?tokens s = (x, s1)" by fastforce
  show ?thesis
  proof (cases "?tokens = []")
    case True
    then show ?thesis using assms by (intro empty) (auto simp: handle_message_def try_catch_def)
  next
    case False
    then have m: "handle_message ctime iter data s = (case (x, s1) of
        (Inl e, s1) \<Rightarrow> (if catchable e then (Inr False, s1) else (Inl e, s1))
      | (Inr y, s1) \<Rightarrow> (Inr (y \<noteq> Break), s1\<lparr>sent := sent s1 @ (case y of Response t \<Rightarrow> t @ ''\<newline>'' | _ \<Rightarrow> [])\<rparr>))"
      unfolding handle_message_def try_catch_def bind_act_def Let_def
      by (simp add: d write_socket_def split: sum.split reply.split)
    show ?thesis
    proof (cases x)
      case (Inl e)
      then show ?thesis using assms m d by (intro threw [of e]) (simp_all split: if_splits)
    next
      case (Inr y)
      then show ?thesis using assms m d by (intro replied [of y s1 "y \<noteq> Break" "case y of Response t \<Rightarrow> t @ ''\<newline>'' | _ \<Rightarrow> []"]) auto
    qed
  qed
qed

section \<open>An example\<close>

text \<open>The example book with a third account \<open>u\<close> that has 3 of the currency \<open>A\<close>.\<close>

definition ex_session :: "string \<Rightarrow> session" where
  "ex_session u = \<lparr>orderBook = ex_book_of ''s'' ''b'', userStore = (''u'', (User ''u'' ''x'')\<lparr>wallet := ex_wallet\<rparr>) # ex_users,
     nextId = 4, pendingProducts = [], isRunning = True, session_user = u, sent = []\<rparr>"

lemma ex_session_ok: "u \<in> {[], ''u'', ''s'', ''b''} \<Longrightarrow> session_ok (ex_session u)"
proof -
  assume u: "u \<in> {[], ''u'', ''s'', ''b''}"
  have "accounts_ok (userStore (ex_session u))"
    by (auto simp: ex_session_def ex_users_def accounts_ok_def umap_wf_def umap_find_def User_def)
  moreover have "owners_exist (orderBook (ex_session u)) (userStore (ex_session u))"
    "ids_below (orderBook (ex_session u)) (nextId (ex_session u))"
    by (simp_all add: ex_session_def owners_exist_def ids_below_def book_nodes_def ex_book_of_def ex_order_def
        userExists_def umap_find_def ex_users_def)
  moreover have "u = [] \<or> userExists (userStore (ex_session u)) u \<and> u \<noteq> default_user"
    using u by (auto simp: ex_session_def userExists_def umap_find_def ex_users_def default_user_def)
  ultimately show ?thesis
    using ex_book_ok by (auto simp: session_ok_def server_ok_def ex_session_def)
qed

lemma ex_session_fields [simp]: "session_user (ex_session u) = u" "nextId (ex_session u) = 4"
  by (simp_all add: ex_session_def)

section \<open>No message is undefined\<close>

lemma good_numbers_True: "own.good_numbers tokens" "isolation.good_numbers tokens" "anonymous.good_numbers tokens"
  by (simp_all add: own.good_numbers_def isolation.good_numbers_def anonymous.good_numbers_def)

lemma session_command:
  "map toupper (hd tokens) = ''REGISTER'' \<Longrightarrow> dispatch ctime iter tokens = handle_register tokens"
  "map toupper (hd tokens) = ''LOGIN'' \<Longrightarrow> dispatch ctime iter tokens = handle_login tokens"
  by (simp_all add: dispatch_def)

text \<open>
  The rule for a property of one message: show it for \<open>REGISTER\<close> and \<open>LOGIN\<close>, and for
  the others by a \<open>client_invariant\<close>.
\<close>

lemma message_rule:
  assumes "handle_message ctime iter data s = (r, s')" and "Q s"
    and "\<And>s1 t. Q s1 \<Longrightarrow> Q (s1\<lparr>sent := t\<rparr>)"
    and "\<And>tokens x s1. handle_register tokens s = (x, s1) \<Longrightarrow> Q s1 \<and> (\<exists>y. x = Inr y)"
    and "\<And>tokens x s1. handle_login tokens s = (x, s1) \<Longrightarrow> Q s1 \<and> (\<exists>y. x = Inr y)"
    and "\<And>tokens x s1. tokens = getlines (CHR '' '') (strip_newlines data) \<Longrightarrow>
      map toupper (hd tokens) \<notin> {''REGISTER'', ''LOGIN''} \<Longrightarrow>
      dispatch ctime iter tokens s = (x, s1) \<Longrightarrow> Q s1 \<and> (\<forall>e. x = Inl e \<longrightarrow> catchable e)"
  shows "Q s' \<and> (\<exists>stay. r = Inr stay)"
proof -
  let ?tokens = "getlines (CHR '' '') (strip_newlines data)"
  have d: "Q s1 \<and> (\<forall>e. x = Inl e \<longrightarrow> catchable e)" if "dispatch ctime iter ?tokens s = (x, s1)" for x s1
    using assms(4) [of ?tokens x s1] assms(5) [of ?tokens x s1] assms(6) [OF refl _ that] that session_command
    by (cases "map toupper (hd ?tokens) \<in> {''REGISTER'', ''LOGIN''}") auto
  from assms(1) show ?thesis
  proof (cases rule: message_cases)
    case (replied x s1 t b)
    then show ?thesis using d assms(3) by auto
  next
    case (threw e)
    then show ?thesis using d by auto
  qed (use assms(2) in auto)
qed

lemma message_ok:
  assumes "session_ok s" and "int (nextId s) + 1 + int k < 2 ^ 64" and "handle_message ctime iter data s = (r, s')"
  shows "(session_ok s' \<and> int (nextId s') + int k < 2 ^ 64) \<and> (\<exists>stay. r = Inr stay)"
  using assms(3)
proof (rule message_rule)
  fix tokens x s1 assume r: "handle_register tokens s = (x, s1)"
  then have "nextId s1 = nextId s" by (cases rule: register_cases) auto
  then show "(session_ok s1 \<and> int (nextId s1) + int k < 2 ^ 64) \<and> (\<exists>y. x = Inr y)"
    using register_ok [OF assms(1) r] assms(2) by simp
next
  fix tokens x s1 assume r: "handle_login tokens s = (x, s1)"
  then have "nextId s1 = nextId s" by (cases rule: login_cases) auto
  then show "(session_ok s1 \<and> int (nextId s1) + int k < 2 ^ 64) \<and> (\<exists>y. x = Inr y)"
    using login_ok [OF assms(1) r] assms(2) by simp
next
  fix tokens x s1
  assume "map toupper (hd tokens) \<notin> {''REGISTER'', ''LOGIN''}" and "dispatch ctime iter tokens s = (x, s1)"
  from own.dispatch_inv [OF _ good_numbers_True(1) this, of "session_user s" k]
  show "(session_ok s1 \<and> int (nextId s1) + int k < 2 ^ 64) \<and> (\<forall>e. x = Inl e \<longrightarrow> catchable e)"
    using assms(1,2) by auto
qed (use assms(1,2) in \<open>auto simp: session_ok_def server_ok_def\<close>)

text \<open>
  C18: whatever bytes a client sends, when its messages are handled one after the other while no other
  thread acts and the identifier counter does not wrap around, no message leads to undefined behaviour
  or leaves the handler with an exception, and the server stays well formed. (With other threads
  this is false of \<open>MARKET\<close> and \<open>STATS\<close>, which give up the lock of the book before they follow its pointers:
  see the theory Races. What holds then is in the theory Interleaving_Properties.)
\<close>

theorem client_never_undefined:
  assumes "session_ok s" and "int (nextId s) + int (length messages) < 2 ^ 64"
    and "handleClient ctime iter messages s = (r, s')"
  shows "r = Inr () \<and> session_ok s'"
  using assms
proof (induction messages arbitrary: s)
  case (Cons data rest)
  obtain x s1 where m: "handle_message ctime iter data s = (x, s1)" by fastforce
  from message_ok [OF Cons.prems(1) _ m, of "length rest"] Cons.prems(2)
  obtain stay where x: "x = Inr stay" and ok: "session_ok s1" "int (nextId s1) + int (length rest) < 2 ^ 64"
    by auto
  show ?case
    using Cons.IH [OF ok] Cons.prems(3) m x ok by (cases stay) (auto simp: bind_act_def)
qed simp

theorem client_never_undefined_witness:
  "fst (handleClient ''now\<newline>'' id [''bid a/b nan -1'', ''stats a/b'', ''cancel 2''] (ex_session ''b'')) = Inr ()"
  using client_never_undefined [OF ex_session_ok _ surjective_pairing,
      of "''b''" "[''bid a/b nan -1'', ''stats a/b'', ''cancel 2'']" "''now\<newline>''" id] by simp

section \<open>Nothing happens without a login\<close>

lemma wallet_of_addUser: "\<not> userExists us v \<Longrightarrow> wallet_of (addUser v p us) = wallet_of us"
  by (auto simp: wallet_of_def addUser_def userExists_def User_def fun_eq_iff split: option.splits)

text \<open>
  C20: as long as nobody has logged in on a connection, no message changes a
  balance, the book, the queue or the identifiers; \<open>REGISTER\<close> can only add an account.
\<close>

theorem login_required:
  assumes "session_ok s" and "session_user s = []" and "int (nextId s) + 1 < 2 ^ 64"
    and "handle_message ctime iter data s = (r, s')"
  shows "orderBook s' = orderBook s \<and> nextId s' = nextId s \<and> pendingProducts s' = pendingProducts s \<and>
    wallet_of (userStore s') = wallet_of (userStore s)"
proof -
  have "stock s' = stock s \<and> (\<exists>stay. r = Inr stay)"
    using assms(4)
  proof (rule message_rule)
    fix tokens x s1 assume "handle_register tokens s = (x, s1)"
    then show "stock s1 = stock s \<and> (\<exists>y. x = Inr y)"
      by (cases rule: register_cases) (auto simp: stock_def wallet_of_addUser)
  next
    fix tokens x s1 assume "handle_login tokens s = (x, s1)"
    then show "stock s1 = stock s \<and> (\<exists>y. x = Inr y)"
      by (cases rule: login_cases) (auto simp: stock_def)
  next
    fix tokens x s1
    assume "map toupper (hd tokens) \<notin> {''REGISTER'', ''LOGIN''}" and "dispatch ctime iter tokens s = (x, s1)"
    from anonymous.dispatch_inv [OF _ good_numbers_True(3) this, of 0 "stock s"]
    show "stock s1 = stock s \<and> (\<forall>e. x = Inl e \<longrightarrow> catchable e)" using assms(1-3) by auto
  qed (auto simp: stock_def)
  then show ?thesis by (simp add: stock_def)
qed

theorem login_required_witness:
  "orderBook (snd (handle_message ''now\<newline>'' id ''cancel 2'' (ex_session []))) = ex_book_of ''s'' ''b''"
  using login_required [OF ex_session_ok _ _ surjective_pairing, of "[]" "''now\<newline>''" id "''cancel 2''"]
  by (simp add: ex_session_def)

section \<open>Isolation of the users\<close>

text \<open>
  C19: a message leaves the wallets of all other users and all their orders
  untouched, whatever it says.
\<close>

theorem message_isolation:
  assumes "session_ok s" and "int (nextId s) + 1 < 2 ^ 64" and "handle_message ctime iter data s = (r, s')"
  shows "(\<forall>v. v \<noteq> session_user s \<longrightarrow> wallet_of (userStore s') v = wallet_of (userStore s) v) \<and>
    filter_mset (\<lambda>n. username (snd n) \<noteq> session_user s) (mset (book_nodes (orderBook s'))) =
    filter_mset (\<lambda>n. username (snd n) \<noteq> session_user s) (mset (book_nodes (orderBook s)))"
proof -
  let ?u = "session_user s"
  have "of_others ?u s' = of_others ?u s \<and> (\<exists>stay. r = Inr stay)"
    using assms(3)
  proof (rule message_rule)
    fix tokens x s1 assume "handle_register tokens s = (x, s1)"
    then show "of_others ?u s1 = of_others ?u s \<and> (\<exists>y. x = Inr y)"
      by (cases rule: register_cases) (auto simp: of_others_def wallet_of_addUser)
  next
    fix tokens x s1 assume "handle_login tokens s = (x, s1)"
    then show "of_others ?u s1 = of_others ?u s \<and> (\<exists>y. x = Inr y)"
      by (cases rule: login_cases) (auto simp: of_others_def)
  next
    fix tokens x s1
    assume "map toupper (hd tokens) \<notin> {''REGISTER'', ''LOGIN''}" and "dispatch ctime iter tokens s = (x, s1)"
    from isolation.dispatch_inv [OF _ good_numbers_True(2) this, of ?u 0 "of_others ?u s"]
    show "of_others ?u s1 = of_others ?u s \<and> (\<forall>e. x = Inl e \<longrightarrow> catchable e)" using assms(1,2) by auto
  qed (auto simp: of_others_def)
  then show ?thesis by (auto simp: of_others_def fun_eq_iff split: if_splits)
qed

theorem message_isolation_witness:
  "wallet_of (userStore (snd (handle_message ''now\<newline>'' id ''bid a/b 1 1'' (ex_session ''b'')))) ''u'' = ex_wallet"
  using message_isolation [OF ex_session_ok _ surjective_pairing, of "''b''" "''now\<newline>''" id "''bid a/b 1 1''"]
  by (simp add: ex_session_def) (simp add: wallet_of_def umap_find_def)

end
