(* ===== verification/Order_Commands.thy ===== *)
theory Order_Commands
  imports Server_Properties
begin

text \<open>
  What \<open>ASK\<close>, \<open>BID\<close> and \<open>CANCEL\<close> do, and that an order a client has placed can be
  cancelled by the identifier the server prints.
\<close>

section \<open>Placing an order\<close>

text \<open>The order a command describes, the currency it locks and how much of it.\<close>

definition order_of :: "string \<Rightarrow> string \<Rightarrow> string \<Rightarrow> double \<Rightarrow> double \<Rightarrow> string \<Rightarrow> nat \<Rightarrow> entry" where
  "order_of ctime command pr a p u n =
     fst (OrderBookEntry p a (getCurrentTimestamp ctime) pr (if command = ''ASK'' then Ask else Bid) u n)"

definition lock_cost :: "string \<Rightarrow> double \<Rightarrow> double \<Rightarrow> double" where
  "lock_cost command a p = (if command = ''ASK'' then a else a * p)"

definition lock_currency :: "string \<Rightarrow> string \<Rightarrow> string \<Rightarrow> string" where
  "lock_currency command base quote = (if command = ''ASK'' then base else quote)"

lemma order_of_fields [simp]:
  "product (order_of ctime c pr a p u n) = pr" "amount (order_of ctime c pr a p u n) = a"
  "price (order_of ctime c pr a p u n) = p" "username (order_of ctime c pr a p u n) = u"
  "order_id (order_of ctime c pr a p u n) = n"
  by (simp_all add: order_of_def OrderBookEntry_def)

lemma order_calls:
  assumes "extractTokens pr (CHR ''/'') = [base, quote]"
  shows "fulfillOrder (order_of ctime c pr a p u n) = lockCurrency (lock_currency c base quote) (lock_cost c a p)"
    and "cancelOrder (order_of ctime c pr a p u n) = unlockCurrency (lock_currency c base quote) (lock_cost c a p)"
  using assms
  by (auto simp: fulfillOrder_def cancelOrder_def order_of_def OrderBookEntry_def lock_cost_def lock_currency_def fun_eq_iff)

lemma user_wallet_run:
  assumes "userExists (userStore s) (session_user s)" and "on_wallet (session_user s) f (userStore s) = (r, us)"
  shows "user_wallet f s = (r, s\<lparr>userStore := us\<rparr>)"
  using assms getUser_existing by (simp add: user_wallet_def bind_act_def on_users_def)

lemma on_wallet_run:
  assumes "f (wallet_of us u) = (r, w)"
  obtains us' where "on_wallet u f us = (r, us')" "wallet_of us' = (wallet_of us)(u := w)"
proof -
  obtain x us' where o: "on_wallet u f us = (x, us')" by fastforce
  show ?thesis
    using on_wallet_wallets [OF o] o assms by (intro that [of us']) (auto simp: fun_eq_iff)
qed

lemma place_order_run:
  assumes "stod ta = Inr a" and "stod tp = Inr p" and "int (nextId s) + 1 < 2 ^ 64"
    and "userExists (userStore s) (session_user s)"
    and "fulfillOrder (order_of ctime c pr a p (session_user s) (nextId s)) (wallet_of (userStore s) (session_user s)) = (x, w)"
  obtains us where "wallet_of us = (wallet_of (userStore s))(session_user s := w)"
    "place_order ctime c pr ta tp s =
      (case x of
         Inl e \<Rightarrow> (Inl e, s\<lparr>nextId := Suc (nextId s), userStore := us\<rparr>)
       | Inr False \<Rightarrow> write_and_continue (''ERR Insufficient funds in wallet to place this '' @ c @ ''.'')
           (s\<lparr>nextId := Suc (nextId s), userStore := us\<rparr>)
       | Inr True \<Rightarrow> (Inr (Response (''OK '' @ c @ '' placed for '' @ pr)),
           s\<lparr>nextId := Suc (nextId s), userStore := us,
             orderBook := insertOrder (order_of ctime c pr a p (session_user s) (nextId s)) (orderBook s),
             pendingProducts := (if pr \<in> set (pendingProducts s) then pendingProducts s else pendingProducts s @ [pr])\<rparr>))"
proof -
  let ?e = "order_of ctime c pr a p (session_user s) (nextId s)" and ?s1 = "s\<lparr>nextId := Suc (nextId s)\<rparr>"
  obtain us where o: "on_wallet (session_user s) (fulfillOrder ?e) (userStore s) = (x, us)"
    and w: "wallet_of us = (wallet_of (userStore s))(session_user s := w)"
    using on_wallet_run [of "fulfillOrder ?e", OF assms(5)] .
  have n: "new_entry ctime p a pr (if c = ''ASK'' then Ask else Bid) s = (Inr ?e, ?s1)"
    using assms(3) by (simp add: new_entry_def order_of_def OrderBookEntry_def size_t_succ_small)
  have f: "user_wallet (fulfillOrder ?e) ?s1 = (x, ?s1\<lparr>userStore := us\<rparr>)"
    using assms(4) o by (intro user_wallet_run) simp_all
  show ?thesis
    using assms(1,2) n f
    by (intro that [OF w])
      (simp add: place_order_def lift_res_def bind_act_def on_book_def startMatchingProduct_def respond_def
        split: sum.split bool.split)
qed

lemma order_outcome:
  assumes "session_ok s" and "session_user s = u" and "u \<noteq> []" and "int (nextId s) + 1 < 2 ^ 64"
    and "tokens = [c, pr, ta, tp]" and "stod ta = Inr a" and "stod tp = Inr p"
    and "extractTokens (map toupper pr) (CHR ''/'') = [base, quote]"
    and "handle_order ctime command tokens s = (r, s')"
  shows "let x = lock_cost command a p; cur = lock_currency command base quote; w = wallet_of (userStore s) u;
      w' = wallet_of (userStore s') u; e = order_of ctime command (map toupper pr) a p u (nextId s) in
    if \<not> x < 0 \<and> x \<le> free_balance w cur then
      r = Inr (Response (''OK '' @ command @ '' placed for '' @ map toupper pr)) \<and>
      moves free_balance locked_balance cur (\<lambda>b. b - x) (\<lambda>b. b + x) w w' \<and>
      orderBook s' = insertOrder e (orderBook s) \<and> map toupper pr \<in> set (pendingProducts s')
    else (r = Inr (Response ''ERR Invalid order'') \<or> r = Inr Continue) \<and> w' = w \<and>
      orderBook s' = orderBook s \<and> pendingProducts s' = pendingProducts s"
proof -
  let ?x = "lock_cost command a p" and ?cur = "lock_currency command base quote"
  let ?w = "wallet_of (userStore s) u"
  let ?e = "order_of ctime command (map toupper pr) a p u (nextId s)"
  let ?m = "place_order ctime command (map toupper pr) ta tp"
  have ex: "userExists (userStore s) (session_user s)"
    using assms(1-3) by (simp add: session_ok_def)
  obtain y w where f: "fulfillOrder ?e ?w = (y, w)" by fastforce
  then have l: "lockCurrency ?cur ?x ?w = (y, w)" using order_calls(1) [OF assms(8)] by simp
  obtain us where us: "wallet_of us = (wallet_of (userStore s))(u := w)"
    and run: "?m s = (case y of
         Inl e \<Rightarrow> (Inl e, s\<lparr>nextId := Suc (nextId s), userStore := us\<rparr>)
       | Inr False \<Rightarrow> write_and_continue (''ERR Insufficient funds in wallet to place this '' @ command @ ''.'')
           (s\<lparr>nextId := Suc (nextId s), userStore := us\<rparr>)
       | Inr True \<Rightarrow> (Inr (Response (''OK '' @ command @ '' placed for '' @ map toupper pr)),
           s\<lparr>nextId := Suc (nextId s), userStore := us, orderBook := insertOrder ?e (orderBook s),
             pendingProducts := (if map toupper pr \<in> set (pendingProducts s) then pendingProducts s
               else pendingProducts s @ [map toupper pr])\<rparr>))"
    using place_order_run [OF assms(6,7,4) ex, of ctime command "map toupper pr" y w] f assms(2) by auto
  have h: "handle_order ctime command tokens s = try_catch ?m (respond ''ERR Invalid order'') s"
    using assms(2,3,5) by (simp add: handle_order_def)
  from wallet.lock_law [OF l] show ?thesis
  proof (elim disjE conjE)
    assume "?x < 0" "y = Inl negative_amount" "w = ?w"
    then show ?thesis
      using assms(9) h run us
      by (auto simp: Let_def try_catch_def respond_def negative_amount_def catchable_def)
  next
    assume "\<not> ?x < 0" "\<not> ?x \<le> free_balance ?w ?cur" "y = Inr False" "w = ?w"
    then show ?thesis
      using assms(9) h run us
      by (auto simp: Let_def try_catch_def write_and_continue_def bind_act_def write_socket_def)
  next
    assume "\<not> ?x < 0" "?x \<le> free_balance ?w ?cur" "y = Inr True"
      "moves free_balance locked_balance ?cur (\<lambda>b. b - ?x) (\<lambda>b. b + ?x) ?w w"
    then show ?thesis
      using assms(9) h run us by (auto simp: Let_def try_catch_def)
  qed
qed

text \<open>
  C21: \<open>ASK\<close> and \<open>BID\<close> with two numbers on a product of two parts accept the order exactly
  when its cost (the amount of an ask, the amount times the price of a bid) is not negative
  and covered by the free balance. Then the cost moves from the free to the locked balance,
  the order is in the book and its product is queued for matching; otherwise no balance, no
  order and not the queue changes.
\<close>

theorem order_command_outcome:
  assumes "session_ok s" and "session_user s = u" and "u \<noteq> []" and "int (nextId s) + 1 < 2 ^ 64"
    and "tokens = [c, pr, ta, tp]" and "stod ta = Inr a" and "stod tp = Inr p"
    and "extractTokens (map toupper pr) (CHR ''/'') = [base, quote]"
    and "handle_order ctime command tokens s = (r, s')"
  shows "let x = lock_cost command a p; cur = lock_currency command base quote; w = wallet_of (userStore s) u;
      w' = wallet_of (userStore s') u; e = order_of ctime command (map toupper pr) a p u (nextId s) in
    if \<not> x < 0 \<and> x \<le> free_balance w cur then
      r = Inr (Response (''OK '' @ command @ '' placed for '' @ map toupper pr)) \<and>
      moves free_balance locked_balance cur (\<lambda>b. b - x) (\<lambda>b. b + x) w w' \<and>
      orderBook s' = insertOrder e (orderBook s) \<and> map toupper pr \<in> set (pendingProducts s')
    else (r = Inr (Response ''ERR Invalid order'') \<or> r = Inr Continue) \<and> w' = w \<and>
      orderBook s' = orderBook s \<and> pendingProducts s' = pendingProducts s"
  using assms by (rule order_outcome)

text \<open>The range checks of \<open>stod\<close> decide at once for a number between 1 and the largest double.\<close>

lemma to_double_plain:
  assumes "1 \<le> q" and "rnd q = Fin v"
  shows "to_double False q = Inr (Fin v)"
proof -
  have "two_to (- 1022) - two_to (- 1076) < (1 :: rat)"
    using two_to_pos [of "- 1076"] by (simp add: two_to_def)
  then show ?thesis using assms by (simp add: to_double_def)
qed

lemma ex_order_numbers: "stod ''2'' = Inr (Fin 2)" "stod ''9'' = Inr (Fin 9)"
  "toupper (CHR ''a'') = CHR ''A''" "toupper (CHR ''b'') = CHR ''B''" "toupper (CHR ''/'') = CHR ''/''"
  "show_nat 4 = ''4''"
proof -
  have t: "take_sign (dropWhile isspace ''2'') = (False, ''2'')" "has_prefix ''INF'' ''2'' = False"
    "has_prefix ''NAN'' ''2'' = False" "has_prefix ''0X'' ''2'' = False" "decimal_part ''2'' = Some 2" "rnd 2 = Fin 2"
    by code_simp+
  then show "stod ''2'' = Inr (Fin 2)" using to_double_plain [of 2 2] by (simp add: stod_def)
  have t: "take_sign (dropWhile isspace ''9'') = (False, ''9'')" "has_prefix ''INF'' ''9'' = False"
    "has_prefix ''NAN'' ''9'' = False" "has_prefix ''0X'' ''9'' = False" "decimal_part ''9'' = Some 9" "rnd 9 = Fin 9"
    by code_simp+
  then show "stod ''9'' = Inr (Fin 9)" using to_double_plain [of 9 9] by (simp add: stod_def)
qed code_simp+

lemma ex_order_tokens: "extractTokens (map toupper ''a/b'') (CHR ''/'') = [''A'', ''B'']" by code_simp

lemma ex_free: "free_balance (wallet_of (userStore (ex_session ''u'')) ''u'') ''A'' = Fin 3"
  "\<not> Fin 2 < (0 :: double)" "Fin 2 \<le> (Fin 3 :: double)"
  by (simp add: ex_session_def wallet_of_def umap_find_def ex_wallet_def free_balance_def omap_index_def omap_find_def) code_simp+

theorem order_command_outcome_witness:
  "orderBook (snd (handle_order ''now\<newline>'' ''ASK'' [''ask'', ''a/b'', ''2'', ''9''] (ex_session ''u''))) =
    insertOrder (order_of ''now\<newline>'' ''ASK'' ''A/B'' (Fin 2) (Fin 9) ''u'' 4) (ex_book_of ''s'' ''b'')"
proof -
  note out = order_command_outcome [where command = "''ASK''" and ctime = "''now\<newline>''" and u = "''u''" and c = "''ask''",
      OF ex_session_ok _ _ _ refl ex_order_numbers(1,2) ex_order_tokens surjective_pairing, of "''u''"]
  have "orderBook (ex_session ''u'') = ex_book_of ''s'' ''b''" by (simp add: ex_session_def)
  then show ?thesis using out ex_free by (simp add: Let_def lock_cost_def lock_currency_def ex_order_numbers)
qed

section \<open>Cancelling an order\<close>

lemma size_t_of_nat: "int n < 2 ^ 64 \<Longrightarrow> size_t_of_int (int n) = n"
  by (simp add: size_t_of_int_def)

lemma find_unique:
  assumes "x \<in> set xs" and "P x" and "\<forall>y\<in>set xs. P y \<longrightarrow> y = x"
  shows "find P xs = Some x"
proof (cases "find P xs")
  case None
  then show ?thesis using assms(1,2) by (auto simp: find_None_iff)
next
  case (Some y)
  then have "y \<in> set xs \<and> P y" by (metis find_Some_iff nth_mem)
  then have "y = x" using assms(3) by blast
  then show ?thesis using Some by simp
qed

text \<open>An order of the user with an identifier that \<open>stoi\<close> can read is found by \<open>CANCEL\<close>.\<close>

lemma cancel_run:
  assumes "session_ok s" and "session_user s = u" and "u \<noteq> []"
    and "live (orderBook s) q = Some e" and "q \<in> set (user_ptrs (orderBook s) u)" and "int (order_id e) < 2 ^ 31"
    and "cancelOrder e (wallet_of (userStore s) u) = (Inr x, w)"
  obtains us b where "wallet_of us = (wallet_of (userStore s))(u := w)"
    "unlink (orderBook s) q e b"
    "handle_cancel [c, show_nat (order_id e)] s =
      (Inr (Response ''OK Order cancelled.''), s\<lparr>userStore := us, orderBook := b\<rparr>)"
proof -
  have ok: "book_ok (orderBook s)" and ex: "userExists (userStore s) (session_user s)"
    using assms(1-3) by (simp_all add: session_ok_def server_ok_def)
  let ?orders = "map (\<lambda>p. the (live (orderBook s) p)) (user_ptrs (orderBook s) u)"
  have ptr: "\<exists>f. live (orderBook s) p = Some f" if "p \<in> set (user_ptrs (orderBook s) u)" for p
    using that book_ok_index [OF ok, of u "user_ptrs (orderBook s) u" p]
    by (cases "umap_find (userOrders (orderBook s)) u") (auto simp: user_ptrs_def umap_index_def)
  have id: "size_t_of_int (int (order_id e)) = order_id e" using assms(6) by (intro size_t_of_nat) simp
  have unique: "f = e" if "f \<in> set ?orders" "order_id e = order_id f" for f
  proof -
    from that ptr obtain p where "live (orderBook s) p = Some f" by fastforce
    then show ?thesis using that(2) assms(4) book_ok_same_id [OF ok] by (auto simp: book_ok_live [OF ok])
  qed
  have "e \<in> set ?orders" using assms(4,5) by force
  then have find: "find (\<lambda>f. size_t_of_int (int (order_id e)) = order_id f) ?orders = Some e"
    unfolding id using unique by (intro find_unique ballI impI) blast+
  obtain us where o: "on_wallet u (cancelOrder e) (userStore s) = (Inr x, us)"
    and w: "wallet_of us = (wallet_of (userStore s))(u := w)"
    using on_wallet_run [of "cancelOrder e", OF assms(7)] .
  have uw: "user_wallet (cancelOrder e) s = (Inr x, s\<lparr>userStore := us\<rparr>)"
    using user_wallet_run [OF ex] o assms(2) by simp
  from ok obtain b where rm: "removeOrderById u (order_id e) (orderBook s) = (Inr True, b)"
    and un: "unlink (orderBook s) q e b"
  proof (cases rule: removeOrderById_cases [of "orderBook s" u "order_id e"])
    case 1
    then show ?thesis using assms(4,5) by force
  next
    case (2 p f b)
    then have "p = q \<and> f = e" using assms(4) book_ok_same_id [OF ok] by (auto simp: book_ok_live [OF ok])
    then show ?thesis using that [of b] 2 by simp
  qed
  have "cancel_order (show_nat (order_id e)) s =
      (Inr (Response ''OK Order cancelled.''), s\<lparr>userStore := us, orderBook := b\<rparr>)"
    using find uw rm assms(2,6) getOrdersForUser_ok [OF ok, of u]
    by (simp add: cancel_order_def stoi_show_nat lift_res_def bind_act_def on_book_def respond_def id del: map_map)
  then show ?thesis
    using assms(2,3) by (intro that [OF w un]) (simp add: handle_cancel_def try_catch_def)
qed

text \<open>
  C22: after an accepted \<open>ASK\<close> or \<open>BID\<close>, \<open>CANCEL\<close> with the printed identifier succeeds as long
  as the identifier is below \<open>2 ^ 31\<close>; afterwards the book holds exactly the orders it held
  before, the wallet's free balance is \<open>(b - x) + x\<close> and its locked balance \<open>(l + x) - x\<close>
  for the cost \<open>x\<close>, and every other balance is what it was.
\<close>

theorem place_then_cancel:
  assumes "session_ok s" and "session_user s = u" and "u \<noteq> []" and "int (nextId s) < 2 ^ 31"
    and "tokens = [c, pr, ta, tp]" and "stod ta = Inr a" and "stod tp = Inr p" and "value64 a"
    and "extractTokens (map toupper pr) (CHR ''/'') = [base, quote]"
    and "solvent free_balance locked_balance (wallet_of (userStore s) u)"
    and "handle_order ctime command tokens s = (Inr (Response t), s')" and "t \<noteq> ''ERR Invalid order''"
  shows "let x = lock_cost command a p; cur = lock_currency command base quote;
      (r, s'') = handle_cancel [d, show_nat (nextId s)] s'; w = wallet_of (userStore s) u; w'' = wallet_of (userStore s'') u in
    r = Inr (Response ''OK Order cancelled.'') \<and> mset (book_nodes (orderBook s'')) = mset (book_nodes (orderBook s)) \<and>
    moves free_balance locked_balance cur (\<lambda>b. (b - x) + x) (\<lambda>b. (b + x) - x) w w''"
proof -
  let ?x = "lock_cost command a p" and ?cur = "lock_currency command base quote"
  let ?e = "order_of ctime command (map toupper pr) a p u (nextId s)"
  let ?w = "wallet_of (userStore s) u" and ?w' = "wallet_of (userStore s') u"
  have bound: "int (nextId s) + 1 < 2 ^ 64" using assms(4) by simp
  note out = order_outcome [OF assms(1-3) bound assms(5-7,9,11), unfolded Let_def]
  have acc: "\<not> ?x < 0" "?x \<le> free_balance ?w ?cur"
    using out assms(12) by (auto split: if_splits)
  then have m: "moves free_balance locked_balance ?cur (\<lambda>b. b - ?x) (\<lambda>b. b + ?x) ?w ?w'"
    and b: "orderBook s' = insertOrder ?e (orderBook s)" using out by simp_all
  have ok': "session_ok s'" "session_user s' = u"
    using own.order_inv [where k = 0 and u = u, OF _ _ assms(11)] assms(1,2) bound by auto
  let ?b = "orderBook s'"
  have wf: "umap_wf (orderMap (orderBook s))" "book_ok ?b"
    using assms(1) ok' by (auto simp: session_ok_def server_ok_def book_ok_def)
  have live: "live ?b (next_addr (orderBook s)) = Some ?e"
    unfolding book_ok_live [OF wf(2)] by (simp add: b insertOrder_set_nodes [OF wf(1)])
  have ptr: "next_addr (orderBook s) \<in> set (user_ptrs ?b u)" unfolding b by simp
  have nan: "?x \<noteq> NaN" using acc(2) by (intro notI) simp
  then have pos: "0 \<le> ?x" using acc(1) by (simp add: dlt_iff_not_dle)
  have v: "value64 ?x" using assms(8) value64_times by (simp add: lock_cost_def)
  have "?x \<le> locked_balance ?w ?cur + ?x"
    using assms(10) v pos nan by (intro le_plus2) (auto simp: solvent_def)
  then have le: "?x \<le> locked_balance ?w' ?cur" using m by (simp add: moves_def)
  obtain y w where un: "unlockCurrency ?cur ?x ?w' = (y, w)" by fastforce
  from wallet.unlock_law [OF un] le
  have y: "y = Inr True" and m2: "moves free_balance locked_balance ?cur (\<lambda>b. b + ?x) (\<lambda>b. b - ?x) ?w' w" by auto
  have cc: "cancelOrder ?e ?w' = (Inr True, w)" using un y order_calls(2) [OF assms(9)] by simp
  have "int (order_id ?e) < 2 ^ 31" using assms(4) by simp
  from cancel_run [OF ok' assms(3) live ptr this cc, of d]
  obtain us b'' where r: "wallet_of us = (wallet_of (userStore s'))(u := w)" "unlink ?b (next_addr (orderBook s)) ?e b''"
    "handle_cancel [d, show_nat (nextId s)] s' =
      (Inr (Response ''OK Order cancelled.''), s'\<lparr>userStore := us, orderBook := b''\<rparr>)" by auto
  have "mset (book_nodes b'') = mset (book_nodes (orderBook s))"
    using r(2) insertOrder_nodes [OF wf(1), of ?e] by (simp add: unlink_def b)
  moreover have "moves free_balance locked_balance ?cur (\<lambda>b. (b - ?x) + ?x) (\<lambda>b. (b + ?x) - ?x) ?w w"
    using m m2 by (auto simp: moves_def)
  ultimately show ?thesis by (simp add: Let_def r)
qed

theorem place_then_cancel_witness:
  "fst (handle_cancel [''cancel'', ''4''] (snd (handle_order ''now\<newline>'' ''ASK'' [''ask'', ''a/b'', ''2'', ''9''] (ex_session ''u''))))
    = Inr (Response ''OK Order cancelled.'')"
proof -
  let ?h = "handle_order ''now\<newline>'' ''ASK'' [''ask'', ''a/b'', ''2'', ''9''] (ex_session ''u'')"
  have sol: "solvent free_balance locked_balance (wallet_of (userStore (ex_session ''u'')) ''u'')"
    using ex_wallet_solvent by (simp add: ex_session_def wallet_of_def umap_find_def)
  note out = order_outcome [where command = "''ASK''" and ctime = "''now\<newline>''" and u = "''u''" and c = "''ask''",
      OF ex_session_ok _ _ _ refl ex_order_numbers(1,2) ex_order_tokens surjective_pairing, of "''u''"]
  have "fst ?h = Inr (Response ''OK ASK placed for A/B'')"
    using out ex_free by (simp add: Let_def lock_cost_def lock_currency_def ex_order_numbers)
  then have h: "?h = (Inr (Response ''OK ASK placed for A/B''), snd ?h)" by (metis prod.collapse)
  from place_then_cancel [where u = "''u''" and d = "''cancel''",
      OF ex_session_ok _ _ _ refl ex_order_numbers(1,2) ex_values(1) ex_order_tokens _ h] sol
  show ?thesis by (simp add: Let_def ex_order_numbers split: prod.splits)
qed

end
