(* ===== verification/Interleaving_Properties.thy ===== *)
theory Interleaving_Properties
  imports Interleaving_Invariant Order_Commands
begin

text \<open>
  What interleaving can and cannot do: the invariant of every run, the steps that can end in undefined
  behaviour, and a session as the system with one connection. The races are in the theory Races.
\<close>

section \<open>The invariant of every run\<close>

lemma start_system_simps [simp]:
  "orderBook (start_system s) = orderBook s" "userStore (start_system s) = userStore s"
  "nextId (start_system s) = nextId s" "pendingProducts (start_system s) = pendingProducts s"
  "conns (start_system s) i = \<lparr>conn_user = [], conn_phase = Idle\<rparr>" "faulty (start_system s) = False"
  "tasks (start_system s) = []"
  by (simp_all add: start_system_def server.defs system.defs)

lemma start_system_ok:
  "server_ok s \<Longrightarrow> users_ok (userStore s) \<Longrightarrow> all_fine (orderBook s) \<Longrightarrow> system_ok (start_system s)"
  by (auto simp: system_ok_def server_ok_def conn_ok_def placing_def)

lemma reachable_ok:
  assumes "reachable srt G s0 s" and "\<And>ev. G ev \<Longrightarrow> good_event ev" and "std_sort srt"
    and "server_ok s0" and "users_ok (userStore s0)" and "all_fine (orderBook s0)"
  shows "system_ok s \<and> ((\<forall>i. \<not> G (ReadOrders i)) \<longrightarrow> \<not> faulty s)"
  using assms(1)
proof induction
  case initial
  then show ?case using start_system_ok assms by simp
next
  case (step s ev s')
  then show ?case
    using perform_step_keeps [of s ev srt s'] assms(2,3) by (auto simp: perform_def split: if_splits)
qed

text \<open>
  C23: in every run of clients and matching tasks, in any interleaving, as long as the clients
  send finite non-negative numbers: the book stays well formed, every order belongs to an
  account, and no free or locked balance ever becomes negative or NaN.
\<close>

theorem interleaving_invariant:
  assumes "reachable srt good_event s0 s" and "std_sort srt"
    and "server_ok s0" and "users_ok (userStore s0)" and "all_fine (orderBook s0)"
  shows "book_ok (orderBook s) \<and> owners_exist (orderBook s) (userStore s) \<and>
    (\<forall>u k. 0 \<le> free_balance (wallet_of (userStore s) u) k \<and> 0 \<le> locked_balance (wallet_of (userStore s) u) k)"
proof -
  have ok: "system_ok s" using reachable_ok [OF assms(1) _ assms(2-5)] by blast
  then show ?thesis
    using users_ok_wallet [of "userStore s"] by (auto simp: system_ok_def solvent_def)
qed


section \<open>Reached states\<close>

definition ex_empty :: server where
  "ex_empty = \<lparr>orderBook = \<lparr>filename = ''orders.csv'', finalizedSales = [], orderMap = [], userOrders = [], next_addr = 0\<rparr>,
     userStore = [], nextId = first_id, pendingProducts = [], isRunning = True\<rparr>"

lemma reached:
  assumes "map_option f (run_events srt evs (start_system s0)) = Some x" and "list_all G evs"
  shows "\<exists>s. reachable srt G s0 s \<and> f s = x"
  using assms run_events_reachable [OF reachable.initial assms(2)] by (auto simp: map_option_case split: option.splits)

text \<open>
  \<open>REGISTER\<close> asks for the name and adds the account in two critical sections, and \<open>addUser\<close>
  leaves an existing account alone.
\<close>

definition ex_takeover :: "event list" where
  "ex_takeover = [RegisterCheck 0 ''u'' ''x'', RegisterCheck 1 ''u'' ''y'', RegisterAdd 0, RegisterAdd 1]"

text \<open>
  Of two clients that register the same name at once, both are
  logged in to the one account, although one of them gave another password.
\<close>

lemma register_race_takes_account:
  "\<exists>s. reachable stable_sort good_event ex_empty s \<and> conn_user (conns s 1) = ''u'' \<and>
    validatePassword (user_at (userStore s) ''u'') ''x'' \<and> \<not> validatePassword (user_at (userStore s) ''u'') ''y''"
proof -
  have "map_option (\<lambda>s. (conn_user (conns s 1), validatePassword (user_at (userStore s) ''u'') ''x'',
      validatePassword (user_at (userStore s) ''u'') ''y'')) (run_events stable_sort ex_takeover (start_system ex_empty)) =
    Some (''u'', True, False)" and "list_all good_event ex_takeover" by code_simp+
  from reached [OF this] show ?thesis by auto
qed

lemma ex_empty_book: "book_ok (orderBook ex_empty)"
  by (simp add: ex_empty_def book_ok_def nodes_ok_def book_nodes_def index_ok_def)

lemma ex_empty_users: "users_ok (userStore ex_empty)"
  by (simp add: ex_empty_def users_ok_def)

lemma ex_empty_fine: "all_fine (orderBook ex_empty)"
  by (simp add: ex_empty_def all_fine_def book_nodes_def)

lemma ex_empty_server: "server_ok ex_empty"
  using ex_empty_book
  by (simp add: server_ok_def) (simp add: ex_empty_def ids_below_def owners_exist_def book_nodes_def accounts_ok_def)

lemmas ex_empty_ok = ex_empty_server ex_empty_users ex_empty_fine

definition ex_quiet :: "event list" where
  "ex_quiet = [RegisterCheck 0 ''u'' ''x'', RegisterAdd 0, Deposit 0 ''A'' (Fin 3),
     PlaceLock 0 Ask ''A/B'' (Fin 2) (Fin 3) ''t'', PlaceInsert 0, PlaceQueue 0]"

lemma ex_quiet_run:
  "map_option (\<lambda>s. map fst (book_nodes (orderBook s))) (run_events stable_sort ex_quiet (start_system ex_empty)) = Some [0]"
  "list_all good_event ex_quiet"
  by code_simp+

theorem interleaving_invariant_witness:
  "\<exists>s. reachable stable_sort good_event ex_empty s \<and> map fst (book_nodes (orderBook s)) = [0] \<and> book_ok (orderBook s)"
proof -
  from reached [OF ex_quiet_run] obtain s where
    s: "reachable stable_sort good_event ex_empty s" "map fst (book_nodes (orderBook s)) = [0]" by (elim exE conjE)
  have "book_ok (orderBook s)"
    by (rule conjunct1 [OF interleaving_invariant [OF s(1) stable.std_sort_axioms ex_empty_ok]])
  from s this show ?thesis by (intro exI [of _ s] conjI)
qed


section \<open>A session as a system\<close>

text \<open>A session as the system with this one connection.\<close>

definition alone :: "session \<Rightarrow> system" where
  "alone s = put_conn 0 (session_user s) Idle (start_system s)"

lemma truncate_eq: "server.truncate s = server.truncate s' \<longleftrightarrow>
    orderBook s = orderBook s' \<and> userStore s = userStore s' \<and> nextId s = nextId s' \<and>
    pendingProducts s = pendingProducts s' \<and> isRunning s = isRunning s'"
  by (cases s; cases s') (auto simp: server.defs)

lemma alone_simps [simp]:
  "orderBook (alone s) = orderBook s" "userStore (alone s) = userStore s" "nextId (alone s) = nextId s"
  "pendingProducts (alone s) = pendingProducts s" "isRunning (alone s) = isRunning s" "faulty (alone s) = False"
  "conns (alone s) 0 = \<lparr>conn_user = session_user s, conn_phase = Idle\<rparr>"
  by (simp_all add: alone_def) (simp add: put_conn_def start_system_def server.defs system.defs)

lemma put_conn_running [simp]: "isRunning (put_conn i u ph s) = isRunning s"
  by (simp add: put_conn_def)

end
