(* ===== verification/Rounding.thy ===== *)
theory Rounding
  imports Interleaving_Properties
begin

text \<open>
  A run without any race in which rounding makes a settlement fail: the funds a bid locks
  are the rounded product of its whole amount and its price, and the rounded costs of its
  partial fills can add up to more.
\<close>

section \<open>The numbers\<close>

text \<open>The doubles next to 0.1, 0.2 and 0.3.\<close>

definition tenth :: double where
  "tenth = Fin (3602879701896397 / 36028797018963968)"

definition fifth :: double where
  "fifth = Fin (3602879701896397 / 18014398509481984)"

definition three_tenths :: double where
  "three_tenths = Fin (5404319552844595 / 18014398509481984)"

lemma round_parsed: "rnd (1 / 10) = tenth" "rnd (2 / 10) = fifth" "rnd (3 / 10) = three_tenths"
  by code_simp+

lemma round_signs:
  "tenth < 0 \<longleftrightarrow> False" "fifth < 0 \<longleftrightarrow> False" "tenth \<le> 0 \<longleftrightarrow> False" "fifth \<le> 0 \<longleftrightarrow> False" "three_tenths \<le> 0 \<longleftrightarrow> False"
  "tenth < tenth \<longleftrightarrow> False" "tenth \<le> tenth \<longleftrightarrow> True" "tenth = NaN \<longleftrightarrow> False" "deq three_tenths tenth \<longleftrightarrow> False"
  "tenth < three_tenths \<longleftrightarrow> True" "Fin 1 < (0 :: double) \<longleftrightarrow> False" "0 + Fin 1 = (Fin 1 :: double)"
  by code_simp+

lemma round_funds:
  "tenth \<le> Fin 1 \<longleftrightarrow> True" "fifth \<le> Fin 1 - tenth \<longleftrightarrow> True" "three_tenths * tenth < 0 \<longleftrightarrow> False"
  "three_tenths * tenth \<le> Fin 1 \<longleftrightarrow> True" "tenth \<le> 0 + tenth + fifth \<longleftrightarrow> True"
  by code_simp+

text \<open>The last line is the failure: the second fill costs more than the first has left.\<close>

lemma round_fills:
  "tenth * tenth < 0 \<longleftrightarrow> False" "tenth * tenth \<le> 0 + three_tenths * tenth \<longleftrightarrow> True"
  "three_tenths - tenth \<le> 0 \<longleftrightarrow> False" "deq (three_tenths - tenth) fifth \<longleftrightarrow> False"
  "fifth < three_tenths - tenth \<longleftrightarrow> False" "three_tenths - tenth < fifth \<longleftrightarrow> True"
  "tenth * (three_tenths - tenth) \<le> (0 + three_tenths * tenth) - tenth * tenth \<longleftrightarrow> False"
  by code_simp+

lemmas round_numbers = round_signs round_funds round_fills

lemma round_good: "good_order tenth tenth" "good_order tenth fifth" "good_order tenth three_tenths" "payable (Fin 1)"
  by code_simp+

section \<open>The run\<close>

definition ex_round :: "event list" where
  "ex_round = [RegisterCheck 0 ''u'' ''x'', RegisterAdd 0, Deposit 0 ''A'' (Fin 1),
     PlaceLock 0 Ask ''A/B'' tenth tenth ''t'', PlaceInsert 0, PlaceQueue 0,
     PlaceLock 0 Ask ''A/B'' fifth tenth ''t'', PlaceInsert 0, PlaceQueue 0,
     RegisterCheck 1 ''v'' ''y'', RegisterAdd 1, Deposit 1 ''B'' (Fin 1),
     PlaceLock 1 Bid ''A/B'' three_tenths tenth ''t'', PlaceInsert 1, PlaceQueue 1]"

definition round_book :: book where
  "round_book = \<lparr>filename = ''orders.csv'', finalizedSales = [],
     orderMap = [(''A/B'', [(0, ex_order tenth tenth Ask ''u'' 1), (1, ex_order tenth fifth Ask ''u'' 2),
       (2, ex_order tenth three_tenths Bid ''v'' 3)])],
     userOrders = [(''u'', [0, 1]), (''v'', [2])], next_addr = 3\<rparr>"

definition round_users :: users where
  "round_users =
    [(''u'', (User ''u'' ''x'')\<lparr>wallet := \<lparr>currencies = [(''A'', Fin 1 - tenth - fifth)], locked = [(''A'', 0 + tenth + fifth)]\<rparr>\<rparr>),
     (''v'', (User ''v'' ''y'')\<lparr>wallet := \<lparr>currencies = [(''B'', Fin 1 - three_tenths * tenth)],
        locked = [(''B'', 0 + three_tenths * tenth)]\<rparr>\<rparr>)]"

definition round_state :: match_state where
  "round_state = \<lparr>m_book = round_book, m_users = round_users, m_sales = [], m_nextId = 4\<rparr>"

lemmas round_defs = round_book_def round_users_def ex_order_def

lemma round_ids: "size_t_succ (Suc 0) = 2" "size_t_succ 2 = 3" "size_t_succ 3 = 4" "size_t_succ 4 = 5"
  by code_simp+

lemma round_run:
  "map_option (\<lambda>s. (orderBook s, userStore s, nextId s)) (run_events stable_sort ex_round (start_system ex_empty)) =
    Some (round_book, round_users, 4)"
  by (simp add: ex_round_def ex_empty_def first_id_def start_system_def server.defs system.defs perform_def put_conn_def
      userExists_def umap_find_def addUser_def umap_emplace_def User_def default_user_def may_act_def on_wallet_def
      user_at_def getWallet_def insertCurrency_def omap_index_def omap_find_def umap_put_def empty_wallet_def
      round_numbers OrderBookEntry_def round_ids fulfillOrder_def ex_tokens lockCurrency_def containsAmmount_def
      insertOrder_def insert_node_def product_nodes_def umap_index_def user_ptrs_def round_defs Let_def
      cong: option.case_cong_weak)

lemma round_sorted: "sort_ptrs stable_sort compareByPriceAsc round_book [0, 1] = Inr [0, 1]"
  "sort_ptrs stable_sort compareByPriceDesc round_book [2] = Inr [2]"
  "umap_index [] (getOrders round_book ''A/B'') Ask = [0, 1]"
  "umap_index [] (getOrders round_book ''A/B'') Bid = [2]"
  by (simp_all add: sort_ptrs_def round_book_def deref_def live_def book_nodes_def sort_checked_def strict_weak_order_def
      compareByPriceAsc_def compareByPriceDesc_def ex_order_def round_signs getOrders_def umap_find_def umap_index_def
      umap_put_def)

lemma round_fields: "m_book round_state = round_book" "round_state\<lparr>m_sales := []\<rparr> = round_state"
  by (simp_all add: round_state_def)

lemma round_loops: "fst (match_asks ''A/B'' ''n'' [2] [0, 1] round_state) = Inl buyer_insufficient"
  by (simp add: round_state_def round_ids ex_size run_defs round_defs round_numbers default_user_def
      del: deq_def cong: bind_act_weak_cong)

text \<open>
  Two asks of 0.1 and 0.2 and a bid of 0.3, all at the price 0.1 and all with their funds
  locked, make the pass throw \<open>Buyer has insufficient funds\<close> in the middle of the settlement.
\<close>

lemma rounding_breaks_settlement:
  "\<exists>s. reachable stable_sort good_event ex_empty s \<and>
    fst (matchAsksToBids stable_sort ''A/B'' ''n''
      \<lparr>m_book = orderBook s, m_users = userStore s, m_sales = [], m_nextId = nextId s\<rparr>) = Inl buyer_insufficient"
proof -
  have "list_all good_event ex_round" using round_good by (simp add: ex_round_def)
  from reached [OF round_run this] obtain s where s: "reachable stable_sort good_event ex_empty s"
    and "(orderBook s, userStore s, nextId s) = (round_book, round_users, 4)" by (elim exE conjE)
  then have st: "\<lparr>m_book = orderBook s, m_users = userStore s, m_sales = [], m_nextId = nextId s\<rparr> = round_state"
    by (simp add: round_state_def)
  obtain t where "match_asks ''A/B'' ''n'' [2] [0, 1] round_state = (Inl buyer_insufficient, t)"
    using round_loops by (metis prod.collapse)
  then have "fst (matchAsksToBids stable_sort ''A/B'' ''n'' round_state) = Inl buyer_insufficient"
    by (simp add: matchAsksToBids_def round_fields round_sorted bind_act_def del: One_nat_def match_asks.simps)
  with s st show ?thesis by (intro exI [of _ s]) simp
qed

end
