(* ===== verification/Matching_Priority.thy ===== *)
theory Matching_Priority
  imports Matching_Pass
begin

text \<open>
  Price priority: in a pass, an order is only traded when every order of its side with a
  better price is filled.
\<close>

section \<open>Which amounts a run changes\<close>

lemma trade_effect_changes:
  assumes "trade_effect pr ts ap a bp b bk sls stop bk'" and "is_live bk q" and "amt bk' q \<noteq> amt bk q"
  shows "q = ap \<or> q = bp"
  using assms by cases (auto simp: amt_set_amount split: if_splits)

text \<open>An amount that a run of the inner loop changes is the ask's or that of a bid that meets its price.\<close>

lemma match_bids_changes:
  assumes run: "match_bids pr ts ap bids s = (r, s')" and "is_live (m_book s) q"
    and "amt (m_book s') q \<noteq> amt (m_book s) q"
  shows "q = ap \<or> (q \<in> set bids \<and> prc (m_book s) ap \<le> prc (m_book s) q)"
proof -
  let ?R = "\<lambda>x y. writes set_amount (fst x) (fst y) \<and> (is_live (fst x) ap \<longrightarrow> (\<forall>q. is_live (fst x) q \<longrightarrow>
    amt (fst y) q \<noteq> amt (fst x) q \<longrightarrow> q = ap \<or> (q \<in> set bids \<and> prc (fst x) ap \<le> prc (fst x) q)))"
  have "?R (m_book s, m_sales s) (m_book s', m_sales s')"
  proof (rule match_bids_rel [OF run])
    fix x y z :: "book \<times> entry list"
    assume a: "?R x y" "?R y z"
    then show "?R x z"
      using writes_is_live [of "fst x" "fst y"] writes_prc [of "fst x" "fst y"] by (auto intro: writes_trans) metis+
  next
    fix bk :: book and sl a b bp sls stop bk'
    assume l: "bp \<in> set bids" "live bk ap = Some a" "live bk bp = Some b" "price a \<le> price b"
      and te: "trade_effect pr ts ap a bp b bk sls stop bk'"
    have "q = ap \<or> (q \<in> set bids \<and> prc bk ap \<le> prc bk q)" if "is_live bk q" "amt bk' q \<noteq> amt bk q" for q
      using trade_effect_changes [OF te that] l by (auto simp: prc_def)
    then show "?R (bk, sl) (bk', sl @ sls)" using trade_effect_writes [OF te] by simp
  qed auto
  moreover have "is_live (m_book s) ap \<or> m_book s' = m_book s"
  proof -
    have "(\<lambda>x y. is_live (fst x) ap \<or> fst y = fst x) (m_book s, m_sales s) (m_book s', m_sales s')"
      by (rule match_bids_rel [OF run]) (auto simp: is_live_def)
    then show ?thesis by simp
  qed
  ultimately show ?thesis using assms(2,3) by auto
qed

lemma shrinks_open:
  assumes "shrinks b b'" and "is_live b q" and "\<not> amt b' q \<le> 0"
  shows "\<not> amt b q \<le> 0"
proof (cases "amt b' q = NaN")
  case True
  then have "amt b q = NaN" using assms(1,2) by (auto simp: shrinks_def)
  then show ?thesis by (simp add: dle_not_nan)
next
  case False
  then have "0 < amt b' q" using assms(3) by (simp add: dlt_iff_not_dle)
  then have "0 < amt b q" using assms(1,2) by (auto simp: shrinks_def)
  then show ?thesis by (rule dlt_not_dle)
qed

text \<open>An ask whose amount a run of the outer loop changes met a bid that could still be filled.\<close>

lemma match_asks_changes:
  assumes run: "match_asks pr ts bids asks s = (r, s')" and "q \<notin> set bids"
    and live: "\<forall>p\<in>insert q (set bids). is_live (m_book s) p" and "amt (m_book s') q \<noteq> amt (m_book s) q"
  shows "\<exists>bp\<in>set bids. \<not> amt (m_book s) bp \<le> 0 \<and> prc (m_book s) q \<le> prc (m_book s) bp"
proof -
  let ?P = "\<lambda>b. \<exists>bp\<in>set bids. \<not> amt b bp \<le> 0 \<and> prc b q \<le> prc b bp"
  let ?L = "\<lambda>b. \<forall>p\<in>insert q (set bids). is_live b p"
  let ?R = "\<lambda>x y. writes set_amount (fst x) (fst y) \<and> shrinks (fst x) (fst y) \<and>
    (?L (fst x) \<longrightarrow> amt (fst y) q \<noteq> amt (fst x) q \<longrightarrow> ?P (fst x))"
  have "?R (m_book s, m_sales s) (m_book s', m_sales s')"
  proof (rule match_asks_rel [OF run])
    fix x y z :: "book \<times> entry list"
    assume a: "?R x y" "?R y z"
    have "?P (fst x)" if l: "?L (fst x)" and c: "amt (fst z) q \<noteq> amt (fst x) q"
    proof (cases "amt (fst y) q = amt (fst x) q")
      case True
      have "?L (fst y)" using l a(1) writes_is_live by blast
      then obtain bp where bp: "bp \<in> set bids" "\<not> amt (fst y) bp \<le> 0" "prc (fst y) q \<le> prc (fst y) bp"
        using a(2) c True by metis
      then have "\<not> amt (fst x) bp \<le> 0" using shrinks_open a(1) l by blast
      then show ?thesis using bp l a(1) writes_prc by (metis insertCI)
    qed (use a(1) l in auto)
    then show "?R x z" using a by (auto intro: writes_trans shrinks_trans)
  next
    fix bk :: book and sl ap a b bp sls stop bk'
    assume l: "bp \<in> set bids" "live bk ap = Some a" "live bk bp = Some b" "\<not> amount b \<le> 0" "price a \<le> price b"
      and te: "trade_effect pr ts ap a bp b bk sls stop bk'"
    have "?P bk" if "?L bk" "amt bk' q \<noteq> amt bk q"
    proof -
      have "q = ap" using trade_effect_changes [OF te _ that(2)] that(1) l(1) assms(2) by auto
      then show ?thesis using l by (auto simp: amt_def prc_def intro!: bexI [of _ bp])
    qed
    then show "?R (bk, sl) (bk', sl @ sls)"
      using trade_effect_writes [OF te] trade_effect_shrinks [OF te l(2,3,4)] by auto
  qed (auto intro: shrinks_refl)
  then show ?thesis using assms(3,4) by simp
qed

section \<open>Bids: the better price first\<close>

lemma match_bids_priority:
  assumes "match_bids pr ts ap bids s = (r, s')" and "is_live (m_book s) ap"
    and "\<forall>p\<in>set bids. is_live (m_book s) p \<and> p \<noteq> ap" and "distinct bids"
    and "sorted_wrt (\<lambda>p q. \<not> prc (m_book s) p < prc (m_book s) q) bids"
    and "amt (m_book s) ap \<noteq> NaN" and "p \<in> set bids" "q \<in> set bids"
    and "prc (m_book s) q < prc (m_book s) p" and "amt (m_book s') q \<noteq> amt (m_book s) q"
  shows "\<not> 0 < amt (m_book s') p"
  using assms
proof (induction bids arbitrary: s)
  case (Cons x bids)
  obtain a b where a: "live (m_book s) ap = Some a" and b: "live (m_book s) x = Some b"
    using Cons.prems(2,3) by (auto simp: is_live_def)
  have am: "amt (m_book s) x = amount b" "prc (m_book s) x = price b" "prc (m_book s) ap = price a"
    using a b by (simp_all add: amt_def prc_def)
  have qx: "q \<noteq> x" using Cons.prems(5,7,9) by auto
  then have q: "q \<in> set bids" using Cons.prems(8) by simp
  have rest: "\<not> 0 < amt (m_book s') p"
    if run: "match_bids pr ts ap bids s1 = (r, s')" and w: "writes set_amount (m_book s) (m_book s1)"
      and sh: "shrinks (m_book s) (m_book s1)" and qq: "amt (m_book s1) q = amt (m_book s) q"
      and px: "p = x \<Longrightarrow> \<not> 0 < amt (m_book s1) x" for s1
  proof (cases "p = x")
    case True
    then show ?thesis
      using px match_bids_shrinks [OF run] Cons.prems(3) writes_is_live [OF w] by (auto simp: shrinks_def)
  next
    case False
    have prc: "prc (m_book s1) z = prc (m_book s) z" if "z \<in> set (x # bids)" for z
      using writes_prc [OF w] Cons.prems(3) that by blast
    have st: "sorted_wrt (\<lambda>p q. \<not> prc (m_book s1) p < prc (m_book s1) q) bids"
      by (rule sorted_wrt_mono_rel [of _ "\<lambda>p q. \<not> prc (m_book s) p < prc (m_book s) q"])
        (use Cons.prems(5) prc in auto)
    show ?thesis
      using Cons.prems(2-4,6-10) False qq sh prc q writes_is_live [OF w]
      by (intro Cons.IH [OF run _ _ _ st]) (auto simp: shrinks_def)
  qed
  show ?case
  proof (cases "amount b \<le> 0 \<or> \<not> price a \<le> price b")
    case True
    then have run: "match_bids pr ts ap bids s = (r, s')"
      using Cons.prems(1) by (auto simp: deref_live [OF a] deref_live [OF b] split: if_splits)
    have "prc (m_book s) ap \<le> prc (m_book s) q"
      using match_bids_changes [OF run _ Cons.prems(10)] Cons.prems(3,8) by auto
    then have "price a \<le> price b" if "p = x"
      using Cons.prems(9) am that dle_dlt_trans dlt_imp_dle by metis
    then have "\<not> 0 < amt (m_book s) x" if "p = x" using True that am dlt_not_dle by auto
    then show ?thesis by (intro rest [OF run]) (auto intro: shrinks_refl)
  next
    case False
    then have "bind_act (trade pr ts ap a x b)
        (\<lambda>stop. if stop then return_act () else match_bids pr ts ap bids) s = (r, s')"
      using Cons.prems(1) by (simp add: deref_live [OF a] deref_live [OF b])
    then obtain y s1 where tr: "trade pr ts ap a x b s = (y, s1)"
      and after: "(case y of Inr False \<Rightarrow> match_bids pr ts ap bids s1 = (r, s') | _ \<Rightarrow> s' = s1)"
      by (elim bind_act_cases) (auto split: if_splits)
    from tr obtain sls stop where te: "trade_effect pr ts ap a x b (m_book s) sls stop (m_book s1)"
      and y: "\<And>z. y = Inr z \<Longrightarrow> z = stop"
      and none: "\<And>z. y = Inr z \<Longrightarrow> sls = [] \<Longrightarrow> \<not> deq (amount b) (amount a) \<and> \<not> amount a < amount b \<and> \<not> amount b < amount a"
      by (rule trade_cases) blast
    have qq: "amt (m_book s1) q = amt (m_book s) q"
      using trade_effect_changes [OF te] qx Cons.prems(3,8) by auto
    then have yf: "y = Inr False" using after Cons.prems(10) by (cases y) (auto split: bool.splits)
    note sh = trade_effect_shrinks [OF te a b] 
    have "\<not> 0 < amt (m_book s1) x \<or> amt (m_book s1) ap = NaN"
      using trade_effect_continues [OF te a b] none y yf Cons.prems(3) by auto
    then have "\<not> 0 < amt (m_book s1) x"
      using sh False Cons.prems(2,6) by (auto simp: shrinks_def)
    then show ?thesis
      using after yf False sh qq trade_effect_writes [OF te] by (intro rest) auto
  qed
qed simp

lemma writes_sorted:
  assumes w: "writes set_amount b b'" and live: "\<forall>p\<in>set ps. is_live b p"
  shows "sorted_wrt (\<lambda>p q. \<not> prc b' p < prc b' q) ps = sorted_wrt (\<lambda>p q. \<not> prc b p < prc b q) ps"
    and "sorted_wrt (\<lambda>p q. \<not> prc b' q < prc b' p) ps = sorted_wrt (\<lambda>p q. \<not> prc b q < prc b p) ps"
  using live writes_prc [OF w] by (induction ps) auto

lemma match_asks_bid_priority:
  assumes "match_asks pr ts bids asks s = (r, s')" and "\<forall>p\<in>set asks \<union> set bids. is_live (m_book s) p"
    and "set asks \<inter> set bids = {}" and "distinct bids"
    and "sorted_wrt (\<lambda>p q. \<not> prc (m_book s) p < prc (m_book s) q) bids"
    and "\<forall>p\<in>set asks. amt (m_book s) p \<noteq> NaN" and "p \<in> set bids" "q \<in> set bids"
    and "prc (m_book s) q < prc (m_book s) p" and "amt (m_book s') q \<noteq> amt (m_book s) q"
  shows "\<not> 0 < amt (m_book s') p"
  using assms
proof (induction asks arbitrary: s)
  case (Cons x asks)
  obtain a where a: "live (m_book s) x = Some a" using Cons.prems(2) by (auto simp: is_live_def)
  show ?case
  proof (cases "amount a \<le> 0")
    case True
    then have "match_asks pr ts bids asks s = (r, s')" using Cons.prems(1) by (simp add: deref_live [OF a])
    then show ?thesis using Cons.prems(2-10) by (intro Cons.IH) auto
  next
    case False
    then have "bind_act (match_bids pr ts x bids) (\<lambda>_. match_asks pr ts bids asks) s = (r, s')"
      using Cons.prems(1) by (simp add: deref_live [OF a])
    then obtain y s1 where inner: "match_bids pr ts x bids s = (y, s1)"
      and after: "s' = s1 \<or> match_asks pr ts bids asks s1 = (r, s')"
      by (elim bind_act_cases) auto
    note w = match_bids_writes [OF inner] and sh = match_bids_shrinks [OF inner]
    have sh': "shrinks (m_book s1) (m_book s')" using after match_asks_shrinks shrinks_refl by blast
    show ?thesis
    proof (cases "amt (m_book s1) q = amt (m_book s) q")
      case False
      have "\<not> 0 < amt (m_book s1) p"
        using Cons.prems False by (intro match_bids_priority [OF inner, of p q]) auto
      then show ?thesis using sh' Cons.prems(2,7) writes_is_live [OF w] by (auto simp: shrinks_def)
    next
      case True
      then have run: "match_asks pr ts bids asks s1 = (r, s')" using after Cons.prems(10) by auto
      have prc: "prc (m_book s1) z = prc (m_book s) z" if "z \<in> set bids" for z
        using writes_prc [OF w] Cons.prems(2) that by auto
      have st: "sorted_wrt (\<lambda>p q. \<not> prc (m_book s1) p < prc (m_book s1) q) bids"
        using writes_sorted(1) [OF w] Cons.prems(2,5) by auto
      show ?thesis
        using Cons.prems(2-4,6-10) True prc sh writes_is_live [OF w]
        by (intro Cons.IH [OF run _ _ _ st]) (auto simp: shrinks_def)
    qed
  qed
qed simp

section \<open>Asks: the better price first\<close>

lemma match_asks_ask_priority:
  assumes "match_asks pr ts bids asks s = (r, s')" and "\<forall>p\<in>set asks \<union> set bids. is_live (m_book s) p"
    and "set asks \<inter> set bids = {}" and "distinct asks"
    and "sorted_wrt (\<lambda>p q. \<not> prc (m_book s) q < prc (m_book s) p) asks"
    and "\<forall>p\<in>set bids. amt (m_book s) p \<noteq> NaN" and "p \<in> set asks" "q \<in> set asks"
    and "prc (m_book s) p < prc (m_book s) q" and "amt (m_book s') q \<noteq> amt (m_book s) q"
  shows "\<not> 0 < amt (m_book s') p"
  using assms
proof (induction asks arbitrary: s)
  case (Cons x asks)
  obtain a where a: "live (m_book s) x = Some a" using Cons.prems(2) by (auto simp: is_live_def)
  have qx: "q \<noteq> x" using Cons.prems(5,7,9) by auto
  then have q: "q \<in> set asks" "q \<notin> set bids" using Cons.prems(3,8) by auto
  have rest: "\<not> 0 < amt (m_book s') p"
    if run: "match_asks pr ts bids asks s1 = (r, s')" and w: "writes set_amount (m_book s) (m_book s1)"
      and sh: "shrinks (m_book s) (m_book s1)" and qq: "amt (m_book s1) q = amt (m_book s) q"
      and px: "p = x \<Longrightarrow> \<not> 0 < amt (m_book s1) x" for s1
  proof (cases "p = x")
    case True
    then show ?thesis
      using px match_asks_shrinks [OF run] Cons.prems(2) writes_is_live [OF w] by (auto simp: shrinks_def)
  next
    case False
    have prc: "prc (m_book s1) z = prc (m_book s) z" if "z \<in> set (x # asks)" for z
      using writes_prc [OF w] Cons.prems(2) that by auto
    have st: "sorted_wrt (\<lambda>p q. \<not> prc (m_book s1) q < prc (m_book s1) p) asks"
      using writes_sorted(2) [OF w] Cons.prems(2,5) by auto
    show ?thesis
      using Cons.prems(2-4,6-10) False qq sh prc q writes_is_live [OF w]
      by (intro Cons.IH [OF run _ _ _ st]) (auto simp: shrinks_def)
  qed
  show ?case
  proof (cases "amount a \<le> 0")
    case True
    then have run: "match_asks pr ts bids asks s = (r, s')" using Cons.prems(1) by (simp add: deref_live [OF a])
    show ?thesis using True a dlt_not_dle
      by (intro rest [OF run]) (auto intro: shrinks_refl simp: amt_def)
  next
    case False
    then have "bind_act (match_bids pr ts x bids) (\<lambda>_. match_asks pr ts bids asks) s = (r, s')"
      using Cons.prems(1) by (simp add: deref_live [OF a])
    then obtain y s1 where inner: "match_bids pr ts x bids s = (y, s1)"
      and after: "y = Inr () \<and> match_asks pr ts bids asks s1 = (r, s') \<or> s' = s1"
      by (elim bind_act_cases) auto
    note w = match_bids_writes [OF inner] and sh = match_bids_shrinks [OF inner]
    have qq: "amt (m_book s1) q = amt (m_book s) q"
      using match_bids_changes [OF inner, of q] qx q Cons.prems(2) by auto
    then have y: "y = Inr ()" and run: "match_asks pr ts bids asks s1 = (r, s')"
      using after Cons.prems(10) by auto
    have "\<not> 0 < amt (m_book s1) x" if px: "p = x"
    proof
      assume pos: "0 < amt (m_book s1) x"
      have live1: "\<forall>z\<in>insert q (set bids). is_live (m_book s1) z"
        using Cons.prems(2,8) writes_is_live [OF w] by auto
      obtain bp where bp: "bp \<in> set bids" "\<not> amt (m_book s1) bp \<le> 0" "prc (m_book s1) q \<le> prc (m_book s1) bp"
        using match_asks_changes [OF run q(2) live1] qq Cons.prems(10) by auto
      have "amt (m_book s1) bp \<noteq> NaN" using sh Cons.prems(2,6) bp(1) by (auto simp: shrinks_def)
      then have "0 < amt (m_book s1) bp" using bp(2) by (simp add: dlt_iff_not_dle)
      moreover have "prc (m_book s1) x < prc (m_book s1) q"
        using Cons.prems(2,8,9) px writes_prc [OF w] by auto
      then have "prc (m_book s1) x \<le> prc (m_book s1) bp" using bp(3) dlt_dle_trans dlt_imp_dle by blast
      ultimately have "crossing (m_book s1) x bp" using pos by (simp add: crossing_def)
      moreover have "\<not> crossing (m_book s1) x bp"
        using inner y Cons.prems(2,3) bp(1) by (intro match_bids_uncrossed) auto
      ultimately show False by simp
    qed
    then show ?thesis using sh qq w by (intro rest [OF run]) auto
  qed
qed simp

section \<open>The whole pass\<close>

definition worse :: "entry \<Rightarrow> entry \<Rightarrow> bool" where
  "worse f e \<longleftrightarrow> orderType f = orderType e \<and>
    (orderType e = Bid \<and> price f < price e \<or> orderType e = Ask \<and> price e < price f)"

lemma run_priority:
  assumes pr: "pass_run pr ts s asks bids r s1" and ok: "book_ok (m_book s)" and cmp: "comparable (m_book s) pr"
    and e: "(p, e) \<in> set (product_nodes (m_book s) pr)" and f: "(q, f) \<in> set (product_nodes (m_book s) pr)"
    and worse: "worse f e" and changed: "amt (m_book s1) q \<noteq> amount f"
  shows "\<not> 0 < amt (m_book s1) p"
proof -
  note sets = pass_run_sets [OF pr] and dist = pass_run_distinct [OF pr ok]
  have live: "live (m_book s) p = Some e" "live (m_book s) q = Some f"
    using e f ok product_nodes_subset [of "m_book s" pr] by (auto simp: book_ok_live)
  have sides: "p \<in> set (side (m_book s) pr (orderType e))" "q \<in> set (side (m_book s) pr (orderType f))"
    using e f by (force simp: side_def)+
  have all: "\<forall>z\<in>set asks \<union> set bids. is_live (m_book s) z" using sets side_facts(1) [OF ok] by blast
  have nan: "\<forall>z\<in>set asks. amt (m_book s) z \<noteq> NaN" "\<forall>z\<in>set bids. amt (m_book s) z \<noteq> NaN"
    using sets side_facts(3) [OF ok cmp] by blast+
  have disj: "set asks \<inter> set bids = {}" using sets side_facts(2) [OF ok] by simp
  have prcs: "prc (m_book s) p = price e" "prc (m_book s) q = price f" "amt (m_book s) q = amount f"
    using live by (simp_all add: prc_def amt_def)
  from pr have run: "match_asks pr ts bids asks (s\<lparr>m_sales := []\<rparr>) = (r, s1)"
    and sa: "sorted_wrt (\<lambda>p q. \<not> prc (m_book s) q < prc (m_book s) p) asks"
    and sb: "sorted_wrt (\<lambda>p q. \<not> prc (m_book s) p < prc (m_book s) q) bids" by (simp_all add: pass_run_def)
  from worse consider "orderType e = Bid" "orderType f = Bid" "price f < price e"
    | "orderType e = Ask" "orderType f = Ask" "price e < price f"
    by (auto simp: worse_def)
  then show ?thesis
  proof cases
    case 1
    then show ?thesis
      using sets sides prcs changed all disj dist nan sb
      by (intro match_asks_bid_priority [OF run, of p q]) auto
  next
    case 2
    then show ?thesis
      using sets sides prcs changed all disj dist nan sa
      by (intro match_asks_ask_priority [OF run, of p q]) auto
  qed
qed

lemma node_product_ex:
  assumes "book_ok b" and "n \<in> set (book_nodes b)"
  shows "\<exists>k. n \<in> set (product_nodes b k)"
proof -
  obtain k ns where kn: "(k, ns) \<in> set (orderMap b)" "n \<in> set ns"
    using assms(2) by (auto simp: book_nodes_def)
  have "umap_find (orderMap b) k = Some ns"
    using assms(1) kn(1) by (simp add: book_ok_def umap_wf_def umap_find_def)
  then show ?thesis using kn(2) find_product_nodes by metis
qed

lemma pruned_live:
  assumes pru: "pruned pr (insertSales sl b) b'" and ok: "book_ok b" "book_ok b'"
  shows "live b' p = Some e \<Longrightarrow> live b p = Some e"
    and "(p, e) \<in> set (product_nodes b pr) \<Longrightarrow> \<not> amount e \<le> 0 \<Longrightarrow> live b' p = Some e"
proof -
  assume "live b' p = Some e"
  then obtain k where k: "(p, e) \<in> set (product_nodes b' k)"
    using node_product_ex [OF ok(2)] by (auto simp: book_ok_live [OF ok(2)])
  then have "(p, e) \<in> set (product_nodes b k)" using pru by (cases "k = pr") (auto simp: pruned_def)
  then show "live b p = Some e" using product_nodes_subset [of b k] by (auto simp: book_ok_live [OF ok(1)])
next
  assume "(p, e) \<in> set (product_nodes b pr)" "\<not> amount e \<le> 0"
  then have "(p, e) \<in> set (product_nodes b' pr)" using pru by (auto simp: pruned_def)
  then show "live b' p = Some e" using product_nodes_subset [of b' pr] by (auto simp: book_ok_live [OF ok(2)])
qed

lemma writes_unchanged:
  "writes set_amount b b' \<Longrightarrow> live b q = Some f \<Longrightarrow> amt b' q = amount f \<Longrightarrow> live b' q = Some f"
  using nodes.writes_read [of b b' q f] by (auto simp: amt_def)

text \<open>
  C2: price priority. If a pass changes or removes an open order, then no
  order of the same side with a strictly better price has anything left to fill, whether the
  pass returns or throws.
\<close>

theorem pass_price_priority:
  assumes "matchAsksToBids srt pr ts s = (r, s')" and "book_ok (m_book s)"
    and "std_sort srt" and "comparable (m_book s) pr"
    and "(p, e) \<in> set (product_nodes (m_book s) pr)" and "(q, f) \<in> set (product_nodes (m_book s) pr)"
    and "worse f e" and "0 < amount f" and "live (m_book s') q \<noteq> Some f"
  shows "case live (m_book s') p of Some e' \<Rightarrow> \<not> 0 < amount e' | None \<Rightarrow> True"
  using assms(1-4)
proof (cases rule: match_cases)
  case (threw asks bids x)
  have "live (m_book s) q = Some f"
    using assms(2,6) product_nodes_subset [of "m_book s" pr] by (auto simp: book_ok_live)
  then have "amt (m_book s') q \<noteq> amount f"
    using writes_unchanged [OF pass_run_writes [OF threw(1)]] assms(9) by blast
  then show ?thesis
    using run_priority [OF threw(1) assms(2,4-7)] by (auto simp: amt_def split: option.split)
next
  case (returned asks bids s1 b')
  note w = pass_run_writes [OF returned(1)]
  have ok1: "book_ok (m_book s1)" by (rule writes_ok [OF w assms(2)])
  note pl = pruned_live [OF returned(4) ok1 returned(3)]
  have l: "live (m_book s) q = Some f"
    using assms(2,6) product_nodes_subset [of "m_book s" pr] by (auto simp: book_ok_live)
  have "amt (m_book s1) q \<noteq> amount f"
  proof
    assume "amt (m_book s1) q = amount f"
    then have lq: "live (m_book s1) q = Some f" by (rule writes_unchanged [OF w l])
    have "q \<in> fst ` set (product_nodes (m_book s1) pr)"
      using assms(6) writes_product [OF w, of pr] by (metis fst_conv image_eqI list.set_map)
    then obtain f' where f': "(q, f') \<in> set (product_nodes (m_book s1) pr)" by auto
    then have "live (m_book s1) q = Some f'"
      using product_nodes_subset [of "m_book s1" pr] by (auto simp: book_ok_live [OF ok1])
    then have "(q, f) \<in> set (product_nodes (m_book s1) pr)" using lq f' by simp
    then have "live b' q = Some f" using pl(2) dlt_not_dle [OF assms(8)] by blast
    then show False using assms(9) returned(5) by simp
  qed
  then have "\<not> 0 < amt (m_book s1) p" by (rule run_priority [OF returned(1) assms(2,4-7)])
  moreover have "live (m_book s1) p = Some e'" if "live (m_book s') p = Some e'" for e'
    using pl(1) that returned(5) by simp
  ultimately show ?thesis by (auto simp: amt_def split: option.split)
qed

theorem pass_price_priority_witness:
  "case live (m_book (snd (matchAsksToBids stable_sort ''A/B'' ''n'' ex_state))) 1 of
     Some e' \<Rightarrow> \<not> 0 < amount e' | None \<Rightarrow> True"
  using pass_price_priority [of stable_sort "''A/B''" "''n''" ex_state "Inr ex_sales" ex_after 1
      "ex_order (Fin 5) (Fin 2) Bid ''b'' 1" 2 "ex_order (Fin 4) (Fin 2) Bid ''b'' 2"]
  by (simp add: ex_run ex_book_ok ex_comparable stable.std_sort_axioms ex_nodes worse_def
      ex_order_def ex_after_live)

end
