(* ===== verification/Matching_Sales.thy ===== *)
theory Matching_Sales
  imports Matching_Priority
begin

text \<open>
  The sales a pass records: their prices and fields, and their amounts, which add up to what
  left each side of the book as long as amounts are integers below \<open>2 ^ 53\<close>.
\<close>

section \<open>The sales of a pass\<close>

definition sale_of :: "book \<Rightarrow> string \<Rightarrow> string \<Rightarrow> addr list \<Rightarrow> addr list \<Rightarrow> entry \<Rightarrow> bool" where
  "sale_of b pr ts asks bids sl \<longleftrightarrow> orderType sl = Sale \<and> username sl = default_user \<and> timestamp sl = ts \<and>
     product sl = pr \<and> (\<exists>p\<in>set asks. \<exists>q\<in>set bids. price sl = prc b p \<and> prc b p \<le> prc b q)"

lemma trade_effect_sale:
  assumes te: "trade_effect pr ts ap a bp b bk sls stop bk'" and "live bk ap = Some a" "live bk bp = Some b"
    and "price a \<le> price b" and w: "writes set_amount b0 bk"
    and live: "is_live b0 ap" "is_live b0 bp" and "ap \<in> set asks" "bp \<in> set bids"
  shows "list_all (sale_of b0 pr ts asks bids) sls \<and> list_all (\<lambda>sl. price sl = prc b0 ap) sls"
proof -
  have pr: "prc b0 ap = price a" "prc b0 bp = price b"
    using writes_prc [OF w live(1)] writes_prc [OF w live(2)] assms(2,3) by (simp_all add: prc_def)
  have sale: "sale_of b0 pr ts asks bids sl \<and> price sl = prc b0 ap" if "is_sale pr ts (price a) v sl" for v sl
    using that pr assms(4,8,9) unfolding is_sale_def sale_of_def by metis
  from te show ?thesis by cases (auto dest: sale)
qed

lemma match_bids_sales:
  assumes run: "match_bids pr ts ap bids s = (r, s')" and w0: "writes set_amount b0 (m_book s)"
    and live: "\<forall>p\<in>insert ap (set bids). is_live b0 p" and ap: "ap \<in> set asks"
  shows "\<exists>sls. m_sales s' = m_sales s @ sls \<and> list_all (sale_of b0 pr ts asks bids) sls \<and>
    list_all (\<lambda>sl. price sl = prc b0 ap) sls"
proof -
  let ?R = "\<lambda>x y. writes set_amount b0 (fst x) \<longrightarrow> writes set_amount b0 (fst y) \<and>
    (\<exists>sls. snd y = snd x @ sls \<and> list_all (sale_of b0 pr ts asks bids) sls \<and>
      list_all (\<lambda>sl. price sl = prc b0 ap) sls)"
  have "?R (m_book s, m_sales s) (m_book s', m_sales s')"
  proof (rule match_bids_rel [OF run])
    fix x y z :: "book \<times> entry list"
    assume R: "?R x y" "?R y z"
    show "?R x z"
    proof
      assume w: "writes set_amount b0 (fst x)"
      from R(1) w obtain s1 where s1: "snd y = snd x @ s1" "list_all (sale_of b0 pr ts asks bids) s1"
        "list_all (\<lambda>sl. price sl = prc b0 ap) s1" "writes set_amount b0 (fst y)" by blast
      from R(2) s1(4) obtain s2 where s2: "snd z = snd y @ s2" "list_all (sale_of b0 pr ts asks bids) s2"
        "list_all (\<lambda>sl. price sl = prc b0 ap) s2" "writes set_amount b0 (fst z)" by blast
      show "writes set_amount b0 (fst z) \<and> (\<exists>sls. snd z = snd x @ sls \<and>
          list_all (sale_of b0 pr ts asks bids) sls \<and> list_all (\<lambda>sl. price sl = prc b0 ap) sls)"
        using s1 s2 by (intro conjI exI [of _ "s1 @ s2"]) simp_all
    qed
  next
    fix bk :: book and sl a b bp sls stop bk'
    assume l: "bp \<in> set bids" "live bk ap = Some a" "live bk bp = Some b" "price a \<le> price b"
      and te: "trade_effect pr ts ap a bp b bk sls stop bk'"
    show "?R (bk, sl) (bk', sl @ sls)"
      using trade_effect_sale [OF te l(2,3,4)] live l(1) ap
        writes_trans [OF trade_effect_writes [OF te]] by simp
  qed auto
  then show ?thesis using w0 by simp
qed

lemma match_asks_sales:
  assumes "match_asks pr ts bids asks s = (r, s')" and "writes set_amount b0 (m_book s)"
    and "\<forall>p\<in>set asks \<union> set bids. is_live b0 p" and "set asks \<subseteq> set asks0"
    and "sorted_wrt (\<lambda>p q. \<not> prc b0 q < prc b0 p) asks"
  shows "\<exists>sls. m_sales s' = m_sales s @ sls \<and> list_all (sale_of b0 pr ts asks0 bids) sls \<and>
    (\<forall>sl\<in>set sls. \<exists>p\<in>set asks. price sl = prc b0 p) \<and> sorted_wrt (\<lambda>x y. \<not> price y < price x) sls"
  using assms
proof (induction asks arbitrary: s)
  case (Cons x asks)
  have live: "is_live (m_book s) x" using Cons.prems(2,3) writes_is_live by auto
  then obtain a where a: "live (m_book s) x = Some a" by (auto simp: is_live_def)
  show ?case
  proof (cases "amount a \<le> 0")
    case True
    then have "match_asks pr ts bids asks s = (r, s')" using Cons.prems(1) by (simp add: deref_live [OF a])
    from Cons.IH [OF this Cons.prems(2)] Cons.prems(3-5) show ?thesis by fastforce
  next
    case False
    then have "bind_act (match_bids pr ts x bids) (\<lambda>_. match_asks pr ts bids asks) s = (r, s')"
      using Cons.prems(1) by (simp add: deref_live [OF a])
    then obtain y s1 where inner: "match_bids pr ts x bids s = (y, s1)"
      and after: "s' = s1 \<or> match_asks pr ts bids asks s1 = (r, s')"
      by (elim bind_act_cases) auto
    obtain sl1 where sl1: "m_sales s1 = m_sales s @ sl1" "list_all (sale_of b0 pr ts asks0 bids) sl1"
      "list_all (\<lambda>sl. price sl = prc b0 x) sl1"
      using match_bids_sales [OF inner Cons.prems(2), of asks0] Cons.prems(3,4) by auto
    have sorted1: "sorted_wrt (\<lambda>x y. \<not> price y < price x) sl1"
      using sl1(3) by (induction sl1) (auto simp: list_all_iff)
    show ?thesis
    proof (cases "s' = s1")
      case True
      then show ?thesis using sl1 sorted1 by (auto simp: list_all_iff)
    next
      case False
      then have run: "match_asks pr ts bids asks s1 = (r, s')" using after by simp
      have "writes set_amount b0 (m_book s1)" using match_bids_writes [OF inner] Cons.prems(2) by (rule writes_trans)
      from Cons.IH [OF run this] Cons.prems(3-5) obtain sl2 where sl2: "m_sales s' = m_sales s1 @ sl2"
        "list_all (sale_of b0 pr ts asks0 bids) sl2" "\<forall>sl\<in>set sl2. \<exists>p\<in>set asks. price sl = prc b0 p"
        "sorted_wrt (\<lambda>x y. \<not> price y < price x) sl2" by auto
      have "\<not> price v < price u" if "u \<in> set sl1" "v \<in> set sl2" for u v
        using that sl1(3) sl2(3) Cons.prems(5) by (auto simp: list_all_iff)
      then have "sorted_wrt (\<lambda>x y. \<not> price y < price x) (sl1 @ sl2)"
        using sorted1 sl2(4) by (simp add: sorted_wrt_append)
      moreover have "\<forall>sl\<in>set (sl1 @ sl2). \<exists>p\<in>set (x # asks). price sl = prc b0 p"
        using sl1(3) sl2(3) by (auto simp: list_all_iff)
      ultimately show ?thesis using sl1(1,2) sl2(1,2) by (intro exI [of _ "sl1 @ sl2"]) simp
    qed
  qed
qed simp

text \<open>
  C9: what a pass returns is what it appends to the finalized sales, in the order
  of rising prices; every sale carries the time of the pass, the product and no user, and
  its price is that of an ask which some bid of the product meets.
\<close>

theorem pass_sales:
  assumes "matchAsksToBids srt pr ts s = (Inr sales, s')" and "book_ok (m_book s)"
    and "std_sort srt" and "comparable (m_book s) pr"
  shows "finalizedSales (m_book s') = finalizedSales (m_book s) @ sales \<and>
    sorted_wrt (\<lambda>x y. price x \<le> price y) sales \<and>
    list_all (\<lambda>sl. orderType sl = Sale \<and> username sl = default_user \<and> timestamp sl = ts \<and> product sl = pr \<and>
      (\<exists>a\<in>set (product_nodes (m_book s) pr). \<exists>b\<in>set (product_nodes (m_book s) pr).
        orderType (snd a) = Ask \<and> orderType (snd b) = Bid \<and>
        price sl = price (snd a) \<and> price (snd a) \<le> price (snd b))) sales"
  using assms
proof (cases rule: match_cases)
  case (returned asks bids s1 b')
  note sets = pass_run_sets [OF returned(1)] and w = pass_run_writes [OF returned(1)]
  have live: "\<forall>p\<in>set asks \<union> set bids. is_live (m_book s) p" using sets side_facts(1) [OF assms(2)] by blast
  have run: "match_asks pr ts bids asks (s\<lparr>m_sales := []\<rparr>) = (Inr (), s1)"
    and st: "sorted_wrt (\<lambda>p q. \<not> prc (m_book s) q < prc (m_book s) p) asks"
    using returned(1) by (simp_all add: pass_run_def)
  obtain sls where sls: "m_sales s1 = sls" "list_all (sale_of (m_book s) pr ts asks bids) sls"
    "sorted_wrt (\<lambda>x y. \<not> price y < price x) sls"
    using match_asks_sales [OF run _ live _ st, of asks] by auto
  have sales: "sales = sls" using returned(2) sls(1) by simp
  have node: "\<exists>n\<in>set (product_nodes (m_book s) pr). orderType (snd n) = t \<and> price (snd n) = prc (m_book s) p \<and>
      price (snd n) \<noteq> NaN" if p: "p \<in> set (side (m_book s) pr t)" for p t
  proof -
    obtain e where "live (m_book s) p = Some e" "(p, e) \<in> set (product_nodes (m_book s) pr)" "orderType e = t"
      using side_live [OF assms(2) p] by blast
    then show ?thesis using assms(4) by (auto simp: prc_def comparable_def list_all_iff intro!: bexI [of _ "(p, e)"])
  qed
  have nan: "price sl \<noteq> NaN" if "sl \<in> set sls" for sl
    using that sls(2) by (auto simp: list_all_iff sale_of_def dest: dle_not_nan)
  have "sorted_wrt (\<lambda>x y. price x \<le> price y) sls"
    by (rule sorted_wrt_mono_rel [OF _ sls(3)]) (use nan dlt_iff_not_dle in blast)
  moreover have "finalizedSales (m_book s') = finalizedSales (m_book s) @ sales"
    using returned writes_fields [OF w] by (simp add: pruned_def)
  moreover have "\<exists>a\<in>set (product_nodes (m_book s) pr). \<exists>b\<in>set (product_nodes (m_book s) pr).
      orderType (snd a) = Ask \<and> orderType (snd b) = Bid \<and> price sl = price (snd a) \<and> price (snd a) \<le> price (snd b)"
    if sl: "sl \<in> set sls" for sl
  proof -
    obtain p q where pq: "p \<in> set asks" "q \<in> set bids" "price sl = prc (m_book s) p" "prc (m_book s) p \<le> prc (m_book s) q"
      using sl sls(2) by (auto simp: list_all_iff sale_of_def)
    obtain a b where "a \<in> set (product_nodes (m_book s) pr)" "orderType (snd a) = Ask" "price (snd a) = prc (m_book s) p"
      "b \<in> set (product_nodes (m_book s) pr)" "orderType (snd b) = Bid" "price (snd b) = prc (m_book s) q"
      using node pq(1,2) sets by metis
    then show ?thesis using pq by metis
  qed
  ultimately show ?thesis using sls(2) by (auto simp: sales list_all_iff sale_of_def)
qed simp

theorem pass_sales_witness:
  "finalizedSales (m_book ex_after) = [] @ ex_sales \<and> sorted_wrt (\<lambda>x y. price x \<le> price y) ex_sales"
  using pass_sales [OF ex_run]
  by (simp add: ex_book_ok ex_comparable stable.std_sort_axioms) (simp add: ex_book_of_def)

section \<open>Volume\<close>

definition volume :: "book \<Rightarrow> addr list \<Rightarrow> rat" where
  "volume b ps = (\<Sum>p\<in>set ps. dval (amt b p))"

definition sold :: "entry list \<Rightarrow> rat" where
  "sold sls = sum_list (map (\<lambda>e. dval (amount e)) sls)"

lemma volume_drop:
  assumes "\<forall>p\<in>set ps. dval (amt b' p) = (if p = q then dval (amt b q) - v else dval (amt b p))" and "q \<in> set ps"
  shows "volume b ps - volume b' ps = v"
proof -
  have "volume b ps - volume b' ps = (\<Sum>p\<in>set ps. dval (amt b p) - dval (amt b' p))"
    by (simp add: volume_def sum_subtractf)
  also have "\<dots> = (\<Sum>p\<in>set ps. if p = q then v else 0)" using assms(1) by (intro sum.cong) auto
  also have "\<dots> = v" using assms(2) by simp
  finally show ?thesis .
qed

lemma trade_effect_volume:
  assumes te: "trade_effect pr ts ap a bp b bk sls stop bk'" and l: "live bk ap = Some a" "live bk bp = Some b"
    and live: "\<forall>p\<in>set asks \<union> set bids. is_live bk p \<and> whole (amt bk p)"
    and disj: "set asks \<inter> set bids = {}" and mem: "ap \<in> set asks" "bp \<in> set bids"
  shows "(\<forall>p\<in>set asks \<union> set bids. whole (amt bk' p)) \<and>
    volume bk asks - volume bk' asks = sold sls \<and> volume bk bids - volume bk' bids = sold sls"
proof -
  have am: "amt bk ap = amount a" "amt bk bp = amount b" using l by (simp_all add: amt_def)
  have wab: "whole (amount a)" "whole (amount b)" using live mem am by (metis UnCI)+
  have ne: "ap \<noteq> bp" "ap \<notin> set bids" "bp \<notin> set asks" using disj mem by auto
  have upd: ?thesis
    if bk': "bk' = set_amount ap x (set_amount bp y bk)" and wxy: "whole x" "whole y"
      and x: "dval x = dval (amount a) - sold sls" and y: "dval y = dval (amount b) - sold sls" for x y
  proof (intro conjI)
    have amt': "amt bk' p = (if p = ap then x else if p = bp then y else amt bk p)" if "p \<in> set asks \<union> set bids" for p
      using live that by (auto simp: bk' amt_set_amount)
    show "\<forall>p\<in>set asks \<union> set bids. whole (amt bk' p)" using amt' wxy live by auto
    show "volume bk asks - volume bk' asks = sold sls"
      using amt' ne x am mem by (intro volume_drop [of _ _ ap]) auto
    show "volume bk bids - volume bk' bids = sold sls"
      using amt' ne y am mem by (intro volume_drop [of _ _ bp]) auto
  qed
  from te show ?thesis
  proof cases
    case no_trade
    then show ?thesis using live by (simp add: sold_def)
  next
    case (both_filled sl)
    have "dval (amount b) = dval (amount a)" using both_filled(4) by (cases "amount a"; cases "amount b") (auto simp: deq_def)
    then show ?thesis using both_filled by (intro upd [of 0 0]) (auto simp: sold_def is_sale_def)
  next
    case (ask_filled sl)
    show ?thesis
      using ask_filled whole_minus [OF wab(2,1) dlt_imp_dle [OF ask_filled(4)]]
      by (intro upd [of 0 "amount b - amount a"]) (auto simp: sold_def is_sale_def)
  next
    case (bid_filled sl)
    show ?thesis
      using bid_filled whole_minus [OF wab dlt_imp_dle [OF bid_filled(4)]]
      by (intro upd [of "amount a - amount b" 0]) (auto simp: sold_def is_sale_def)
  qed
qed

lemma match_asks_volume:
  assumes run: "match_asks pr ts bids asks s = (r, s')"
    and live: "\<forall>p\<in>set asks \<union> set bids. is_live (m_book s) p \<and> whole (amt (m_book s) p)"
    and disj: "set asks \<inter> set bids = {}"
  shows "\<exists>sls. m_sales s' = m_sales s @ sls \<and> (\<forall>p\<in>set asks \<union> set bids. whole (amt (m_book s') p)) \<and>
    volume (m_book s) asks - volume (m_book s') asks = sold sls \<and>
    volume (m_book s) bids - volume (m_book s') bids = sold sls"
proof -
  let ?L = "\<lambda>b. \<forall>p\<in>set asks \<union> set bids. is_live b p \<and> whole (amt b p)"
  let ?R = "\<lambda>x y. ?L (fst x) \<longrightarrow> ?L (fst y) \<and> (\<exists>sls. snd y = snd x @ sls \<and>
    volume (fst x) asks - volume (fst y) asks = sold sls \<and> volume (fst x) bids - volume (fst y) bids = sold sls)"
  have "?R (m_book s, m_sales s) (m_book s', m_sales s')"
  proof (rule match_asks_rel [OF run])
    fix x y z :: "book \<times> entry list"
    assume R: "?R x y" "?R y z"
    show "?R x z"
    proof
      assume w: "?L (fst x)"
      from R(1) w obtain s1 where s1: "snd y = snd x @ s1" "volume (fst x) asks - volume (fst y) asks = sold s1"
        "volume (fst x) bids - volume (fst y) bids = sold s1" "?L (fst y)" by blast
      from R(2) s1(4) obtain s2 where s2: "snd z = snd y @ s2" "volume (fst y) asks - volume (fst z) asks = sold s2"
        "volume (fst y) bids - volume (fst z) bids = sold s2" "?L (fst z)" by blast
      have "sold (s1 @ s2) = sold s1 + sold s2" by (simp add: sold_def)
      then show "?L (fst z) \<and> (\<exists>sls. snd z = snd x @ sls \<and> volume (fst x) asks - volume (fst z) asks = sold sls \<and>
          volume (fst x) bids - volume (fst z) bids = sold sls)"
        using s1 s2 by (intro conjI exI [of _ "s1 @ s2"]) simp_all
    qed
  next
    fix bk :: book and sl ap a b bp sls stop bk'
    assume l: "ap \<in> set asks" "bp \<in> set bids" "live bk ap = Some a" "live bk bp = Some b"
      and te: "trade_effect pr ts ap a bp b bk sls stop bk'"
    show "?R (bk, sl) (bk', sl @ sls)"
      using trade_effect_volume [OF te l(3,4) _ disj l(1,2)] writes_is_live [OF trade_effect_writes [OF te]]
      by (simp add: ball_Un)
  qed (auto simp: sold_def)
  then show ?thesis using live by simp
qed

text \<open>What is open on one side of a product.\<close>

definition open_volume :: "book \<Rightarrow> string \<Rightarrow> OrderBookType \<Rightarrow> rat" where
  "open_volume b pr t =
    sum_list (map (\<lambda>n. dval (amount (snd n))) (filter (\<lambda>n. orderType (snd n) = t) (product_nodes b pr)))"

lemma open_volume_side:
  assumes ok: "book_ok b"
  shows "open_volume b pr t = volume b (side b pr t)"
proof -
  have "(\<Sum>p\<in>set (side b pr t). dval (amt b p)) = sum_list (map (\<lambda>p. dval (amt b p)) (side b pr t))"
    by (rule sum_list_distinct_conv_sum_set [symmetric, OF side_distinct [OF ok]])
  also have "map (\<lambda>p. dval (amt b p)) (side b pr t) =
      map (\<lambda>n. dval (amount (snd n))) (filter (\<lambda>n. orderType (snd n) = t) (product_nodes b pr))"
    using product_nodes_subset [of b pr] by (auto simp: side_def amt_def book_ok_live [OF ok, THEN iffD2])
  finally show ?thesis by (simp add: open_volume_def volume_def)
qed

lemma open_volume_pruned:
  assumes "pruned pr (insertSales sl b) b'"
    and "\<forall>n\<in>set (product_nodes b pr). whole (amount (snd n)) \<or> orderType (snd n) \<noteq> t"
  shows "open_volume b' pr t = open_volume b pr t"
proof -
  have "sum_list (map (\<lambda>n. dval (amount (snd n))) (filter (\<lambda>n. orderType (snd n) = t) (filter (\<lambda>n. \<not> amount (snd n) \<le> 0) ns)))
     = sum_list (map (\<lambda>n. dval (amount (snd n))) (filter (\<lambda>n. orderType (snd n) = t) ns))"
    if "\<forall>n\<in>set ns. whole (amount (snd n)) \<or> orderType (snd n) \<noteq> t" for ns :: "node list"
    using that
  proof (induction ns)
    case (Cons n ns)
    have "dval (amount (snd n)) = 0" if wh: "whole (amount (snd n))" and le: "amount (snd n) \<le> 0"
    proof -
      obtain k where k: "0 \<le> k" "amount (snd n) = Fin (of_int k)" using wholeE [OF wh] by metis
      have "Fin (of_int k) \<le> 0" using le unfolding k(2) .
      then have "k = 0" using k(1) by (simp add: le_finite)
      then show ?thesis using k(2) by simp
    qed
    then show ?case using Cons by auto
  qed simp
  then show ?thesis using assms by (simp add: open_volume_def pruned_def)
qed

text \<open>
  C6: with non-negative integer amounts below \<open>2 ^ 53\<close> and no price NaN, what leaves the asks of the
  product and what leaves its bids are both exactly the total amount of the sales.
\<close>

theorem pass_conserves_volume:
  assumes "matchAsksToBids srt pr ts s = (Inr sales, s')" and "book_ok (m_book s)" and "std_sort srt"
    and "comparable (m_book s) pr"
    and "list_all (\<lambda>n. whole (amount (snd n))) (product_nodes (m_book s) pr)"
  shows "open_volume (m_book s) pr Ask - open_volume (m_book s') pr Ask = sold sales \<and>
    open_volume (m_book s) pr Bid - open_volume (m_book s') pr Bid = sold sales"
  using assms(1-4)
proof (cases rule: match_cases)
  case (returned asks bids s1 b')
  note sets = pass_run_sets [OF returned(1)] and w = pass_run_writes [OF returned(1)]
  have ok1: "book_ok (m_book s1)" by (rule writes_ok [OF w assms(2)])
  have side: "is_live (m_book s) p \<and> whole (amt (m_book s) p)" if p: "p \<in> set (side (m_book s) pr t)" for p t
  proof -
    obtain e where "live (m_book s) p = Some e" "(p, e) \<in> set (product_nodes (m_book s) pr)"
      using side_live [OF assms(2) p] by blast
    then show ?thesis using assms(5) by (auto simp: is_live_def amt_def list_all_iff)
  qed
  have live: "\<forall>p\<in>set asks \<union> set bids. is_live (m_book s) p \<and> whole (amt (m_book s) p)"
    using side sets by blast
  have disj: "set asks \<inter> set bids = {}" using sets side_facts(2) [OF assms(2)] by simp
  have run: "match_asks pr ts bids asks (s\<lparr>m_sales := []\<rparr>) = (Inr (), s1)"
    using returned(1) by (simp add: pass_run_def)
  obtain whole1: "\<forall>p\<in>set asks \<union> set bids. whole (amt (m_book s1) p)"
    and vol: "volume (m_book s) asks - volume (m_book s1) asks = sold (m_sales s1)"
      "volume (m_book s) bids - volume (m_book s1) bids = sold (m_sales s1)"
    using match_asks_volume [OF run _ disj] live by auto
  have vs: "volume b (side (m_book s) pr Ask) = volume b asks" "volume b (side (m_book s) pr Bid) = volume b bids" for b
    using sets by (simp_all add: volume_def)
  have "open_volume b' pr t = volume (m_book s1) (side (m_book s) pr t)" if t: "t = Ask \<or> t = Bid" for t
  proof -
    have "whole (amount (snd n)) \<or> orderType (snd n) \<noteq> t" if n: "n \<in> set (product_nodes (m_book s1) pr)" for n
    proof (cases "orderType (snd n) = t")
      case True
      have "live (m_book s1) (fst n) = Some (snd n)"
        using n product_nodes_subset [of "m_book s1" pr] by (auto simp: book_ok_live [OF ok1])
      then have am: "amt (m_book s1) (fst n) = amount (snd n)" by (simp add: amt_def)
      have "fst n \<in> set (side (m_book s1) pr t)" using n True by (auto simp: side_def)
      then have "fst n \<in> set asks \<union> set bids" using sets t by (auto simp: writes_side [OF w])
      then show ?thesis using whole1 am by metis
    qed simp
    then have "open_volume b' pr t = open_volume (m_book s1) pr t"
      using open_volume_pruned [OF returned(4)] by blast
    then show ?thesis by (simp add: open_volume_side [OF ok1] writes_side [OF w])
  qed
  then show ?thesis
    using vol returned by (simp add: open_volume_side [OF assms(2)] vs)
qed simp

theorem pass_conserves_volume_witness:
  "open_volume (ex_book_of ''s'' ''b'') ''A/B'' Ask - open_volume (m_book ex_after) ''A/B'' Ask = 3 \<and> sold ex_sales = 3 \<and>
    open_volume (ex_book_of ''s'' ''b'') ''A/B'' Bid - open_volume (m_book ex_after) ''A/B'' Bid = sold ex_sales"
  using pass_conserves_volume [OF ex_run]
  by (simp add: ex_book_ok ex_comparable stable.std_sort_axioms ex_nodes ex_order_def whole_def sold_def ex_sales_def)

end
