(* ===== verification/Utf8.thy ===== *)
theory Utf8
  imports Json_Lexer Json_Serializer
begin

unbundle bit_operations_syntax

text \<open>
  UTF-8 is checked twice in the JSON library: the lexer by the ranges of the bytes that may
  follow a lead byte (\<open>utf8_ranges\<close>), the serializer by the automaton \<open>decode\<close> over the table
  \<open>utf8d\<close>. Here: a reference definition of well-formed text, the table read as byte classes
  and transitions, and what the automaton remembers of the code point.
\<close>

section \<open>Well-formed text\<close>

definition in_range :: "int \<times> int \<Rightarrow> char \<Rightarrow> bool" where
  "in_range r c \<longleftrightarrow> fst r \<le> of_char c \<and> of_char c \<le> snd r"

text \<open>The bytes that must follow the first one, \<open>None\<close> when none can.\<close>

definition tail_ranges :: "char \<Rightarrow> (int \<times> int) list option" where
  "tail_ranges c = (if (of_char c :: int) < 0x80 then Some [] else utf8_ranges (of_char c))"

text \<open>\<open>rs\<close> are the ranges the character that has been started still needs.\<close>

fun utf8_tail :: "(int \<times> int) list \<Rightarrow> string \<Rightarrow> bool" where
  "utf8_tail [] [] = True"
| "utf8_tail (r # rs) [] = False"
| "utf8_tail (r # rs) (c # cs) = (in_range r c \<and> utf8_tail rs cs)"
| "utf8_tail [] (c # cs) = (case tail_ranges c of None \<Rightarrow> False | Some rs \<Rightarrow> utf8_tail rs cs)"

definition utf8_valid :: "string \<Rightarrow> bool" where
  "utf8_valid s = utf8_tail [] s"

section \<open>The table\<close>

definition byte_class :: "int \<Rightarrow> int" where
  "byte_class b =
     (if b < 0x80 then 0 else if b < 0x90 then 1 else if b < 0xA0 then 9 else if b < 0xC0 then 7
      else if b < 0xC2 then 8 else if b < 0xE0 then 2 else if b = 0xE0 then 10
      else if b = 0xED then 4 else if b < 0xF0 then 3 else if b = 0xF0 then 11
      else if b < 0xF4 then 6 else if b = 0xF4 then 5 else 8)"

definition transition :: "int \<Rightarrow> int \<Rightarrow> int" where
  "transition q k =
     (if q = 0 then [0, 1, 2, 3, 5, 8, 7, 1, 1, 1, 4, 6, 1, 1, 1, 1] ! nat k
      else if q = 2 then (if k \<in> {1, 7, 9} then 0 else 1)
      else if q = 3 then (if k \<in> {1, 7, 9} then 2 else 1)
      else if q = 4 then (if k = 7 then 2 else 1)
      else if q = 5 then (if k \<in> {1, 9} then 2 else 1)
      else if q = 6 then (if k \<in> {7, 9} then 3 else 1)
      else if q = 7 then (if k \<in> {1, 7, 9} then 3 else 1)
      else if q = 8 then (if k = 1 then 3 else 1)
      else 1)"

lemma table_classes: "take 256 utf8d = map byte_class [0..255]"
  by code_simp

lemma table_transitions:
  "drop 256 utf8d = concat (map (\<lambda>q. map (transition q) [0..15]) [0..8])"
  by code_simp


lemma byte_range: "0 \<le> (of_char c :: int)" "(of_char c :: int) < 256"
  using pos_mod_sign [of 256 "of_char c :: int"] pos_mod_bound [of 256 "of_char c :: int"] by simp_all

lemma class_at:
  assumes "0 \<le> b" and "b < 256"
  shows "utf8d ! nat b = byte_class b"
proof -
  have "utf8d ! nat b = take 256 utf8d ! nat b" using assms by (simp add: nat_less_iff)
  also have "\<dots> = byte_class b"
    unfolding table_classes using assms by (subst nth_map) (simp_all add: nth_upto nat_less_iff)
  finally show ?thesis .
qed

lemma class_bounds: "0 \<le> byte_class b" "byte_class b < 12"
  by (simp_all add: byte_class_def)

lemma concat_nth:
  assumes "\<forall>x\<in>set xs. length (f x) = n" and "i < length xs" and "j < n"
  shows "concat (map f xs) ! (i * n + j) = f (xs ! i) ! j"
  using assms
proof (induction xs arbitrary: i)
  case (Cons x xs)
  then show ?case by (cases i) (auto simp: nth_append)
qed simp

lemma transition_at:
  assumes "0 \<le> q" and "q \<le> 8" and "0 \<le> k" and "k < 16"
  shows "utf8d ! nat (256 + q * 16 + k) = transition q k"
proof -
  have len: "length utf8d = 400" by (simp add: utf8d_def)
  have n: "nat (256 + q * 16 + k) = 256 + (nat q * 16 + nat k)" using assms by (simp add: nat_add_distrib nat_mult_distrib)
  have "utf8d ! nat (256 + q * 16 + k) = drop 256 utf8d ! (nat q * 16 + nat k)"
    unfolding n by (subst nth_drop) (simp_all add: len)
  also have "\<dots> = transition q k"
    unfolding table_transitions
    by (subst concat_nth [where n = 16]) (use assms in \<open>simp_all add: nth_upto nat_less_iff\<close>)
  finally show ?thesis .
qed

section \<open>The automaton\<close>

text \<open>The ranges a state of the automaton still needs.\<close>

definition needs :: "int \<Rightarrow> (int \<times> int) list" where
  "needs q =
     (if q = 2 then [(0x80, 0xBF)]
      else if q = 3 then [(0x80, 0xBF), (0x80, 0xBF)]
      else if q = 4 then [(0xA0, 0xBF), (0x80, 0xBF)]
      else if q = 5 then [(0x80, 0x9F), (0x80, 0xBF)]
      else if q = 6 then [(0x90, 0xBF), (0x80, 0xBF), (0x80, 0xBF)]
      else if q = 7 then [(0x80, 0xBF), (0x80, 0xBF), (0x80, 0xBF)]
      else if q = 8 then [(0x80, 0x8F), (0x80, 0xBF), (0x80, 0xBF)]
      else [])"

definition utf8_state :: "int \<Rightarrow> bool" where
  "utf8_state q \<longleftrightarrow> q \<in> {0, 2, 3, 4, 5, 6, 7, 8}"

text \<open>
  What the code point collected so far can be: in the last state before the end of a
  character it is at least 2, so no character of several bytes is taken for an ASCII one.
\<close>

definition code_ok :: "int \<Rightarrow> int \<Rightarrow> bool" where
  "code_ok q cp \<longleftrightarrow>
     (if q = 0 then True
      else if q = 2 then 2 \<le> cp \<and> cp < 2 ^ 15
      else if q = 3 then 1 \<le> cp \<and> cp < 2 ^ 9
      else if q = 4 \<or> q = 6 then 0 \<le> cp \<and> cp < 8
      else if q = 5 then 1 \<le> cp \<and> cp < 16
      else 1 \<le> cp \<and> cp < 8)"

definition lead_ok :: "int \<Rightarrow> bool" where
  "lead_ok b =
     (let q = transition 0 (byte_class b); cp = drop_bit (nat (byte_class b)) 0xFF AND b in
      (case (if b < 0x80 then Some [] else utf8_ranges b) of
         None \<Rightarrow> q = 1
       | Some rs \<Rightarrow> utf8_state q \<and> needs q = rs) \<and> (q \<noteq> 1 \<longrightarrow> code_ok q cp) \<and> (q = 0 \<longrightarrow> cp = b))"

lemma leads_ok: "list_all lead_ok [0..255]"
  by code_simp

lemma decode_lead:
  assumes "decode 0 cp (of_char c) = (q, cp')"
  shows "tail_ranges c = None \<Longrightarrow> q = 1"
    and "tail_ranges c = Some rs \<Longrightarrow> utf8_state q \<and> needs q = rs \<and> code_ok q cp' \<and> (q = 0 \<longrightarrow> cp' = of_char c)"
proof -
  let ?b = "of_char c :: int"
  have q: "q = transition 0 (byte_class ?b)" and cp: "cp' = drop_bit (nat (byte_class ?b)) 0xFF AND ?b"
    using assms transition_at [of 0 "byte_class ?b"] class_bounds [of ?b]
    by (auto simp: decode_def Let_def UTF8_ACCEPT_def class_at byte_range simp flip: nat_of_char)
  have "lead_ok ?b" using leads_ok byte_range [of c] by (auto simp: list_all_iff)
  then have k: "(case tail_ranges c of None \<Rightarrow> q = 1 | Some rs \<Rightarrow> utf8_state q \<and> needs q = rs) \<and>
      (q \<noteq> 1 \<longrightarrow> code_ok q cp') \<and> (q = 0 \<longrightarrow> cp' = ?b)"
    unfolding lead_ok_def Let_def tail_ranges_def q cp .
  then show "tail_ranges c = None \<Longrightarrow> q = 1" by simp
  show "utf8_state q \<and> needs q = rs \<and> code_ok q cp' \<and> (q = 0 \<longrightarrow> cp' = ?b)" if "tail_ranges c = Some rs"
    using k that by (auto simp: utf8_state_def)
qed

lemma continue_code:
  fixes b cp :: int
  assumes "0 \<le> cp" and "cp < 2 ^ 26" and "0 \<le> b"
  shows "(b AND 0x3F) OR take_bit 32 (push_bit 6 cp) = b mod 64 + 64 * cp"
proof -
  have "(0x3F :: int) = mask 6" by (simp add: mask_eq_exp_minus_1)
  then have m: "b AND 0x3F = take_bit 6 b" by (simp only: take_bit_eq_mask)
  have t: "take_bit 32 (push_bit 6 cp) = push_bit 6 cp"
    using assms by (intro take_bit_int_eq_self) (simp_all add: push_bit_eq_mult)
  have "take_bit 6 b AND push_bit 6 cp = 0"
    by (auto simp: bit_eq_iff bit_simps)
  then have "take_bit 6 b OR push_bit 6 cp = take_bit 6 b + push_bit 6 cp"
    by (simp add: disjunctive_add_eq_or)
  then show ?thesis unfolding m t by (simp add: take_bit_eq_mod push_bit_eq_mult)
qed


lemma transition_tails:
  "transition 2 (byte_class b) = (if 0x80 \<le> b \<and> b \<le> 0xBF then 0 else 1)"
  "transition 3 (byte_class b) = (if 0x80 \<le> b \<and> b \<le> 0xBF then 2 else 1)"
  "transition 4 (byte_class b) = (if 0xA0 \<le> b \<and> b \<le> 0xBF then 2 else 1)"
  "transition 5 (byte_class b) = (if 0x80 \<le> b \<and> b \<le> 0x9F then 2 else 1)"
  "transition 6 (byte_class b) = (if 0x90 \<le> b \<and> b \<le> 0xBF then 3 else 1)"
  "transition 7 (byte_class b) = (if 0x80 \<le> b \<and> b \<le> 0xBF then 3 else 1)"
  "transition 8 (byte_class b) = (if 0x80 \<le> b \<and> b \<le> 0x8F then 3 else 1)"
  by (simp_all add: transition_def byte_class_def)

lemma decode_tail:
  assumes d: "decode q cp (of_char c) = (q', cp')" and q: "utf8_state q" and n: "needs q = r # rs"
    and cp: "code_ok q cp"
  shows "\<not> in_range r c \<Longrightarrow> q' = 1"
    and "in_range r c \<Longrightarrow> utf8_state q' \<and> needs q' = rs \<and> code_ok q' cp' \<and> (q' = 0 \<longrightarrow> 0x80 \<le> cp')"
proof -
  define b where "b = (of_char c :: int)"
  have b: "0 \<le> b" "b < 256" using byte_range [of c] by (simp_all add: b_def)
  have q0: "q \<noteq> 0" "0 \<le> q" "q \<le> 8" using q n by (auto simp: utf8_state_def needs_def)
  have c: "0 \<le> cp" "cp < 2 ^ 26" using cp q0 by (auto simp: code_ok_def split: if_splits)
  have q': "q' = transition q (byte_class b)" and cp': "cp' = b mod 64 + 64 * cp"
    using d q0 transition_at [of q "byte_class b"] class_bounds [of b] continue_code [OF c, of b]
    by (auto simp: decode_def Let_def UTF8_ACCEPT_def class_at b simp flip: nat_of_char b_def)
  have cases: "q = 2 \<or> q = 3 \<or> q = 4 \<or> q = 5 \<or> q = 6 \<or> q = 7 \<or> q = 8" using q q0 by (auto simp: utf8_state_def)
  show "q' = 1" if "\<not> in_range r c"
    using cases n that unfolding q' in_range_def
    by (elim disjE) (auto simp: needs_def transition_tails simp flip: b_def)
  assume r: "in_range r c"
  define m where "m = b mod 64"
  have k: "0 \<le> m" "m < 64" by (simp_all add: m_def)
  have low: "m = b - 0x80" if "b < 0xC0" "0x80 \<le> b"
    using that unfolding m_def by presburger
  show "utf8_state q' \<and> needs q' = rs \<and> code_ok q' cp' \<and> (q' = 0 \<longrightarrow> 0x80 \<le> cp')"
    using cases n r cp k low unfolding q' cp' in_range_def
    by (elim disjE) (auto simp: needs_def transition_tails utf8_state_def code_ok_def simp flip: b_def m_def)
qed

end
