(* ===== verification/Json_Strings.thy ===== *)
theory Json_Strings
  imports Utf8
begin

text \<open>
  What \<open>dump_escaped\<close> writes: on well-formed UTF-8 the bytes of the string one by one, each
  escaped on its own; on anything else, with the handler \<open>strict\<close>, the exception 316. The
  buffer of 512 bytes never overflows.
\<close>

section \<open>The text of a string\<close>

definition escape_char :: "char \<Rightarrow> string" where
  "escape_char c = fst (escape_text False (of_char c) c)"

definition escaped :: "string \<Rightarrow> string" where
  "escaped s = concat (map escape_char s)"

lemma escaped_simps [simp]: "escaped [] = []" "escaped (c # cs) = escape_char c @ escaped cs"
  by (simp_all add: escaped_def)

lemma escape_wide: "0x80 \<le> cp \<Longrightarrow> escape_text False cp c = ([c], 1)"
  by (simp add: escape_text_def)

lemma escape_char_wide: "0x80 \<le> (of_char c :: int) \<Longrightarrow> escape_char c = [c]"
  by (simp add: escape_char_def escape_wide)

lemma escape_room: "snd (escape_text ea cp c) \<le> 13" "\<not> ea \<Longrightarrow> snd (escape_text ea cp c) \<le> 7"
  "length (fst (escape_text ea cp c)) \<le> snd (escape_text ea cp c)"
  by (simp_all add: escape_text_def u_escape_def)

section \<open>The steps of the loop\<close>

text \<open>The bytes of an unfinished character that can be in the buffer, by the state.\<close>

definition pending :: "int \<Rightarrow> nat" where
  "pending q = (if q = 0 then 0 else if q = 2 then 3 else if q = 3 then 2 else 1)"

definition loop_ok :: "bool \<Rightarrow> escape_state \<Rightarrow> serializer \<Rightarrow> bool" where
  "loop_ok ea es s \<longleftrightarrow> utf8_state (decode_state es) \<and> code_ok (decode_state es) (codepoint es) \<and>
     length (string_buffer s) \<le> 499 + (if ea then 0 else pending (decode_state es)) \<and>
     bytes_after_last_accept es \<le> 499"

lemma flush_room: "length (string_buffer (flush_if_full s)) \<le> 499"
  by (auto simp: flush_if_full_def)

text \<open>What writing a string leaves alone.\<close>

definition same_frame :: "serializer \<Rightarrow> serializer \<Rightarrow> bool" where
  "same_frame s s' \<longleftrightarrow> indent_string s' = indent_string s \<and> number_buffer s' = number_buffer s \<and>
     error_handler s' = error_handler s"

lemma put_bytes_room:
  "length (string_buffer s) + room \<le> 512 \<Longrightarrow> put_bytes t room s = (Inr (), s\<lparr>string_buffer := string_buffer s @ t\<rparr>)"
  by (simp add: put_bytes_def)

lemma accept_char_ok:
  assumes "loop_ok ea es s"
  obtains es' s' where "accept_char ea c cp s = (Inr es', s')" "loop_ok ea es' s'"
    "decode_state es' = 0"
    "out s' @ string_buffer s' = out s @ string_buffer s @ fst (escape_text ea cp c)"
    "same_frame s s'"
proof -
  obtain t room where t: "escape_text ea cp c = (t, room)" by fastforce
  have "length (string_buffer s) + room \<le> 512"
    using assms escape_room [of ea cp c] t by (auto simp: loop_ok_def pending_def split: if_splits)
  then have p: "put_bytes t room s = (Inr (), s\<lparr>string_buffer := string_buffer s @ t\<rparr>)" by (rule put_bytes_room)
  let ?s = "flush_if_full (s\<lparr>string_buffer := string_buffer s @ t\<rparr>)"
  let ?es = "\<lparr>codepoint = cp, decode_state = UTF8_ACCEPT, bytes_after_last_accept = length (string_buffer ?s), undumped_chars = 0\<rparr>"
  show ?thesis
  proof (rule that)
    show "accept_char ea c cp s = (Inr ?es, ?s)" by (simp add: accept_char_def t p Let_def)
    show "loop_ok ea ?es ?s" using flush_room by (simp add: loop_ok_def UTF8_ACCEPT_def utf8_state_def code_ok_def trans_le_add1)
  qed (simp_all add: UTF8_ACCEPT_def t flush_if_full_def same_frame_def)
qed

lemma pending_step:
  assumes "utf8_state q" and "needs q = rs" and "decode q cp (of_char c) = (q', cp')" and "code_ok q cp"
    and "q' \<noteq> 0" and "q' \<noteq> 1"
  shows "pending q < pending q'"
proof (cases "needs q")
  case Nil
  then have "q = 0" using assms(1) by (auto simp: utf8_state_def needs_def split: if_splits)
  then show ?thesis using assms(5) by (simp add: pending_def)
next
  case (Cons r rs)
  have q: "q \<noteq> 0" using Cons by (auto simp: needs_def)
  have "q' = transition q (byte_class (of_char c))"
    using assms(1,3) transition_at [of q "byte_class (of_char c)"] class_bounds [of "of_char c"] byte_range [of c] q
    by (auto simp: decode_def Let_def UTF8_ACCEPT_def class_at utf8_state_def simp flip: nat_of_char)
  then show ?thesis
    using assms(1,5,6) q by (auto simp: utf8_state_def transition_tails pending_def split: if_splits)
qed

lemma pending_le: "pending q \<le> 3"
  by (simp add: pending_def)

lemma decode_next:
  assumes "decode q cp (of_char c) = (q', cp')" and "utf8_state q" and "code_ok q cp" and "q' \<noteq> 1"
  shows "utf8_state q' \<and> code_ok q' cp'"
proof (cases "needs q")
  case Nil
  then have "q = 0" using assms(2) by (auto simp: utf8_state_def needs_def split: if_splits)
  then show ?thesis using decode_lead [of cp c q' cp'] assms by (cases "tail_ranges c") auto
next
  case (Cons r rs)
  then show ?thesis using decode_tail [OF assms(1,2) _ assms(3)] assms(4) by blast
qed

lemma pending_char_ok:
  assumes "loop_ok ea es s" and "decode (decode_state es) (codepoint es) (of_char c) = (q', cp')"
    and "q' \<noteq> 0" and "q' \<noteq> 1"
  obtains es' s' where "pending_char ea c q' cp' es s = (Inr es', s')" "loop_ok ea es' s'"
    "decode_state es' = q'" "out s' = out s"
    "\<not> ea \<longrightarrow> string_buffer s' = string_buffer s @ [c]"
    "same_frame s s'"
proof -
  let ?es = "es\<lparr>codepoint := cp', decode_state := q', undumped_chars := undumped_chars es + 1\<rparr>"
  let ?s = "if ea then s else s\<lparr>string_buffer := string_buffer s @ [c]\<rparr>"
  note l = assms(1) [unfolded loop_ok_def]
  have p: "pending (decode_state es) < pending q'" using pending_step assms l by blast
  have n: "utf8_state q' \<and> code_ok q' cp'" using decode_next assms l by blast
  show ?thesis
  proof (rule that)
    have "length (string_buffer s) + 1 \<le> 512" using l pending_le [of "decode_state es"] by (auto split: if_splits)
    then show "pending_char ea c q' cp' es s = (Inr ?es, ?s)"
      by (simp add: pending_char_def put_bytes_room)
    show "loop_ok ea ?es ?s" using l p n by (auto simp: loop_ok_def)
  qed (auto simp: same_frame_def)
qed


lemma reject_char_ok:
  assumes "loop_ok ea es s"
  shows "(\<exists>w. reject_char ea c i cp es s = (Inl (type_error 316 w), s) \<and> error_handler s = strict) \<or>
    (\<exists>es' s'. reject_char ea c i cp es s = (Inr es', s') \<and> loop_ok ea es' s' \<and> error_handler s \<noteq> strict)"
proof (cases "error_handler s = strict")
  case True
  then have "reject_char ea c i cp es s =
      (Inl (type_error 316 (''invalid UTF-8 byte at index '' @ show_nat i @ '': 0x'' @ hex_bytes (of_char c))), s)"
    unfolding reject_char_def by (rule if_P)
  with True show ?thesis by blast
next
  case False
  let ?s = "s\<lparr>string_buffer := take (bytes_after_last_accept es) (string_buffer s)\<rparr>"
  let ?t = "?s\<lparr>string_buffer := string_buffer ?s @ replacement ea\<rparr>"
  have b: "bytes_after_last_accept es \<le> 499" using assms by (simp add: loop_ok_def)
  have "length (replacement ea) \<le> 6" by (simp add: replacement_def)
  with b have p: "put_bytes (replacement ea) (length (replacement ea)) ?s = (Inr (), ?t)"
    by (intro put_bytes_room) simp
  have "\<exists>es' s'. reject_char ea c i cp es s = (Inr es', s') \<and> loop_ok ea es' s'"
    using False b flush_room [of ?t]
    by (simp add: reject_char_def Let_def p loop_ok_def UTF8_ACCEPT_def utf8_state_def code_ok_def trans_le_add1)
  with False show ?thesis by blast
qed

section \<open>No buffer overflow\<close>

lemma finish_not_undefined: "\<not> is_undefined (fst (finish_escaped ea str es s))"
  by (auto simp: finish_escaped_def write_characters_def bind_act_def type_error_def split: error_handler_t.splits)

lemma dump_bytes_not_undefined:
  "loop_ok ea es s \<Longrightarrow> \<not> is_undefined (fst (dump_bytes ea str i cs es s))"
proof (induction ea str i cs es s rule: dump_bytes.induct)
  case (1 ea str i es s)
  then show ?case by (simp add: finish_not_undefined)
next
  case (2 ea str i c cs es s)
  obtain q cp where d: "decode (decode_state es) (codepoint es) (of_char c) = (q, cp)" by fastforce
  note IH = "2.IH" [OF d [symmetric]] and inv = "2.prems"
  consider "q = 0" | "q = 1" | "q \<noteq> 0" "q \<noteq> 1" by blast
  then show ?case
  proof cases
    case 1
    then obtain es' s' where a: "accept_char ea c cp s = (Inr es', s')" "loop_ok ea es' s'"
      using accept_char_ok [OF inv, of c cp] by metis
    have "\<not> is_undefined (fst (dump_bytes ea str (i + 1) cs es' s'))"
      using IH(1) 1 a by (simp add: UTF8_ACCEPT_def)
    then show ?thesis using 1 d a by (simp add: UTF8_ACCEPT_def)
  next
    case 2
    from reject_char_ok [OF inv, of c i cp] show ?thesis
    proof (elim disjE exE conjE)
      fix w assume "reject_char ea c i cp es s = (Inl (type_error 316 w), s)"
      then show ?thesis using 2 d by (simp add: UTF8_ACCEPT_def UTF8_REJECT_def type_error_def)
    next
      fix es' s' assume r: "reject_char ea c i cp es s = (Inr es', s')" "loop_ok ea es' s'"
      have "\<not> is_undefined (fst (dump_bytes ea str i (c # cs) es' s'))" if "0 < undumped_chars es"
        using IH(2) 2 r that by (simp add: UTF8_ACCEPT_def UTF8_REJECT_def del: dump_bytes.simps)
      moreover have "\<not> is_undefined (fst (dump_bytes ea str (i + 1) cs es' s'))" if "\<not> 0 < undumped_chars es"
        using IH(3) 2 r that by (simp add: UTF8_ACCEPT_def UTF8_REJECT_def del: dump_bytes.simps)
      ultimately show ?thesis using 2 d r
        by (subst dump_bytes.simps) (simp add: UTF8_ACCEPT_def UTF8_REJECT_def del: dump_bytes.simps)
    qed
  next
    case 3
    then obtain es' s' where a: "pending_char ea c q cp es s = (Inr es', s')" "loop_ok ea es' s'"
      using pending_char_ok [OF inv d] by metis
    have "\<not> is_undefined (fst (dump_bytes ea str (i + 1) cs es' s'))"
      using IH(4) 3 a by (simp add: UTF8_ACCEPT_def UTF8_REJECT_def)
    then show ?thesis using 3 d a by (simp add: UTF8_ACCEPT_def UTF8_REJECT_def)
  qed
qed

lemma start_loop_ok:
  "loop_ok ea \<lparr>codepoint = 0, decode_state = UTF8_ACCEPT, bytes_after_last_accept = 0, undumped_chars = 0\<rparr>
    (s\<lparr>string_buffer := []\<rparr>)"
  by (simp add: loop_ok_def UTF8_ACCEPT_def utf8_state_def code_ok_def)

lemma dump_escaped_not_undefined: "\<not> is_undefined (fst (dump_escaped str ea s))"
  unfolding dump_escaped_def by (rule dump_bytes_not_undefined [OF start_loop_ok])

section \<open>The text, or the exception\<close>

lemma dump_bytes_valid:
  assumes "utf8_tail (needs (decode_state es)) cs" and "loop_ok False es s"
  shows "\<exists>s'. dump_bytes False str i cs es s = (Inr (), s') \<and>
    out s' = out s @ string_buffer s @ escaped cs \<and> same_frame s s'"
  using assms
proof (induction cs arbitrary: i es s)
  case Nil
  then have "decode_state es = 0" by (cases "needs (decode_state es)") (auto simp: loop_ok_def utf8_state_def needs_def split: if_splits)
  then show ?case by (auto simp: finish_escaped_def UTF8_ACCEPT_def write_characters_def same_frame_def)
next
  case (Cons c cs)
  let ?q = "decode_state es"
  obtain q cp where d: "decode ?q (codepoint es) (of_char c) = (q, cp)" by fastforce
  note l = Cons.prems(2) [unfolded loop_ok_def]
  have q: "q \<noteq> 1 \<and> utf8_tail (needs q) cs \<and> (q = 0 \<longrightarrow> escape_text False cp c = escape_text False (of_char c) c) \<and>
      (q \<noteq> 0 \<or> ?q \<noteq> 0 \<longrightarrow> escape_char c = [c])"
  proof (cases "needs ?q")
    case Nil
    then have q0: "?q = 0" using l by (auto simp: utf8_state_def needs_def split: if_splits)
    obtain rs where t: "tail_ranges c = Some rs" "utf8_tail rs cs"
      using Cons.prems(1) Nil by (auto split: option.splits)
    have "utf8_state q \<and> needs q = rs \<and> (q = 0 \<longrightarrow> cp = of_char c)"
      using decode_lead(2) [OF d [unfolded q0] t(1)] by blast
    moreover have "0x80 \<le> (of_char c :: int)" if "q \<noteq> 0"
    proof (rule ccontr)
      assume "\<not> 0x80 \<le> (of_char c :: int)"
      with t(1) have "rs = []" by (simp add: tail_ranges_def)
      with calculation that show False by (auto simp: utf8_state_def needs_def split: if_splits)
    qed
    ultimately show ?thesis using q0 t by (auto simp: utf8_state_def escape_char_wide)
  next
    case (Cons r rs)
    then have r: "in_range r c" "utf8_tail rs cs" using Cons.prems(1) by auto
    have "0x80 \<le> (of_char c :: int)"
      using r Cons by (auto simp: needs_def in_range_def split: if_splits)
    moreover have "utf8_state q \<and> needs q = rs \<and> (q = 0 \<longrightarrow> 0x80 \<le> cp)"
      using decode_tail(2) [OF d _ Cons _ r(1)] l by blast
    ultimately show ?thesis using r by (auto simp: utf8_state_def escape_char_wide escape_wide)
  qed
  show ?case
  proof (cases "q = 0")
    case True
    obtain es' s' where a: "accept_char False c cp s = (Inr es', s')" "loop_ok False es' s'" "decode_state es' = 0"
      "out s' @ string_buffer s' = out s @ string_buffer s @ escape_char c" "same_frame s s'"
      using accept_char_ok [OF Cons.prems(2), of c cp] q True unfolding escape_char_def by metis
    show ?thesis
      using Cons.IH [of es' s' "i + 1"] a q True d
      by (auto simp: UTF8_ACCEPT_def same_frame_def)
  next
    case False
    obtain es' s' where a: "pending_char False c q cp es s = (Inr es', s')" "loop_ok False es' s'" "decode_state es' = q"
      "out s' = out s" "string_buffer s' = string_buffer s @ [c]" "same_frame s s'"
      using pending_char_ok [OF Cons.prems(2) d False] q by metis
    show ?thesis
      using Cons.IH [of es' s' "i + 1"] a q False d
      by (auto simp: UTF8_ACCEPT_def UTF8_REJECT_def same_frame_def)
  qed
qed


lemma invalid_step:
  assumes "\<not> utf8_tail (needs q) (c # cs)" and d: "decode q cp (of_char c) = (q', cp')"
    and q: "utf8_state q" and cp: "code_ok q cp" and "q' \<noteq> 1"
  shows "\<not> utf8_tail (needs q') cs"
proof (cases "needs q")
  case Nil
  then have q0: "q = 0" using q by (auto simp: utf8_state_def needs_def split: if_splits)
  then obtain rs where "tail_ranges c = Some rs"
    using decode_lead(1) [of cp c q' cp'] d assms(5) by (cases "tail_ranges c") auto
  with decode_lead(2) [of cp c q' cp' rs] d q0 assms(1) Nil show ?thesis by auto
next
  case (Cons r rs)
  then have r: "in_range r c" using decode_tail(1) [OF d q Cons cp] assms(5) by blast
  show ?thesis using decode_tail(2) [OF d q Cons cp r] Cons r assms(1) by auto
qed

lemma dump_bytes_invalid:
  assumes "\<not> utf8_tail (needs (decode_state es)) cs" and "loop_ok ea es s" and "error_handler s = strict"
  shows "\<exists>w s'. dump_bytes ea str i cs es s = (Inl (type_error 316 w), s')"
  using assms
proof (induction cs arbitrary: i es s)
  case Nil
  then have "decode_state es \<noteq> 0" by (auto simp: needs_def)
  then show ?case using Nil.prems by (auto simp: finish_escaped_def UTF8_ACCEPT_def)
next
  case (Cons c cs)
  obtain q cp where d: "decode (decode_state es) (codepoint es) (of_char c) = (q, cp)" by fastforce
  note l = Cons.prems(2) [unfolded loop_ok_def]
  have tl: "\<not> utf8_tail (needs q) cs" if "q \<noteq> 1"
    using invalid_step [OF Cons.prems(1) d] l that by blast
  consider "q = 0" | "q = 1" | "q \<noteq> 0" "q \<noteq> 1" by blast
  then show ?case
  proof cases
    case 1
    obtain es' s' where a: "accept_char ea c cp s = (Inr es', s')" "loop_ok ea es' s'" "decode_state es' = 0" "same_frame s s'"
      using accept_char_ok [OF Cons.prems(2), of c cp] by metis
    then show ?thesis using Cons.IH [of es' s' "i + 1"] Cons.prems(3) tl d 1
      by (auto simp: UTF8_ACCEPT_def same_frame_def)
  next
    case 2
    then show ?thesis using reject_char_ok [OF Cons.prems(2), of c i cp] Cons.prems(3) d
      by (auto simp: UTF8_ACCEPT_def UTF8_REJECT_def)
  next
    case 3
    obtain es' s' where a: "pending_char ea c q cp es s = (Inr es', s')" "loop_ok ea es' s'" "decode_state es' = q" "same_frame s s'"
      using pending_char_ok [OF Cons.prems(2) d 3] by metis
    then show ?thesis using Cons.IH [of es' s' "i + 1"] Cons.prems(3) tl d 3
      by (auto simp: UTF8_ACCEPT_def UTF8_REJECT_def same_frame_def)
  qed
qed

lemma dump_escaped_valid:
  assumes "utf8_valid str"
  obtains s' where "dump_escaped str False s = (Inr (), s')" "out s' = out s @ escaped str" "same_frame s s'"
proof -
  let ?es = "\<lparr>codepoint = 0, decode_state = UTF8_ACCEPT, bytes_after_last_accept = 0, undumped_chars = 0\<rparr>"
  have "utf8_tail (needs (decode_state ?es)) str" using assms by (simp add: utf8_valid_def needs_def UTF8_ACCEPT_def)
  from dump_bytes_valid [OF this start_loop_ok, of str 0 s] that show ?thesis
    by (auto simp: dump_escaped_def same_frame_def)
qed

lemma dump_escaped_invalid:
  assumes "\<not> utf8_valid str" and "error_handler s = strict"
  obtains w s' where "dump_escaped str ea s = (Inl (type_error 316 w), s')"
proof -
  let ?es = "\<lparr>codepoint = 0, decode_state = UTF8_ACCEPT, bytes_after_last_accept = 0, undumped_chars = 0\<rparr>"
  have "\<not> utf8_tail (needs (decode_state ?es)) str" using assms by (simp add: utf8_valid_def needs_def UTF8_ACCEPT_def)
  from dump_bytes_invalid [OF this start_loop_ok, of _ _ str 0] assms(2) that show ?thesis
    by (auto simp: dump_escaped_def)
qed

end
