(* ===== verification/Json_Scan.thy ===== *)
theory Json_Scan
  imports Json_Strings
begin

text \<open>
  What the lexer makes of a text: for each kind of token, the token and its value when the
  text starts with it, and the text that is left. \<open>lex_at t lx\<close>: the lexer is about to read \<open>t\<close>;
  \<open>loaded c t lx\<close>: it has just read \<open>c\<close> and \<open>t\<close> follows.
\<close>

section \<open>Reading a character\<close>

definition lex_at :: "string \<Rightarrow> lexer \<Rightarrow> bool" where
  "lex_at t lx \<longleftrightarrow> \<not> ignore_comments lx \<and> decimal_point_char lx = of_char get_decimal_point \<and>
     (if next_unget lx then
        (case t of [] \<Rightarrow> current lx = EOF \<and> ia lx = [] | c # t' \<Rightarrow> current lx = of_char c \<and> ia lx = t')
      else ia lx = t)"

definition chars_total :: "lexer \<Rightarrow> nat" where
  "chars_total lx = chars_read_total (position lx)"

definition loaded :: "char \<Rightarrow> string \<Rightarrow> lexer \<Rightarrow> bool" where
  "loaded c t lx \<longleftrightarrow> lex_at t lx \<and> \<not> next_unget lx \<and> current lx = of_char c \<and> 0 < chars_total lx"

lemma char_not_EOF [simp]: "(of_char c :: int) \<noteq> EOF"
  using byte_range [of c] by linarith

lemma lex_at_get:
  assumes "lex_at (c # t) lx"
  shows "loaded c t (lex_get lx)" and "token_buffer (lex_get lx) = token_buffer lx"
    and "chars_total (lex_get lx) = Suc (chars_total lx)"
  using assms
  by (auto simp: lex_at_def loaded_def chars_total_def lex_get_def get_character_def count_char_def Let_def split: if_splits)

lemma lex_at_end:
  assumes "lex_at [] lx"
  shows "current (lex_get lx) = EOF" and "lex_at [] (lex_get lx)" and "token_buffer (lex_get lx) = token_buffer lx"
    and "chars_total (lex_get lx) = Suc (chars_total lx)" and "\<not> next_unget (lex_get lx)"
  using assms
  by (auto simp: lex_at_def chars_total_def lex_get_def get_character_def count_char_def Let_def split: if_splits)

lemma lex_at_unget:
  assumes "loaded c t lx"
  shows "lex_at (c # t) (lex_unget lx)" and "token_buffer (lex_unget lx) = token_buffer lx"
    and "chars_total (lex_unget lx) = chars_total lx - 1"
  using assms
  by (auto simp: lex_at_def loaded_def chars_total_def lex_unget_def uncount_char_def Let_def split: if_splits)

lemma lex_at_unget_end:
  assumes "lex_at [] lx" and "current lx = EOF" and "\<not> next_unget lx"
  shows "lex_at [] (lex_unget lx)" and "token_buffer (lex_unget lx) = token_buffer lx"
    and "chars_total (lex_unget lx) = chars_total lx - 1"
  using assms
  by (auto simp: lex_at_def chars_total_def lex_unget_def uncount_char_def Let_def)

lemma lex_add_at [simp]:
  "lex_at t (lex_add x lx) = lex_at t lx" "chars_total (lex_add x lx) = chars_total lx"
  "loaded c t (lex_add x lx) = loaded c t lx" "token_buffer (lex_add x lx) = token_buffer lx @ [char_of x]"
  by (simp_all add: lex_at_def loaded_def chars_total_def lex_add_def cong: list.case_cong)

lemma lex_reset_at [simp]:
  "lex_at t (lex_reset lx) = lex_at t lx" "loaded c t (lex_reset lx) = loaded c t lx"
  "chars_total (lex_reset lx) = chars_total lx" "token_buffer (lex_reset lx) = []"
  by (simp_all add: lex_at_def loaded_def chars_total_def lex_reset_def cong: list.case_cong)

lemma loaded_simps: "loaded c t lx \<Longrightarrow> current lx = of_char c" "loaded c t lx \<Longrightarrow> lex_at t lx"
  "loaded c t lx \<Longrightarrow> 0 < chars_total lx"
  by (simp_all add: loaded_def)

section \<open>Strings\<close>

lemma utf8_tail_split:
  "utf8_tail rs s \<Longrightarrow> \<exists>ds cs. s = ds @ cs \<and> list_all2 in_range rs ds \<and> utf8_tail [] cs"
proof (induction rs arbitrary: s)
  case (Cons r rs)
  then obtain c s' where s: "s = c # s'" "in_range r c" "utf8_tail rs s'" by (cases s) auto
  from Cons.IH [OF s(3)] obtain ds cs where "s' = ds @ cs" "list_all2 in_range rs ds" "utf8_tail [] cs" by blast
  with s show ?case by (intro exI [of _ "c # ds"] exI [of _ cs]) simp
qed simp

text \<open>The bytes after a lead byte, read or refused.\<close>

lemma bytes_in_ranges_at:
  assumes "list_all2 in_range rs ds" and "lex_at (ds @ t) lx"
  shows "\<exists>lx'. bytes_in_ranges rs lx = (True, lx') \<and> lex_at t lx' \<and> token_buffer lx' = token_buffer lx @ ds"
  using assms
proof (induction arbitrary: lx)
  case Nil
  then show ?case by auto
next
  case (Cons r rs d ds)
  have g: "loaded d (ds @ t) (lex_get lx)" "token_buffer (lex_get lx) = token_buffer lx"
    using lex_at_get [of d "ds @ t" lx] Cons.prems by simp_all
  then have "lex_at (ds @ t) (lex_add (current (lex_get lx)) (lex_get lx))" by (simp add: loaded_simps)
  from Cons.IH [OF this] Cons.hyps(1) g show ?case
    by (cases r) (auto simp: Let_def in_range_def loaded_simps)
qed


lemma bytes_not_in_ranges:
  assumes "\<forall>ds cs. s = ds @ cs \<longrightarrow> \<not> list_all2 in_range rs ds" and "lex_at (s @ CHR 0x22 # t) lx"
    and "\<forall>r\<in>set rs. 0x22 < fst r"
  shows "\<exists>lx'. bytes_in_ranges rs lx = (False, lx')"
  using assms
proof (induction rs arbitrary: s lx)
  case Nil
  then show ?case by (metis append_Nil list_all2_Nil)
next
  case (Cons r rs)
  show ?case
  proof (cases s)
    case Nil
    then have "loaded (CHR 0x22) t (lex_get lx)" using Cons.prems(2) by (simp add: lex_at_get)
    then show ?thesis using Cons.prems(3) by (cases r) (auto simp: Let_def loaded_simps)
  next
    case (Cons c s')
    then have g: "loaded c (s' @ CHR 0x22 # t) (lex_get lx)" using Cons.prems(2) by (simp add: lex_at_get)
    show ?thesis
    proof (cases "in_range r c")
      case True
      have "\<exists>lx'. bytes_in_ranges rs (lex_add (current (lex_get lx)) (lex_get lx)) = (False, lx')"
      proof (rule Cons.IH)
        show "\<forall>ds cs. s' = ds @ cs \<longrightarrow> \<not> list_all2 in_range rs ds"
          using Cons.prems(1) True Cons by (metis append_Cons list_all2_Cons)
        show "lex_at (s' @ CHR 0x22 # t) (lex_add (current (lex_get lx)) (lex_get lx))" using g by (simp add: loaded_simps)
        show "\<forall>r\<in>set rs. 0x22 < fst r" using Cons.prems(3) by simp
      qed
      then show ?thesis using True g by (cases r) (auto simp: Let_def in_range_def loaded_simps)
    next
      case False
      then show ?thesis using g by (cases r) (auto simp: Let_def in_range_def loaded_simps)
    qed
  qed
qed

text \<open>One step of the scanner of strings.\<close>

lemma scan_string_end: "lex_at (CHR 0x22 # t) lx \<Longrightarrow>
    scan_string_chars lx = (value_string, lex_get lx)"
  using lex_at_get [of "CHR 0x22" t lx] by (subst scan_string_chars.simps) (simp add: Let_def loaded_simps)

lemma scan_plain_char:
  assumes "lex_at (c # t) lx" and "plain_byte (of_char c)"
  shows "scan_string_chars lx = scan_string_chars (lex_add (of_char c) (lex_get lx))"
  using assms lex_at_get [OF assms(1)]
  by (subst scan_string_chars.simps) (auto simp: Let_def loaded_simps plain_byte_def)

lemma scan_wide_char:
  assumes "lex_at (c # t) lx" and "0x80 \<le> (of_char c :: int)"
  shows "scan_string_chars lx =
    (case tail_ranges c of
       None \<Rightarrow> lex_error ''invalid string: ill-formed UTF-8 byte'' (lex_get lx)
     | Some rs \<Rightarrow> (case bytes_in_ranges rs (lex_add (of_char c) (lex_get lx)) of
         (ok, lx2) \<Rightarrow> if ok then scan_string_chars lx2 else (parse_error_token, lx2)))"
proof -
  have c: "current (lex_get lx) = of_char c" using lex_at_get(1) [OF assms(1)] by (rule loaded_simps)
  show ?thesis
    using assms(2) by (subst scan_string_chars.simps)
      (simp add: Let_def c plain_byte_def tail_ranges_def next_byte_in_range_def cong: option.case_cong)
qed

lemma tail_ranges_high: "tail_ranges c = Some rs \<Longrightarrow> r \<in> set rs \<Longrightarrow> 0x22 < fst r"
  by (auto simp: tail_ranges_def utf8_ranges_def split: if_splits)

lemma tail_ranges_empty: "tail_ranges c = Some [] \<longleftrightarrow> (of_char c :: int) < 0x80"
  by (auto simp: tail_ranges_def utf8_ranges_def)

text \<open>
  Text without quotes, backslashes and control characters: the lexer accepts it exactly when
  it is well-formed UTF-8.
\<close>

lemma scan_raw_string:
  assumes "\<forall>c\<in>set s. plain_byte (of_char c) \<or> 0x80 \<le> (of_char c :: int)" and "lex_at (s @ CHR 0x22 # t) lx"
  shows "utf8_tail [] s \<Longrightarrow> \<exists>lx'. scan_string_chars lx = (value_string, lx') \<and> loaded (CHR 0x22) t lx' \<and>
      token_buffer lx' = token_buffer lx @ s"
    and "\<not> utf8_tail [] s \<Longrightarrow> fst (scan_string_chars lx) = parse_error_token"
proof -
  have "if utf8_tail [] s then (\<exists>lx'. scan_string_chars lx = (value_string, lx') \<and> loaded (CHR 0x22) t lx' \<and>
      token_buffer lx' = token_buffer lx @ s) else fst (scan_string_chars lx) = parse_error_token"
    using assms
  proof (induction s arbitrary: lx rule: length_induct)
    case (1 s)
    note IH = 1(1)[rule_format] and plain = 1(2) and at = 1(3)
    show ?case
    proof (cases s)
      case Nil
      then show ?thesis using at lex_at_get [of "CHR 0x22" t lx] by (simp add: scan_string_end)
    next
      case (Cons c s')
      then have at': "lex_at (c # s' @ CHR 0x22 # t) lx" using at by simp
      note g = lex_at_get [OF at']
      let ?lx = "lex_add (of_char c) (lex_get lx)"
      have l: "lex_at (s' @ CHR 0x22 # t) ?lx" using g by (simp add: loaded_simps)
      show ?thesis
      proof (cases "(of_char c :: int) < 0x80")
        case True
        then have p: "plain_byte (of_char c)" and t: "tail_ranges c = Some []"
          using plain Cons by (auto simp: tail_ranges_def)
        then show ?thesis using IH [of s' ?lx] plain Cons l g scan_plain_char [OF at' p]
          by (auto split: if_splits)
      next
        case False
        then have w: "0x80 \<le> (of_char c :: int)" by simp
        note sw = scan_wide_char [OF at' w]
        show ?thesis
        proof (cases "tail_ranges c")
          case None
          then show ?thesis using sw Cons by (simp add: lex_error_def)
        next
          case (Some rs)
          show ?thesis
          proof (cases "\<exists>ds cs. s' = ds @ cs \<and> list_all2 in_range rs ds")
            case True
            then obtain ds cs where ds: "s' = ds @ cs" "list_all2 in_range rs ds" by blast
            with l obtain lx' where b: "bytes_in_ranges rs ?lx = (True, lx')"
              "lex_at (cs @ CHR 0x22 # t) lx'" "token_buffer lx' = token_buffer lx @ c # ds"
              using bytes_in_ranges_at [of rs ds "cs @ CHR 0x22 # t" ?lx] g by auto
            have u: "utf8_tail rs (ds @ cs) = utf8_tail [] cs"
              using ds(2) by (induction) auto
            show ?thesis using IH [of cs lx'] plain Cons ds b sw Some u by (auto split: if_splits)
          next
            case False
            then obtain lx' where "bytes_in_ranges rs ?lx = (False, lx')"
              using bytes_not_in_ranges [OF _ l, of rs] tail_ranges_high [OF Some] by blast
            moreover have "\<not> utf8_tail rs s'" using False utf8_tail_split [of rs s'] by blast
            ultimately show ?thesis using sw Some Cons by simp
          qed
        qed
      qed
    qed
  qed
  then show "utf8_tail [] s \<Longrightarrow> \<exists>lx'. scan_string_chars lx = (value_string, lx') \<and> loaded (CHR 0x22) t lx' \<and>
      token_buffer lx' = token_buffer lx @ s"
    and "\<not> utf8_tail [] s \<Longrightarrow> fst (scan_string_chars lx) = parse_error_token"
    by (simp_all split: if_splits)
qed


section \<open>Escaped strings\<close>

lemma of_char_hex: "0 \<le> d \<Longrightarrow> d < 16 \<Longrightarrow> (of_char (hex_lower d) :: int) = (if d < 10 then 0x30 + d else 0x57 + d)"
  by (simp add: hex_lower_def)

lemma hex_digit_value_lower: "0 \<le> d \<Longrightarrow> d < 16 \<Longrightarrow> hex_digit_value (of_char (hex_lower d)) = Some d"
  by (simp add: of_char_hex hex_digit_value_def)

lemma codepoint_digits_at:
  assumes "list_all (\<lambda>d. 0 \<le> d \<and> d < 16) ds" and "length fs = length ds" and "lex_at (map hex_lower ds @ t) lx"
  shows "\<exists>lx'. codepoint_digits fs n lx = (n + sum_list (map2 push_bit fs ds), lx') \<and> lex_at t lx' \<and>
    token_buffer lx' = token_buffer lx"
  using assms
proof (induction ds arbitrary: fs n lx)
  case Nil
  then show ?case by simp
next
  case (Cons d ds)
  then obtain f fs' where fs: "fs = f # fs'" "length fs' = length ds" by (cases fs) auto
  note g = lex_at_get [of "hex_lower d" "map hex_lower ds @ t" lx]
  from Cons.IH [of fs' "lex_get lx" "n + push_bit f d"] Cons.prems fs g show ?case
    by (simp add: Let_def loaded_simps hex_digit_value_lower add.assoc)
qed

text \<open>A backslash and the letter of one of the short escapes.\<close>

lemma scan_short_escape:
  assumes "lex_at (CHR 0x5C # c # t) lx"
    and "(c, d) \<in> set [(CHR 0x22, 0x22), (CHR 0x5C, 0x5C), (CHR ''b'', 0x08), (CHR ''f'', 0x0C),
      (CHR ''n'', 0x0A), (CHR ''r'', 0x0D), (CHR ''t'', 0x09)]"
  shows "\<exists>lx'. scan_string_chars lx = scan_string_chars lx' \<and> lex_at t lx' \<and>
    token_buffer lx' = token_buffer lx @ [char_of (d :: int)]"
proof -
  note g1 = lex_at_get [OF assms(1)] and g2 = lex_at_get [OF loaded_simps(2) [OF lex_at_get(1) [OF assms(1)]]]
  have e: "scan_escape (lex_get lx) = (True, lex_add d (lex_get (lex_get lx)))"
    using assms(2) g2 by (auto simp: scan_escape_def Let_def loaded_simps)
  show ?thesis
    using g1 g2 by (subst scan_string_chars.simps) (auto simp: Let_def loaded_simps e)
qed

lemma scan_u_escape:
  assumes "lex_at (u_escape n @ t) lx" and "0 \<le> n" and "n < 0x20"
  shows "\<exists>lx'. scan_string_chars lx = scan_string_chars lx' \<and> lex_at t lx' \<and>
    token_buffer lx' = token_buffer lx @ [char_of n]"
proof -
  let ?ds = "[n div 4096 mod 16, n div 256 mod 16, n div 16 mod 16, n mod 16]"
  have u: "u_escape n @ t = CHR 0x5C # CHR ''u'' # (map hex_lower ?ds @ t)" by (simp add: u_escape_def)
  note g1 = lex_at_get [OF assms(1) [unfolded u]]
  note g2 = lex_at_get [OF loaded_simps(2) [OF g1(1)]]
  have "list_all (\<lambda>d. 0 \<le> d \<and> d < 16) ?ds" by simp
  from codepoint_digits_at [OF this, of "[12, 8, 4, 0]" t "lex_get (lex_get lx)" 0] loaded_simps(2) [OF g2(1)]
  obtain lx3 where c: "get_codepoint (lex_get (lex_get lx)) = (sum_list (map2 push_bit [12, 8, 4, 0] ?ds), lx3)"
      "lex_at t lx3" "token_buffer lx3 = token_buffer lx"
    unfolding get_codepoint_def g1(2) g2(2) by (metis add_0 length_Cons list.size(3))
  have v: "sum_list (map2 push_bit [12, 8, 4, 0] ?ds) = n"
    using assms(2,3) by (simp add: push_bit_eq_mult)
  have "scan_unicode (lex_get (lex_get lx)) = (True, lex_add n lx3)"
    using assms(2,3) by (simp only: scan_unicode_def c(1) [unfolded v] prod.case) (simp add: codepoint_bytes_def)
  then have e: "scan_escape (lex_get lx) = (True, lex_add n lx3)"
    using g2 by (simp add: scan_escape_def Let_def loaded_simps)
  show ?thesis
    using g1 c by (subst scan_string_chars.simps) (auto simp: Let_def loaded_simps e)
qed

lemma scan_escaped_char:
  assumes "lex_at (escape_char c @ t) lx" and c: "(of_char c :: int) < 0x80"
  shows "\<exists>lx'. scan_string_chars lx = scan_string_chars lx' \<and> lex_at t lx' \<and> token_buffer lx' = token_buffer lx @ [c]"
proof -
  define n where "n = (of_char c :: int)"
  have n: "0 \<le> n" "n < 0x80" using c byte_range [of c] by (simp_all add: n_def)
  have cn: "char_of n = c" by (simp add: n_def)
  have e: "escape_char c = fst (escape_text False n c)" by (simp add: escape_char_def n_def)
  consider "n \<in> {0x08, 0x09, 0x0A, 0x0C, 0x0D, 0x22, 0x5C}" | "n < 0x20" "n \<notin> {0x08, 0x09, 0x0A, 0x0C, 0x0D, 0x22, 0x5C}"
    | "0x20 \<le> n" "n \<noteq> 0x22" "n \<noteq> 0x5C" by force
  then show ?thesis
  proof cases
    case 1
    then obtain d where "escape_char c = [CHR 0x5C, d]"
      and "(d, n) \<in> set [(CHR 0x22, 0x22), (CHR 0x5C, 0x5C), (CHR ''b'', 0x08), (CHR ''f'', 0x0C),
        (CHR ''n'', 0x0A), (CHR ''r'', 0x0D), (CHR ''t'', 0x09)]"
      unfolding e by (auto simp: escape_text_def)
    then show ?thesis using scan_short_escape [of d t lx n] assms(1) cn by simp
  next
    case 2
    then have "escape_char c = u_escape n" by (simp add: e escape_text_def)
    then show ?thesis using scan_u_escape [of n t lx] assms(1) n 2 cn by simp
  next
    case 3
    then have "escape_char c = [c]" by (simp add: e escape_text_def)
    moreover have "plain_byte n" using 3 n by (simp add: plain_byte_def)
    ultimately show ?thesis
      using scan_plain_char [of c t lx] assms(1) lex_at_get [of c t lx]
      by (intro exI [of _ "lex_add n (lex_get lx)"]) (simp add: n_def [symmetric] cn loaded_simps(2))
  qed
qed

lemma escaped_append: "escaped (s @ t) = escaped s @ escaped t"
  by (simp add: escaped_def)

lemma escaped_wide: "\<forall>d\<in>set ds. 0x80 \<le> (of_char d :: int) \<Longrightarrow> escaped ds = ds"
  by (induction ds) (simp_all add: escape_char_wide)

lemma scan_escaped:
  assumes "utf8_tail [] s" and "lex_at (escaped s @ CHR 0x22 # t) lx"
  shows "\<exists>lx'. scan_string_chars lx = (value_string, lx') \<and> loaded (CHR 0x22) t lx' \<and>
    token_buffer lx' = token_buffer lx @ s"
  using assms
proof (induction s arbitrary: lx rule: length_induct)
  case (1 s)
  note IH = 1(1)[rule_format] and u = 1(2) and at = 1(3)
  show ?case
  proof (cases s)
    case Nil
    then show ?thesis using at lex_at_get [of "CHR 0x22" t lx] by (simp add: scan_string_end)
  next
    case (Cons c s')
    then obtain rs where rs: "tail_ranges c = Some rs" "utf8_tail rs s'" using u by (auto split: option.splits)
    show ?thesis
    proof (cases "(of_char c :: int) < 0x80")
      case True
      then have "utf8_tail [] s'" using rs by (simp add: tail_ranges_def)
      moreover obtain lx' where "scan_string_chars lx = scan_string_chars lx'"
          "lex_at (escaped s' @ CHR 0x22 # t) lx'" "token_buffer lx' = token_buffer lx @ [c]"
        using scan_escaped_char [of c "escaped s' @ CHR 0x22 # t" lx] at Cons True by auto
      ultimately show ?thesis using IH [of s' lx'] Cons by auto
    next
      case False
      then have w: "0x80 \<le> (of_char c :: int)" by simp
      obtain ds cs where ds: "s' = ds @ cs" "list_all2 in_range rs ds" "utf8_tail [] cs"
        using utf8_tail_split [OF rs(2)] by blast
      have hi: "r \<in> set rs \<Longrightarrow> 0x80 \<le> fst r" for r
        using rs(1) by (auto simp: tail_ranges_def utf8_ranges_def split: if_splits)
      have "\<forall>d\<in>set ds. 0x80 \<le> (of_char d :: int)"
      proof
        fix d assume "d \<in> set ds"
        then obtain i where i: "i < length ds" "d = ds ! i" by (auto simp: in_set_conv_nth)
        then have "in_range (rs ! i) d" "i < length rs" using ds(2) by (auto simp: list_all2_conv_all_nth)
        then show "0x80 \<le> (of_char d :: int)" using hi [of "rs ! i"] by (auto simp: in_range_def)
      qed
      then have at': "lex_at (c # ds @ escaped cs @ CHR 0x22 # t) lx"
        using at Cons ds(1) w by (simp add: escaped_append escaped_wide escape_char_wide)
      let ?lx = "lex_add (of_char c) (lex_get lx)"
      have "lex_at (ds @ escaped cs @ CHR 0x22 # t) ?lx" "token_buffer ?lx = token_buffer lx @ [c]"
        using lex_at_get [OF at'] by (simp_all add: loaded_simps)
      with bytes_in_ranges_at [OF ds(2) this(1)] obtain lx' where b: "bytes_in_ranges rs ?lx = (True, lx')"
        "lex_at (escaped cs @ CHR 0x22 # t) lx'" "token_buffer lx' = token_buffer lx @ c # ds" by auto
      show ?thesis
        using IH [of cs lx'] b ds Cons scan_wide_char [OF at' w] rs(1) by auto
    qed
  qed
qed

lemma scan_string_text:
  assumes "utf8_valid s" and "loaded c (escaped s @ CHR 0x22 # t) lx"
  shows "\<exists>lx'. scan_string lx = (value_string, lx') \<and> loaded (CHR 0x22) t lx' \<and> token_buffer lx' = s"
  using scan_escaped [of s t "lex_reset lx"] assms by (simp add: utf8_valid_def scan_string_def loaded_simps)

end
