(* ===== verification/Json_Tokens.thy ===== *)
theory Json_Tokens
  imports Json_Scan
begin

text \<open>
  The tokens of a text: spaces are skipped, and a punctuation mark, a literal, a string or a
  number at the start of the text is the token of that kind with its value. \<open>resumes t lx\<close>:
  the lexer is between two tokens and \<open>t\<close> is left.
\<close>

definition resumes :: "string \<Rightarrow> lexer \<Rightarrow> bool" where
  "resumes t lx \<longleftrightarrow> lex_at t lx \<and> 0 < chars_total lx"

lemma loaded_resumes: "loaded c t lx \<Longrightarrow> resumes t lx"
  by (simp add: loaded_def resumes_def)

section \<open>Spaces\<close>

lemma skip_whitespace_at:
  assumes "\<forall>w\<in>set ws. json_space (of_char w)" and "\<not> json_space (of_char c)" and "lex_at (ws @ c # t) lx"
  shows "loaded c t (skip_whitespace lx)"
  using assms(1,3)
proof (induction ws arbitrary: lx)
  case Nil
  then show ?case using assms(2) lex_at_get [of c t lx]
    by (subst skip_whitespace.simps) (simp add: Let_def loaded_simps)
next
  case (Cons w ws)
  then have g: "loaded w (ws @ c # t) (lex_get lx)" by (simp add: lex_at_get)
  then show ?case using Cons.IH [of "lex_get lx"] Cons.prems(1)
    by (subst skip_whitespace.simps) (simp add: Let_def loaded_simps)
qed

lemma skip_bom_at:
  assumes "lex_at (c # t) lx" and "(of_char c :: int) \<noteq> 0xEF"
  shows "skip_bom lx = (True, lex_unget (lex_get lx))" and "lex_at (c # t) (lex_unget (lex_get lx))"
  using assms lex_at_get(1) [OF assms(1)] lex_at_unget(1) [OF lex_at_get(1) [OF assms(1)]]
  by (simp_all add: skip_bom_def Let_def loaded_simps)

lemma skip_comments_at: "lex_at t lx \<Longrightarrow> skip_comments lx = (True, lx)"
  by (subst skip_comments.simps) (simp add: lex_at_def)

lemma scan_at:
  assumes ws: "\<forall>w\<in>set ws. json_space (of_char w)" and c: "\<not> json_space (of_char c)" "(of_char c :: int) < 0x80"
    and at: "lex_at (ws @ c # t) lx"
  shows "\<exists>lx'. scan lx = scan_token lx' \<and> loaded c t lx'"
proof -
  obtain d t' where d: "ws @ c # t = d # t'" "(of_char d :: int) \<noteq> 0xEF"
    using ws c(2) by (cases ws) (auto simp: json_space_def)
  define start where "start = (if chars_read_total (position lx) = 0 then skip_bom lx else (True, lx))"
  have "fst start \<and> lex_at (ws @ c # t) (snd start)"
    using skip_bom_at [of d t' lx] d at by (simp add: start_def)
  then obtain lx1 where s: "start = (True, lx1)" "lex_at (ws @ c # t) lx1" by (cases start) auto
  then have l: "loaded c t (skip_whitespace lx1)" using skip_whitespace_at ws c by blast
  then have "skip_comments (skip_whitespace lx1) = (True, skip_whitespace lx1)"
    using skip_comments_at loaded_simps(2) by blast
  then have "scan lx = scan_token (skip_whitespace lx1)"
    unfolding scan_def start_def [symmetric] s(1) by simp
  with l show ?thesis by blast
qed

section \<open>Punctuation, literals and strings\<close>

fun mark_token :: "char \<Rightarrow> token_type option" where
  "mark_token c = (if c = CHR ''['' then Some begin_array else if c = CHR '']'' then Some end_array
     else if c = CHR ''{'' then Some begin_object else if c = CHR ''}'' then Some end_object
     else if c = CHR '':'' then Some name_separator else if c = CHR '','' then Some value_separator else None)"

lemma scan_mark:
  assumes "\<forall>w\<in>set ws. json_space (of_char w)" and "mark_token c = Some k" and "lex_at (ws @ c # t) lx"
  shows "\<exists>lx'. scan lx = (k, lx') \<and> resumes t lx'"
proof -
  have "\<not> json_space (of_char c)" "(of_char c :: int) < 0x80" using assms(2) by (auto simp: json_space_def split: if_splits)
  from scan_at [OF assms(1) this assms(3)] obtain lx' where "scan lx = scan_token lx'" "loaded c t lx'" by blast
  moreover have "scan_token lx' = (k, lx')" if "loaded c t lx'"
    using assms(2) loaded_simps(1) [OF that] by (auto simp: scan_token_def split: if_splits)
  ultimately show ?thesis using loaded_resumes by auto
qed

lemma scan_literal_rest_at:
  "lex_at (ls @ t) lx \<Longrightarrow> 0 < chars_total lx \<Longrightarrow> \<exists>lx'. scan_literal_rest ls k lx = (k, lx') \<and> resumes t lx'"
proof (induction ls arbitrary: lx)
  case Nil
  then show ?case by (simp add: resumes_def)
next
  case (Cons l ls)
  then show ?case using lex_at_get [of l "ls @ t" lx] by (simp add: Let_def loaded_simps)
qed

lemma scan_literal_at:
  assumes "\<forall>w\<in>set ws. json_space (of_char w)" and "lex_at (ws @ l @ t) lx"
    and "(l, k) \<in> {(''true'', literal_true), (''false'', literal_false), (''null'', literal_null)}"
  shows "\<exists>lx'. scan lx = (k, lx') \<and> resumes t lx'"
proof -
  obtain c ls where l: "l = c # ls" using assms(3) by (cases l) auto
  have "\<not> json_space (of_char c)" "(of_char c :: int) < 0x80" using assms(3) l by (auto simp: json_space_def)
  from scan_at [OF assms(1) this, of "ls @ t"] assms(2) l
  obtain lx' where s: "scan lx = scan_token lx'" "loaded c (ls @ t) lx'" by auto
  have "scan_token lx' = scan_literal_rest ls k lx'"
    using assms(3) l loaded_simps(1) [OF s(2)] by (auto simp: scan_token_def scan_literal_def)
  with s scan_literal_rest_at [of ls t lx' k] show ?thesis by (simp add: loaded_simps)
qed

lemma scan_quoted:
  assumes "\<forall>w\<in>set ws. json_space (of_char w)" and "utf8_valid s"
    and "lex_at (ws @ CHR 0x22 # escaped s @ CHR 0x22 # t) lx"
  shows "\<exists>lx'. scan lx = (value_string, lx') \<and> resumes t lx' \<and> token_buffer lx' = s"
proof -
  obtain lx' where l: "scan lx = scan_token lx'" "loaded (CHR 0x22) (escaped s @ CHR 0x22 # t) lx'"
    using scan_at [OF assms(1) _ _ assms(3)] by (auto simp: json_space_def)
  have "scan_token lx' = scan_string lx'" using loaded_simps(1) [OF l(2)] by (simp add: scan_token_def)
  with l scan_string_text [OF assms(2) l(2)] show ?thesis by (auto dest: loaded_resumes)
qed

section \<open>Numbers\<close>

text \<open>A text that does not go on with a number.\<close>

definition delimited :: "string \<Rightarrow> bool" where
  "delimited t \<longleftrightarrow> (case t of [] \<Rightarrow> True | c # _ \<Rightarrow> \<not> isdigit c \<and> c \<noteq> CHR ''.'' \<and> c \<noteq> CHR ''e'' \<and> c \<noteq> CHR ''E'')"

lemma digit_isdigit [simp]: "digit (of_char c) = isdigit c"
  by (simp add: digit_def isdigit_def)

lemma digit_EOF [simp]: "\<not> digit EOF"
  by (simp add: digit_def)

lemma get_unget_at:
  assumes "lex_at t lx"
  shows "lex_at t (lex_unget (lex_get lx))" and "token_buffer (lex_unget (lex_get lx)) = token_buffer lx"
    and "chars_total (lex_unget (lex_get lx)) = chars_total lx"
proof -
  let ?u = "lex_unget (lex_get lx)"
  have "lex_at t ?u \<and> token_buffer ?u = token_buffer lx \<and> chars_total ?u = chars_total lx"
  proof (cases t)
    case Nil
    then show ?thesis using assms lex_at_end [of lx] lex_at_unget_end [of "lex_get lx"] by simp
  next
    case (Cons c t')
    then show ?thesis using assms lex_at_get [of c t' lx] lex_at_unget [of c t' "lex_get lx"] by simp
  qed
  then show "lex_at t ?u" "token_buffer ?u = token_buffer lx" "chars_total ?u = chars_total lx" by simp_all
qed

text \<open>What a number token holds: the conversion of its text.\<close>

definition number_token :: "token_type \<Rightarrow> string \<Rightarrow> token_type \<Rightarrow> lexer \<Rightarrow> bool" where
  "number_token ty b k lx \<longleftrightarrow>
     (if ty = value_unsigned \<and> strtoull b \<noteq> None then k = value_unsigned \<and> strtoull b = Some (number_unsigned lx)
      else if ty = value_integer \<and> strtoll b \<noteq> None then k = value_integer \<and> strtoll b = Some (number_integer lx)
      else k = value_float \<and> number_float lx = strtod b)"

lemma lex_at_number [simp]:
  "lex_at t (lx\<lparr>number_float := x\<rparr>) = lex_at t lx" "lex_at t (lx\<lparr>number_unsigned := n\<rparr>) = lex_at t lx"
  "lex_at t (lx\<lparr>number_integer := n\<rparr>) = lex_at t lx"
  "chars_total (lx\<lparr>number_float := x\<rparr>) = chars_total lx" "chars_total (lx\<lparr>number_unsigned := n\<rparr>) = chars_total lx"
  "chars_total (lx\<lparr>number_integer := n\<rparr>) = chars_total lx"
  by (simp_all add: lex_at_def chars_total_def cong: list.case_cong)

lemma scan_number_done_at:
  assumes "resumes t lx"
  shows "\<exists>k lx'. scan_number_done ty (lex_get lx) = (k, lx') \<and> resumes t lx' \<and> number_token ty (token_buffer lx) k lx'"
  using assms get_unget_at [of t lx]
  by (auto simp: scan_number_done_def Let_def resumes_def number_token_def split: option.splits)


lemma resumes_get:
  assumes "resumes (c # t) lx"
  shows "current (lex_get lx) = of_char c" and "resumes t (lex_get lx)"
    and "token_buffer (lex_get lx) = token_buffer lx" and "resumes t (lex_add x (lex_get lx))"
    and "loaded c t (lex_get lx)"
  using assms lex_at_get [of c t lx] by (auto simp: resumes_def loaded_def)

lemma resumes_char:
  assumes "resumes t lx" and "delimited t"
  shows "\<not> digit (current (lex_get lx))" and "\<not> exponent_letter (current (lex_get lx))"
    and "current (lex_get lx) \<noteq> of_char (CHR ''.'')"
proof -
  have "\<not> digit (current (lex_get lx)) \<and> \<not> exponent_letter (current (lex_get lx)) \<and>
    current (lex_get lx) \<noteq> of_char (CHR ''.'')"
  proof (cases t)
    case Nil
    then have "current (lex_get lx) = EOF" using assms(1) by (simp add: resumes_def lex_at_end)
    then show ?thesis by (simp add: exponent_letter_def)
  next
    case (Cons c t')
    then have "current (lex_get lx) = of_char c" using assms(1) by (simp add: resumes_get)
    then show ?thesis using assms(2) Cons of_char_eq_iff [of c, where ?'a = int]
      by (simp only: exponent_letter_def of_char_eq_iff digit_isdigit) (simp add: delimited_def)
  qed
  then show "\<not> digit (current (lex_get lx))" "\<not> exponent_letter (current (lex_get lx))"
    "current (lex_get lx) \<noteq> of_char (CHR ''.'')" by simp_all
qed

lemma digits_step:
  assumes "resumes (c # t) lx" and "isdigit c"
  shows "scan_number_any1 ty lx = scan_number_any1 ty (lex_add (of_char c) (lex_get lx))"
    and "scan_number_any2 ty lx = scan_number_any2 ty (lex_add (of_char c) (lex_get lx))"
    and "scan_number_decimal2 ty lx = scan_number_decimal2 ty (lex_add (of_char c) (lex_get lx))"
  using assms resumes_get(1) [OF assms(1)]
  by (subst scan_number_any1.simps scan_number_any2.simps scan_number_decimal2.simps, simp add: Let_def)+

lemma digits_scanned:
  assumes "\<forall>d\<in>set ds. isdigit d" and "resumes (ds @ t) lx"
  shows "\<exists>lx'. resumes t lx' \<and> token_buffer lx' = token_buffer lx @ ds \<and>
    scan_number_any1 ty lx = scan_number_any1 ty lx' \<and> scan_number_any2 ty lx = scan_number_any2 ty lx' \<and>
    scan_number_decimal2 ty lx = scan_number_decimal2 ty lx'"
  using assms
proof (induction ds arbitrary: lx)
  case Nil
  then show ?case by auto
next
  case (Cons d ds)
  then have d: "resumes (d # ds @ t) lx" "isdigit d" by simp_all
  note g = resumes_get [OF d(1)]
  from Cons.IH [of "lex_add (of_char d) (lex_get lx)"] Cons.prems(1) g(4)
  obtain lx' where "resumes t lx' \<and> token_buffer lx' = token_buffer (lex_add (of_char d) (lex_get lx)) @ ds \<and>
    scan_number_any1 ty (lex_add (of_char d) (lex_get lx)) = scan_number_any1 ty lx' \<and>
    scan_number_any2 ty (lex_add (of_char d) (lex_get lx)) = scan_number_any2 ty lx' \<and>
    scan_number_decimal2 ty (lex_add (of_char d) (lex_get lx)) = scan_number_decimal2 ty lx'" by auto
  then show ?case using digits_step [OF d] g(3) by auto
qed

text \<open>The end of the digits is the end of the number.\<close>

lemma number_ends:
  assumes "resumes t lx" and "delimited t"
  shows "scan_number_any1 ty lx = scan_number_done ty (lex_get lx)"
    and "scan_number_any2 ty lx = scan_number_done ty (lex_get lx)"
    and "scan_number_decimal2 ty lx = scan_number_done ty (lex_get lx)"
    and "scan_number_zero ty lx = scan_number_done ty (lex_get lx)"
  using resumes_char [OF assms]
  by (subst scan_number_any1.simps scan_number_any2.simps scan_number_decimal2.simps scan_number_zero_def,
      simp add: Let_def)+

definition scans :: "token_type \<Rightarrow> string \<Rightarrow> string \<Rightarrow> token_type \<times> lexer \<Rightarrow> bool" where
  "scans ty b t r \<longleftrightarrow> (\<exists>k lx'. r = (k, lx') \<and> resumes t lx' \<and> number_token ty b k lx')"

lemma digits_then_end:
  assumes "\<forall>d\<in>set ds. isdigit d" and "resumes (ds @ t) lx" and "delimited t"
  shows "scans ty (token_buffer lx @ ds) t (scan_number_any1 ty lx)"
    and "scans ty (token_buffer lx @ ds) t (scan_number_any2 ty lx)"
    and "scans ty (token_buffer lx @ ds) t (scan_number_decimal2 ty lx)"
proof -
  obtain lx' where l: "resumes t lx'" "token_buffer lx' = token_buffer lx @ ds"
    "scan_number_any1 ty lx = scan_number_any1 ty lx'" "scan_number_any2 ty lx = scan_number_any2 ty lx'"
    "scan_number_decimal2 ty lx = scan_number_decimal2 ty lx'"
    using digits_scanned [OF assms(1,2), of ty] by blast
  have "scans ty (token_buffer lx @ ds) t (scan_number_done ty (lex_get lx'))"
    using scan_number_done_at [OF l(1), of ty] l(2) by (simp add: scans_def)
  then show "scans ty (token_buffer lx @ ds) t (scan_number_any1 ty lx)"
    "scans ty (token_buffer lx @ ds) t (scan_number_any2 ty lx)"
    "scans ty (token_buffer lx @ ds) t (scan_number_decimal2 ty lx)"
    using l number_ends [OF l(1) assms(3)] by simp_all
qed


section \<open>Integers and decimal fractions\<close>

definition int_text :: "string \<Rightarrow> bool" where
  "int_text b = (case b of [] \<Rightarrow> False | c # ds \<Rightarrow> isdigit c \<and> list_all isdigit ds \<and> (c = CHR ''0'' \<longrightarrow> ds = []))"

lemma char_of_marks [simp]:
  "char_of (48 :: int) = CHR ''0''" "char_of (45 :: int) = CHR ''-''" "char_of (46 :: int) = CHR ''.''"
  using char_of_char [of "CHR ''0''", where ?'a = int] char_of_char [of "CHR ''-''", where ?'a = int]
    char_of_char [of "CHR ''.''", where ?'a = int] by simp_all

text \<open>The scanner has read the integer part \<open>b\<close>.\<close>

definition after_int :: "token_type \<Rightarrow> string \<Rightarrow> string \<Rightarrow> token_type \<times> lexer \<Rightarrow> bool" where
  "after_int ty b t r \<longleftrightarrow> (\<exists>lx'. resumes t lx' \<and> token_buffer lx' = b \<and>
     (r = scan_number_any1 ty lx' \<or> r = scan_number_zero ty lx'))"

lemma nonzero_isdigit [simp]: "nonzero_digit (of_char c) \<longleftrightarrow> isdigit c \<and> c \<noteq> CHR ''0''"
proof -
  have "nonzero_digit (of_char c) \<longleftrightarrow> isdigit c \<and> (of_char c :: int) \<noteq> of_char (CHR ''0'')"
    by (auto simp: nonzero_digit_def isdigit_def)
  then show ?thesis by (simp only: of_char_eq_iff)
qed

lemma ch_eq_iff: "of_char c = ch d \<longleftrightarrow> c = d"
  by (rule of_char_eq_iff)

lemma digit_not_mark: "isdigit c \<Longrightarrow> c \<noteq> CHR ''-'' \<and> c \<noteq> CHR ''+'' \<and> c \<noteq> CHR ''.'' \<and> c \<noteq> CHR ''e'' \<and> c \<noteq> CHR ''E''"
  by (auto simp: isdigit_def)

lemma int_part_scanned:
  assumes "int_text (c # ds)" and "loaded c (ds @ t) lx"
  shows "after_int value_unsigned (c # ds) t (scan_number lx)"
proof -
  let ?lx = "lex_add (of_char c) (lex_reset lx)"
  have c: "isdigit c" "c = CHR ''0'' \<longrightarrow> ds = []" "\<forall>d\<in>set ds. isdigit d"
    using assms(1) by (auto simp: int_text_def list_all_iff)
  have r: "resumes (ds @ t) ?lx" using assms(2) by (auto simp: resumes_def loaded_def)
  have "current lx = of_char c" using assms(2) by (rule loaded_simps)
  then have s: "scan_number lx = (if c = CHR ''0'' then scan_number_zero value_unsigned ?lx else scan_number_any1 value_unsigned ?lx)"
    unfolding scan_number_def Let_def current_simps using c(1) digit_not_mark [OF c(1)]
    by (simp only: ch_eq_iff nonzero_isdigit) simp
  show ?thesis
  proof (cases "c = CHR ''0''")
    case True
    then show ?thesis using s c(2) r by (auto simp: after_int_def)
  next
    case False
    then show ?thesis using s digits_scanned [OF c(3) r, of value_unsigned] by (auto simp: after_int_def)
  qed
qed

lemma negative_part_scanned:
  assumes "int_text b" and "loaded (CHR ''-'') (b @ t) lx"
  shows "after_int value_integer (CHR ''-'' # b) t (scan_number lx)"
proof -
  obtain c ds where b: "b = c # ds" using assms(1) by (cases b) (auto simp: int_text_def)
  let ?lx = "lex_add (of_char (CHR ''-'')) (lex_reset lx)"
  have c: "isdigit c" "c = CHR ''0'' \<longrightarrow> ds = []" "\<forall>d\<in>set ds. isdigit d"
    using assms(1) b by (auto simp: int_text_def list_all_iff)
  have "current lx = of_char (CHR ''-'')" using assms(2) by (rule loaded_simps)
  then have s: "scan_number lx = scan_number_minus ?lx" by (simp add: scan_number_def)
  have r: "resumes (c # ds @ t) ?lx" using assms(2) b by (auto simp: resumes_def loaded_def)
  note g = resumes_get [OF r]
  have m: "scan_number_minus ?lx = (if c = CHR ''0'' then scan_number_zero value_integer (lex_add (of_char c) (lex_get ?lx))
      else scan_number_any1 value_integer (lex_add (of_char c) (lex_get ?lx)))"
    unfolding scan_number_minus_def Let_def g(1) using c(1) by (simp only: ch_eq_iff nonzero_isdigit) simp
  show ?thesis
  proof (cases "c = CHR ''0''")
    case True
    then show ?thesis using s m c(2) g(3) g(4) [of "of_char c"] b
      by (auto simp: after_int_def intro!: exI [of _ "lex_add (of_char c) (lex_get ?lx)"])
  next
    case False
    then show ?thesis using s m digits_scanned [OF c(3) g(4) [of "of_char c"], of value_integer] b g(3)
      by (auto simp: after_int_def)
  qed
qed

lemma after_int_end: "after_int ty b t r \<Longrightarrow> delimited t \<Longrightarrow> scans ty b t r"
  using scan_number_done_at [of t _ ty] number_ends [of t _ ty]
  by (fastforce simp: after_int_def scans_def)

definition exponent_ok :: "string \<Rightarrow> bool" where
  "exponent_ok e = (case e of [] \<Rightarrow> False | c # r \<Rightarrow> (c = CHR ''e'' \<or> c = CHR ''E'') \<and>
     (case r of [] \<Rightarrow> False | s # ds \<Rightarrow>
        if s = CHR ''+'' \<or> s = CHR ''-'' then ds \<noteq> [] \<and> list_all isdigit ds else list_all isdigit r))"

lemma exponent_scanned:
  assumes "exponent_ok (c # e)" and "resumes (e @ t) lx" and "delimited t"
  shows "scans value_float (token_buffer lx @ e) t (scan_number_exponent ty lx)"
proof -
  obtain s ds where e: "e = s # ds" using assms(1) by (cases e) (auto simp: exponent_ok_def)
  have r: "resumes (s # ds @ t) lx" using assms(2) e by simp
  note g = resumes_get [OF r]
  show ?thesis
  proof (cases "s = CHR ''+'' \<or> s = CHR ''-''")
    case True
    then obtain d ds' where d: "ds = d # ds'" "isdigit d" "\<forall>d\<in>set ds'. isdigit d"
      using assms(1) e by (cases ds) (auto simp: exponent_ok_def list_all_iff)
    let ?lx = "lex_add (of_char s) (lex_get lx)"
    have "resumes (d # ds' @ t) ?lx" using g(4) d by simp
    note h = resumes_get [OF this]
    have "scan_number_exponent ty lx = scan_number_sign value_float ?lx"
      unfolding scan_number_exponent_def Let_def g(1) using True by (simp only: ch_eq_iff if_True)
    also have "\<dots> = scan_number_any2 value_float (lex_add (of_char d) (lex_get ?lx))"
      using h(1) d(2) by (simp add: scan_number_sign_def Let_def)
    finally show ?thesis
      using digits_then_end(2) [OF d(3) h(4) [of "of_char d"] assms(3), of value_float] g(3) h(3) e d(1) by simp
  next
    case False
    then have d: "isdigit s" "\<forall>d\<in>set ds. isdigit d" using assms(1) e by (auto simp: exponent_ok_def list_all_iff)
    have "scan_number_exponent ty lx = scan_number_any2 value_float (lex_add (of_char s) (lex_get lx))"
      unfolding scan_number_exponent_def Let_def g(1) using False d(1) by (simp only: ch_eq_iff digit_isdigit if_False if_True)
    then show ?thesis
      using digits_then_end(2) [OF d(2) g(4) [of "of_char s"] assms(3), of value_float] g(3) e by simp
  qed
qed

lemma exponent_letter_ok: "exponent_ok (c # e) \<Longrightarrow> exponent_letter (of_char c) \<and> \<not> isdigit c \<and> c \<noteq> CHR ''.''"
  by (auto simp: exponent_ok_def exponent_letter_def isdigit_def)

lemma after_int_exponent:
  assumes "after_int ty b (e @ t) r" and "exponent_ok e" and "delimited t"
  shows "scans value_float (b @ e) t r"
proof -
  obtain c e' where e: "e = c # e'" using assms(2) by (cases e) (auto simp: exponent_ok_def)
  obtain lx' where l: "resumes (c # e' @ t) lx'" "token_buffer lx' = b"
    "r = scan_number_any1 ty lx' \<or> r = scan_number_zero ty lx'"
    using assms(1) e by (auto simp: after_int_def)
  note g = resumes_get [OF l(1)] and x = exponent_letter_ok [OF assms(2) [unfolded e]]
  have nd: "of_char c \<noteq> ch (CHR ''.'')" using x by (simp only: ch_eq_iff not_False_eq_True)
  have "r = scan_number_exponent ty (lex_add (of_char c) (lex_get lx'))"
    using l(3) x nd g(1) by (subst (asm) scan_number_any1.simps) (auto simp: scan_number_zero_def Let_def)
  then show ?thesis
    using exponent_scanned [OF assms(2) [unfolded e] g(4) [of "of_char c"] assms(3)] l(2) g(3) e by simp
qed

lemma after_int_fraction:
  assumes "after_int ty b (CHR ''.'' # fs @ t) r" and "fs \<noteq> []" and "\<forall>d\<in>set fs. isdigit d"
  shows "\<exists>lx'. resumes t lx' \<and> token_buffer lx' = b @ CHR ''.'' # fs \<and> r = scan_number_decimal2 value_float lx'"
proof -
  obtain d ds where fs: "fs = d # ds" "isdigit d" "\<forall>d\<in>set ds. isdigit d" using assms(2,3) by (cases fs) auto
  obtain lx' where l: "resumes (CHR ''.'' # fs @ t) lx'" "token_buffer lx' = b"
    "r = scan_number_any1 ty lx' \<or> r = scan_number_zero ty lx'"
    using assms(1) by (auto simp: after_int_def)
  note g = resumes_get [OF l(1)]
  have p: "decimal_point_char (lex_get lx') = of_char (CHR ''.'')"
    using g(2) by (simp add: resumes_def lex_at_def get_decimal_point_def)
  let ?lx = "lex_add (of_char (CHR ''.'')) (lex_get lx')"
  have "r = scan_number_decimal1 ty ?lx"
    using l(3) g(1) p by (subst (asm) scan_number_any1.simps) (auto simp: scan_number_zero_def Let_def isdigit_def digit_def)
  moreover have "resumes (d # ds @ t) ?lx" using g(4) fs by simp
  note h = resumes_get [OF this]
  moreover have "scan_number_decimal1 ty ?lx = scan_number_decimal2 value_float (lex_add (of_char d) (lex_get ?lx))"
    using h(1) fs(2) by (simp add: scan_number_decimal1_def Let_def)
  ultimately show ?thesis
    using digits_scanned [OF fs(3) h(4) [of "of_char d"], of value_float] g(3) h(3) l(2) fs(1) by auto
qed

lemma fraction_exponent:
  assumes "resumes (e @ t) lx" and "exponent_ok e" and "delimited t"
  shows "scans value_float (token_buffer lx @ e) t (scan_number_decimal2 ty lx)"
proof -
  obtain c e' where e: "e = c # e'" using assms(2) by (cases e) (auto simp: exponent_ok_def)
  have r: "resumes (c # e' @ t) lx" using assms(1) e by simp
  note g = resumes_get [OF r] and x = exponent_letter_ok [OF assms(2) [unfolded e]]
  have "scan_number_decimal2 ty lx = scan_number_exponent ty (lex_add (of_char c) (lex_get lx))"
    using x g(1) by (subst scan_number_decimal2.simps) (simp add: Let_def)
  then show ?thesis
    using exponent_scanned [OF assms(2) [unfolded e] g(4) [of "of_char c"] assms(3)] g(3) e by simp
qed


section \<open>The text of a number\<close>

definition unsigned_text :: "string \<Rightarrow> string" where
  "unsigned_text t = (case t of [] \<Rightarrow> [] | c # r \<Rightarrow> if c = CHR ''-'' then r else t)"

text \<open>A number of the JSON grammar with a fraction or an exponent.\<close>

definition float_text :: "string \<Rightarrow> bool" where
  "float_text t =
     (let u = unsigned_text t; r = dropWhile isdigit u in
      int_text (takeWhile isdigit u) \<and>
      (case r of [] \<Rightarrow> False | c # f \<Rightarrow>
         if c = CHR ''.'' then
           takeWhile isdigit f \<noteq> [] \<and> (dropWhile isdigit f = [] \<or> exponent_ok (dropWhile isdigit f))
         else exponent_ok r))"

lemma int_text_scanned:
  assumes "int_text b" and "loaded (hd b) (tl b @ t) lx"
  shows "after_int value_unsigned b t (scan_number lx)"
  using assms int_part_scanned [of "hd b" "tl b" t lx] by (cases b) (auto simp: int_text_def)

lemma float_after_int:
  assumes "after_int ty b (r @ t) x" and "delimited t" and "r \<noteq> []"
    and "if hd r = CHR ''.'' then takeWhile isdigit (tl r) \<noteq> [] \<and>
        (dropWhile isdigit (tl r) = [] \<or> exponent_ok (dropWhile isdigit (tl r))) else exponent_ok r"
  shows "scans value_float (b @ r) t x"
proof (cases "hd r = CHR ''.''")
  case False
  then show ?thesis using after_int_exponent [OF assms(1)] assms by simp
next
  case True
  define fs e where "fs = takeWhile isdigit (tl r)" and "e = dropWhile isdigit (tl r)"
  have r: "r = CHR ''.'' # fs @ e" using True assms(3) by (cases r) (simp_all add: fs_def e_def)
  have fs: "fs \<noteq> []" "\<forall>d\<in>set fs. isdigit d" using assms(4) True by (auto simp: fs_def dest: set_takeWhileD)
  have e: "e = [] \<or> exponent_ok e" using assms(4) True by (simp add: e_def)
  obtain lx' where l: "resumes (e @ t) lx'" "token_buffer lx' = b @ CHR ''.'' # fs" "x = scan_number_decimal2 value_float lx'"
    using after_int_fraction [OF assms(1) [unfolded r, simplified append_Cons append_assoc] fs] by blast
  from e show ?thesis
  proof
    assume "e = []"
    then show ?thesis using digits_then_end(3) [of "[]" t lx' value_float] l assms(2) r by simp
  next
    assume "exponent_ok e"
    then show ?thesis using fraction_exponent [OF l(1) _ assms(2), of value_float] l r by simp
  qed
qed

definition first_of_number :: "char \<Rightarrow> bool" where
  "first_of_number c \<longleftrightarrow> c = CHR ''-'' \<or> isdigit c"

lemma scan_number_token:
  assumes "\<forall>w\<in>set ws. json_space (of_char w)" and "first_of_number c" and "lex_at (ws @ c # t) lx"
  shows "\<exists>lx'. scan lx = scan_number lx' \<and> loaded c t lx'"
proof -
  have "\<not> json_space (of_char c)" "(of_char c :: int) < 0x80"
    using assms(2) by (auto simp: first_of_number_def json_space_def isdigit_def)
  from scan_at [OF assms(1) this assms(3)] obtain lx' where l: "scan lx = scan_token lx'" "loaded c t lx'" by blast
  have "scan_token lx' = scan_number lx'"
    using assms(2) loaded_simps(1) [OF l(2)] by (auto simp: scan_token_def Let_def first_of_number_def isdigit_def)
  with l show ?thesis by auto
qed

lemma scan_float:
  assumes ws: "\<forall>w\<in>set ws. json_space (of_char w)" and t: "float_text b" and d: "delimited t" and at: "lex_at (ws @ b @ t) lx"
  shows "\<exists>lx'. scan lx = (value_float, lx') \<and> resumes t lx' \<and> number_float lx' = strtod b"
proof -
  define u where "u = unsigned_text b"
  define ip r where "ip = takeWhile isdigit u" and "r = dropWhile isdigit u"
  have u: "u = ip @ r" by (simp add: ip_def r_def)
  have f: "int_text ip" "r \<noteq> []" "if hd r = CHR ''.'' then takeWhile isdigit (tl r) \<noteq> [] \<and>
        (dropWhile isdigit (tl r) = [] \<or> exponent_ok (dropWhile isdigit (tl r))) else exponent_ok r"
    using t unfolding float_text_def u_def [symmetric] Let_def ip_def [symmetric] r_def [symmetric]
    by (auto split: list.splits if_splits)
  obtain c b' where b: "b = c # b'" using f(1) u by (cases b) (auto simp: u_def unsigned_text_def int_text_def)
  have c: "first_of_number c"
    using f(1) u b by (cases ip) (auto simp: first_of_number_def u_def unsigned_text_def int_text_def split: if_splits)
  obtain lx' where s: "scan lx = scan_number lx'" "loaded c (b' @ t) lx'"
    using scan_number_token [OF ws c, of "b' @ t" lx] at b by auto
  have "\<exists>ty p. after_int ty p (r @ t) (scan_number lx') \<and> p @ r = b"
  proof (cases "c = CHR ''-''")
    case True
    then have "b' = ip @ r" using u b by (simp add: u_def unsigned_text_def)
    then show ?thesis using negative_part_scanned [OF f(1), of "r @ t" lx'] s(2) True b by fastforce
  next
    case False
    then have "b = ip @ r" using u b by (simp add: u_def unsigned_text_def)
    moreover from this f(1) b have "hd ip = c" "tl ip @ r = b'" by (cases ip; simp add: int_text_def)+
    ultimately show ?thesis using int_text_scanned [OF f(1), of "r @ t" lx'] s(2) by fastforce
  qed
  then obtain ty p where p: "after_int ty p (r @ t) (scan_number lx')" "p @ r = b" by blast
  have "scans value_float b t (scan_number lx')" using float_after_int [OF p(1) d f(2,3)] p(2) by simp
  then show ?thesis using s(1) by (auto simp: scans_def number_token_def)
qed

text \<open>Integers: the decimal digits, with a minus sign in front of a negative one.\<close>

definition show_int :: "int \<Rightarrow> string" where
  "show_int n = (if n < 0 then CHR ''-'' # show_nat (nat (- n)) else show_nat (nat n))"

lemma digits_of_hd: "0 < n \<Longrightarrow> hd (digits_of n) \<noteq> 0"
proof (induction n rule: digits_of.induct)
  case (1 n)
  then show ?case by (subst digits_of.simps) auto
qed

lemma show_nat_digits: "\<forall>d\<in>set (show_nat n). isdigit d"
  using digits_of_range [of "int n"] by (auto simp: show_nat_def digit_char_props)

lemma show_nat_takeWhile: "takeWhile isdigit (show_nat n) = show_nat n"
  using show_nat_digits by simp

lemma show_nat_ne: "show_nat n \<noteq> []"
  by (simp add: show_nat_def)

lemma show_nat_value: "radix_value 10 (map digit_val (show_nat n)) = int n"
proof -
  have "map digit_val (show_nat n) = digits_of (int n)"
    unfolding show_nat_def map_map using digits_of_range [of "int n"] digit_char_props
    by (intro map_idI) (auto simp: comp_def)
  then show ?thesis by (simp add: radix_digits)
qed

lemma show_nat_int_text: "int_text (show_nat n)"
proof (cases "n = 0")
  case True
  then show ?thesis by (simp add: show_nat_def digits_of.simps int_text_def isdigit_def digit_char_def)
next
  case False
  obtain d ds where d: "digits_of (int n) = d # ds" using digits_of_nonempty by (meson neq_Nil_conv)
  have "d \<noteq> 0" using digits_of_hd [of "int n"] False d by simp
  moreover have "0 \<le> d" "d < 10" using digits_of_range [of "int n" d] d by auto
  ultimately have "digit_char d \<noteq> CHR ''0''" using digit_char_code [of d] by auto
  then show ?thesis
    using show_nat_digits [of n] by (auto simp: int_text_def show_nat_def d list_all_iff)
qed

lemma strtoull_show: "int n < 2 ^ 64 \<Longrightarrow> strtoull (show_nat n) = Some (int n)"
proof -
  assume n: "int n < 2 ^ 64"
  then show ?thesis by (simp add: strtoull_def Let_def show_nat_takeWhile show_nat_value)
qed

lemma scan_unsigned:
  assumes ws: "\<forall>w\<in>set ws. json_space (of_char w)" and n: "0 \<le> n" "n < 2 ^ 64" and d: "delimited t"
    and at: "lex_at (ws @ show_int n @ t) lx"
  shows "\<exists>lx'. scan lx = (value_unsigned, lx') \<and> resumes t lx' \<and> number_unsigned lx' = n"
proof -
  let ?b = "show_nat (nat n)"
  obtain c ds where b: "?b = c # ds" using show_nat_ne by (meson neq_Nil_conv)
  have "isdigit c" using show_nat_digits [of "nat n"] b by simp
  then have c: "first_of_number c" by (simp add: first_of_number_def)
  obtain lx' where s: "scan lx = scan_number lx'" "loaded c (ds @ t) lx'"
    using scan_number_token [OF ws c, of "ds @ t" lx] at b n by (auto simp: show_int_def)
  have "after_int value_unsigned ?b t (scan_number lx')"
    using int_text_scanned [OF show_nat_int_text, of "nat n" t lx'] s(2) b by simp
  from after_int_end [OF this d] show ?thesis
    using s(1) strtoull_show [of "nat n"] n by (auto simp: scans_def number_token_def)
qed

lemma scan_negative:
  assumes ws: "\<forall>w\<in>set ws. json_space (of_char w)" and n: "- (2 ^ 63) \<le> n" "n < 0" and d: "delimited t"
    and at: "lex_at (ws @ show_int n @ t) lx"
  shows "\<exists>lx'. scan lx = (value_integer, lx') \<and> resumes t lx' \<and> number_integer lx' = n"
proof -
  let ?b = "show_nat (nat (- n))"
  obtain lx' where s: "scan lx = scan_number lx'" "loaded (CHR ''-'') (?b @ t) lx'"
    using scan_number_token [OF ws, of "CHR ''-''" "?b @ t" lx] at n by (auto simp: show_int_def first_of_number_def)
  have "after_int value_integer (CHR ''-'' # ?b) t (scan_number lx')"
    by (rule negative_part_scanned [OF show_nat_int_text s(2)])
  moreover have "strtoll (CHR ''-'' # ?b) = Some n"
    using n by (simp add: strtoll_def take_sign_def Std_Text.signed_def Let_def show_nat_takeWhile show_nat_value)
  ultimately show ?thesis
    using after_int_end [OF _ d] s(1) by (fastforce simp: scans_def number_token_def)
qed

end
