(* ===== verification/Json_Spelling.thy ===== *)
theory Json_Spelling
  imports Json_Tokens Json_Parser
begin

text \<open>
  The grammar of the texts of a value, with any spaces between the tokens, and the theorem
  that the parser reads each of them back: \<open>operator>>\<close> returns the value and looks at
  nothing that follows it.
\<close>

section \<open>The grammar\<close>

definition spaces :: "string \<Rightarrow> bool" where
  "spaces w \<longleftrightarrow> (\<forall>c\<in>set w. json_space (of_char c))"

definition quoted :: "string \<Rightarrow> string" where
  "quoted s = CHR 0x22 # escaped s @ [CHR 0x22]"

inductive spells :: "json \<Rightarrow> string \<Rightarrow> bool"
  and spells_items :: "json list \<Rightarrow> string \<Rightarrow> bool"
  and spells_fields :: "(string \<times> json) list \<Rightarrow> string \<Rightarrow> bool"
where
  spell_null: "spells JNull ''null''"
| spell_true: "spells (JBool True) ''true''"
| spell_false: "spells (JBool False) ''false''"
| spell_unsigned: "0 \<le> n \<Longrightarrow> n < 2 ^ 64 \<Longrightarrow> spells (JUnsigned n) (show_int n)"
| spell_integer: "- (2 ^ 63) \<le> n \<Longrightarrow> n < 0 \<Longrightarrow> spells (JInteger n) (show_int n)"
| spell_float: "float_text t \<Longrightarrow> strtod t = x \<Longrightarrow> isfinite x \<Longrightarrow> spells (JFloat x) t"
| spell_string: "utf8_valid s \<Longrightarrow> spells (JString s) (quoted s)"
| spell_no_items: "spaces w \<Longrightarrow> spells (JArray []) (CHR ''['' # w @ [CHR '']''])"
| spell_array: "spells_items js t \<Longrightarrow> spells (JArray js) (CHR ''['' # t)"
| spell_no_fields: "spaces w \<Longrightarrow> spells (JObject []) (CHR ''{'' # w @ [CHR ''}''])"
| spell_object: "spells_fields m t \<Longrightarrow> omap_wf m \<Longrightarrow> spells (JObject m) (CHR ''{'' # t)"
| last_item: "spaces w1 \<Longrightarrow> spells j t \<Longrightarrow> spaces w2 \<Longrightarrow> spells_items [j] (w1 @ t @ w2 @ [CHR '']''])"
| next_item: "spaces w1 \<Longrightarrow> spells j t \<Longrightarrow> spaces w2 \<Longrightarrow> spells_items js r \<Longrightarrow>
    spells_items (j # js) (w1 @ t @ w2 @ CHR '','' # r)"
| last_field: "spaces w1 \<Longrightarrow> utf8_valid k \<Longrightarrow> spaces w2 \<Longrightarrow> spaces w3 \<Longrightarrow> spells j t \<Longrightarrow> spaces w4 \<Longrightarrow>
    spells_fields [(k, j)] (w1 @ quoted k @ w2 @ CHR '':'' # w3 @ t @ w4 @ [CHR ''}''])"
| next_field: "spaces w1 \<Longrightarrow> utf8_valid k \<Longrightarrow> spaces w2 \<Longrightarrow> spaces w3 \<Longrightarrow> spells j t \<Longrightarrow> spaces w4 \<Longrightarrow>
    spells_fields m r \<Longrightarrow> spells_fields ((k, j) # m) (w1 @ quoted k @ w2 @ CHR '':'' # w3 @ t @ w4 @ CHR '','' # r)"

section \<open>The place a value is built at\<close>

text \<open>
  \<open>place q R\<close>: the value at the path \<open>q\<close> of \<open>R v\<close> is \<open>v\<close>, and changing it there changes only
  that. \<open>R\<close> is the rest of the document.
\<close>

definition place :: "json_path \<Rightarrow> (json \<Rightarrow> json) \<Rightarrow> bool" where
  "place q R \<longleftrightarrow> (\<forall>p v. json_deref (q @ p) (R v) = json_deref p v) \<and>
     (\<forall>p g v. json_assign (q @ p) g (R v) = R (json_assign p g v))"

definition puts :: "sax_dom \<Rightarrow> json_path \<Rightarrow> (json \<Rightarrow> json) \<Rightarrow> bool" where
  "puts s q R \<longleftrightarrow> place q R \<and> (\<forall>v. handle_value v s = (q, s\<lparr>sax_root := R v\<rparr>))"

lemma place_here: "place q R \<Longrightarrow> json_deref q (R v) = Some v" "place q R \<Longrightarrow> json_assign q g (R v) = R (g v)"
  unfolding place_def by (metis append_Nil2 json_deref.simps(1), metis append_Nil2 json_assign.simps(1))

lemma place_index: "place q R \<Longrightarrow> place (q @ [Index (length js)]) (\<lambda>v. R (JArray (js @ [v])))"
  by (simp add: place_def)

lemma place_field: "place q R \<Longrightarrow> place (q @ [Field k]) (\<lambda>v. R (JObject (omap_put k v m)))"
proof -
  have "omap_put k w (omap_put k v m) = omap_put k w m" for v w
    by (induction k v m rule: omap_put.induct) auto
  then show "place q R \<Longrightarrow> place (q @ [Field k]) (\<lambda>v. R (JObject (omap_put k v m)))"
    by (simp add: place_def)
qed

lemma puts_root: "ref_stack s = [] \<Longrightarrow> puts s [] (\<lambda>v. v)"
  by (simp add: puts_def place_def handle_value_def)

lemma puts_item:
  assumes "place q R" and "sax_root s = R (JArray js)" and "ref_stack s = q # st"
  shows "puts s (q @ [Index (length js)]) (\<lambda>v. R (JArray (js @ [v])))"
  using assms place_index [OF assms(1)] by (simp add: puts_def handle_value_def place_here)

text \<open>The fields come in the order of their names, so each one is added at the end.\<close>

definition above :: "string \<Rightarrow> (string, json) omap \<Rightarrow> bool" where
  "above k m \<longleftrightarrow> (\<forall>j\<in>set (map fst m). j < k)"

lemma put_above: "above k m \<Longrightarrow> omap_put k v m = m @ [(k, v)]"
  unfolding above_def by (induction k v m rule: omap_put.induct) auto

lemma emplace_above: "above k m \<Longrightarrow> omap_emplace k v m = m @ [(k, v)]"
proof -
  assume a: "above k m"
  then have "k \<notin> fst ` set m" by (auto simp: above_def)
  then have "omap_find m k = None" by (simp add: omap_find_def map_of_eq_None_iff)
  then show ?thesis using put_above [OF a] by (simp add: omap_emplace_def)
qed

lemma puts_field:
  assumes "place q R" and "sax_root s = R (JObject m)" and "ref_stack s = q # st" and "above k m"
  shows "puts (sax_key k s) (q @ [Field k]) (\<lambda>v. R (JObject (m @ [(k, v)])))"
    and "sax_root (sax_key k s) = R (JObject (m @ [(k, JNull)]))" and "ref_stack (sax_key k s) = q # st"
proof -
  show r: "sax_root (sax_key k s) = R (JObject (m @ [(k, JNull)]))" "ref_stack (sax_key k s) = q # st"
    using assms by (simp_all add: sax_key_def Let_def place_here emplace_above)
  have e: "object_element (sax_key k s) = q @ [Field k]" using assms(3) by (simp add: sax_key_def Let_def)
  have p: "place (q @ [Field k]) (\<lambda>v. R (JObject (m @ [(k, v)])))"
    using place_field [OF assms(1), of k m] put_above [OF assms(4)] by simp
  have "json_assign (q @ [Field k]) (\<lambda>_. v) (R (JObject (m @ [(k, JNull)]))) = R (JObject (m @ [(k, v)]))" for v
    using place_here(2) [OF p] by simp
  then show "puts (sax_key k s) (q @ [Field k]) (\<lambda>v. R (JObject (m @ [(k, v)])))"
    using p assms(1) by (simp add: puts_def handle_value_def r e place_here)
qed

lemma puts_start:
  assumes "puts s q R"
  shows "sax_root (sax_start t s) = R (json_of_type t)" and "ref_stack (sax_start t s) = q # ref_stack s"
  using assms by (simp_all add: puts_def sax_start_def)

text \<open>Everything but the value and the last key stays as it was.\<close>

definition sax_now :: "sax_dom \<Rightarrow> json \<Rightarrow> json_path list \<Rightarrow> sax_dom \<Rightarrow> bool" where
  "sax_now s r st s' \<longleftrightarrow> (\<exists>oe. s' = s\<lparr>sax_root := r, ref_stack := st, object_element := oe\<rparr>)"


section \<open>Tokens in the parser\<close>

lemma get_token_simps [simp]:
  "sax (get_token p) = sax p" "open_states (get_token p) = open_states p"
  by (simp_all add: get_token_def split: prod.split)

lemma get_token_commute:
  "get_token (p\<lparr>open_states := x\<rparr>) = (get_token p)\<lparr>open_states := x\<rparr>"
  "get_token (on_sax g p) = on_sax g (get_token p)"
  by (simp_all add: get_token_def on_sax_def split: prod.split)

lemma on_sax_simps [simp]:
  "sax (on_sax g p) = g (sax p)" "open_states (on_sax g p) = open_states p"
  by (simp_all add: on_sax_def)

lemma get_token_scan:
  assumes "scan (m_lexer p) = (k, lx)"
  shows "last_token (get_token p) = k" and "m_lexer (get_token p) = lx"
  using assms by (simp_all add: get_token_def)

lemma get_mark:
  assumes "spaces ws" and "mark_token c = Some k" and "lex_at (ws @ c # t) (m_lexer p)"
  shows "last_token (get_token p) = k" and "resumes t (m_lexer (get_token p))"
  using scan_mark [OF _ assms(2,3)] assms(1) get_token_scan [of p] by (auto simp: spaces_def)

lemma get_quoted:
  assumes "spaces ws" and "utf8_valid s" and "lex_at (ws @ quoted s @ t) (m_lexer p)"
  shows "last_token (get_token p) = value_string" and "resumes t (m_lexer (get_token p))"
    and "token_buffer (m_lexer (get_token p)) = s"
  using scan_quoted [of ws s t "m_lexer p"] assms get_token_scan [of p] by (auto simp: spaces_def quoted_def)

lemma resumes_at: "resumes t lx \<Longrightarrow> lex_at t lx"
  by (simp add: resumes_def)

section \<open>The loop\<close>

lemma loop_done: "parse_value p = Inr (Value_done, p1) \<Longrightarrow> sax_parse_loop False p = sax_parse_loop True p1"
  by (subst (1 2) sax_parse_loop.simps) simp

lemma loop_next: "parse_value p = Inr (Next_value, p1) \<Longrightarrow> sax_parse_loop False p = sax_parse_loop False p1"
  by (subst sax_parse_loop.simps) simp

lemma loop_state_done: "parse_state p = Inr (Value_done, p1) \<Longrightarrow> sax_parse_loop True p = sax_parse_loop True p1"
  by (subst sax_parse_loop.simps) simp

lemma loop_state_next: "parse_state p = Inr (Next_value, p1) \<Longrightarrow> sax_parse_loop True p = sax_parse_loop False p1"
  by (subst sax_parse_loop.simps) simp

text \<open>
  The loop reads a value and gets to the evaluation of the state with \<open>rest\<close> unread, the open
  containers \<open>os\<close>, the document \<open>r\<close> and the stack \<open>st\<close>.
\<close>

definition finishes :: "json_parser \<Rightarrow> string \<Rightarrow> bool list \<Rightarrow> sax_dom \<Rightarrow> json \<Rightarrow> json_path list \<Rightarrow> bool" where
  "finishes p rest os s r st \<longleftrightarrow> (\<exists>p1. sax_parse_loop False p = sax_parse_loop True p1 \<and>
     resumes rest (m_lexer p1) \<and> open_states p1 = os \<and> sax_now s r st (sax p1))"

lemma finishesI:
  assumes "sax_parse_loop False p = sax_parse_loop True p1" and "resumes rest (m_lexer p1)"
    and "open_states p1 = os" and "sax_now s r st (sax p1)"
  shows "finishes p rest os s r st"
  using assms by (auto simp: finishes_def)

lemma finishes_via:
  assumes "finishes p rest os s r st" and "sax_parse_loop False p' = sax_parse_loop False p"
    and "\<And>r st x. sax_now s r st x \<Longrightarrow> sax_now s' r st x"
  shows "finishes p' rest os s' r st"
  using assms by (auto simp: finishes_def)

lemma sax_now_trans: "sax_now s r st s' \<Longrightarrow> sax_now s' r' st' s'' \<Longrightarrow> sax_now s r' st' s''"
  by (auto simp: sax_now_def)

lemma sax_now_simps: "sax_now s r st s' \<Longrightarrow> sax_root s' = r" "sax_now s r st s' \<Longrightarrow> ref_stack s' = st"
  by (auto simp: sax_now_def)

lemma sax_now_steps:
  "puts s q R \<Longrightarrow> sax_now s (R v) (ref_stack s) (sax_value v s)"
  "puts s q R \<Longrightarrow> sax_now s (R (json_of_type t)) (q # ref_stack s) (sax_start t s)"
  "sax_now s (sax_root s) (tl (ref_stack s)) (sax_end s)"
proof -
  show "puts s q R \<Longrightarrow> sax_now s (R v) (ref_stack s) (sax_value v s)"
    unfolding sax_now_def puts_def sax_value_def by (auto intro: exI [of _ "object_element s"])
  show "puts s q R \<Longrightarrow> sax_now s (R (json_of_type t)) (q # ref_stack s) (sax_start t s)"
    unfolding sax_now_def puts_def sax_start_def by (auto intro: exI [of _ "object_element s"])
  show "sax_now s (sax_root s) (tl (ref_stack s)) (sax_end s)"
    unfolding sax_now_def sax_end_def by (auto intro: exI [of _ "object_element s"])
qed

lemma sax_now_key: "sax_now s (sax_root (sax_key k s)) (ref_stack s) (sax_key k s)"
  unfolding sax_now_def sax_key_def Let_def by (auto intro: exI [of _ "hd (ref_stack s) @ [Field k]"])

lemma finishes_value:
  assumes "parse_value (get_token p) = value_done j (get_token p)" and "resumes rest (m_lexer (get_token p))"
    and "puts (sax p) q R"
  shows "finishes (get_token p) rest (open_states p) (sax p) (R j) (ref_stack (sax p))"
proof (rule finishesI)
  show "sax_parse_loop False (get_token p) = sax_parse_loop True (on_sax (sax_value j) (get_token p))"
    using assms(1) by (intro loop_done) (simp add: value_done_def)
qed (use assms sax_now_steps(1) [OF assms(3)] in simp_all)


section \<open>Reading back\<close>

definition reads_value :: "json \<Rightarrow> string \<Rightarrow> bool" where
  "reads_value j t \<longleftrightarrow> (\<forall>p ws rest q R. spaces ws \<longrightarrow> lex_at (ws @ t @ rest) (m_lexer p) \<longrightarrow> delimited rest \<longrightarrow>
     puts (sax p) q R \<longrightarrow> finishes (get_token p) rest (open_states p) (sax p) (R j) (ref_stack (sax p)) \<and>
       last_token (get_token p) \<noteq> end_array)"

definition reads_items :: "json list \<Rightarrow> string \<Rightarrow> bool" where
  "reads_items js t \<longleftrightarrow> (\<forall>p rest q R ds st os. lex_at (t @ rest) (m_lexer p) \<longrightarrow> place q R \<longrightarrow>
     sax_root (sax p) = R (JArray ds) \<longrightarrow> ref_stack (sax p) = q # st \<longrightarrow> open_states p = True # os \<longrightarrow>
     finishes (get_token p) rest os (sax p) (R (JArray (ds @ js))) st \<and> last_token (get_token p) \<noteq> end_array)"

definition reads_fields :: "(string \<times> json) list \<Rightarrow> string \<Rightarrow> bool" where
  "reads_fields m t \<longleftrightarrow> (\<forall>p rest q R ds st os. lex_at (t @ rest) (m_lexer p) \<longrightarrow> place q R \<longrightarrow>
     sax_root (sax p) = R (JObject ds) \<longrightarrow> ref_stack (sax p) = q # st \<longrightarrow> omap_wf (ds @ m) \<longrightarrow>
     last_token (get_token p) = value_string \<and>
     (\<exists>pk. parse_key (get_token p) = Inr (Next_value, pk) \<and>
       finishes (get_token (pk\<lparr>open_states := False # os\<rparr>)) rest os (sax p) (R (JObject (ds @ m))) st))"

lemma reads_scalar:
  assumes "\<And>ws rest lx. \<forall>c\<in>set ws. json_space (of_char c) \<Longrightarrow> lex_at (ws @ t @ rest) lx \<Longrightarrow> delimited rest \<Longrightarrow>
      \<exists>lx'. scan lx = (k, lx') \<and> resumes rest lx' \<and> holds lx'"
    and "\<And>p. last_token p = k \<Longrightarrow> holds (m_lexer p) \<Longrightarrow> parse_value p = value_done j p" and "k \<noteq> end_array"
  shows "reads_value j t"
  unfolding reads_value_def
proof (intro allI impI)
  fix p :: json_parser and ws rest q R
  assume "spaces ws" "lex_at (ws @ t @ rest) (m_lexer p)" "delimited rest" and q: "puts (sax p) q R"
  then obtain lx' where "scan (m_lexer p) = (k, lx')" and l: "resumes rest lx'" "holds lx'"
    using assms(1) [of ws rest "m_lexer p"] by (auto simp: spaces_def)
  note g = get_token_scan [OF this(1)]
  have "parse_value (get_token p) = value_done j (get_token p)" using assms(2) g l by simp
  then show "finishes (get_token p) rest (open_states p) (sax p) (R j) (ref_stack (sax p)) \<and>
      last_token (get_token p) \<noteq> end_array"
    using finishes_value [of p j rest q R] g l q assms(3) by simp
qed

lemma reads_literal:
  assumes "(l, k) \<in> {(''true'', literal_true), (''false'', literal_false), (''null'', literal_null)}"
    and "\<And>p. last_token p = k \<Longrightarrow> parse_value p = value_done j p"
  shows "reads_value j l"
proof (rule reads_scalar [where holds = "\<lambda>_. True" and k = k])
  fix ws rest lx
  assume "\<forall>c\<in>set ws. json_space (of_char c)" "lex_at (ws @ l @ rest) lx"
  then show "\<exists>lx'. scan lx = (k, lx') \<and> resumes rest lx' \<and> True"
    using scan_literal_at [of ws l rest lx k] assms(1) by simp
qed (use assms in auto)

lemma reads_unsigned: "0 \<le> n \<Longrightarrow> n < 2 ^ 64 \<Longrightarrow> reads_value (JUnsigned n) (show_int n)"
  by (rule reads_scalar [where holds = "\<lambda>lx. number_unsigned lx = n" and k = value_unsigned])
    (use scan_unsigned in \<open>auto simp: parse_value_def\<close>)

lemma reads_integer: "- (2 ^ 63) \<le> n \<Longrightarrow> n < 0 \<Longrightarrow> reads_value (JInteger n) (show_int n)"
  by (rule reads_scalar [where holds = "\<lambda>lx. number_integer lx = n" and k = value_integer])
    (use scan_negative in \<open>auto simp: parse_value_def\<close>)

lemma reads_float: "float_text t \<Longrightarrow> strtod t = x \<Longrightarrow> isfinite x \<Longrightarrow> reads_value (JFloat x) t"
  by (rule reads_scalar [where holds = "\<lambda>lx. number_float lx = x" and k = value_float])
    (use scan_float in \<open>auto simp: parse_value_def parse_float_def\<close>)

lemma reads_string: "utf8_valid s \<Longrightarrow> reads_value (JString s) (quoted s)"
  by (rule reads_scalar [where holds = "\<lambda>lx. token_buffer lx = s" and k = value_string])
    (use scan_quoted in \<open>auto simp: parse_value_def quoted_def\<close>)

text \<open>Empty and other arrays.\<close>

lemma start_array:
  assumes "spaces ws" and "lex_at (ws @ CHR ''['' # t) (m_lexer p)" and "puts (sax p) q R"
  defines "p1 \<equiv> on_sax (sax_start T_array) (get_token p)"
  shows "last_token (get_token p) = begin_array" and "resumes t (m_lexer p1)"
    and "sax_now (sax p) (R (JArray [])) (q # ref_stack (sax p)) (sax p1)"
    and "parse_value (get_token p) = (if last_token (get_token p1) = end_array then Inr (Value_done, on_sax sax_end (get_token p1))
      else Inr (Next_value, (get_token p1)\<lparr>open_states := True # open_states p\<rparr>))"
proof -
  note g = get_mark [OF assms(1) _ assms(2), of begin_array]
  show "last_token (get_token p) = begin_array" "resumes t (m_lexer p1)" using g by (simp_all add: p1_def)
  then show "parse_value (get_token p) = (if last_token (get_token p1) = end_array then Inr (Value_done, on_sax sax_end (get_token p1))
      else Inr (Next_value, (get_token p1)\<lparr>open_states := True # open_states p\<rparr>))"
    by (simp add: parse_value_def parse_begin_array_def p1_def Let_def)
  show "sax_now (sax p) (R (JArray [])) (q # ref_stack (sax p)) (sax p1)"
    using sax_now_steps(2) [OF assms(3), of T_array] by (simp add: p1_def)
qed

lemma reads_no_items:
  assumes "spaces w"
  shows "reads_value (JArray []) (CHR ''['' # w @ [CHR '']''])"
  unfolding reads_value_def
proof (intro allI impI)
  fix p :: json_parser and ws rest q R
  assume a: "spaces ws" "lex_at (ws @ (CHR ''['' # w @ [CHR '']'']) @ rest) (m_lexer p)" "puts (sax p) q R"
  define p1 where "p1 = on_sax (sax_start T_array) (get_token p)"
  have "lex_at (ws @ CHR ''['' # (w @ CHR '']'' # rest)) (m_lexer p)" using a(2) by simp
  note s = start_array [OF a(1) this a(3), folded p1_def]
  note g = get_mark [OF assms _ resumes_at [OF s(2)], of end_array]
  have "finishes (get_token p) rest (open_states p) (sax p) (R (JArray [])) (ref_stack (sax p))"
  proof (rule finishesI)
    show "sax_parse_loop False (get_token p) = sax_parse_loop True (on_sax sax_end (get_token p1))"
      using s(4) g by (intro loop_done) simp
    show "sax_now (sax p) (R (JArray [])) (ref_stack (sax p)) (sax (on_sax sax_end (get_token p1)))"
      using sax_now_trans [OF s(3) sax_now_steps(3)] sax_now_simps [OF s(3)] by simp
  qed (use g in \<open>simp_all add: p1_def\<close>)
  then show "finishes (get_token p) rest (open_states p) (sax p) (R (JArray [])) (ref_stack (sax p)) \<and>
      last_token (get_token p) \<noteq> end_array" using s(1) by simp
qed

lemma reads_array:
  assumes "reads_items js t"
  shows "reads_value (JArray js) (CHR ''['' # t)"
  unfolding reads_value_def
proof (intro allI impI)
  fix p :: json_parser and ws rest q R
  assume a: "spaces ws" "lex_at (ws @ (CHR ''['' # t) @ rest) (m_lexer p)" "puts (sax p) q R"
  define p1 where "p1 = on_sax (sax_start T_array) (get_token p)"
  let ?p = "p1\<lparr>open_states := True # open_states p\<rparr>"
  have "lex_at (ws @ CHR ''['' # (t @ rest)) (m_lexer p)" using a(2) by simp
  note s = start_array [OF a(1) this a(3), folded p1_def]
  have "place q R" using a(3) by (simp add: puts_def)
  then have r: "finishes (get_token ?p) rest (open_states p) (sax p1) (R (JArray js)) (ref_stack (sax p))"
    and t: "last_token (get_token p1) \<noteq> end_array"
    using assms [unfolded reads_items_def, rule_format, of rest ?p q R "[]" "ref_stack (sax p)" "open_states p"]
      sax_now_simps [OF s(3)] resumes_at [OF s(2)] by (simp_all add: get_token_commute)
  have "sax_parse_loop False (get_token p) = sax_parse_loop False (get_token ?p)"
    using s(4) t by (intro loop_next) (simp add: get_token_commute)
  from finishes_via [OF r this] show "finishes (get_token p) rest (open_states p) (sax p) (R (JArray js)) (ref_stack (sax p)) \<and>
      last_token (get_token p) \<noteq> end_array"
    using s(1) sax_now_trans [OF s(3)] by simp
qed


text \<open>The elements of an array.\<close>

lemma delimited_space: "spaces w \<Longrightarrow> delimited (w @ CHR '','' # t)" "spaces w \<Longrightarrow> delimited (w @ CHR '']'' # t)"
    "spaces w \<Longrightarrow> delimited (w @ CHR ''}'' # t)"
  by (cases w; auto simp: delimited_def spaces_def json_space_def isdigit_def)+

lemma item_read:
  assumes r: "reads_value j t" and w: "spaces w1" and at: "lex_at (w1 @ t @ rest) (m_lexer p)" and d: "delimited rest"
    and q: "place q R" "sax_root (sax p) = R (JArray ds)" "ref_stack (sax p) = q # st"
  obtains p1 where "sax_parse_loop False (get_token p) = sax_parse_loop True p1" "resumes rest (m_lexer p1)"
    "open_states p1 = open_states p" "sax_now (sax p) (R (JArray (ds @ [j]))) (q # st) (sax p1)"
    "last_token (get_token p) \<noteq> end_array"
proof -
  have "puts (sax p) (q @ [Index (length ds)]) (\<lambda>v. R (JArray (ds @ [v])))" by (rule puts_item [OF q])
  then show ?thesis
    using r [unfolded reads_value_def, rule_format, OF w at d] q(3) that unfolding finishes_def by auto
qed

lemma reads_last_item:
  assumes "spaces w1" and "reads_value j t" and "spaces w2"
  shows "reads_items [j] (w1 @ t @ w2 @ [CHR '']''])"
  unfolding reads_items_def
proof (intro allI impI)
  fix p :: json_parser and rest q R ds st os
  assume a: "lex_at ((w1 @ t @ w2 @ [CHR '']'']) @ rest) (m_lexer p)" "place q R"
    "sax_root (sax p) = R (JArray ds)" "ref_stack (sax p) = q # st" "open_states p = True # os"
  have l: "lex_at (w1 @ t @ w2 @ CHR '']'' # rest) (m_lexer p)" using a(1) by simp
  obtain p1 where p1: "sax_parse_loop False (get_token p) = sax_parse_loop True p1" "resumes (w2 @ CHR '']'' # rest) (m_lexer p1)"
    "open_states p1 = open_states p" "sax_now (sax p) (R (JArray (ds @ [j]))) (q # st) (sax p1)"
    "last_token (get_token p) \<noteq> end_array"
    using item_read [OF assms(2,1) l delimited_space(2) [OF assms(3)] a(2-4)] .
  note g = get_mark [OF assms(3) _ resumes_at [OF p1(2)], of end_array]
  let ?p = "(on_sax sax_end (get_token p1))\<lparr>open_states := os\<rparr>"
  have "parse_state p1 = Inr (Value_done, ?p)"
    using a(5) p1(3) g(1) by (simp add: parse_state_def parse_after_element_def close_container_def Let_def)
  from loop_state_done [OF this] p1(1)
  have "finishes (get_token p) rest os (sax p) (R (JArray (ds @ [j]))) st"
    using g(2) sax_now_trans [OF p1(4) sax_now_steps(3)] sax_now_simps [OF p1(4)] by (intro finishesI [of _ ?p]) simp_all
  with p1(5) show "finishes (get_token p) rest os (sax p) (R (JArray (ds @ [j]))) st \<and>
    last_token (get_token p) \<noteq> end_array" by simp
qed

lemma reads_next_item:
  assumes "spaces w1" and "reads_value j t" and "spaces w2" and "reads_items js r"
  shows "reads_items (j # js) (w1 @ t @ w2 @ CHR '','' # r)"
  unfolding reads_items_def
proof (intro allI impI)
  fix p :: json_parser and rest q R ds st os
  assume a: "lex_at ((w1 @ t @ w2 @ CHR '','' # r) @ rest) (m_lexer p)" "place q R"
    "sax_root (sax p) = R (JArray ds)" "ref_stack (sax p) = q # st" "open_states p = True # os"
  have l: "lex_at (w1 @ t @ w2 @ CHR '','' # (r @ rest)) (m_lexer p)" using a(1) by simp
  obtain p1 where p1: "sax_parse_loop False (get_token p) = sax_parse_loop True p1" "resumes (w2 @ CHR '','' # (r @ rest)) (m_lexer p1)"
    "open_states p1 = open_states p" "sax_now (sax p) (R (JArray (ds @ [j]))) (q # st) (sax p1)"
    "last_token (get_token p) \<noteq> end_array"
    using item_read [OF assms(2,1) l delimited_space(1) [OF assms(3)] a(2-4)] .
  note g = get_mark [OF assms(3) _ resumes_at [OF p1(2)], of value_separator]
  have "parse_state p1 = Inr (Next_value, get_token (get_token p1))"
    using a(5) p1(3) g(1) by (simp add: parse_state_def parse_after_element_def Let_def)
  from loop_state_next [OF this] p1(1)
  have eq: "sax_parse_loop False (get_token p) = sax_parse_loop False (get_token (get_token p1))" by simp
  have "finishes (get_token (get_token p1)) rest os (sax p1) (R (JArray ((ds @ [j]) @ js))) st"
    using assms(4) [unfolded reads_items_def, rule_format, of rest "get_token p1" q R "ds @ [j]" st os]
      g(2) a(2,5) p1(3) sax_now_simps [OF p1(4)] resumes_at by simp
  from finishes_via [OF this eq sax_now_trans [OF p1(4)]] p1(5)
  show "finishes (get_token p) rest os (sax p) (R (JArray (ds @ j # js))) st \<and>
    last_token (get_token p) \<noteq> end_array" by simp
qed

text \<open>Objects, and the fields of an object.\<close>

lemma start_object:
  assumes "spaces ws" and "lex_at (ws @ CHR ''{'' # t) (m_lexer p)" and "puts (sax p) q R"
  defines "p1 \<equiv> on_sax (sax_start T_object) (get_token p)"
  shows "last_token (get_token p) = begin_object" and "resumes t (m_lexer p1)"
    and "sax_now (sax p) (R (JObject [])) (q # ref_stack (sax p)) (sax p1)"
    and "parse_value (get_token p) = parse_begin_object (get_token p)"
proof -
  note g = get_mark [OF assms(1) _ assms(2), of begin_object]
  show "last_token (get_token p) = begin_object" "resumes t (m_lexer p1)" using g by (simp_all add: p1_def)
  then show "parse_value (get_token p) = parse_begin_object (get_token p)" by (simp add: parse_value_def)
  show "sax_now (sax p) (R (JObject [])) (q # ref_stack (sax p)) (sax p1)"
    using sax_now_steps(2) [OF assms(3), of T_object] by (simp add: p1_def)
qed

lemma reads_no_fields:
  assumes "spaces w"
  shows "reads_value (JObject []) (CHR ''{'' # w @ [CHR ''}''])"
  unfolding reads_value_def
proof (intro allI impI)
  fix p :: json_parser and ws rest q R
  assume a: "spaces ws" "lex_at (ws @ (CHR ''{'' # w @ [CHR ''}'']) @ rest) (m_lexer p)" "puts (sax p) q R"
  define p1 where "p1 = on_sax (sax_start T_object) (get_token p)"
  have "lex_at (ws @ CHR ''{'' # (w @ CHR ''}'' # rest)) (m_lexer p)" using a(2) by simp
  note s = start_object [OF a(1) this a(3), folded p1_def]
  note g = get_mark [OF assms _ resumes_at [OF s(2)], of end_object]
  have "finishes (get_token p) rest (open_states p) (sax p) (R (JObject [])) (ref_stack (sax p))"
  proof (rule finishesI)
    show "sax_parse_loop False (get_token p) = sax_parse_loop True (on_sax sax_end (get_token p1))"
      using s(4) g by (intro loop_done) (simp add: parse_begin_object_def Let_def p1_def)
    show "sax_now (sax p) (R (JObject [])) (ref_stack (sax p)) (sax (on_sax sax_end (get_token p1)))"
      using sax_now_trans [OF s(3) sax_now_steps(3)] sax_now_simps [OF s(3)] by simp
  qed (use g in \<open>simp_all add: p1_def\<close>)
  then show "finishes (get_token p) rest (open_states p) (sax p) (R (JObject [])) (ref_stack (sax p)) \<and>
      last_token (get_token p) \<noteq> end_array" using s(1) by simp
qed

lemma reads_object:
  assumes "reads_fields m t" and "omap_wf m"
  shows "reads_value (JObject m) (CHR ''{'' # t)"
  unfolding reads_value_def
proof (intro allI impI)
  fix p :: json_parser and ws rest q R
  assume a: "spaces ws" "lex_at (ws @ (CHR ''{'' # t) @ rest) (m_lexer p)" "puts (sax p) q R"
  define p1 where "p1 = on_sax (sax_start T_object) (get_token p)"
  have "lex_at (ws @ CHR ''{'' # (t @ rest)) (m_lexer p)" using a(2) by simp
  note s = start_object [OF a(1) this a(3), folded p1_def]
  have q: "place q R" using a(3) by (simp add: puts_def)
  obtain pk where k: "last_token (get_token p1) = value_string" "parse_key (get_token p1) = Inr (Next_value, pk)"
    and r: "finishes (get_token (pk\<lparr>open_states := False # open_states p\<rparr>)) rest (open_states p) (sax p1)
      (R (JObject m)) (ref_stack (sax p))"
    using assms(1) [unfolded reads_fields_def, rule_format, OF resumes_at [OF s(2)] q, of "[]" "ref_stack (sax p)" "open_states p"]
      sax_now_simps [OF s(3)] assms(2) by auto
  have "open_states pk = open_states p"
    using k(2) by (auto simp: parse_key_def Let_def unexpected_def sax_parse_error_def p1_def split: if_splits)
  then have "parse_value (get_token p) = Inr (Next_value, get_token (pk\<lparr>open_states := False # open_states p\<rparr>))"
    using s(4) k by (simp add: parse_begin_object_def Let_def p1_def)
  from finishes_via [OF r loop_next [OF this] sax_now_trans [OF s(3)]] s(1)
  show "finishes (get_token p) rest (open_states p) (sax p) (R (JObject m)) (ref_stack (sax p)) \<and>
      last_token (get_token p) \<noteq> end_array" by simp
qed


lemma field_read:
  assumes w: "spaces w1" "utf8_valid k" "spaces w2" "spaces w3" and r: "reads_value j t" and d: "delimited rest"
    and at: "lex_at (w1 @ quoted k @ w2 @ CHR '':'' # w3 @ t @ rest) (m_lexer p)"
    and q: "place q R" "sax_root (sax p) = R (JObject ds)" "ref_stack (sax p) = q # st" "above k ds"
  obtains pk p1 where "last_token (get_token p) = value_string" "parse_key (get_token p) = Inr (Next_value, pk)"
    "sax_parse_loop False (get_token (pk\<lparr>open_states := os\<rparr>)) = sax_parse_loop True p1" "resumes rest (m_lexer p1)"
    "open_states p1 = os" "sax_now (sax p) (R (JObject (ds @ [(k, j)]))) (q # st) (sax p1)"
proof -
  note g = get_quoted [OF w(1,2) at]
  let ?p1 = "on_sax (sax_key k) (get_token p)"
  let ?pk = "get_token ?p1"
  have "resumes (w2 @ CHR '':'' # w3 @ t @ rest) (m_lexer ?p1)" using g by simp
  note c = get_mark [OF w(3) _ resumes_at [OF this], of name_separator]
  have k: "parse_key (get_token p) = Inr (Next_value, ?pk)"
    using g c(1) by (simp add: parse_key_def Let_def)
  note f = puts_field [OF q]
  let ?po = "?pk\<lparr>open_states := os\<rparr>"
  have "finishes (get_token ?po) rest os (sax_key k (sax p)) (R (JObject (ds @ [(k, j)]))) (q # st)"
    using r [unfolded reads_value_def, rule_format, OF w(4) _ d, of ?po "q @ [Field k]" "\<lambda>v. R (JObject (ds @ [(k, v)]))"]
      resumes_at [OF c(2)] f by simp
  then obtain p1 where "sax_parse_loop False (get_token ?po) = sax_parse_loop True p1" "resumes rest (m_lexer p1)"
    "open_states p1 = os" "sax_now (sax_key k (sax p)) (R (JObject (ds @ [(k, j)]))) (q # st) (sax p1)"
    unfolding finishes_def by blast
  with that [OF g(1) k] show ?thesis using sax_now_trans [OF sax_now_key [of "sax p" k]] by blast
qed

lemma omap_wf_above: "omap_wf (ds @ (k, j) # m) \<Longrightarrow> above k ds"
  by (auto simp: omap_wf_def above_def sorted_wrt_append)

lemma reads_last_field:
  assumes "spaces w1" "utf8_valid k" "spaces w2" "spaces w3" "reads_value j t" "spaces w4"
  shows "reads_fields [(k, j)] (w1 @ quoted k @ w2 @ CHR '':'' # w3 @ t @ w4 @ [CHR ''}''])"
  unfolding reads_fields_def
proof (intro allI impI)
  fix p :: json_parser and rest q R ds st os
  assume a: "lex_at ((w1 @ quoted k @ w2 @ CHR '':'' # w3 @ t @ w4 @ [CHR ''}'']) @ rest) (m_lexer p)" "place q R"
    "sax_root (sax p) = R (JObject ds)" "ref_stack (sax p) = q # st" "omap_wf (ds @ [(k, j)])"
  have l: "lex_at (w1 @ quoted k @ w2 @ CHR '':'' # w3 @ t @ (w4 @ CHR ''}'' # rest)) (m_lexer p)" using a(1) by simp
  obtain pk p1 where p1: "last_token (get_token p) = value_string" "parse_key (get_token p) = Inr (Next_value, pk)"
    "sax_parse_loop False (get_token (pk\<lparr>open_states := False # os\<rparr>)) = sax_parse_loop True p1"
    "resumes (w4 @ CHR ''}'' # rest) (m_lexer p1)" "open_states p1 = False # os"
    "sax_now (sax p) (R (JObject (ds @ [(k, j)]))) (q # st) (sax p1)"
    using field_read [OF assms(1-5) delimited_space(3) [OF assms(6)] l a(2-4) omap_wf_above [OF a(5)]] .
  note g = get_mark [OF assms(6) _ resumes_at [OF p1(4)], of end_object]
  let ?p = "(on_sax sax_end (get_token p1))\<lparr>open_states := os\<rparr>"
  have "parse_state p1 = Inr (Value_done, ?p)"
    using p1(5) g(1) by (simp add: parse_state_def parse_after_field_def close_container_def Let_def)
  from loop_state_done [OF this] p1(3)
  have "finishes (get_token (pk\<lparr>open_states := False # os\<rparr>)) rest os (sax p) (R (JObject (ds @ [(k, j)]))) st"
    using g(2) sax_now_trans [OF p1(6) sax_now_steps(3)] sax_now_simps [OF p1(6)] by (intro finishesI [of _ ?p]) simp_all
  with p1(1,2) show "last_token (get_token p) = value_string \<and>
     (\<exists>pk. parse_key (get_token p) = Inr (Next_value, pk) \<and>
       finishes (get_token (pk\<lparr>open_states := False # os\<rparr>)) rest os (sax p) (R (JObject (ds @ [(k, j)]))) st)" by blast
qed

lemma reads_next_field:
  assumes "spaces w1" "utf8_valid k" "spaces w2" "spaces w3" "reads_value j t" "spaces w4" and "reads_fields m r"
  shows "reads_fields ((k, j) # m) (w1 @ quoted k @ w2 @ CHR '':'' # w3 @ t @ w4 @ CHR '','' # r)"
  unfolding reads_fields_def
proof (intro allI impI)
  fix p :: json_parser and rest q R ds st os
  assume a: "lex_at ((w1 @ quoted k @ w2 @ CHR '':'' # w3 @ t @ w4 @ CHR '','' # r) @ rest) (m_lexer p)" "place q R"
    "sax_root (sax p) = R (JObject ds)" "ref_stack (sax p) = q # st" "omap_wf (ds @ (k, j) # m)"
  have l: "lex_at (w1 @ quoted k @ w2 @ CHR '':'' # w3 @ t @ (w4 @ CHR '','' # (r @ rest))) (m_lexer p)" using a(1) by simp
  obtain pk p1 where p1: "last_token (get_token p) = value_string" "parse_key (get_token p) = Inr (Next_value, pk)"
    "sax_parse_loop False (get_token (pk\<lparr>open_states := False # os\<rparr>)) = sax_parse_loop True p1"
    "resumes (w4 @ CHR '','' # (r @ rest)) (m_lexer p1)" "open_states p1 = False # os"
    "sax_now (sax p) (R (JObject (ds @ [(k, j)]))) (q # st) (sax p1)"
    using field_read [OF assms(1-5) delimited_space(1) [OF assms(6)] l a(2-4) omap_wf_above [OF a(5)]] .
  note g = get_mark [OF assms(6) _ resumes_at [OF p1(4)], of value_separator]
  obtain pk' where k': "parse_key (get_token (get_token p1)) = Inr (Next_value, pk')"
    and f: "finishes (get_token (pk'\<lparr>open_states := False # os\<rparr>)) rest os (sax p1) (R (JObject ((ds @ [(k, j)]) @ m))) st"
    using assms(7) [unfolded reads_fields_def, rule_format, of rest "get_token p1" q R "ds @ [(k, j)]" st os]
      g(2) a(2,5) sax_now_simps [OF p1(6)] resumes_at by auto
  have "open_states pk' = open_states p1"
    using k' by (auto simp: parse_key_def Let_def unexpected_def sax_parse_error_def split: if_splits)
  then have o: "pk'\<lparr>open_states := False # os\<rparr> = pk'" using p1(5) by (cases pk') simp
  have "parse_state p1 = Inr (Next_value, get_token pk')"
    using p1(5) g(1) k' by (simp add: parse_state_def parse_after_field_def Let_def)
  from loop_state_next [OF this] p1(3)
  have eq: "sax_parse_loop False (get_token (pk\<lparr>open_states := False # os\<rparr>)) = sax_parse_loop False (get_token pk')" by simp
  from finishes_via [OF f [unfolded o] eq sax_now_trans [OF p1(6)]] p1(1,2)
  show "last_token (get_token p) = value_string \<and>
     (\<exists>pk. parse_key (get_token p) = Inr (Next_value, pk) \<and>
       finishes (get_token (pk\<lparr>open_states := False # os\<rparr>)) rest os (sax p) (R (JObject (ds @ (k, j) # m))) st)" by auto
qed

theorem spelled_read:
  "spells j t \<Longrightarrow> reads_value j t"
  "spells_items js t \<Longrightarrow> reads_items js t"
  "spells_fields m t \<Longrightarrow> reads_fields m t"
proof (induction rule: spells_spells_items_spells_fields.inducts)
  case spell_null
  show ?case by (rule reads_literal [where k = literal_null]) (simp_all add: parse_value_def)
next
  case spell_true
  show ?case by (rule reads_literal [where k = literal_true]) (simp_all add: parse_value_def)
next
  case spell_false
  show ?case by (rule reads_literal [where k = literal_false]) (simp_all add: parse_value_def)
qed (use reads_unsigned reads_integer reads_float reads_string reads_no_items reads_array reads_no_fields reads_object
    reads_last_item reads_next_item reads_last_field reads_next_field in auto)

text \<open>The value of a text, whatever follows it.\<close>

lemma new_lexer_at: "lex_at t (new_lexer t False)"
  by (simp add: lex_at_def new_lexer_def)

theorem json_read_spelled:
  assumes "spells j t" and "spaces w" and "delimited rest"
  shows "json_read (w @ t @ rest) = Inr j"
proof -
  define p where "p = \<lparr>m_lexer = new_lexer (w @ t @ rest) False, last_token = uninitialized, open_states = [],
       sax = new_sax JNull True\<rparr>"
  have n: "new_parser (w @ t @ rest) JNull True = get_token p" by (simp add: new_parser_def p_def)
  have "puts (sax p) [] (\<lambda>v. v)" by (rule puts_root) (simp add: p_def new_sax_def)
  then have "finishes (get_token p) rest [] (sax p) j []"
    using spelled_read(1) [OF assms(1), unfolded reads_value_def, rule_format, OF assms(2) _ assms(3), of p "[]" "\<lambda>v. v"]
      new_lexer_at by (simp add: p_def new_sax_def)
  then obtain p1 where p1: "sax_parse_loop False (get_token p) = sax_parse_loop True p1" "open_states p1 = []"
    "sax_now (sax p) j [] (sax p1)" unfolding finishes_def by blast
  have e: "(get_token p)\<lparr>open_states := []\<rparr> = get_token p" by (simp add: p_def flip: get_token_commute)
  have "sax_parse_loop True p1 = Inr (True, p1)"
    using p1(2) by (subst sax_parse_loop.simps) (simp add: parse_state_def)
  moreover have "\<not> errored (sax p1)" "sax_root (sax p1) = j"
    using p1(3) by (auto simp: sax_now_def p_def new_sax_def)
  ultimately show ?thesis
    using p1(1) by (simp add: json_read_def parse_def sax_parse_internal_def n e)
qed

end
