(* ===== verification/Json_Printing.thy ===== *)
theory Json_Printing
  imports Json_Spelling
begin

text \<open>
  The serializer writes a text of the value: for a value whose strings are UTF-8 and whose
  numbers are in range, \<open>dump\<close> succeeds and its text is one of the grammar. Its two buffers and
  the indentation string are only scratch space.
\<close>

section \<open>Actions that write a text\<close>

definition ready :: "nat \<Rightarrow> serializer \<Rightarrow> bool" where
  "ready n s \<longleftrightarrow> (\<exists>k. n \<le> k \<and> 512 \<le> k \<and> indent_string s = replicate k (CHR '' '')) \<and>
     length (number_buffer s) = 64"

definition prints :: "nat \<Rightarrow> (serializer, unit) action \<Rightarrow> string \<Rightarrow> bool" where
  "prints n m t \<longleftrightarrow> (\<forall>s. ready n s \<longrightarrow> (\<exists>s'. m s = (Inr (), s') \<and> out s' = out s @ t \<and> ready n s'))"

lemma ready_mono: "ready n s \<Longrightarrow> k \<le> n \<Longrightarrow> ready k s"
  unfolding ready_def by (meson order_trans)

lemma ready_out [simp]: "ready n (s\<lparr>out := t\<rparr>) = ready n s"
  by (simp add: ready_def)

lemma printsI: "(\<And>s. ready n s \<Longrightarrow> \<exists>s'. m s = (Inr (), s') \<and> out s' = out s @ t \<and> ready n s') \<Longrightarrow> prints n m t"
  by (simp add: prints_def)

lemma printsE:
  assumes "prints n m t" and "ready n s"
  obtains s' where "m s = (Inr (), s')" "out s' = out s @ t" "ready n s'"
  using assms unfolding prints_def by blast

lemma prints_write: "prints n (write_characters t) t"
  by (simp add: prints_def write_characters_def)

lemma prints_nothing: "prints n (return_act ()) []" "prints n (Pair (Inr ())) []"
  by (simp_all add: prints_def)

lemma prints_seq:
  assumes "prints n m t" and "prints n m' t'"
  shows "prints n (seq_act m m') (t @ t')"
proof (rule printsI)
  fix s assume "ready n s"
  with assms(1) obtain s1 where "m s = (Inr (), s1)" "out s1 = out s @ t" "ready n s1" by (rule printsE)
  moreover from assms(2) this(3) obtain s2 where "m' s1 = (Inr (), s2)" "out s2 = out s1 @ t'" "ready n s2" by (rule printsE)
  ultimately show "\<exists>s'. seq_act m m' s = (Inr (), s') \<and> out s' = out s @ t @ t' \<and> ready n s'"
    by (simp add: seq_act_def bind_act_def)
qed

lemma prints_seqs: "list_all2 (prints n) ms ts \<Longrightarrow> prints n (seq_acts ms) (concat ts)"
proof (induction ms arbitrary: ts rule: seq_acts.induct)
  case 1
  then show ?case by (simp add: prints_nothing)
next
  case (2 m)
  then show ?case by (auto simp: list_all2_Cons1)
next
  case (3 m n' ms)
  then obtain t ts' where "ts = t # ts'" "prints n m t" "list_all2 (prints n) (n' # ms) ts'"
    by (auto simp: list_all2_Cons1)
  then show ?case using 3 by (auto intro: prints_seq)
qed

lemma prints_indent:
  assumes "k \<le> n"
  shows "prints n (write_indent k) (replicate k (CHR '' ''))"
proof (rule printsI)
  fix s assume s: "ready n s"
  then obtain l where l: "n \<le> l" "indent_string s = replicate l (CHR '' '')" by (auto simp: ready_def)
  then have "write_indent k s = (Inr (), s\<lparr>out := out s @ replicate k (CHR '' '')\<rparr>)"
    using assms by (simp add: write_indent_def write_characters_def min_def)
  with s show "\<exists>s'. write_indent k s = (Inr (), s') \<and> out s' = out s @ replicate k (CHR '' '') \<and> ready n s'" by simp
qed

text \<open>The indentation string grows before the elements of a container are written.\<close>

lemma ready_grow:
  assumes "ready n s" and "d \<le> 512"
  obtains s1 where "grow_indent (n + d) s = (Inr (), s1)" "out s1 = out s" "ready (n + d) s1"
proof -
  obtain k where k: "n \<le> k" "512 \<le> k" "indent_string s = replicate k (CHR '' '')" "length (number_buffer s) = 64"
    using assms(1) by (auto simp: ready_def)
  show ?thesis
  proof (cases "k < n + d")
    case True
    show ?thesis
      by (rule that [of "s\<lparr>indent_string := replicate (k + k) (CHR '' '')\<rparr>"])
        (use True k assms(2) in \<open>auto simp: grow_indent_def ready_def replicate_add intro!: exI [of _ "k + k"]\<close>)
  next
    case False
    show ?thesis by (rule that [of s]) (use False k in \<open>auto simp: grow_indent_def ready_def\<close>)
  qed
qed

lemma prints_grow:
  assumes "prints (n + d) m t" and "d \<le> 512"
  shows "prints n (seq_act (grow_indent (n + d)) m) t"
proof (rule printsI)
  fix s assume "ready n s"
  then obtain s1 where g: "grow_indent (n + d) s = (Inr (), s1)" "out s1 = out s" "ready (n + d) s1"
    using assms(2) by (rule ready_grow)
  from assms(1) g(3) obtain s' where m: "m s1 = (Inr (), s')" "out s' = out s1 @ t" "ready (n + d) s'" by (rule printsE)
  have "seq_act (grow_indent (n + d)) m s = (Inr (), s')" using g(1) m(1) by (simp add: seq_act_def bind_act_def)
  then show "\<exists>s'. seq_act (grow_indent (n + d)) m s = (Inr (), s') \<and> out s' = out s @ t \<and> ready n s'"
    using g(2) m(2) ready_mono [OF m(3), of n] by simp
qed

section \<open>Strings and integers\<close>

lemma prints_escaped:
  assumes "utf8_valid str"
  shows "prints n (dump_escaped str False) (escaped str)"
proof (rule printsI)
  fix s assume "ready n s"
  moreover obtain s' where "dump_escaped str False s = (Inr (), s')" "out s' = out s @ escaped str" "same_frame s s'"
    using dump_escaped_valid [OF assms] by blast
  ultimately show "\<exists>s'. dump_escaped str False s = (Inr (), s') \<and> out s' = out s @ escaped str \<and> ready n s'"
    by (auto simp: ready_def same_frame_def)
qed

lemma prints_quoted: "utf8_valid k \<Longrightarrow> prints n (quoted_name k False after) (quoted k @ after)"
  using prints_seqs [of n "[write_characters [CHR 0x22], dump_escaped k False, write_characters (CHR 0x22 # after)]"
      "[[CHR 0x22], escaped k, CHR 0x22 # after]"]
  by (simp add: quoted_name_def quoted_def prints_write prints_escaped)

lemma digits_table: "digits_to_99 = map (\<lambda>x. (digit_char (x div 10), digit_char (x mod 10))) [0..99]"
  by code_simp

lemma digits_pair: "0 \<le> x \<Longrightarrow> x < 100 \<Longrightarrow> digits_to_99 ! nat x = (digit_char (x div 10), digit_char (x mod 10))"
  unfolding digits_table by (subst nth_map) (simp_all add: nth_upto nat_less_iff)

lemma digits_small: "0 \<le> x \<Longrightarrow> x < 10 \<Longrightarrow> digits_of x = [x]"
  by (subst digits_of.simps) simp

lemma digits_split: "10 \<le> x \<Longrightarrow> digits_of x = digits_of (x div 10) @ [x mod 10]"
  by (subst digits_of.simps) simp

lemma le_div: "0 < b \<Longrightarrow> c \<le> x div b \<longleftrightarrow> c * b \<le> x" for b c x :: int
proof
  assume "0 < b" "c \<le> x div b"
  then have "c * b \<le> x div b * b" by (simp add: mult_right_mono)
  also have "\<dots> \<le> x" using \<open>0 < b\<close> div_mult_mod_eq [of x b] pos_mod_sign [of b x] by linarith
  finally show "c * b \<le> x" .
next
  assume "0 < b" "c * b \<le> x"
  then show "c \<le> x div b" using zdiv_mono1 [of "c * b" x b] by simp
qed

lemma div_less: "0 < b \<Longrightarrow> x div b < c \<longleftrightarrow> x < c * b" for b c x :: int
  using le_div [of b c x] by linarith

lemma digits_hundred:
  assumes "100 \<le> x"
  shows "digits_of x = digits_of (x div 100) @ [x mod 100 div 10, x mod 10]"
proof -
  have d: "x div 10 div 10 = x div 100" using zdiv_zmult2_eq [of 10 x 10] by simp
  have m: "x div 10 mod 10 = x mod 100 div 10" using zmod_zmult2_eq [of 10 x 10] by simp
  have "10 \<le> x" "10 \<le> x div 10" using assms le_div [of 10 10 x] by simp_all
  then show ?thesis by (simp only: digits_split d m append_assoc append_Cons append_Nil)
qed

lemma digits_of_length: "10 \<le> x \<Longrightarrow> length (digits_of x) = length (digits_of (x div 10)) + 1"
  by (simp add: digits_split)

lemma count_digits_length: "0 \<le> x \<Longrightarrow> count_digits x = length (digits_of x)"
proof (induction x rule: count_digits.induct)
  case (1 x)
  have d: "x div 10 div 10 = x div 100" "x div 100 div 10 = x div 1000" "x div 1000 div 10 = x div 10000"
    using zdiv_zmult2_eq [of 10 x 10] zdiv_zmult2_eq [of 10 x 100] zdiv_zmult2_eq [of 10 x 1000] by simp_all
  note l = digits_of_length [of x] digits_of_length [of "x div 10", unfolded d]
    digits_of_length [of "x div 100", unfolded d] digits_of_length [of "x div 1000", unfolded d]
  have one: "length (digits_of y) = 1" if "0 \<le> y" "y < 10" for y using digits_small [OF that] by simp
  consider "x < 10" | "10 \<le> x" "x < 100" | "100 \<le> x" "x < 1000" | "1000 \<le> x" "x < 10000" | "10000 \<le> x" by linarith
  then show ?case
  proof cases
    case 1
    then show ?thesis using one [of x] \<open>0 \<le> x\<close> by (simp add: count_digits.simps [of x])
  next
    case 2
    then show ?thesis using l(1) one [of "x div 10"] by (simp add: count_digits.simps [of x] le_div div_less)
  next
    case 3
    then show ?thesis using l(1,2) one [of "x div 100"] by (simp add: count_digits.simps [of x] le_div div_less)
  next
    case 4
    then show ?thesis using l(1-3) one [of "x div 1000"] by (simp add: count_digits.simps [of x] le_div div_less)
  next
    case 5
    then have "count_digits x = count_digits (x div 10000) + 4" by (simp add: count_digits.simps [of x])
    moreover have "count_digits (x div 10000) = length (digits_of (x div 10000))"
      using "1.IH" 5 \<open>0 \<le> x\<close> by (simp add: le_div div_less)
    ultimately show ?thesis using l 5 by (simp add: le_div div_less)
  qed
qed


text \<open>The digits of a number, written backwards from \<open>ptr\<close>.\<close>

lemma put_digits_text:
  assumes "0 \<le> v" and "length (digits_of v) \<le> ptr" and "ptr \<le> length buf"
  shows "put_digits v ptr buf =
    take (ptr - length (digits_of v)) buf @ map digit_char (digits_of v) @ drop ptr buf"
  using assms
proof (induction v ptr buf rule: put_digits.induct)
  case (1 v ptr buf)
  consider "100 \<le> v" | "10 \<le> v" "v < 100" | "v < 10" by linarith
  then show ?case
  proof cases
    case 1
    let ?d0 = "digit_char (v mod 100 div 10)" and ?d1 = "digit_char (v mod 10)"
    let ?buf = "buf[ptr - 1 := ?d1, ptr - 2 := ?d0]"
    have m: "v mod 100 mod 10 = v mod 10" using mod_mod_cancel [of 10 100 v] by simp
    have p: "digits_to_99 ! nat (v mod 100) = (?d0, ?d1)"
      using digits_pair [of "v mod 100"] by (simp add: m)
    note dg = digits_hundred [OF 1]
    have l: "length (digits_of (v div 100)) + 2 \<le> ptr" using "1.prems"(2) dg by simp
    have "put_digits (v div 100) (ptr - 2) ?buf =
      take (ptr - 2 - length (digits_of (v div 100))) ?buf @ map digit_char (digits_of (v div 100)) @ drop (ptr - 2) ?buf"
      using "1.IH" [OF 1 p [symmetric]] 1 l "1.prems" by simp
    moreover have "drop (ptr - 2) ?buf = ?d0 # ?d1 # drop ptr buf"
    proof -
      obtain k where k: "ptr = Suc (Suc k)" using l by (metis add_2_eq_Suc' le_Suc_ex add_Suc)
      have "k + 1 < length buf" using k "1.prems"(3) by simp
      then show ?thesis unfolding k by (simp add: drop_update_swap flip: Cons_nth_drop_Suc)
    qed
    moreover have "put_digits v ptr buf = put_digits (v div 100) (ptr - 2) ?buf"
      using 1 by (subst put_digits.simps) (simp add: p)
    ultimately show ?thesis using l by (simp add: dg diff_diff_left add.commute)
  next
    case 2
    have d: "digits_of v = [v div 10, v mod 10]"
      using 2 digits_split [of v] digits_small [of "v div 10"] by (simp add: div_less)
    then obtain k where k: "ptr = Suc (Suc k)" using "1.prems"(2)
      by (cases ptr; cases "ptr - 1") auto
    have "k + 1 < length buf" using k "1.prems"(3) by simp
    then show ?thesis using 2 digits_pair [of v]
      by (subst put_digits.simps) (simp add: d k upd_conv_take_nth_drop take_Suc_conv_app_nth nth_append)
  next
    case 3
    have d: "digits_of v = [v]" using 3 "1.prems"(1) digits_small by simp
    then obtain k where k: "ptr = Suc k" using "1.prems"(2) by (cases ptr) auto
    then show ?thesis using 3 "1.prems"
      by (subst put_digits.simps) (simp add: d upd_conv_take_nth_drop digit_char_def)
  qed
qed

lemma digits_bound: "0 \<le> v \<Longrightarrow> v < 10 ^ Suc k \<Longrightarrow> length (digits_of v) \<le> Suc k"
proof (induction k arbitrary: v)
  case 0
  then show ?case by (simp add: digits_small)
next
  case (Suc k)
  show ?case
  proof (cases "v < 10")
    case False
    have "v div 10 < 10 ^ Suc k" using Suc.prems(2) by (simp add: div_less)
    then have "length (digits_of (v div 10)) \<le> Suc k" using Suc.IH Suc.prems(1) False by simp
    then show ?thesis using False by (simp add: digits_split)
  qed (use Suc.prems in \<open>simp add: digits_small\<close>)
qed

lemma prints_integer:
  assumes "- (2 ^ 63) \<le> n" and "n < 2 ^ 64"
  shows "prints k (dump_integer n) (show_int n)"
proof (cases "n = 0")
  case True
  then show ?thesis using prints_write [of k "''0''"]
    by (simp add: prints_def dump_integer_def show_int_def show_nat_def digits_small digit_char_def)
next
  case False
  show ?thesis
  proof (rule printsI)
    fix s assume s: "ready k s"
    have nb: "length (number_buffer s) = 64" using s by (simp add: ready_def)
    let ?v = "if n < 0 then remove_sign n else n" and ?b = "if n < 0 then (number_buffer s)[0 := CHR ''-''] else number_buffer s"
    let ?c = "if n < 0 then 1 + count_digits ?v else count_digits ?v"
    have v: "?v = \<bar>n\<bar>" by (simp add: remove_sign_def)
    have len: "length (digits_of \<bar>n\<bar>) \<le> 20"
      using assms digits_bound [of "\<bar>n\<bar>" 19] by simp
    have c: "?c = (if n < 0 then 1 else 0) + length (digits_of \<bar>n\<bar>)" unfolding v by (simp add: count_digits_length)
    have "put_digits ?v ?c ?b = take (?c - length (digits_of \<bar>n\<bar>)) ?b @ map digit_char (digits_of \<bar>n\<bar>) @ drop ?c ?b"
      unfolding v by (rule put_digits_text) (use c [unfolded v] len nb in auto)
    moreover have "length ?b = 64" using nb by simp
    ultimately have t: "take ?c (put_digits ?v ?c ?b) = take (?c - length (digits_of \<bar>n\<bar>)) ?b @ map digit_char (digits_of \<bar>n\<bar>)"
      and l: "length (put_digits ?v ?c ?b) = 64"
      using c len by auto
    have "take (?c - length (digits_of \<bar>n\<bar>)) ?b = (if n < 0 then ''-'' else [])"
      unfolding c using nb by (cases "number_buffer s") auto
    with t have "take ?c (put_digits ?v ?c ?b) = show_int n"
      by (simp add: show_int_def show_nat_def)
    then have "dump_integer n s = (Inr (), s\<lparr>out := out s @ show_int n, number_buffer := put_digits ?v ?c ?b\<rparr>)"
      using False unfolding dump_integer_def write_characters_def Let_def by simp
    then show "\<exists>s'. dump_integer n s = (Inr (), s') \<and> out s' = out s @ show_int n \<and> ready k s'"
      using s l by (simp add: ready_def)
  qed
qed


section \<open>Containers\<close>

text \<open>The elements of a container, each on a line of its own when \<open>nl\<close> is a new line.\<close>

fun joined :: "string \<Rightarrow> string \<Rightarrow> string list \<Rightarrow> string" where
  "joined nl ind [] = []"
| "joined nl ind [t] = ind @ t"
| "joined nl ind (t # u # ts) = ind @ t @ '','' @ nl @ joined nl ind (u # ts)"

lemma prints_separated:
  assumes "list_all2 (prints n) ms ts" and "prints n wi ind"
  shows "prints n (separated ('','' @ nl) (map (seq_act wi) ms)) (joined nl ind ts)"
  using assms(1)
proof (induction ms arbitrary: ts)
  case Nil
  then show ?case by (simp add: prints_nothing)
next
  case (Cons m ms)
  then obtain t ts' where ts: "ts = t # ts'" "prints n m t" "list_all2 (prints n) ms ts'" by (auto simp: list_all2_Cons1)
  have e: "prints n (seq_act wi m) (ind @ t)" by (rule prints_seq [OF assms(2) ts(2)])
  show ?case
  proof (cases ms)
    case Nil
    then show ?thesis using e ts by simp
  next
    case (Cons m' ms')
    then obtain u us where u: "ts' = u # us" using ts(3) by (auto simp: list_all2_Cons1)
    have "prints n (seq_acts [seq_act wi m, write_characters ('','' @ nl), separated ('','' @ nl) (map (seq_act wi) ms)])
      (concat [ind @ t, '','' @ nl, joined nl ind ts'])"
      by (rule prints_seqs) (use e prints_write Cons.IH [OF ts(3)] in auto)
    then show ?thesis using Cons ts u by simp
  qed
qed

lemma seq_return: "seq_act (return_act ()) m = m"
  by (rule ext) (simp add: seq_act_def bind_act_def)

lemma prints_compact:
  assumes "list_all2 (prints n) ms ts"
  shows "prints n (separated '','' ms) (joined [] [] ts)"
proof -
  have "map (seq_act (return_act ())) ms = ms" by (intro map_idI seq_return)
  then show ?thesis using prints_separated [OF assms prints_nothing(1), of "[]"] by simp
qed

definition new_line :: "bool \<Rightarrow> nat \<Rightarrow> string" where
  "new_line pretty n = (if pretty then CHR 0x0A # replicate n (CHR '' '') else [])"

definition container_text :: "char \<Rightarrow> char \<Rightarrow> bool \<Rightarrow> nat \<Rightarrow> nat \<Rightarrow> string list \<Rightarrow> string" where
  "container_text opening closing pretty step n ts =
     (if ts = [] then [opening, closing]
      else if pretty then opening # CHR 0x0A # joined [CHR 0x0A] (replicate (n + step) (CHR '' '')) ts @ new_line True n @ [closing]
      else opening # joined [] [] ts @ [closing])"

lemma prints_container:
  assumes "list_all2 (prints (if pretty then n + step else n)) ms ts" and "step \<le> 512"
  shows "prints n (dump_container opening closing pretty step n ms) (container_text opening closing pretty step n ts)"
proof -
  consider "ms = []" | "ms \<noteq> []" "pretty" | "ms \<noteq> []" "\<not> pretty" by blast
  then show ?thesis
  proof cases
    case 1
    then show ?thesis using assms(1) by (simp add: dump_container_def container_text_def prints_write)
  next
    case 2
    have ts: "ts \<noteq> []" using 2 assms(1) by (auto simp: list_all2_Cons1 neq_Nil_conv)
    let ?body = "separated [CHR '','', CHR 0x0A] (map (seq_act (write_indent (n + step))) ms)"
    have body: "prints (n + step) ?body (joined [CHR 0x0A] (replicate (n + step) (CHR '' '')) ts)"
      using prints_separated [of "n + step" ms ts "write_indent (n + step)" _ "[CHR 0x0A]"] assms(1) 2 prints_indent by simp
    have "prints (n + step) (seq_acts [?body, write_characters [CHR 0x0A], write_indent n, write_characters [closing]])
      (concat [joined [CHR 0x0A] (replicate (n + step) (CHR '' '')) ts, [CHR 0x0A], replicate n (CHR '' ''), [closing]])"
      by (rule prints_seqs) (use body prints_write prints_indent in auto)
    from prints_seq [OF prints_write [of n "[opening, CHR 0x0A]"] prints_grow [OF this assms(2)]]
    show ?thesis using 2 ts by (simp add: dump_container_def container_text_def new_line_def)
  next
    case 3
    have ts: "ts \<noteq> []" using 3 assms(1) by (auto simp: list_all2_Cons1 neq_Nil_conv)
    have "prints n (seq_acts [write_characters [opening], separated '','' ms, write_characters [closing]])
      (concat [[opening], joined [] [] ts, [closing]])"
      by (rule prints_seqs) (use prints_write prints_compact assms(1) 3 in auto)
    then show ?thesis using 3 ts by (simp add: dump_container_def container_text_def)
  qed
qed

section \<open>The texts are in the grammar\<close>

lemma spaces_lines: "spaces (CHR 0x0A # replicate n (CHR '' ''))" "spaces []" "spaces (replicate n (CHR '' ''))" "spaces [CHR 0x0A]"
    "spaces (v @ w) \<longleftrightarrow> spaces v \<and> spaces w" "spaces [CHR '' '']"
  by (auto simp: spaces_def json_space_def)

lemma items_spelled:
  assumes "list_all2 spells js ts" and "ts \<noteq> []" and "spaces nl" "spaces ind" "spaces trail"
  shows "spells_items js (nl @ joined nl ind ts @ trail @ [CHR '']''])"
  using assms(1,2)
proof (induction rule: list_all2_induct)
  case (Cons j js t ts)
  have w: "spaces (nl @ ind)" using assms by (simp add: spaces_lines)
  show ?case
  proof (cases ts)
    case Nil
    then show ?thesis using last_item [OF w Cons.hyps(1) assms(5)] Cons.hyps(2) by simp
  next
    case (Cons u us)
    then show ?thesis using next_item [OF w Cons.hyps(1) spaces_lines(2) Cons.IH] by simp
  qed
qed simp

definition field_text :: "bool \<Rightarrow> string \<Rightarrow> string \<Rightarrow> string" where
  "field_text pretty k t = quoted k @ (if pretty then '': '' else '':'') @ t"

lemma fields_spelled:
  assumes "list_all2 (\<lambda>p t. utf8_valid (fst p) \<and> (\<exists>u. t = field_text pretty (fst p) u \<and> spells (snd p) u)) m ts"
    and "ts \<noteq> []" and "spaces nl" "spaces ind" "spaces trail"
  shows "spells_fields m (nl @ joined nl ind ts @ trail @ [CHR ''}''])"
  using assms(1,2)
proof (induction rule: list_all2_induct)
  case (Cons p m t ts)
  obtain k j where p: "p = (k, j)" by fastforce
  obtain u where u: "utf8_valid k" "t = field_text pretty k u" "spells j u" using Cons.hyps(1) p by auto
  have w: "spaces (nl @ ind)" "spaces (if pretty then '' '' else [])" using assms by (simp_all add: spaces_lines)
  have t: "t = quoted k @ CHR '':'' # (if pretty then '' '' else []) @ u" using u(2) by (simp add: field_text_def)
  show ?case
  proof (cases ts)
    case Nil
    then show ?thesis using last_field [OF w(1) u(1) spaces_lines(2) w(2) u(3) assms(5)] Cons.hyps(2) p t by simp
  next
    case (Cons u' us)
    then show ?thesis using next_field [OF w(1) u(1) spaces_lines(2) w(2) u(3) spaces_lines(2) Cons.IH] p t by simp
  qed
qed simp

lemma array_spelled:
  assumes "list_all2 spells js ts"
  shows "spells (JArray js) (container_text (CHR ''['') (CHR '']'') pretty step n ts)"
proof (cases "ts = []")
  case True
  then show ?thesis using assms spell_no_items [of "[]"] by (simp add: container_text_def spaces_lines)
next
  case False
  then show ?thesis
    using items_spelled [OF assms False, of "[CHR 0x0A]" "replicate (n + step) (CHR '' '')" "new_line True n"]
      items_spelled [OF assms False, of "[]" "[]" "[]"]
    by (auto simp: container_text_def new_line_def spaces_lines intro!: spell_array)
qed

lemma object_spelled:
  assumes "list_all2 (\<lambda>p t. utf8_valid (fst p) \<and> (\<exists>u. t = field_text pretty (fst p) u \<and> spells (snd p) u)) m ts" and "omap_wf m"
  shows "spells (JObject m) (container_text (CHR ''{'') (CHR ''}'') pretty step n ts)"
proof (cases "ts = []")
  case True
  then show ?thesis using assms spell_no_fields [of "[]"] by (simp add: container_text_def spaces_lines)
next
  case False
  then show ?thesis
    using fields_spelled [OF assms(1) False, of "[CHR 0x0A]" "replicate (n + step) (CHR '' '')" "new_line True n"]
      fields_spelled [OF assms(1) False, of "[]" "[]" "[]"] assms(2)
    by (auto simp: container_text_def new_line_def spaces_lines intro!: spell_object)
qed

section \<open>dump\<close>

text \<open>
  A double whose text, as \<open>to_chars\<close> writes it, is a number of the grammar that converts back
  to it.
\<close>

definition prints_back :: "double \<Rightarrow> bool" where
  "prints_back x = (isfinite x \<and> (case to_chars x of None \<Rightarrow> False | Some t \<Rightarrow> float_text t \<and> strtod t = x))"

fun printable :: "json \<Rightarrow> bool" where
  "printable JNull = True"
| "printable (JBool b) = True"
| "printable (JString s) = utf8_valid s"
| "printable (JUnsigned n) = (0 \<le> n \<and> n < 2 ^ 64)"
| "printable (JInteger n) = (- (2 ^ 63) \<le> n \<and> n < 0)"
| "printable (JFloat x) = (prints_back x \<or> \<not> isfinite x)"
| "printable (JArray js) = list_all printable js"
| "printable (JObject m) = (omap_wf m \<and> list_all (\<lambda>(k, v). utf8_valid k \<and> printable v) m)"
| "printable (JBinary bs t) = False"
| "printable JDiscarded = False"

text \<open>A double that is not finite is written as \<open>null\<close>: the value that will be read back.\<close>

fun read_value :: "json \<Rightarrow> json" where
  "read_value (JFloat x) = (if isfinite x then JFloat x else JNull)"
| "read_value (JArray js) = JArray (map read_value js)"
| "read_value (JObject m) = JObject (map (\<lambda>(k, v). (k, read_value v)) m)"
| "read_value j = j"

definition writes_text :: "json \<Rightarrow> nat \<Rightarrow> (serializer, unit) action \<Rightarrow> bool" where
  "writes_text j n m \<longleftrightarrow> (\<exists>t. spells j t \<and> prints n m t)"

lemma list_all2_witness: "\<forall>x\<in>set xs. \<exists>y. P x y \<Longrightarrow> \<exists>ys. list_all2 P xs ys"
  by (induction xs) (auto intro: list_all2_Cons [THEN iffD2])

theorem dump_writes:
  assumes "step \<le> 512"
  shows "printable j \<Longrightarrow> writes_text (read_value j) n (dump j pretty False step n)"
proof (induction j arbitrary: n)
  case (JObject m)
  let ?n = "if pretty then n + step else n"
  let ?e = "\<lambda>p. seq_act (quoted_name (fst p) False (if pretty then '': '' else '':'')) (dump (snd p) pretty False step ?n)"
  have "\<forall>p\<in>set m. \<exists>t. utf8_valid (fst p) \<and> (\<exists>u. t = field_text pretty (fst p) u \<and> spells (read_value (snd p)) u) \<and> prints ?n (?e p) t"
  proof
    fix p assume p: "p \<in> set m"
    then have v: "utf8_valid (fst p)" "printable (snd p)" using JObject.prems by (auto simp: list_all_iff)
    have "writes_text (read_value (snd p)) ?n (dump (snd p) pretty False step ?n)"
      using JObject.IH [of p "snd p" ?n] p v(2) by (cases p) simp
    then obtain u where u: "spells (read_value (snd p)) u" "prints ?n (dump (snd p) pretty False step ?n) u" by (auto simp: writes_text_def)
    have "prints ?n (?e p) (field_text pretty (fst p) u)"
      using prints_seq [OF prints_quoted [OF v(1), of ?n] u(2)] by (simp add: field_text_def)
    then show "\<exists>t. utf8_valid (fst p) \<and> (\<exists>u. t = field_text pretty (fst p) u \<and> spells (read_value (snd p)) u) \<and> prints ?n (?e p) t"
      using v(1) u(1) by blast
  qed
  from list_all2_witness [OF this] obtain ts where ts:
    "list_all2 (\<lambda>p t. utf8_valid (fst p) \<and> (\<exists>u. t = field_text pretty (fst p) u \<and> spells (read_value (snd p)) u) \<and> prints ?n (?e p) t) m ts" ..
  have "list_all2 (prints ?n) (map ?e m) ts" using ts by (auto simp: list_all2_map1 elim: list_all2_mono)
  moreover have "(\<lambda>(k, v). seq_act (quoted_name k False (if pretty then '': '' else '':'')) (dump v pretty False step ?n)) = ?e"
    by (rule ext) (simp add: case_prod_beta)
  ultimately have "prints n (dump (JObject m) pretty False step n) (container_text (CHR ''{'') (CHR ''}'') pretty step n ts)"
    using prints_container [of pretty n step "map ?e m" ts "CHR ''{''" "CHR ''}''"] assms by simp
  moreover have "spells (read_value (JObject m)) (container_text (CHR ''{'') (CHR ''}'') pretty step n ts)"
  proof -
    have "map fst (map (\<lambda>(k, v). (k, read_value v)) m) = map fst m" by (simp add: case_prod_beta comp_def)
    then have "omap_wf (map (\<lambda>(k, v). (k, read_value v)) m)" using JObject.prems by (simp only: omap_wf_def printable.simps)
    with ts show ?thesis
      unfolding read_value.simps
      by (intro object_spelled) (auto simp: list_all2_map1 case_prod_beta elim: list_all2_mono)
  qed
  ultimately show ?case unfolding writes_text_def by blast
next
  case (JArray js)
  let ?n = "if pretty then n + step else n"
  have "\<forall>j\<in>set js. \<exists>t. spells (read_value j) t \<and> prints ?n (dump j pretty False step ?n) t"
    using JArray.IH [of _ ?n] JArray.prems by (auto simp: list_all_iff writes_text_def)
  from list_all2_witness [OF this] obtain ts where ts:
    "list_all2 (\<lambda>j t. spells (read_value j) t \<and> prints ?n (dump j pretty False step ?n) t) js ts" ..
  have "list_all2 (prints ?n) (map (\<lambda>v. dump v pretty False step ?n) js) ts"
    using ts by (auto simp: list_all2_map1 elim: list_all2_mono)
  then have "prints n (dump (JArray js) pretty False step n) (container_text (CHR ''['') (CHR '']'') pretty step n ts)"
    using prints_container [of pretty n step "map (\<lambda>v. dump v pretty False step ?n) js" ts "CHR ''[''" "CHR '']''"] assms by simp
  moreover have "spells (read_value (JArray js)) (container_text (CHR ''['') (CHR '']'') pretty step n ts)"
    unfolding read_value.simps using ts by (intro array_spelled) (auto simp: list_all2_map1 elim: list_all2_mono)
  ultimately show ?case unfolding writes_text_def by blast
next
  case (JFloat x)
  show ?case
  proof (cases "isfinite x")
    case True
    then obtain t where t: "to_chars x = Some t" "float_text t" "strtod t = x"
      using JFloat by (auto simp: prints_back_def split: option.splits)
    then have "dump_float x = write_characters t" using True by (intro ext) (simp add: dump_float_def)
    then show ?thesis using t True prints_write [of n t] spell_float [OF t(2,3)] by (auto simp: writes_text_def)
  next
    case False
    then have "dump_float x = write_characters ''null''" by (intro ext) (simp add: dump_float_def)
    then show ?thesis using False prints_write [of n "''null''"] spell_null by (auto simp: writes_text_def)
  qed
next
  case (JString str)
  then show ?case using prints_quoted [of str n "[]"] spell_string by (auto simp: writes_text_def)
next
  case (JInteger i)
  then show ?case using prints_integer [of i n] spell_integer by (auto simp: writes_text_def)
next
  case (JUnsigned i)
  then show ?case using prints_integer [of i n] spell_unsigned by (auto simp: writes_text_def)
next
  case (JBool b)
  then show ?case using prints_write spell_true spell_false by (cases b) (auto simp: writes_text_def)
next
  case JNull
  then show ?case using prints_write spell_null by (auto simp: writes_text_def)
qed simp_all

text \<open>What is dumped is read back, whatever follows it.\<close>

theorem dump_read:
  assumes "printable j" and "indent \<le> 512" and "delimited rest"
  shows "\<exists>t. json_dump j indent (CHR '' '') False handler = Inr t \<and> json_read (t @ rest) = Inr (read_value j)"
proof -
  have r: "ready 0 (new_serializer (CHR '' '') handler)"
    by (auto simp: ready_def new_serializer_def intro: exI [of _ 512])
  let ?m = "if indent \<ge> 0 then dump j True False (nat indent) 0 else dump j False False 0 0"
  have "writes_text (read_value j) 0 ?m"
    using dump_writes [of "nat indent" j 0 True] dump_writes [of 0 j 0 False] assms(1,2) by auto
  then obtain t where t: "spells (read_value j) t" "prints 0 ?m t" by (auto simp: writes_text_def)
  obtain s' where "?m (new_serializer (CHR '' '') handler) = (Inr (), s')" "out s' = t"
    using printsE [OF t(2) r] by (auto simp: new_serializer_def)
  then have "json_dump j indent (CHR '' '') False handler = Inr t" by (simp add: json_dump_def)
  moreover have "json_read ([] @ t @ rest) = Inr (read_value j)" by (rule json_read_spelled [OF t(1) _ assms(3)]) (simp add: spaces_def)
  ultimately show ?thesis by simp
qed

end
