(* ===== verification/Persistence.thy ===== *)
theory Persistence
  imports Json_Printing Json_Store
begin

text \<open>
  What survives a restart: \<open>UserStore::save\<close> followed by \<open>load\<close>, at the level of the text of the
  file, and what a user can do to a file that is lost as a whole.
\<close>

section \<open>Maps as objects\<close>

definition omap_of_list :: "(string \<times> 'v) list \<Rightarrow> (string, 'v) omap" where
  "omap_of_list ps = fold (\<lambda>(k, v) m. omap_emplace k v m) ps []"

lemma omap_emplace_wf: "omap_wf m \<Longrightarrow> omap_wf (omap_emplace k v m)"
  by (simp add: omap_emplace_def omap_wf_put)

lemma fold_emplace_find:
  "omap_wf m \<Longrightarrow> omap_wf (fold (\<lambda>(k, v) m. omap_emplace k v m) ps m) \<and>
    omap_find (fold (\<lambda>(k, v) m. omap_emplace k v m) ps m) j = (case omap_find m j of None \<Rightarrow> map_of ps j | Some v \<Rightarrow> Some v)"
proof (induction ps arbitrary: m)
  case (Cons p ps)
  obtain k v where p: "p = (k, v)" by fastforce
  show ?case
    using Cons.IH [OF omap_emplace_wf [OF Cons.prems], of k v] p
    by (auto simp: omap_emplace_def split: option.splits)
qed (simp split: option.split)

lemma omap_of_list_find: "omap_find (omap_of_list ps) j = map_of ps j"
  using fold_emplace_find [of "[]" ps j] by (simp add: omap_of_list_def)

lemma omap_of_list_wf: "omap_wf (omap_of_list ps)"
  using fold_emplace_find [of "[]" ps] by (simp add: omap_of_list_def)

text \<open>A map is determined by its lookups.\<close>

lemma omap_eqI:
  "omap_wf m \<Longrightarrow> omap_wf m' \<Longrightarrow> (\<And>k. omap_find m k = omap_find m' k) \<Longrightarrow> m = m'"
proof -
  assume wf: "omap_wf m" "omap_wf m'" and f: "\<And>k. omap_find m k = omap_find m' k"
  have d: "distinct (map fst m)" "distinct (map fst m')" "sorted (map fst m)" "sorted (map fst m')"
    using wf by (simp_all add: omap_wf_def strict_sorted_iff)
  have e: "map_of m = map_of m'" using f by (intro ext) (simp add: omap_find_def)
  have "set (map fst m) = set (map fst m')"
    using arg_cong [OF e, of dom] by (simp add: dom_map_of_conv_image_fst)
  then have k: "map fst m = map fst m'" using d sorted_distinct_set_unique by blast
  have "m = map (\<lambda>k. (k, the (map_of m k))) (map fst m)" if "distinct (map fst m)" for m :: "('a \<times> 'b) list"
    unfolding map_map comp_def using that by (intro map_idI [symmetric]) (auto simp: map_of_is_SomeI)
  from this [OF d(1)] this [OF d(2)] show "m = m'" unfolding e k by simp
qed

lemma omap_of_list_id: "omap_wf m \<Longrightarrow> omap_of_list m = m"
  by (rule omap_eqI) (simp_all add: omap_of_list_wf omap_of_list_find, simp add: omap_find_def)

lemma emplace_map:
  "omap_emplace k (f v) (map (\<lambda>(k, v). (k, f v)) m) = map (\<lambda>(k, v). (k, f v)) (omap_emplace k v m)"
proof -
  have p: "omap_put k (f v) (map (\<lambda>(k, v). (k, f v)) m) = map (\<lambda>(k, v). (k, f v)) (omap_put k v m)"
    by (induction k v m rule: omap_put.induct) auto
  have "omap_find (map (\<lambda>(k, v). (k, f v)) m) k = map_option f (omap_find m k)"
    by (simp add: omap_find_def map_of_map)
  with p show ?thesis by (simp add: omap_emplace_def)
qed

lemma json_of_map_list: "json_of_map f ps = JObject (map (\<lambda>(k, v). (k, f v)) (omap_of_list ps))"
proof -
  have "fold (\<lambda>(k, v) m. omap_emplace k (f v) m) ps (map (\<lambda>(k, v). (k, f v)) acc) =
    map (\<lambda>(k, v). (k, f v)) (fold (\<lambda>(k, v) m. omap_emplace k v m) ps acc)" for acc
    by (induction ps arbitrary: acc) (auto simp: emplace_map)
  from this [of "[]"] show ?thesis by (simp add: json_of_map_def omap_of_list_def)
qed

lemma in_omap_of_list: "p \<in> set (omap_of_list ps) \<Longrightarrow> p \<in> set ps"
proof -
  assume "p \<in> set (omap_of_list ps)"
  moreover have "distinct (map fst (omap_of_list ps))" using omap_of_list_wf [of ps] by (simp add: omap_wf_def strict_sorted_iff)
  ultimately have "omap_find (omap_of_list ps) (fst p) = Some (snd p)" by (simp add: omap_find_def)
  then show "p \<in> set ps" by (simp add: omap_of_list_find) (metis map_of_SomeD prod.collapse)
qed

text \<open>Reading an object field by field.\<close>

lemma get_fields_map:
  assumes "\<And>k v. (k, v) \<in> set m \<Longrightarrow> g (f v) = Inr v"
  shows "get_fields g (JObject (map (\<lambda>(k, v). (k, f v)) m)) = Inr m"
proof -
  have "map_res (get_field g) (map (\<lambda>(k, v). (k, f v)) m) = Inr m"
    using assms
  proof (induction m)
    case (Cons p m)
    obtain k v where p: "p = (k, v)" by fastforce
    have "g (f v) = Inr v" by (rule Cons.prems [of k]) (simp add: p)
    then have "get_field g (k, f v) = Inr (k, v)" by (simp add: get_field_def)
    moreover have "map_res (get_field g) (map (\<lambda>(k, v). (k, f v)) m) = Inr m"
      by (rule Cons.IH) (metis Cons.prems list.set_intros(2))
    ultimately show ?case using p by simp
  qed simp
  then show ?thesis by simp
qed

lemma get_omap_read:
  assumes "\<And>k v. (k, v) \<in> set m \<Longrightarrow> g (f v) = Inr v" and "omap_wf m"
  shows "get_omap g (JObject (map (\<lambda>(k, v). (k, f v)) m)) = Inr m"
  using get_fields_map [OF assms(1)] omap_of_list_id [OF assms(2)] by (simp add: get_omap_def omap_of_list_def)

lemma fold_umap_emplace_find:
  "umap_wf m \<Longrightarrow> umap_wf (fold (\<lambda>(k, v) m. umap_emplace k v m) ps m) \<and>
    umap_find (fold (\<lambda>(k, v) m. umap_emplace k v m) ps m) j = (case umap_find m j of None \<Rightarrow> map_of ps j | Some v \<Rightarrow> Some v)"
proof (induction ps arbitrary: m)
  case (Cons p ps)
  obtain k v where p: "p = (k, v)" by fastforce
  show ?case
    using Cons.IH [OF umap_wf_emplace [OF Cons.prems], of k v] p
    by (auto split: option.splits)
qed (simp split: option.split)

section \<open>Wallets and users\<close>

lemma pair_list_object:
  "json_list [pair_json k v] = JObject [(k, v)]"
  by (simp add: json_list_def pair_json_def omap_emplace_def)

lemma wallet_object:
  "wallet_to_json w = JObject [(''currencies'', balances_json (currencies w)), (''locked'', balances_json (locked w))]"
  by (simp add: wallet_to_json_def json_list_def pair_json_def omap_emplace_def omap_find_def)

lemma user_object:
  "user_to_json u = JObject [(''password'', JString (password u)), (''username'', JString (user_name u)),
     (''wallet'', wallet_to_json (wallet u))]"
  by (simp add: user_to_json_def json_list_def pair_json_def omap_emplace_def omap_find_def)


text \<open>
  What the file can hold: text that is UTF-8. A balance is written so that it can be read
  back exactly, or it is not finite, which JSON cannot say.
\<close>

definition writable_balances :: "(string, double) omap \<Rightarrow> bool" where
  "writable_balances m \<longleftrightarrow> omap_wf m \<and> list_all (\<lambda>(k, x). utf8_valid k \<and> (prints_back x \<or> \<not> isfinite x)) m"

definition writable_user :: "user \<Rightarrow> bool" where
  "writable_user u \<longleftrightarrow> utf8_valid (user_name u) \<and> utf8_valid (password u) \<and>
     writable_balances (currencies (wallet u)) \<and> writable_balances (locked (wallet u))"

definition writable_users :: "users \<Rightarrow> bool" where
  "writable_users us \<longleftrightarrow> umap_wf us \<and> list_all (\<lambda>(k, u). utf8_valid k \<and> writable_user u) us"

definition finite_balances :: "user \<Rightarrow> bool" where
  "finite_balances u \<longleftrightarrow> list_all (\<lambda>(k, x). isfinite x) (currencies (wallet u) @ locked (wallet u))"

lemma balances_object: "omap_wf m \<Longrightarrow> balances_json m = JObject (map (\<lambda>(k, x). (k, JFloat x)) m)"
  by (simp add: balances_json_def json_of_map_list omap_of_list_id)

lemma mapped_wf: "omap_wf m \<Longrightarrow> omap_wf (map (\<lambda>(k, v). (k, f v)) m)"
  by (simp add: omap_wf_def case_prod_beta comp_def)

lemma printable_balances: "writable_balances m \<Longrightarrow> printable (balances_json m)"
  by (auto simp: writable_balances_def balances_object mapped_wf list_all_iff)

lemma printable_user: "writable_user u \<Longrightarrow> printable (user_to_json u)"
  by (simp add: writable_user_def user_object wallet_object printable_balances)
    (simp add: omap_wf_def utf8_valid_def tail_ranges_def)

lemma read_balances:
  "omap_wf m \<Longrightarrow> read_value (balances_json m) = JObject (map (\<lambda>(k, x). (k, read_value (JFloat x))) m)"
  by (simp add: balances_object case_prod_beta comp_def del: read_value.simps(1))

lemma read_finite_balances:
  assumes "omap_wf m" and "list_all (\<lambda>(k, x). isfinite x) m"
  shows "read_value (balances_json m) = balances_json m" and "get_omap get_double (balances_json m) = Inr m"
proof -
  show "read_value (balances_json m) = balances_json m"
    using assms by (auto simp: read_balances balances_object list_all_iff)
  show "get_omap get_double (balances_json m) = Inr m"
    unfolding balances_object [OF assms(1)] using assms(1) by (intro get_omap_read) simp_all
qed

lemma user_read:
  assumes "writable_user u" and "finite_balances u"
  shows "read_value (user_to_json u) = user_to_json u" and "user_from_json (user_to_json u) = Inr u"
proof -
  let ?c = "currencies (wallet u)" and ?l = "locked (wallet u)"
  have w: "omap_wf ?c" "omap_wf ?l" "list_all (\<lambda>(k, x). isfinite x) ?c" "list_all (\<lambda>(k, x). isfinite x) ?l"
    using assms by (simp_all add: writable_user_def writable_balances_def finite_balances_def)
  note c = read_finite_balances [OF w(1,3)] and l = read_finite_balances [OF w(2,4)]
  show "read_value (user_to_json u) = user_to_json u"
    by (simp add: user_object wallet_object c l)
  have "wallet_from_json (wallet_to_json (wallet u)) = Inr (wallet u)"
    by (simp add: wallet_from_json_def wallet_object omap_find_def c l)
  then show "user_from_json (user_to_json u) = Inr u"
    by (simp add: user_from_json_def user_object omap_find_def)
qed

section \<open>Saving and loading\<close>

lemma users_object: "users_json us = JObject (map (\<lambda>(k, u). (k, user_to_json u)) (omap_of_list us))"
  by (simp add: users_json_def json_of_map_list)

lemma printable_users: "writable_users us \<Longrightarrow> printable (users_json us)"
  using in_omap_of_list [of _ us]
  by (fastforce simp: users_object writable_users_def mapped_wf omap_of_list_wf list_all_iff intro: printable_user)

lemma save_writable:
  assumes "writable_users us"
  obtains t where "UserStore_save True us f = (Inr (), Some t)" "json_read t = Inr (read_value (users_json us))"
proof -
  obtain t where "json_dump (users_json us) 4 (CHR '' '') False strict = Inr t"
      "json_read (t @ []) = Inr (read_value (users_json us))"
    using dump_read [OF printable_users [OF assms], of 4 "[]" strict] by (auto simp: delimited_def)
  then show ?thesis using that [of t] by (simp add: UserStore_save_def write_json_def)
qed

lemma save_load_users:
  assumes "writable_users us" and "\<forall>u\<in>set (map snd us). finite_balances u"
  shows "\<exists>t us'. UserStore_save True us f = (Inr (), Some t) \<and> UserStore_load (Some t) us0 = (Inr (), us') \<and>
    umap_wf us' \<and> (\<forall>n. umap_find us' n = umap_find us n)"
proof -
  obtain t where t: "UserStore_save True us f = (Inr (), Some t)" "json_read t = Inr (read_value (users_json us))"
    using save_writable [OF assms(1)] .
  let ?m = "omap_of_list us"
  have u: "writable_user u \<and> finite_balances u" if "(k, u) \<in> set ?m" for k u
    using in_omap_of_list [OF that] assms by (force simp: writable_users_def list_all_iff)
  have r: "read_value (users_json us) = users_json us"
    using user_read(1) u by (auto simp: users_object)
  let ?us = "fold (\<lambda>(k, v) m. umap_emplace k v m) ?m []"
  have "get_umap user_from_json (users_json us) = Inr ?us"
    using get_fields_map [of ?m user_from_json user_to_json] user_read(2) u by (simp add: get_umap_def users_object)
  then have "read_users t = Inr ?us" by (simp add: read_users_def t(2) r)
  then have "UserStore_load (Some t) us0 = (Inr (), ?us)" by (simp add: UserStore_load_def)
  moreover have "umap_wf ?us \<and> umap_find ?us n = umap_find us n" for n
    using fold_umap_emplace_find [of "[]" ?m n] omap_of_list_find [of us n] by (simp add: omap_find_def umap_find_def)
  ultimately show ?thesis using t(1) by blast
qed


section \<open>Reading never aborts the program\<close>

lemma json_catchable: "catchable (parse_error i p w)" "catchable (type_error i w)" "catchable (out_of_range i w)"
    "catchable (must_be t j)"
  by (simp_all add: parse_error_def type_error_def out_of_range_def must_be_def catchable_def)

definition safe_result :: "'a result \<Rightarrow> bool" where
  "safe_result r \<longleftrightarrow> (\<forall>e. r = Inl e \<longrightarrow> catchable e)"

lemma safe_simps [simp]: "safe_result (Inr x)" "safe_result (Inl e) = catchable e"
  by (simp_all add: safe_result_def)

lemma safe_bind: "safe_result r \<Longrightarrow> (\<And>x. r = Inr x \<Longrightarrow> safe_result (f x)) \<Longrightarrow> safe_result (bind_res r f)"
  by (cases r) simp_all

lemma safe_unexpected: "safe_result (unexpected x w p)" "safe_result (sax_parse_error (parse_error i q v) p)"
    "safe_result (sax_parse_error (out_of_range i v) p)"
  by (simp_all add: unexpected_def sax_parse_error_def json_catchable)

lemma safe_key: "safe_result (parse_key p)"
  by (simp add: parse_key_def Let_def safe_unexpected)

lemma safe_value: "safe_result (parse_value p)"
proof -
  have "safe_result (parse_begin_object p)"
    by (auto simp: parse_begin_object_def Let_def intro!: safe_bind safe_key split: prod.split parse_next.split)
  moreover have "safe_result (parse_begin_array p)" by (simp add: parse_begin_array_def Let_def)
  moreover have "safe_result (parse_float p)" by (simp add: parse_float_def Let_def value_done_def safe_unexpected)
  moreover have "safe_result (parse_end_of_input p)" by (simp add: parse_end_of_input_def safe_unexpected)
  ultimately show ?thesis
    by (simp add: parse_value_def value_done_def safe_unexpected split: token_type.split)
qed

lemma safe_state: "safe_result (parse_state p)"
  by (auto simp: parse_state_def parse_after_element_def parse_after_field_def close_container_def Let_def safe_unexpected
      intro!: safe_bind safe_key split: list.split prod.split parse_next.split)

lemma safe_loop: "safe_result (sax_parse_loop b p)"
proof (induction b p rule: sax_parse_loop.induct)
  case (1 b p)
  let ?r = "if b then Inr (Value_done, p) else parse_value p"
  have st: "safe_result (bind_res (parse_state p1) (\<lambda>(n, p2). case n of Return b \<Rightarrow> Inr (b, p2)
      | Next_value \<Rightarrow> sax_parse_loop False p2 | Value_done \<Rightarrow> sax_parse_loop True p2))"
    if r: "?r = Inr (Value_done, p1)" for p1
  proof (cases "parse_state p1")
    case (Inl e)
    then show ?thesis using safe_state [of p1] by simp
  next
    case (Inr y)
    obtain n p2 where y: "y = (n, p2)" by fastforce
    show ?thesis
      using "1.IH"(2) [OF r refl refl Inr y [symmetric]] "1.IH"(3) [OF r refl refl Inr y [symmetric]] Inr y
      by (cases n) simp_all
  qed
  show ?case
  proof (cases ?r)
    case (Inl e)
    then show ?thesis using safe_value [of p] by (subst sax_parse_loop.simps) (simp split: if_splits)
  next
    case (Inr x)
    obtain n p1 where x: "x = (n, p1)" by fastforce
    show ?thesis
    proof (cases n)
      case Next_value
      then show ?thesis using "1.IH"(1) [OF Inr x [symmetric] Next_value] Inr x by (subst sax_parse_loop.simps) simp
    next
      case Value_done
      then show ?thesis using st [of p1] Inr x by (subst sax_parse_loop.simps) simp
    next
      case (Return c)
      then show ?thesis using Inr x by (subst sax_parse_loop.simps) simp
    qed
  qed
qed

lemma safe_read: "safe_result (json_read t)"
  by (auto simp: json_read_def parse_def sax_parse_internal_def Let_def intro!: safe_bind safe_loop safe_unexpected
      split: prod.split)

lemma safe_at: "safe_result (json_at j k)"
  by (cases j) (auto simp: json_catchable split: option.split)

lemma safe_scalars: "safe_result (get_double j)" "safe_result (get_string j)"
  by (cases j; simp add: json_catchable)+

lemma safe_map_res: "(\<And>x. safe_result (f x)) \<Longrightarrow> safe_result (map_res f xs)"
  by (induction xs) (auto simp: safe_result_def split: sum.split)

lemma safe_fields: "(\<And>j. safe_result (f j)) \<Longrightarrow> safe_result (get_fields f j)"
  by (cases j) (auto simp: get_field_def json_catchable intro!: safe_map_res safe_bind)

lemma safe_user: "safe_result (user_from_json j)"
  by (auto simp: user_from_json_def wallet_from_json_def get_omap_def
      intro!: safe_bind safe_at safe_scalars safe_fields)

lemma safe_users: "safe_result (read_users t)"
  by (auto simp: read_users_def get_umap_def intro!: safe_bind safe_read safe_fields safe_user)

lemma load_returns: "UserStore_load f us = (Inr (), case f of None \<Rightarrow> us | Some t \<Rightarrow> (case read_users t of Inr us' \<Rightarrow> us' | Inl e \<Rightarrow> us))"
  using safe_users by (auto simp: UserStore_load_def safe_result_def split: option.split sum.split)

section \<open>Balances JSON cannot express\<close>

lemma map_res_fails: "x \<in> set xs \<Longrightarrow> f x = Inl e \<Longrightarrow> \<exists>e'. map_res f xs = Inl e'"
proof (induction xs)
  case (Cons y xs)
  then show ?case by (cases "f y") auto
qed simp

lemma get_fields_fail:
  assumes "(k, j) \<in> set m" and "f j = Inl e"
  shows "\<exists>e'. get_fields f (JObject m) = Inl e'"
  using map_res_fails [OF assms(1), of "get_field f"] assms(2) by (simp add: get_field_def)

lemma read_bad_balances:
  assumes "omap_wf m" and "\<not> list_all (\<lambda>(k, x). isfinite x) m"
  shows "\<exists>e. get_omap get_double (read_value (balances_json m)) = Inl e"
proof -
  obtain k x where "(k, x) \<in> set m" "\<not> isfinite x" using assms(2) by (auto simp: list_all_iff)
  then have "(k, JNull) \<in> set (map (\<lambda>(k, x). (k, read_value (JFloat x))) m)" by (force simp: image_iff)
  from get_fields_fail [OF this, of get_double] show ?thesis
    using assms(1) by (auto simp: read_balances get_omap_def)
qed

lemma read_bad_user:
  assumes "writable_user u" and "\<not> finite_balances u"
  shows "\<exists>e. user_from_json (read_value (user_to_json u)) = Inl e"
proof -
  let ?c = "currencies (wallet u)" and ?l = "locked (wallet u)"
  have w: "omap_wf ?c" "omap_wf ?l"
    using assms by (simp_all add: writable_user_def writable_balances_def)
  have f: "\<not> list_all (\<lambda>(k, x). isfinite x) ?c \<or> \<not> list_all (\<lambda>(k, x). isfinite x) ?l"
    using assms(2) by (auto simp: finite_balances_def)
  have "\<exists>e. wallet_from_json (read_value (wallet_to_json (wallet u))) = Inl e"
  proof (cases "get_omap get_double (read_value (balances_json ?c))")
    case (Inl e)
    then show ?thesis by (simp add: wallet_from_json_def wallet_object omap_find_def)
  next
    case (Inr c)
    then have "\<not> list_all (\<lambda>(k, x). isfinite x) ?l" using f read_bad_balances [OF w(1)] by fastforce
    then obtain e where "get_omap get_double (read_value (balances_json ?l)) = Inl e"
      using read_bad_balances [OF w(2)] by blast
    with Inr show ?thesis by (simp add: wallet_from_json_def wallet_object omap_find_def)
  qed
  then show ?thesis by (auto simp: user_from_json_def user_object omap_find_def)
qed

lemma save_not_finite:
  assumes "writable_users us" and "u \<in> set (map snd us)" and "\<not> finite_balances u"
  shows "\<exists>t. UserStore_save True us f = (Inr (), Some t) \<and> UserStore_load (Some t) us0 = (Inr (), us0)"
proof -
  obtain t where t: "UserStore_save True us f = (Inr (), Some t)" "json_read t = Inr (read_value (users_json us))"
    using save_writable [OF assms(1)] .
  obtain k where k: "(k, u) \<in> set us" using assms(2) by auto
  have "distinct (map fst us)" using assms(1) by (simp add: writable_users_def umap_wf_def)
  then have "omap_find (omap_of_list us) k = Some u" using k by (simp add: omap_of_list_find)
  then have m: "(k, u) \<in> set (omap_of_list us)" by (simp add: omap_find_def map_of_SomeD)
  have "writable_user u" using assms(1) k by (auto simp: writable_users_def list_all_iff)
  from read_bad_user [OF this assms(3)] obtain e where e: "user_from_json (read_value (user_to_json u)) = Inl e" by blast
  have "read_value (users_json us) = JObject (map (\<lambda>(k, u). (k, read_value (user_to_json u))) (omap_of_list us))"
    by (simp add: users_object case_prod_beta comp_def)
  moreover have "(k, read_value (user_to_json u)) \<in> set (map (\<lambda>(k, u). (k, read_value (user_to_json u))) (omap_of_list us))"
    using m by (force simp: image_iff)
  ultimately have "\<exists>e. read_users t = Inl e"
    using get_fields_fail [of k "read_value (user_to_json u)" _ user_from_json e] e
    by (fastforce simp: read_users_def t(2) get_umap_def)
  then show ?thesis using t(1) by (auto simp: load_returns)
qed

end
