(* ===== verification/Json_Typing.thy ===== *)
theory Json_Typing
  imports Json_Spelling
begin

unbundle bit_operations_syntax

text \<open>
  What the parser can return: every value it builds is well typed, whatever the input. Strings
  are UTF-8, integers fit their C++ types, doubles are finite, the names of an object are in
  order and different, and there is no binary or discarded value in it.
\<close>

fun json_typed :: "json \<Rightarrow> bool" where
  "json_typed JNull = True"
| "json_typed (JBool b) = True"
| "json_typed (JString s) = utf8_valid s"
| "json_typed (JUnsigned n) = (0 \<le> n \<and> n < 2 ^ 64)"
| "json_typed (JInteger n) = (- (2 ^ 63) \<le> n \<and> n < 2 ^ 63)"
| "json_typed (JFloat x) = isfinite x"
| "json_typed (JArray js) = list_all json_typed js"
| "json_typed (JObject m) = (omap_wf m \<and> list_all (\<lambda>(k, v). utf8_valid k \<and> json_typed v) m)"
| "json_typed (JBinary bs t) = False"
| "json_typed JDiscarded = False"

section \<open>Strings\<close>

lemma utf8_append: "utf8_tail rs s \<Longrightarrow> utf8_tail [] t \<Longrightarrow> utf8_tail rs (s @ t)"
  by (induction rs s rule: utf8_tail.induct) (auto split: option.splits)

lemma utf8_char:
  assumes "tail_ranges c = Some rs" and "list_all2 in_range rs ds"
  shows "utf8_tail [] (c # ds)"
proof -
  have "utf8_tail rs ds" using assms(2) by (induction) auto
  then show ?thesis using assms(1) by simp
qed

lemma char_of_in_range: "0 \<le> n \<Longrightarrow> n < 256 \<Longrightarrow> in_range r (char_of n) \<longleftrightarrow> fst r \<le> n \<and> n \<le> snd r"
  by (simp add: in_range_def)

lemma or_low: "push_bit k b OR take_bit k a = 2 ^ k * b + take_bit k a" for a b :: int
proof -
  have "push_bit k b AND take_bit k a = 0" by (auto simp: bit_eq_iff bit_simps)
  then show ?thesis by (simp add: disjunctive_add_eq_or [symmetric] push_bit_eq_mult mult.commute)
qed

lemma or_leads:
  "0 \<le> a \<Longrightarrow> a < 64 \<Longrightarrow> 0xC0 OR a = 0xC0 + a" "0 \<le> a \<Longrightarrow> a < 16 \<Longrightarrow> 0xE0 OR a = 0xE0 + a"
  "0 \<le> a \<Longrightarrow> a < 8 \<Longrightarrow> 0xF0 OR a = 0xF0 + a" "0x80 OR (a AND 0x3F) = 0x80 + a mod 64" for a :: int
proof -
  have "a AND 0x3F = take_bit 6 a" using take_bit_eq_mask [of 6 a] by (simp add: mask_eq_exp_minus_1)
  then show "0x80 OR (a AND 0x3F) = 0x80 + a mod 64"
    using or_low [of 6 2 a] by (simp add: take_bit_eq_mod)
qed (use or_low [of 6 3 a] or_low [of 4 14 a] or_low [of 3 30 a] in \<open>simp_all add: take_bit_int_eq_self\<close>)

definition scalar_value :: "int \<Rightarrow> bool" where
  "scalar_value cp \<longleftrightarrow> 0 \<le> cp \<and> cp < 0xD800 \<or> 0xDFFF < cp \<and> cp \<le> 0x10FFFF"

lemma codepoint_valid:
  assumes "scalar_value cp"
  shows "utf8_tail [] (map char_of (codepoint_bytes cp))"
proof -
  have cp: "0 \<le> cp" "cp \<le> 0x10FFFF" using assms by (auto simp: scalar_value_def)
  define a b c where "a = cp div 64" and "b = cp div 4096" and "c = cp div 262144"
  have ab: "a div 64 = b" "b div 64 = c"
    using zdiv_zmult2_eq [of 64 cp 64] zdiv_zmult2_eq [of 64 cp 4096] by (simp_all add: a_def b_def c_def)
  have d: "drop_bit 6 cp = a" "drop_bit 12 cp = b" "drop_bit 18 cp = c" by (simp_all add: drop_bit_eq_div a_def b_def c_def)
  have e: "cp = 64 * a + cp mod 64" "a = 64 * b + a mod 64" "b = 64 * c + b mod 64"
    using ab by (simp_all add: a_def mult.commute flip: minus_div_mult_eq_mod)
  define x y z where "x = cp mod 64" and "y = a mod 64" and "z = b mod 64"
  have r: "0 \<le> x" "x < 64" "0 \<le> y" "y < 64" "0 \<le> z" "z < 64" by (simp_all add: x_def y_def z_def)
  note e = e [folded x_def y_def z_def]
  consider "cp < 0x80" | "0x80 \<le> cp" "cp \<le> 0x7FF" | "0x800 \<le> cp" "cp \<le> 0xFFFF" | "0x10000 \<le> cp" by linarith
  then show ?thesis
  proof cases
    case 1
    then show ?thesis using cp by (simp add: codepoint_bytes_def tail_ranges_def)
  next
    case 2
    then have a: "2 \<le> a" "a < 32" using e r by linarith+
    have "codepoint_bytes cp = [0xC0 + a, 0x80 + x]"
      using 2 a by (simp add: codepoint_bytes_def d or_leads x_def)
    moreover have "tail_ranges (char_of (0xC0 + a)) = Some [(0x80, 0xBF)]"
      using a by (simp add: tail_ranges_def utf8_ranges_def)
    ultimately show ?thesis using r utf8_char [of "char_of (0xC0 + a)" _ "[char_of (0x80 + x)]"]
      by (simp add: char_of_in_range)
  next
    case 3
    then have b: "0 \<le> b" "b < 16" and c: "c = 0" using e r by linarith+
    have t: "codepoint_bytes cp = [0xE0 + b, 0x80 + y, 0x80 + x]"
      using 3 b by (simp add: codepoint_bytes_def d or_leads x_def y_def)
    have "\<exists>lo hi. tail_ranges (char_of (0xE0 + b)) = Some [(lo, hi), (0x80, 0xBF)] \<and> lo \<le> 0x80 + y \<and> 0x80 + y \<le> hi"
      using b r 3 e assms by (auto simp: tail_ranges_def utf8_ranges_def scalar_value_def)
    then obtain lo hi where "tail_ranges (char_of (0xE0 + b)) = Some [(lo, hi), (0x80, 0xBF)]" "lo \<le> 0x80 + y" "0x80 + y \<le> hi"
      by blast
    then show ?thesis using r t utf8_char [of "char_of (0xE0 + b)" _ "[char_of (0x80 + y), char_of (0x80 + x)]"]
      by (simp add: char_of_in_range)
  next
    case 4
    then have c: "0 \<le> c" "c < 5" using e r cp by linarith+
    have t: "codepoint_bytes cp = [0xF0 + c, 0x80 + z, 0x80 + y, 0x80 + x]"
      using 4 c by (simp add: codepoint_bytes_def d or_leads x_def y_def z_def)
    have "\<exists>lo hi. tail_ranges (char_of (0xF0 + c)) = Some [(lo, hi), (0x80, 0xBF), (0x80, 0xBF)] \<and> lo \<le> 0x80 + z \<and> 0x80 + z \<le> hi"
      using c r 4 e cp by (auto simp: tail_ranges_def utf8_ranges_def)
    then obtain lo hi where "tail_ranges (char_of (0xF0 + c)) = Some [(lo, hi), (0x80, 0xBF), (0x80, 0xBF)]"
      "lo \<le> 0x80 + z" "0x80 + z \<le> hi" by blast
    then show ?thesis using r t utf8_char [of "char_of (0xF0 + c)" _ "[char_of (0x80 + z), char_of (0x80 + y), char_of (0x80 + x)]"]
      by (simp add: char_of_in_range)
  qed
qed


text \<open>What each step of the scanner does to the buffer.\<close>

lemma lex_get_buffer [simp]: "token_buffer (lex_get lx) = token_buffer lx"
  by (simp add: lex_get_def Let_def get_character_def split: list.split)

lemma codepoint_digits_range:
  assumes "codepoint_digits fs n lx = (m, lx')"
  shows "token_buffer lx' = token_buffer lx"
    and "0 \<le> n \<Longrightarrow> m \<noteq> - 1 \<Longrightarrow> n \<le> m \<and> m \<le> n + sum_list (map (\<lambda>f. 15 * 2 ^ f) fs)"
  using assms
proof (induction fs n lx rule: codepoint_digits.induct)
  case (2 f fs n lx)
  {
    case 1
    show ?case using 2(1) [OF refl] 1 by (auto simp: Let_def split: option.splits)
  next
    case 2
    show ?case
    proof (cases "hex_digit_value (current (lex_get lx))")
      case None
      then show ?thesis using 2 by (auto simp: Let_def)
    next
      case (Some d)
      have d: "0 \<le> d" "d \<le> 15" using Some by (auto simp: hex_digit_value_def split: if_splits)
      then have p: "0 \<le> push_bit f d" "push_bit f d \<le> 15 * 2 ^ f" by (simp_all add: push_bit_eq_mult)
      have "n + push_bit f d \<le> m \<and> m \<le> n + push_bit f d + sum_list (map (\<lambda>f. 15 * 2 ^ f) fs)"
        using "2.IH"(2) [OF refl Some] 2 Some p by (simp add: Let_def)
      then show ?thesis using p by (simp del: push_bit_nonnegative_int_iff)
    qed
  }
qed simp_all

lemma get_codepoint_range:
  assumes "get_codepoint lx = (m, lx')"
  shows "token_buffer lx' = token_buffer lx" and "m \<noteq> - 1 \<Longrightarrow> 0 \<le> m \<and> m \<le> 0xFFFF"
  using codepoint_digits_range [OF assms [unfolded get_codepoint_def]] by simp_all

lemma low_surrogate_range:
  assumes "scan_low_surrogate c lx = Inl (d, lx')" and "0xD800 \<le> c" and "c \<le> 0xDBFF"
  shows "token_buffer lx' = token_buffer lx" and "scalar_value d"
proof -
  obtain c2 where g: "get_codepoint (lex_get (lex_get lx)) = (c2, lx')" "0xDC00 \<le> c2" "c2 \<le> 0xDFFF"
    and d: "d = push_bit 10 c + c2 - 0x35FDC00"
    using assms(1) by (auto simp: scan_low_surrogate_def Let_def split: prod.splits if_splits)
  show "token_buffer lx' = token_buffer lx" using get_codepoint_range(1) [OF g(1)] by simp
  show "scalar_value d" using d g assms by (simp add: scalar_value_def push_bit_eq_mult)
qed

lemma fold_add_buffer: "token_buffer (fold lex_add cs lx) = token_buffer lx @ map char_of cs"
  by (induction cs arbitrary: lx) simp_all

lemma scan_unicode_valid:
  assumes "scan_unicode lx = (True, lx')" and "utf8_tail [] (token_buffer lx)"
  shows "utf8_tail [] (token_buffer lx')"
proof -
  obtain c1 lx1 where g: "get_codepoint lx = (c1, lx1)" by fastforce
  note r = get_codepoint_range [OF g]
  have c: "c1 \<noteq> - 1" using assms(1) by (auto simp: scan_unicode_def g bad_escape_def)
  have "\<exists>cp lx2. lx' = fold lex_add (codepoint_bytes cp) lx2 \<and> scalar_value cp \<and> token_buffer lx2 = token_buffer lx"
  proof (cases "0xD800 \<le> c1 \<and> c1 \<le> 0xDBFF")
    case True
    show ?thesis
    proof (cases "scan_low_surrogate c1 lx1")
      case (Inl p)
      obtain d lx2 where p: "p = (d, lx2)" by fastforce
      then have "lx' = fold lex_add (codepoint_bytes d) lx2" using assms(1) c True Inl by (simp add: scan_unicode_def g)
      then show ?thesis using low_surrogate_range [of c1 lx1 d lx2] Inl p True r(1) by auto
    next
      case (Inr x)
      then have "fst x = False" by (auto simp: scan_low_surrogate_def Let_def bad_escape_def split: prod.splits if_splits)
      then show ?thesis using assms(1) c True Inr by (simp add: scan_unicode_def g)
    qed
  next
    case False
    then have "\<not> (0xDC00 \<le> c1 \<and> c1 \<le> 0xDFFF)" "lx' = fold lex_add (codepoint_bytes c1) lx1"
      using assms(1) c by (auto simp: scan_unicode_def g bad_escape_def split: if_splits)
    then show ?thesis using r c False by (intro exI [of _ c1] exI [of _ lx1]) (auto simp: scalar_value_def)
  qed
  then obtain cp lx2 where f: "lx' = fold lex_add (codepoint_bytes cp) lx2" "scalar_value cp" "token_buffer lx2 = token_buffer lx"
    by blast
  then show ?thesis using codepoint_valid [OF f(2)] assms(2) by (simp add: fold_add_buffer utf8_append)
qed

lemma ascii_valid: "utf8_tail [] s \<Longrightarrow> 0 \<le> n \<Longrightarrow> n < 0x80 \<Longrightarrow> utf8_tail [] (s @ [char_of (n :: int)])"
  by (rule utf8_append) (simp_all add: tail_ranges_def)

lemma scan_escape_valid:
  assumes "scan_escape lx = (True, lx')" and "utf8_tail [] (token_buffer lx)"
  shows "utf8_tail [] (token_buffer lx')"
  using assms scan_unicode_valid [of "lex_get lx" lx']
  by (auto simp: scan_escape_def Let_def bad_escape_def ascii_valid split: if_splits)

lemma bytes_in_ranges_buffer:
  assumes "bytes_in_ranges rs lx = (True, lx')" and "\<forall>r\<in>set rs. 0 \<le> fst r \<and> snd r < 256"
  shows "\<exists>ds. token_buffer lx' = token_buffer lx @ ds \<and> list_all2 in_range rs ds"
  using assms
proof (induction rs lx rule: bytes_in_ranges.induct)
  case (2 low high rs lx)
  let ?c = "current (lex_get lx)"
  have c: "low \<le> ?c" "?c \<le> high" and b: "bytes_in_ranges rs (lex_add ?c (lex_get lx)) = (True, lx')"
    using 2(2) by (auto simp: Let_def split: if_splits)
  have "low \<le> ?c \<and> ?c \<le> high" "\<forall>r\<in>set rs. 0 \<le> fst r \<and> snd r < 256" using c 2(3) by simp_all
  from "2.IH" [OF refl this(1) b this(2)] obtain ds
    where "token_buffer lx' = token_buffer lx @ char_of ?c # ds" "list_all2 in_range rs ds" by auto
  moreover have "in_range (low, high) (char_of ?c)" using c 2(3) by (simp add: char_of_in_range)
  ultimately show ?case by (intro exI [of _ "char_of ?c # ds"]) simp
qed simp

lemma utf8_ranges_lead:
  assumes "utf8_ranges c = Some rs"
  shows "tail_ranges (char_of c) = Some rs" and "\<forall>r\<in>set rs. 0 \<le> fst r \<and> snd r < 256"
proof -
  have "0xC2 \<le> c" "c \<le> 0xF4" using assms by (auto simp: utf8_ranges_def split: if_splits)
  then show "tail_ranges (char_of c) = Some rs" using assms by (simp add: tail_ranges_def)
  show "\<forall>r\<in>set rs. 0 \<le> fst r \<and> snd r < 256"
    using assms by (auto simp: utf8_ranges_def split: if_split_asm)
qed

lemma scan_string_valid:
  "utf8_tail [] (token_buffer lx) \<Longrightarrow> fst (scan_string_chars lx) = value_string \<Longrightarrow>
    utf8_tail [] (token_buffer (snd (scan_string_chars lx)))"
proof (induction lx rule: scan_string_chars.induct)
  case (1 lx)
  let ?lx = "lex_get lx" and ?c = "current (lex_get lx)"
  have u: "utf8_tail [] (token_buffer ?lx)" using 1 by simp
  consider (stop) "?c = EOF \<or> ?c = 0x22" | (esc) "?c = 0x5C"
    | (ctl) "0 \<le> ?c" "?c \<le> 0x1F" | (plain) "plain_byte ?c" "?c \<noteq> EOF"
    | (wide) "?c \<noteq> EOF" "?c \<noteq> 0x22" "?c \<noteq> 0x5C" "\<not> (0 \<le> ?c \<and> ?c \<le> 0x1F)" "\<not> plain_byte ?c" by fastforce
  then show ?case
  proof cases
    case stop
    then show ?thesis using u by (subst scan_string_chars.simps) (auto simp: Let_def lex_error_def)
  next
    case esc
    obtain ok lx2 where e: "scan_escape ?lx = (ok, lx2)" by fastforce
    have s: "scan_string_chars lx = (if ok then scan_string_chars lx2 else (parse_error_token, lx2))"
      using esc e by (subst scan_string_chars.simps) (simp add: Let_def)
    show ?thesis
    proof (cases ok)
      case True
      then show ?thesis
        using "1.IH"(1) [OF refl refl _ _ esc e [symmetric]] scan_escape_valid [OF _ u] e s "1.prems" esc by simp
    qed (use s "1.prems" in simp)
  next
    case ctl
    then have "fst (scan_string_chars lx) = parse_error_token"
      by (subst scan_string_chars.simps) (auto simp: Let_def lex_error_def)
    then show ?thesis using "1.prems" by simp
  next
    case plain
    have r: "?c \<noteq> 0x22" "?c \<noteq> 0x5C" "\<not> (0 \<le> ?c \<and> ?c \<le> 0x0F)" "\<not> (0x10 \<le> ?c \<and> ?c \<le> 0x1F)" "0 \<le> ?c" "?c < 0x80"
      using plain by (auto simp: plain_byte_def)
    have "scan_string_chars lx = scan_string_chars (lex_add ?c ?lx)"
      using plain r by (subst scan_string_chars.simps) (simp add: Let_def)
    moreover have "utf8_tail [] (token_buffer (lex_add ?c ?lx))" using u r by (simp add: ascii_valid)
    ultimately show ?thesis using "1.IH"(2) [OF refl refl plain(2) r(1-4) plain(1)] "1.prems" by simp
  next
    case wide
    have r: "\<not> (0 \<le> ?c \<and> ?c \<le> 0x0F)" "\<not> (0x10 \<le> ?c \<and> ?c \<le> 0x1F)" using wide by auto
    show ?thesis
    proof (cases "utf8_ranges ?c")
      case None
      then have "fst (scan_string_chars lx) = parse_error_token"
        using wide r by (subst scan_string_chars.simps) (simp add: Let_def lex_error_def)
      then show ?thesis using "1.prems" by simp
    next
      case (Some rs)
      obtain ok lx2 where n: "next_byte_in_range rs ?lx = (ok, lx2)" by fastforce
      have s: "scan_string_chars lx = (if ok then scan_string_chars lx2 else (parse_error_token, lx2))"
        by (subst scan_string_chars.simps)
          (simp only: Let_def wide(1-3,5) r Some n if_False option.case prod.case)
      show ?thesis
      proof (cases ok)
        case True
        note l = utf8_ranges_lead [OF Some]
        obtain ds where ds: "token_buffer lx2 = token_buffer ?lx @ char_of ?c # ds" "list_all2 in_range rs ds"
          using bytes_in_ranges_buffer [of rs "lex_add ?c ?lx" lx2] l(2) n True by (auto simp: next_byte_in_range_def)
        then have "utf8_tail [] (token_buffer lx2)" using u utf8_char [OF l(1) ds(2)] by (simp add: utf8_append)
        then show ?thesis
          using "1.IH"(3) [OF refl refl wide(1-3) r wide(5) Some n [symmetric] True] s True "1.prems" by simp
      qed (use s "1.prems" in simp)
    qed
  qed
qed


section \<open>Tokens\<close>

definition token_ok :: "token_type \<times> lexer \<Rightarrow> bool" where
  "token_ok r \<longleftrightarrow> (fst r = value_string \<longrightarrow> utf8_valid (token_buffer (snd r))) \<and>
     (fst r = value_unsigned \<longrightarrow> 0 \<le> number_unsigned (snd r) \<and> number_unsigned (snd r) < 2 ^ 64) \<and>
     (fst r = value_integer \<longrightarrow> - (2 ^ 63) \<le> number_integer (snd r) \<and> number_integer (snd r) < 2 ^ 63)"

lemma token_ok_other: "t \<noteq> value_string \<Longrightarrow> t \<noteq> value_unsigned \<Longrightarrow> t \<noteq> value_integer \<Longrightarrow> token_ok (t, lx)"
  by (simp add: token_ok_def)

lemma token_ok_error [simp]: "token_ok (lex_error m lx)"
  by (simp add: lex_error_def token_ok_other)

lemma radix_nonneg: "0 \<le> a \<Longrightarrow> \<forall>d\<in>set ds. 0 \<le> d \<Longrightarrow> 0 \<le> b \<Longrightarrow> 0 \<le> foldl (\<lambda>acc d. b * acc + d) a (ds :: int list)"
  by (induction ds arbitrary: a) auto

lemma strtoull_range: "strtoull s = Some n \<Longrightarrow> 0 \<le> n \<and> n < 2 ^ 64"
proof -
  have "\<forall>c\<in>set (takeWhile isdigit s). 0 \<le> digit_val c"
    by (auto dest!: set_takeWhileD simp: isdigit_def digit_val_def)
  then have "0 \<le> radix_value 10 (map digit_val (takeWhile isdigit s))"
    unfolding radix_value_def by (intro radix_nonneg) auto
  then show "strtoull s = Some n \<Longrightarrow> 0 \<le> n \<and> n < 2 ^ 64" by (auto simp: strtoull_def Let_def split: if_splits)
qed

lemma strtoll_range: "strtoll s = Some n \<Longrightarrow> - (2 ^ 63) \<le> n \<and> n < 2 ^ 63"
  by (auto simp: strtoll_def Let_def split: prod.splits if_splits)

lemma done_ok: "token_ok (scan_number_done ty lx)"
  using strtoull_range [of "token_buffer (lex_unget lx)"] strtoll_range [of "token_buffer (lex_unget lx)"]
  by (auto simp: scan_number_done_def Let_def token_ok_def split: option.split)

lemma any2_ok: "token_ok (scan_number_any2 ty lx)"
proof (induction ty lx rule: scan_number_any2.induct)
  case (1 ty lx)
  then show ?case by (subst scan_number_any2.simps) (simp add: Let_def done_ok)
qed

lemma exponent_token_ok: "token_ok (scan_number_exponent ty lx)"
  by (simp add: scan_number_exponent_def scan_number_sign_def Let_def any2_ok)

lemma decimal2_ok: "token_ok (scan_number_decimal2 ty lx)"
proof (induction ty lx rule: scan_number_decimal2.induct)
  case (1 ty lx)
  then show ?case by (subst scan_number_decimal2.simps) (simp add: Let_def done_ok exponent_token_ok)
qed

lemma decimal1_ok: "token_ok (scan_number_decimal1 ty lx)"
  by (simp add: scan_number_decimal1_def Let_def decimal2_ok)

lemma any1_ok: "token_ok (scan_number_any1 ty lx)"
proof (induction ty lx rule: scan_number_any1.induct)
  case (1 ty lx)
  then show ?case by (subst scan_number_any1.simps) (simp add: Let_def done_ok exponent_token_ok decimal1_ok)
qed

lemma number_ok: "token_ok (scan_number lx)"
  by (simp add: scan_number_def scan_number_minus_def scan_number_zero_def Let_def any1_ok done_ok exponent_token_ok decimal1_ok)

lemma literal_ok: "t \<noteq> value_string \<Longrightarrow> t \<noteq> value_unsigned \<Longrightarrow> t \<noteq> value_integer \<Longrightarrow> token_ok (scan_literal_rest l t lx)"
  by (induction l t lx rule: scan_literal_rest.induct) (auto simp: Let_def token_ok_other)

lemma string_token: "fst (scan_string_chars lx) = value_string \<or> fst (scan_string_chars lx) = parse_error_token"
proof (induction lx rule: scan_string_chars.induct)
  case (1 lx)
  let ?c = "current (lex_get lx)"
  show ?case
    using 1 by (subst (1 2) scan_string_chars.simps)
      (auto simp: Let_def lex_error_def split: option.split prod.split)
qed

lemma string_ok: "token_ok (scan_string lx)"
  using scan_string_valid [of "lex_reset lx"] string_token [of "lex_reset lx"]
  by (auto simp: scan_string_def token_ok_def utf8_valid_def)

lemma scan_token_ok: "token_ok (scan_token lx)"
  by (simp add: scan_token_def Let_def token_ok_other scan_literal_def literal_ok string_ok number_ok)

lemma scan_ok: "token_ok (scan lx)"
  by (simp add: scan_def scan_token_ok token_ok_other split: prod.split)

section \<open>The document\<close>

lemma typed_put:
  assumes "json_typed (JObject m)" and "utf8_valid k" and "json_typed v"
  shows "json_typed (JObject (omap_put k v m))"
proof -
  have "list_all (\<lambda>(k, v). utf8_valid k \<and> json_typed v) (omap_put k v m)"
    using assms by (induction k v m rule: omap_put.induct) (auto simp: omap_wf_def)
  then show ?thesis using assms by (simp add: omap_wf_put)
qed

lemma typed_emplace: "json_typed (JObject m) \<Longrightarrow> utf8_valid k \<Longrightarrow> json_typed v \<Longrightarrow> json_typed (JObject (omap_emplace k v m))"
  using typed_put [of m k v] by (simp add: omap_emplace_def)

lemma typed_find: "json_typed (JObject m) \<Longrightarrow> omap_find m k = Some v \<Longrightarrow> utf8_valid k \<and> json_typed v"
  by (auto simp: omap_find_def list_all_iff dest!: map_of_SomeD)

lemma typed_assign: "json_typed j \<Longrightarrow> (\<And>v. json_typed v \<Longrightarrow> json_typed (g v)) \<Longrightarrow> json_typed (json_assign p g j)"
proof (induction p g j rule: json_assign.induct)
  case (2 k p g m)
  show ?case
  proof (cases "omap_find m k")
    case (Some v)
    then show ?thesis using 2 typed_find [OF 2(2) Some] typed_put [OF 2(2)] by (simp del: json_typed.simps)
  qed (use 2 in simp)
next
  case (3 i p g js)
  then show ?case by (auto simp: list_all_iff dest!: set_update_subset_insert [THEN subsetD])
qed simp_all

lemma typed_handle:
  assumes "json_typed (sax_root s)" and "json_typed v"
  shows "json_typed (sax_root (snd (handle_value v s)))"
proof -
  have "json_typed (array_push v j)" if "json_typed j" for j using that assms(2) by (cases j) simp_all
  then show ?thesis
    using assms by (auto simp: handle_value_def intro!: typed_assign split: list.split option.split json.split)
qed

lemma typed_key:
  assumes "json_typed (sax_root s)" and "utf8_valid k"
  shows "json_typed (sax_root (sax_key k s))"
proof -
  have "json_typed (touch_field k j)" if "json_typed j" for j
    using that assms(2) typed_emplace [of _ k JNull] by (cases j) (simp_all del: json_typed.simps(8))
  then show ?thesis using assms(1) by (simp add: sax_key_def Let_def typed_assign)
qed


section \<open>The parser\<close>

definition parser_ok :: "json_parser \<Rightarrow> bool" where
  "parser_ok p \<longleftrightarrow> json_typed (sax_root (sax p)) \<and> \<not> errored (sax p) \<and> allow_exceptions (sax p) \<and>
     token_ok (last_token p, m_lexer p)"

definition step_ok :: "(parse_next \<times> json_parser) result \<Rightarrow> bool" where
  "step_ok r \<longleftrightarrow> (\<forall>n p1. r = Inr (n, p1) \<longrightarrow> parser_ok p1)"

lemma step_simps [simp]: "step_ok (Inl e)" "step_ok (Inr (n, p)) = parser_ok p"
  by (simp_all add: step_ok_def)

lemma ok_get: "parser_ok p \<Longrightarrow> parser_ok (get_token p)"
  using scan_ok [of "m_lexer p"] by (auto simp: parser_ok_def get_token_def split: prod.split)

lemma ok_states: "parser_ok (p\<lparr>open_states := x\<rparr>) = parser_ok p"
  by (simp add: parser_ok_def)

lemma handle_flags: "errored (snd (handle_value v s)) = errored s" "allow_exceptions (snd (handle_value v s)) = allow_exceptions s"
  by (auto simp: handle_value_def split: list.split option.split json.split)

lemma ok_value: "parser_ok p \<Longrightarrow> json_typed v \<Longrightarrow> parser_ok (on_sax (sax_value v) p)"
  by (simp add: parser_ok_def sax_value_def typed_handle handle_flags)

lemma ok_start: "parser_ok p \<Longrightarrow> t = T_object \<or> t = T_array \<Longrightarrow> parser_ok (on_sax (sax_start t) p)"
  using typed_handle [of "sax p" "json_of_type t"] handle_flags [of "json_of_type t" "sax p"]
  by (auto simp: parser_ok_def sax_start_def split: prod.splits)

lemma ok_end: "parser_ok p \<Longrightarrow> parser_ok (on_sax sax_end p)"
  by (simp add: parser_ok_def sax_end_def)

lemma ok_key: "parser_ok p \<Longrightarrow> utf8_valid k \<Longrightarrow> parser_ok (on_sax (sax_key k) p)"
  using typed_key [of "sax p" k] by (simp add: parser_ok_def) (simp add: sax_key_def Let_def)

lemma step_error: "parser_ok p \<Longrightarrow> step_ok (unexpected x w p)" "parser_ok p \<Longrightarrow> step_ok (sax_parse_error e p)"
  by (simp_all add: unexpected_def sax_parse_error_def parser_ok_def)

lemma step_parse_key: "parser_ok p \<Longrightarrow> step_ok (parse_key p)"
proof -
  assume p: "parser_ok p"
  have "utf8_valid (token_buffer (m_lexer p))" if "last_token p = value_string"
    using p that by (simp add: parser_ok_def token_ok_def)
  then show ?thesis using p by (simp add: parse_key_def Let_def step_error ok_get ok_key)
qed

lemma step_after_key:
  assumes "parser_ok p" and "\<And>q. parser_ok q \<Longrightarrow> parser_ok (g q)"
  shows "step_ok (bind_res (parse_key p) (\<lambda>(n, p2). case n of Next_value \<Rightarrow> Inr (Next_value, get_token (g p2)) | _ \<Rightarrow> Inr (n, p2)))"
proof (cases "parse_key p")
  case (Inr x)
  obtain n p2 where x: "x = (n, p2)" by fastforce
  then have "parser_ok p2" using step_parse_key [OF assms(1)] Inr by simp
  then show ?thesis using Inr x assms(2) by (cases n) (simp_all add: ok_get)
qed simp

lemma step_value: "parser_ok p \<Longrightarrow> step_ok (parse_value p)"
proof -
  assume p: "parser_ok p"
  have t: "token_ok (last_token p, m_lexer p)" using p by (simp add: parser_ok_def)
  have "step_ok (parse_begin_object p)"
    using step_after_key [of "get_token (on_sax (sax_start T_object) p)" "\<lambda>p2. p2\<lparr>open_states := False # open_states p2\<rparr>"]
    by (simp add: parse_begin_object_def Let_def ok_get ok_start ok_end ok_states p)
  moreover have "step_ok (parse_begin_array p)"
    by (simp add: parse_begin_array_def Let_def ok_get ok_start ok_end ok_states p)
  moreover have "step_ok (parse_float p)"
    by (simp add: parse_float_def Let_def value_done_def ok_value step_error p)
  moreover have "step_ok (parse_end_of_input p)" by (simp add: parse_end_of_input_def step_error p)
  ultimately show ?thesis
    using t by (simp add: parse_value_def value_done_def token_ok_def ok_value step_error p split: token_type.split)
qed

lemma step_state: "parser_ok p \<Longrightarrow> step_ok (parse_state p)"
  using step_after_key [of "get_token (get_token p)" "\<lambda>p2. p2"]
  by (auto simp: parse_state_def parse_after_element_def parse_after_field_def close_container_def Let_def
      step_error ok_get ok_end ok_states split: list.split)

lemma loop_ok: "parser_ok p \<Longrightarrow> sax_parse_loop b p = Inr (c, p') \<Longrightarrow> parser_ok p'"
proof (induction b p rule: sax_parse_loop.induct)
  case (1 b p)
  let ?r = "if b then Inr (Value_done, p) else parse_value p"
  have "step_ok ?r" using step_value 1 by simp
  obtain n p1 where r: "?r = Inr (n, p1)"
    using "1.prems"(2) by (subst (asm) sax_parse_loop.simps) (cases ?r; auto)
  then have p1: "parser_ok p1" using \<open>step_ok ?r\<close> by simp
  show ?case
  proof (cases n)
    case Next_value
    then show ?thesis using "1.IH"(1) [OF r refl Next_value p1] "1.prems"(2) r
      by (subst (asm) sax_parse_loop.simps) simp
  next
    case (Return x)
    then show ?thesis using "1.prems"(2) r p1 by (subst (asm) sax_parse_loop.simps) simp
  next
    case Value_done
    obtain n' p2 where s: "parse_state p1 = Inr (n', p2)"
      using "1.prems"(2) r Value_done by (subst (asm) sax_parse_loop.simps) (cases "parse_state p1"; auto)
    then have p2: "parser_ok p2" using step_state [OF p1] by simp
    show ?thesis
      using "1.IH"(2) [OF r refl Value_done s refl _ p2] "1.IH"(3) [OF r refl Value_done s refl _ p2] "1.prems"(2) r s Value_done p2
      by (subst (asm) sax_parse_loop.simps) (cases n'; simp)
  qed
qed

lemma json_read_typed: "json_read t = Inr j \<Longrightarrow> json_typed j"
proof -
  assume j: "json_read t = Inr j"
  let ?p = "\<lparr>m_lexer = new_lexer t False, last_token = uninitialized, open_states = [], sax = new_sax JNull True\<rparr>"
  have "parser_ok ?p" by (simp add: parser_ok_def new_sax_def token_ok_other)
  then have n: "parser_ok ((new_parser t JNull True)\<lparr>open_states := []\<rparr>)"
    by (simp add: new_parser_def ok_get ok_states)
  obtain b p1 where "sax_parse_loop False ((new_parser t JNull True)\<lparr>open_states := []\<rparr>) = Inr (b, p1)"
    and j: "j = (if errored (sax p1) then JDiscarded else sax_root (sax p1))"
    using j by (auto simp: json_read_def parse_def sax_parse_internal_def bind_res_Inr Let_def)
  with loop_ok [OF n] have "parser_ok p1" by blast
  then show "json_typed j" using j by (simp add: parser_ok_def)
qed

end
