(* ===== verification/Loading.thy ===== *)
theory Loading
  imports Persistence Json_Typing
begin

text \<open>
  What \<open>UserStore::load\<close> makes of any file: it always returns, and the accounts it leaves in the
  store are well-typed.
\<close>

section \<open>Values read from well-typed JSON\<close>

lemma rnd_finite: "\<bar>n\<bar> \<le> 2 ^ 64 \<Longrightarrow> isfinite (rnd (of_int n))" for n :: int
proof -
  assume n: "\<bar>n\<bar> \<le> 2 ^ 64"
  have b: "rnd (2 ^ 64) = Fin (2 ^ 64)" "rnd (- (2 ^ 64)) = Fin (- (2 ^ 64))" by code_simp+
  have "(of_int n :: rat) \<le> of_int (2 ^ 64)" "(of_int (- (2 ^ 64)) :: rat) \<le> of_int n"
    using n by (auto simp only: of_int_le_iff)
  then have "rnd (of_int n) \<le> Fin (2 ^ 64)" "Fin (- (2 ^ 64)) \<le> rnd (of_int n)"
    using rnd_mono [of "of_int n" "2 ^ 64"] rnd_mono [of "- (2 ^ 64)" "of_int n"] b by simp_all
  then show ?thesis by (cases "rnd (of_int n)") auto
qed

lemma typed_double: "json_typed j \<Longrightarrow> get_double j = Inr x \<Longrightarrow> isfinite x"
  by (cases j) (auto intro!: rnd_finite)

lemma typed_string: "json_typed j \<Longrightarrow> get_string j = Inr s \<Longrightarrow> utf8_valid s"
  by (cases j) auto

lemma typed_at: "json_typed j \<Longrightarrow> json_at j k = Inr v \<Longrightarrow> json_typed v"
proof (cases j)
  case (JObject m)
  then show "json_typed j \<Longrightarrow> json_at j k = Inr v \<Longrightarrow> json_typed v"
    using typed_find [of m k v] by (simp split: option.splits)
qed auto

lemma typed_texts: "json_typed j \<Longrightarrow> bind_res (json_at j k) get_string = Inr s \<Longrightarrow> utf8_valid s"
  unfolding bind_res_Inr using typed_at typed_string by blast

lemma map_res_all: "map_res f xs = Inr ys \<Longrightarrow> (\<And>x y. x \<in> set xs \<Longrightarrow> f x = Inr y \<Longrightarrow> P y) \<Longrightarrow> list_all P ys"
  by (induction xs arbitrary: ys) (fastforce simp: bind_res_Inr split: sum.splits)+

lemma typed_fields:
  assumes "json_typed j" and "get_fields f j = Inr ps" and "\<And>v x. json_typed v \<Longrightarrow> f v = Inr x \<Longrightarrow> P x"
  shows "list_all (\<lambda>(k, x). utf8_valid k \<and> P x) ps"
  using assms(1,2)
proof (cases j)
  case (JObject m)
  then have "map_res (get_field f) m = Inr ps" using assms(2) by simp
  then show ?thesis
    by (rule map_res_all) (use assms(1,3) JObject in \<open>auto simp: get_field_def bind_res_Inr list_all_iff\<close>)
qed auto

section \<open>Accounts\<close>

definition typed_balances :: "(string, double) omap \<Rightarrow> bool" where
  "typed_balances m \<longleftrightarrow> omap_wf m \<and> list_all (\<lambda>(k, x). utf8_valid k \<and> isfinite x) m"

definition typed_user :: "user \<Rightarrow> bool" where
  "typed_user u \<longleftrightarrow> utf8_valid (user_name u) \<and> utf8_valid (password u) \<and>
     typed_balances (currencies (wallet u)) \<and> typed_balances (locked (wallet u))"

definition typed_users :: "users \<Rightarrow> bool" where
  "typed_users us \<longleftrightarrow> umap_wf us \<and> list_all (\<lambda>(k, u). utf8_valid k \<and> typed_user u) us"

lemma omap_put_set: "set (omap_put k v m) \<subseteq> insert (k, v) (set m)"
  by (induction k v m rule: omap_put.induct) auto

lemma umap_put_set: "set (umap_put k v m) \<subseteq> insert (k, v) (set m)"
  unfolding umap_put_def by (induction m) auto

lemma fold_omap_all:
  "list_all P m \<Longrightarrow> list_all P ps \<Longrightarrow> list_all P (fold (\<lambda>(k, v) m. omap_emplace k v m) ps m)"
proof (induction ps arbitrary: m)
  case (Cons p ps)
  obtain k v where p: "p = (k, v)" by fastforce
  have "list_all P (omap_emplace k v m)"
    using Cons.prems p omap_put_set [of k v m] by (auto simp: omap_emplace_def list_all_iff)
  then show ?case using Cons p by simp
qed simp

lemma fold_umap_all:
  "list_all P m \<Longrightarrow> list_all P ps \<Longrightarrow> list_all P (fold (\<lambda>(k, v) m. umap_emplace k v m) ps m)"
proof (induction ps arbitrary: m)
  case (Cons p ps)
  obtain k v where p: "p = (k, v)" by fastforce
  have "list_all P (umap_emplace k v m)"
    using Cons.prems p umap_put_set [of k v m] by (auto simp: umap_emplace_def list_all_iff split: option.splits)
  then show ?case using Cons p by simp
qed simp

lemma typed_omap: "json_typed j \<Longrightarrow> get_omap get_double j = Inr m \<Longrightarrow> typed_balances m"
  using typed_fields [of j get_double _ isfinite] typed_double omap_of_list_wf fold_omap_all [of _ "[]"]
  by (auto simp: get_omap_def bind_res_Inr typed_balances_def omap_of_list_def)

lemma typed_balances_at: "json_typed j \<Longrightarrow> bind_res (json_at j k) (get_omap get_double) = Inr m \<Longrightarrow> typed_balances m"
  unfolding bind_res_Inr using typed_at typed_omap by blast

lemma typed_wallet:
  assumes "json_typed j" and "wallet_from_json j = Inr w"
  shows "typed_balances (currencies w) \<and> typed_balances (locked w)"
proof -
  have "typed_balances []" by (simp add: typed_balances_def)
  moreover obtain c l where "w = \<lparr>currencies = c, locked = l\<rparr>"
    "(if json_contains j ''currencies'' then bind_res (json_at j ''currencies'') (get_omap get_double) else Inr []) = Inr c"
    "(if json_contains j ''locked'' then bind_res (json_at j ''locked'') (get_omap get_double) else Inr []) = Inr l"
    using assms(2) unfolding wallet_from_json_def bind_res_Inr by blast
  ultimately show ?thesis using typed_balances_at [OF assms(1)] by (auto split: if_splits)
qed

lemma typed_account:
  assumes "json_typed j" and "user_from_json j = Inr u"
  shows "typed_user u"
proof -
  obtain n p w where u: "u = \<lparr>user_name = n, password = p, wallet = w\<rparr>"
    "bind_res (json_at j ''username'') get_string = Inr n" "bind_res (json_at j ''password'') get_string = Inr p"
    "(if json_contains j ''wallet'' then bind_res (json_at j ''wallet'') wallet_from_json else Inr empty_wallet) = Inr w"
    using assms(2) unfolding user_from_json_def bind_res_Inr by blast
  have "typed_balances (currencies w) \<and> typed_balances (locked w)"
  proof (cases "json_contains j ''wallet''")
    case True
    then obtain v where "json_at j ''wallet'' = Inr v" "wallet_from_json v = Inr w" using u(4) by (auto simp: bind_res_Inr)
    then show ?thesis using typed_wallet typed_at [OF assms(1)] by blast
  next
    case False
    then show ?thesis using u(4) by (auto simp: empty_wallet_def typed_balances_def)
  qed
  then show ?thesis using typed_texts [OF assms(1)] u by (simp add: typed_user_def)
qed

lemma typed_read: "read_users t = Inr us \<Longrightarrow> typed_users us"
proof -
  assume r: "read_users t = Inr us"
  then obtain j ps where j: "json_read t = Inr j" "get_fields user_from_json j = Inr ps"
    "us = fold (\<lambda>(k, v) m. umap_emplace k v m) ps []"
    by (auto simp: read_users_def get_umap_def bind_res_Inr)
  have "list_all (\<lambda>(k, u). utf8_valid k \<and> typed_user u) ps"
    by (rule typed_fields [OF json_read_typed [OF j(1)] j(2) typed_account])
  then show ?thesis
    using fold_umap_all [of _ "[]" ps] fold_umap_emplace_find [of "[]" ps] unfolding typed_users_def j(3) by simp
qed

text \<open>
  C33: \<open>load\<close> never throws, whatever the file holds. When reading fails -- the file is missing, its text is no
  JSON, or the value does not have the structure of a table of accounts -- the store stays as
  it is; when it succeeds the store is replaced by exactly what was read (nothing, for the
  text \<open>{}\<close>). What is read is well-typed -- distinct names, texts in UTF-8, ordered tables of finite
  balances -- so a well-typed store stays so.
\<close>

theorem load_keeps_users_typed:
  assumes "UserStore_load f us = (r, us')" and "typed_users us"
  shows "r = Inr () \<and> typed_users us' \<and>
    us' = (case f of None \<Rightarrow> us | Some t \<Rightarrow> (case read_users t of Inl e \<Rightarrow> us | Inr us1 \<Rightarrow> us1))"
  using assms typed_read by (auto simp: load_returns split: option.splits sum.splits)

text \<open>A text that is no table, an empty table, and a missing file.\<close>

theorem load_keeps_users_typed_witness:
  "let us = [(''v'', User ''v'' ''p'')] in
    typed_users (snd (UserStore_load (Some ''[1]'') us)) \<and> snd (UserStore_load (Some ''[1]'') us) = us \<and>
    snd (UserStore_load (Some ''{}'') us) = [] \<and> snd (UserStore_load None us) = us"
proof -
  let ?us = "[(''v'', User ''v'' ''p'')]"
  have t: "typed_users ?us" by code_simp
  have "case read_users ''[1]'' of Inl e \<Rightarrow> True | Inr us1 \<Rightarrow> False" "read_users ''{}'' = Inr []" by code_simp+
  then show ?thesis
    using load_keeps_users_typed [OF prod.collapse [symmetric] t] t by (auto simp: Let_def split: sum.splits)
qed

end
