(* ===== verification/Json_Failure.thy ===== *)
theory Json_Failure
  imports Persistence
begin

text \<open>
  When printing fails: a value with a string that is not UTF-8 anywhere in it is not printed at
  all by the strict serializer, so the file that was opened for it stays empty.
\<close>

section \<open>Actions of the strict serializer\<close>

definition strict_act :: "(serializer, unit) action \<Rightarrow> bool" where
  "strict_act m \<longleftrightarrow> (\<forall>s r s'. m s = (r, s') \<longrightarrow> error_handler s' = error_handler s)"

definition fails :: "(serializer, unit) action \<Rightarrow> bool" where
  "fails m \<longleftrightarrow> (\<forall>s. error_handler s = strict \<longrightarrow> (\<exists>e s'. m s = (Inl e, s')))"

lemma strict_actI: "(\<And>s. error_handler (snd (m s)) = error_handler s) \<Longrightarrow> strict_act m"
  unfolding strict_act_def by (metis snd_conv)

lemma strict_actD: "strict_act m \<Longrightarrow> error_handler (snd (m s)) = error_handler s"
  unfolding strict_act_def by (metis prod.collapse)

lemma strict_seq [intro]: "strict_act m \<Longrightarrow> strict_act n \<Longrightarrow> strict_act (seq_act m n)"
proof (rule strict_actI)
  fix s assume "strict_act m" "strict_act n"
  then show "error_handler (snd (seq_act m n s)) = error_handler s"
    using strict_actD [of m s] strict_actD [of n "snd (m s)"]
    by (cases "m s"; cases "fst (m s)") (simp_all add: seq_act_def bind_act_def)
qed

lemma strict_return: "strict_act (return_act ())" "strict_act (Pair (Inr ()))"
  by (simp_all add: strict_act_def)

lemma strict_seqs: "\<forall>m\<in>set ms. strict_act m \<Longrightarrow> strict_act (seq_acts ms)"
  by (induction ms rule: seq_acts.induct) (auto simp: strict_return)

lemma strict_write: "strict_act (write_characters t)"
  by (rule strict_actI) (simp add: write_characters_def)

lemma strict_separated: "\<forall>m\<in>set ms. strict_act m \<Longrightarrow> strict_act (separated sep ms)"
  by (induction sep ms rule: separated.induct) (auto simp: strict_return intro!: strict_seqs strict_write)

lemma strict_indent: "strict_act (grow_indent n)" "strict_act (write_indent n)"
  by (rule strict_actI, simp add: grow_indent_def write_indent_def write_characters_def)+

lemma strict_flush: "error_handler (flush_if_full s) = error_handler s"
  by (simp add: flush_if_full_def)

lemma put_bytes_handler: "error_handler (snd (put_bytes t n s)) = error_handler s"
  by (simp add: put_bytes_def)

lemma step_handlers:
  "error_handler (snd (accept_char ea c cp s)) = error_handler s"
  "error_handler (snd (reject_char ea c i cp es s)) = error_handler s"
  "error_handler (snd (pending_char ea c q cp es s)) = error_handler s"
  by (auto simp: accept_char_def reject_char_def pending_char_def put_bytes_def strict_flush Let_def split: prod.splits sum.splits if_splits)

lemma dump_bytes_handler: "error_handler (snd (dump_bytes ea str i cs es s)) = error_handler s"
proof (induction ea str i cs es s rule: dump_bytes.induct)
  case (1 ea str i es s)
  then show ?case
    by (auto simp: finish_escaped_def write_characters_def bind_act_def split: error_handler_t.split)
next
  case (2 ea str i c cs es s)
  obtain q cp where d: "decode (decode_state es) (codepoint es) (of_char c) = (q, cp)" by fastforce
  note IH = "2.IH" [OF d [symmetric]]
  note h = step_handlers(1) [of ea c cp s] step_handlers(2) [of ea c i cp es s] step_handlers(3) [of ea c q cp es s]
  show ?case
    using IH h d
    by (cases "accept_char ea c cp s"; cases "reject_char ea c i cp es s"; cases "pending_char ea c q cp es s")
      (auto split: sum.splits)
qed

lemma strict_escaped: "strict_act (dump_escaped str ea)"
  by (rule strict_actI) (simp add: dump_escaped_def dump_bytes_handler)

lemma strict_numbers: "strict_act (dump_integer n)" "strict_act (dump_float x)"
  by (rule strict_actI, auto simp: dump_integer_def dump_float_def write_characters_def Let_def split: option.split)+

lemma strict_quoted: "strict_act (quoted_name k ea after)"
  unfolding quoted_name_def by (rule strict_seqs) (simp add: strict_write strict_escaped)

lemma strict_container:
  assumes "\<forall>m\<in>set ms. strict_act m"
  shows "strict_act (dump_container opening closing pretty step n ms)"
  unfolding dump_container_def
  by (auto intro!: strict_seqs strict_write strict_indent strict_separated assms strict_seq simp: assms)

lemma strict_binary: "strict_act (dump_binary bs t pretty step n)"
  unfolding dump_binary_def dump_bytes_list_def Let_def
  by (auto intro!: strict_seq strict_write strict_indent strict_separated strict_numbers split: option.split)

lemma strict_dump: "strict_act (dump j pretty ea step n)"
  by (induction j arbitrary: n)
    (auto intro!: strict_container strict_seq strict_quoted strict_write strict_numbers strict_binary)

section \<open>Failing parts\<close>

lemma fails_seq: "strict_act m \<Longrightarrow> fails m \<or> fails n \<Longrightarrow> fails (seq_act m n)"
proof -
  assume m: "strict_act m" and f: "fails m \<or> fails n"
  have "\<exists>e s'. seq_act m n s = (Inl e, s')" if s: "error_handler s = strict" for s
  proof (cases "m s")
    case (Pair r s1)
    have "error_handler s1 = strict" using strict_actD [OF m, of s] s Pair by simp
    then show ?thesis
      using f s Pair unfolding fails_def by (cases r) (auto simp: seq_act_def bind_act_def)
  qed
  then show ?thesis by (simp add: fails_def)
qed

lemma fails_seqs: "\<forall>m\<in>set ms. strict_act m \<Longrightarrow> \<exists>m\<in>set ms. fails m \<Longrightarrow> fails (seq_acts ms)"
  by (induction ms rule: seq_acts.induct) (auto intro!: fails_seq)

lemma fails_separated:
  "\<forall>m\<in>set ms. strict_act m \<Longrightarrow> \<exists>m\<in>set ms. fails m \<Longrightarrow> fails (separated sep ms)"
proof (induction sep ms rule: separated.induct)
  case (3 sep m n ms)
  have "fails m \<or> fails (separated sep (n # ms))" using 3 by auto
  then show ?case
    unfolding separated.simps using "3.prems"(1) strict_separated [of "n # ms" sep]
    by (intro fails_seqs) (auto simp: strict_write)
qed auto

lemma fails_escaped: "\<not> utf8_valid str \<Longrightarrow> fails (dump_escaped str ea)"
  unfolding fails_def using dump_escaped_invalid by blast

lemma fails_quoted: "\<not> utf8_valid k \<Longrightarrow> fails (quoted_name k ea after)"
  unfolding quoted_name_def
  by (rule fails_seqs) (auto simp: strict_write strict_escaped fails_escaped)

lemma fails_container:
  assumes "\<forall>m\<in>set ms. strict_act m" and "\<exists>m\<in>set ms. fails m"
  shows "fails (dump_container opening closing pretty step n ms)"
proof (cases pretty)
  case True
  have s: "\<forall>m\<in>set (map (seq_act (write_indent (n + step))) ms). strict_act m"
    using assms(1) strict_indent by auto
  have "\<exists>m\<in>set (map (seq_act (write_indent (n + step))) ms). fails m"
    using assms(2) fails_seq [OF strict_indent(2)] by auto
  with s have "fails (separated [CHR '','', CHR 0x0A] (map (seq_act (write_indent (n + step))) ms))"
    by (rule fails_separated)
  moreover have "dump_container opening closing pretty step n ms = seq_acts
    [write_characters [opening, CHR 0x0A], grow_indent (n + step),
     separated [CHR '','', CHR 0x0A] (map (seq_act (write_indent (n + step))) ms),
     write_characters [CHR 0x0A], write_indent n, write_characters [closing]]"
    using True assms(2) unfolding dump_container_def by auto
  ultimately show ?thesis
    using strict_separated [OF s, of "[CHR '','', CHR 0x0A]"]
    by (auto intro!: fails_seqs simp: strict_write strict_indent simp del: seq_acts.simps)
next
  case False
  then have "dump_container opening closing pretty step n ms =
    seq_acts [write_characters [opening], separated '','' ms, write_characters [closing]]"
    using assms(2) unfolding dump_container_def by auto
  then show ?thesis
    using fails_separated [OF assms, of "'',''"] strict_separated [OF assms(1), of "'',''"]
    by (auto intro!: fails_seqs simp: strict_write simp del: seq_acts.simps)
qed

text \<open>A value all of whose texts are UTF-8.\<close>

fun json_utf8 :: "json \<Rightarrow> bool" where
  "json_utf8 (JString s) = utf8_valid s"
| "json_utf8 (JArray js) = list_all json_utf8 js"
| "json_utf8 (JObject m) = list_all (\<lambda>(k, v). utf8_valid k \<and> json_utf8 v) m"
| "json_utf8 _ = True"

lemma dump_fails: "\<not> json_utf8 j \<Longrightarrow> fails (dump j pretty ea step n)"
proof (induction j arbitrary: n)
  case (JObject m)
  then obtain k v where kv: "(k, v) \<in> set m" "\<not> utf8_valid k \<or> \<not> json_utf8 v" by (auto simp: list_all_iff)
  then have "fails (seq_act (quoted_name k ea after) (dump v pretty ea step n'))" for after n'
    using JObject.IH [of "(k, v)" v] by (intro fails_seq strict_quoted) (auto simp: fails_quoted)
  with kv(1) show ?case
    by (auto intro!: fails_container strict_seq strict_quoted strict_dump bexI [of _ "(k, v)"])
next
  case (JArray js)
  then obtain v where "v \<in> set js" "\<not> json_utf8 v" by (auto simp: list_all_iff)
  with JArray.IH [of v] show ?case by (auto intro!: fails_container strict_dump bexI [of _ v])
next
  case (JString s)
  then show ?case by (simp add: fails_quoted)
qed simp_all

section \<open>A name that is not UTF-8\<close>

lemma save_not_utf8:
  assumes "umap_find us k = Some u" and "\<not> utf8_valid k"
  shows "\<exists>e. UserStore_save True us f = (Inl e, Some []) \<and> UserStore_load (Some []) us0 = (Inr (), us0)"
proof -
  have "omap_find (omap_of_list us) k = Some u" using assms(1) by (simp add: omap_of_list_find umap_find_def)
  then have "(k, u) \<in> set (omap_of_list us)" by (simp add: omap_find_def map_of_SomeD)
  then have "\<not> json_utf8 (users_json us)"
    using assms(2) by (force simp: users_object list_all_iff)
  then have "fails (dump (users_json us) True False 4 0)" by (rule dump_fails)
  then obtain e s' where "dump (users_json us) True False 4 0 (new_serializer (CHR '' '') strict) = (Inl e, s')"
    unfolding fails_def by (metis new_serializer_def serializer.select_convs(5))
  then have "UserStore_save True us f = (Inl e, Some [])"
    by (simp add: UserStore_save_def write_json_def json_dump_def)
  moreover have "read_users [] = Inl e'" if "json_read [] = Inl e'" for e' using that by (simp add: read_users_def)
  moreover have "case json_read [] of Inl e' \<Rightarrow> True | Inr j \<Rightarrow> False" by code_simp
  then have "\<exists>e'. json_read [] = Inl e'" by (simp split: sum.splits)
  ultimately show ?thesis by (auto simp: load_returns)
qed

end
