(* ===== verification/Json_Properties.thy ===== *)
theory Json_Properties
  imports Json_Failure Json_Typing
begin

text \<open>
  What the JSON library promises the program: printing and reading are inverse, the values that are
  read are well-typed, the two checks for UTF-8 agree, and printing stays within its buffers.
\<close>

section \<open>A string between quotes\<close>

lemma read_raw_fails:
  assumes "\<forall>c\<in>set s. plain_byte (of_char c) \<or> 0x80 \<le> (of_char c :: int)" and "\<not> utf8_valid s"
  shows "\<exists>e. json_read (CHR 0x22 # s @ CHR 0x22 # t) = Inl e"
proof -
  define p where "p = \<lparr>m_lexer = new_lexer (CHR 0x22 # s @ CHR 0x22 # t) False, last_token = uninitialized,
    open_states = [], sax = new_sax JNull True\<rparr>"
  have n: "new_parser (CHR 0x22 # s @ CHR 0x22 # t) JNull True = get_token p" by (simp add: new_parser_def p_def)
  obtain lx where l: "scan (m_lexer p) = scan_token lx" "loaded (CHR 0x22) (s @ CHR 0x22 # t) lx"
    using scan_at [of "[]" "CHR 0x22" "s @ CHR 0x22 # t" "m_lexer p"] new_lexer_at
    by (auto simp: json_space_def p_def)
  have "scan_token lx = scan_string lx" using loaded_simps(1) [OF l(2)] by (simp add: scan_token_def)
  then have "fst (scan (m_lexer p)) = parse_error_token"
    using scan_raw_string(2) [OF assms(1), of t "lex_reset lx"] assms(2) l
    by (simp add: scan_string_def utf8_valid_def loaded_simps)
  then have e: "last_token (get_token p) = parse_error_token" "allow_exceptions (sax (get_token p))"
    by (cases "scan (m_lexer p)"; simp add: get_token_def p_def new_sax_def)+
  have "(get_token p)\<lparr>open_states := []\<rparr> = get_token p" by (simp add: p_def flip: get_token_commute)
  with e show ?thesis
    by (simp add: json_read_def parse_def sax_parse_internal_def n)
      (subst sax_parse_loop.simps, simp add: parse_value_def unexpected_def sax_parse_error_def)
qed

lemma escape_plain: "plain_byte (of_char c) \<Longrightarrow> escape_char c = [c]"
  by (simp add: escape_char_def escape_text_def plain_byte_def)

lemma escaped_plain: "\<forall>c\<in>set s. plain_byte (of_char c) \<or> 0x80 \<le> (of_char c :: int) \<Longrightarrow> escaped s = s"
  by (induction s) (auto simp: escape_plain escape_char_wide)

lemma new_serializer_fields: "error_handler (new_serializer ic handler) = handler" "out (new_serializer ic handler) = []"
  "ready 0 (new_serializer (CHR '' '') handler)"
  by (auto simp: ready_def new_serializer_def intro: exI [of _ 512])

lemma print_invalid:
  assumes "\<not> utf8_valid s"
  shows "\<exists>e. json_dump (JString s) indent ic ea strict = Inl e"
proof -
  let ?m = "if indent \<ge> 0 then dump (JString s) True ea (nat indent) 0 else dump (JString s) False ea 0 0"
  have "fails (dump (JString s) pretty ea step n)" for pretty step n
    by (rule dump_fails) (simp add: assms)
  then have "fails ?m" by (simp del: dump.simps)
  then obtain e s' where "?m (new_serializer ic strict) = (Inl e, s')"
    unfolding fails_def using new_serializer_fields by blast
  then show ?thesis by (simp add: json_dump_def del: dump.simps)
qed

lemma print_valid:
  assumes "utf8_valid s"
  shows "json_dump (JString s) (- 1) (CHR '' '') False handler = Inr (quoted s)"
proof -
  obtain s' where "quoted_name s False [] (new_serializer (CHR '' '') handler) = (Inr (), s')" "out s' = quoted s"
    using printsE [OF prints_quoted [OF assms, of 0 "[]"] new_serializer_fields(3)] by (auto simp: new_serializer_fields)
  then show ?thesis by (simp add: json_dump_def)
qed

text \<open>
  C38: the lexer and the serializer agree on what UTF-8 is, although the one compares each byte with
  the bounds of a table of ranges and the other runs an automaton: text without control characters,
  quotes and backslashes is read as a string exactly when the strict serializer can print it.
\<close>

theorem utf8_checks_agree:
  assumes "\<forall>c\<in>set s. plain_byte (of_char c) \<or> 0x80 \<le> (of_char c :: int)"
  shows "json_read (CHR 0x22 # s @ [CHR 0x22]) = Inr (JString s) \<longleftrightarrow>
    json_dump (JString s) (- 1) (CHR '' '') False strict = Inr (CHR 0x22 # s @ [CHR 0x22])"
proof (cases "utf8_valid s")
  case True
  have q: "quoted s = CHR 0x22 # s @ [CHR 0x22]" by (simp add: quoted_def escaped_plain [OF assms])
  have "json_read (quoted s) = Inr (JString s)"
    using json_read_spelled [OF spell_string [OF True], of "[]" "[]"] by (simp add: spaces_def delimited_def)
  moreover have "json_dump (JString s) (- 1) (CHR '' '') False strict = Inr (quoted s)"
    by (rule print_valid [OF True])
  ultimately show ?thesis by (simp add: q)
next
  case False
  then show ?thesis
    using read_raw_fails [OF assms False, of "[]"] print_invalid [OF False, of "- 1" "CHR '' ''" False] by auto
qed

theorem utf8_checks_agree_witness:
  "json_dump (JString [CHR 0x41, CHR 0xC3, CHR 0xA9]) (- 1) (CHR '' '') False strict =
    Inr [CHR 0x22, CHR 0x41, CHR 0xC3, CHR 0xA9, CHR 0x22] \<and>
   json_read [CHR 0x22, CHR 0xED, CHR 0xA0, CHR 0x80, CHR 0x22] \<noteq> Inr (JString [CHR 0xED, CHR 0xA0, CHR 0x80])"
proof
  have "json_read [CHR 0x22, CHR 0x41, CHR 0xC3, CHR 0xA9, CHR 0x22] = Inr (JString [CHR 0x41, CHR 0xC3, CHR 0xA9])"
    by code_simp
  then show "json_dump (JString [CHR 0x41, CHR 0xC3, CHR 0xA9]) (- 1) (CHR '' '') False strict =
    Inr [CHR 0x22, CHR 0x41, CHR 0xC3, CHR 0xA9, CHR 0x22]"
    using utf8_checks_agree [of "[CHR 0x41, CHR 0xC3, CHR 0xA9]"] by (simp add: plain_byte_def)
  have "\<not> utf8_valid [CHR 0xED, CHR 0xA0, CHR 0x80]" by code_simp
  then show "json_read [CHR 0x22, CHR 0xED, CHR 0xA0, CHR 0x80, CHR 0x22] \<noteq> Inr (JString [CHR 0xED, CHR 0xA0, CHR 0x80])"
    using utf8_checks_agree [of "[CHR 0xED, CHR 0xA0, CHR 0x80]"]
      print_invalid [of "[CHR 0xED, CHR 0xA0, CHR 0x80]" "- 1" "CHR '' ''" False] by auto
qed

section \<open>Printing and reading\<close>

text \<open>
  C36: a value whose texts are UTF-8, whose integers have 64 bits and whose doubles print back is
  printed without an exception, for every error handler and every indentation up to 512, and the
  text is read as the same value again, with \<open>null\<close> for the doubles that are not finite, whatever
  follows it that could not continue a number.
\<close>

theorem json_text_roundtrip:
  assumes "printable j" and "indent \<le> 512" and "delimited rest"
  shows "case json_dump j indent (CHR '' '') False handler of Inl e \<Rightarrow> False
    | Inr t \<Rightarrow> json_read (t @ rest) = Inr (read_value j)"
  using dump_read [OF assms, of handler] by auto

definition ex_json :: json where
  "ex_json = JObject [(''a'', JArray [JInteger (- 3), JFloat (rnd (5 / 2)), JFloat PInf, JNull]),
     (''b'', JString [CHR 0xC3, CHR 0xA9, CHR 0x0A])]"

theorem json_text_roundtrip_witness:
  "case json_dump ex_json 4 (CHR '' '') False strict of Inl e \<Rightarrow> False
    | Inr t \<Rightarrow> json_read (t @ '' ,'') = Inr (JObject [(''a'', JArray [JInteger (- 3), JFloat (Fin (5 / 2)), JNull, JNull]),
     (''b'', JString [CHR 0xC3, CHR 0xA9, CHR 0x0A])])"
proof -
  have p: "printable ex_json" "delimited '' ,''" by code_simp+
  have v: "read_value ex_json = JObject [(''a'', JArray [JInteger (- 3), JFloat (Fin (5 / 2)), JNull, JNull]),
     (''b'', JString [CHR 0xC3, CHR 0xA9, CHR 0x0A])]" by code_simp
  show ?thesis by (rule json_text_roundtrip [OF p(1) _ p(2), of 4 strict, unfolded v]) simp
qed

text \<open>
  C37: whatever the text, what reading returns is well-typed: texts and names are UTF-8, integers have 64
  bits, doubles are finite -- so numbers out of range are errors -- and objects are ordered by their
  names without repetition; and when it fails it is with an exception that \<open>load\<close> catches. (The
  references of the builder are paths here, so this says nothing about the pointers it keeps.)
\<close>

theorem json_read_type_safe:
  "case json_read t of Inl e \<Rightarrow> catchable e | Inr j \<Rightarrow> json_typed j"
  using safe_read [of t] json_read_typed [of t] by (auto simp: safe_result_def split: sum.split)

text \<open>
  C39: escaping a string never writes behind the buffer of 512 bytes, whatever bytes the string has,
  whatever the buffer held before and whichever error handler is used.
\<close>

theorem escape_within_buffer:
  "\<not> is_undefined (fst (dump_escaped str ensure_ascii s))"
  by (rule dump_escaped_not_undefined)

end
