(* ===== verification/Restart.thy ===== *)
theory Restart
  imports Server Json_Failure Example_Book
begin

text \<open>
  Stopping the server and starting it again: \<open>ServerMain::cleanup\<close> followed by the construction
  and \<open>init\<close> of a new server on the files it left. Accounts come back exactly; orders come back
  without their owner. Two kinds of account make all of them disappear.
\<close>

section \<open>The book of a file\<close>

lemma constructed_book:
  assumes "OrderBook name file n = (b, n')"
  shows "userOrders b = []" and "map snd (product_nodes b k) = umap_index [] (fst (readCSV file n)) k"
proof -
  obtain m n1 where r: "readCSV file n = (m, n1)" by fastforce
  obtain om a where pl: "place_lists 0 m = (om, a)" by fastforce
  have b: "b = \<lparr>filename = name, finalizedSales = [], orderMap = om, userOrders = [], next_addr = a\<rparr>"
    using assms r pl by (simp add: OrderBook_def)
  then show "userOrders b = []" by simp
  have "umap_find om k = None \<longleftrightarrow> umap_find m k = None"
    using place_lists_spec [OF pl] by (simp add: umap_find_def map_of_eq_None_iff flip: set_map)
  then show "map snd (product_nodes b k) = umap_index [] (fst (readCSV file n)) k"
    using place_lists_find [OF pl, of k]
    by (auto simp: b r product_nodes_def umap_index_def split: option.split)
qed

lemma start_returns:
  obtains s' where "start iter fs = Inr s'" "userStore s' = snd (UserStore_load (users_json_file fs) [])"
    "orderBook s' = fst (OrderBook ''orders.csv'' (orders_csv fs) first_id)"
proof -
  obtain b n where b: "OrderBook ''orders.csv'' (orders_csv fs) first_id = (b, n)" by fastforce
  obtain us where us: "UserStore_load (users_json_file fs) [] = (Inr (), us)" using load_returns by blast
  let ?s = "queue_products iter \<lparr>orderBook = b, userStore = us, nextId = n, pendingProducts = [], isRunning = True\<rparr>"
  have "start iter fs = Inr ?s" by (simp add: start_def b us)
  moreover have "userStore ?s = us" "orderBook ?s = b" by (simp_all add: queue_products_def)
  ultimately show ?thesis using that b us by (metis fst_conv snd_conv)
qed

text \<open>What \<open>cleanup\<close> leaves of the files.\<close>

lemma cleanup_files:
  assumes "UserStore_save True (userStore s) (users_json_file fs) = (r, f)"
  shows "cleanup iter s fs = (map_sum id (\<lambda>_. s\<lparr>isRunning := False\<rparr>) r, (export iter s fs)\<lparr>users_json_file := f\<rparr>)"
  using assms by (auto simp: cleanup_def export_def export_orders_def export_sales_def Let_def split: sum.split)

section \<open>Restart\<close>

definition ex_files :: files where
  "ex_files = \<lparr>orders_csv = None, sales_csv = None, users_json_file = None\<rparr>"

text \<open>A server with one account, which has an open ask.\<close>

definition ex_server :: server where
  "ex_server = \<lparr>orderBook = \<lparr>filename = ''orders.csv'', finalizedSales = [],
       orderMap = [(''A/B'', [(0, ex_order (Fin 2) (Fin 2) Ask ''u'' 1)])], userOrders = [(''u'', [0])], next_addr = 1\<rparr>,
     userStore = [(''u'', (User ''u'' ''x'')\<lparr>wallet := \<lparr>currencies = [(''A'', Fin 1)], locked = [(''A'', Fin 2)]\<rparr>\<rparr>)],
     nextId = 2, pendingProducts = [], isRunning = True\<rparr>"



text \<open>
  One account whose name is not UTF-8 -- \<open>REGISTER\<close> takes any bytes -- and stopping the server
  throws, after \<open>users.json\<close> has been emptied: after the next start no account is left.
\<close>

lemma bad_name_loses_accounts:
  assumes "umap_find (userStore s) k = Some u" and "\<not> utf8_valid k"
  shows "case cleanup iter s fs of (Inr s1, fs') \<Rightarrow> False | (Inl e, fs') \<Rightarrow>
    (case start iter' fs' of Inl e \<Rightarrow> False | Inr s' \<Rightarrow> userStore s' = [])"
proof -
  obtain e where e: "UserStore_save True (userStore s) (users_json_file fs) = (Inl e, Some [])"
    "UserStore_load (Some []) [] = (Inr (), [])"
    using save_not_utf8 [OF assms, of "users_json_file fs" "[]"] by blast
  let ?fs = "(export iter s fs)\<lparr>users_json_file := Some []\<rparr>"
  obtain s' where "start iter' ?fs = Inr s'" "userStore s' = []"
    using start_returns [of iter' ?fs] e(2) by auto
  then show ?thesis by (simp add: cleanup_files [OF e(1)])
qed

text \<open>
  One balance that is not a finite number -- \<open>DEPOSIT\<close> takes \<open>inf\<close> and \<open>nan\<close> -- is saved as
  \<open>null\<close>, which is not a number when the file is loaded: again no account is left, although
  saving has succeeded.
\<close>

lemma bad_balance_loses_accounts:
  assumes "writable_users (userStore s)" and "u \<in> set (map snd (userStore s))" and "\<not> finite_balances u"
  shows "case cleanup iter s fs of (Inl e, fs') \<Rightarrow> False | (Inr s1, fs') \<Rightarrow>
    (case start iter' fs' of Inl e \<Rightarrow> False | Inr s' \<Rightarrow> userStore s' = [])"
proof -
  obtain t where t: "UserStore_save True (userStore s) (users_json_file fs) = (Inr (), Some t)"
    "UserStore_load (Some t) [] = (Inr (), [])"
    using save_not_finite [OF assms, of "users_json_file fs" "[]"] by blast
  let ?fs = "(export iter s fs)\<lparr>users_json_file := Some t\<rparr>"
  obtain s' where "start iter' ?fs = Inr s'" "userStore s' = []"
    using start_returns [of iter' ?fs] t(2) by auto
  then show ?thesis by (simp add: cleanup_files [OF t(1)])
qed

text \<open>
  C31: one such account is enough: when the server is stopped and started again every account has
  gone, whether saving failed or succeeded.
\<close>

theorem one_account_loses_all:
  assumes "(\<exists>k u. umap_find (userStore s) k = Some u \<and> \<not> utf8_valid k) \<or>
    writable_users (userStore s) \<and> (\<exists>u\<in>set (map snd (userStore s)). \<not> finite_balances u)"
  shows "case cleanup iter s fs of (r, fs') \<Rightarrow>
    (case start iter' fs' of Inl e \<Rightarrow> False | Inr s' \<Rightarrow> userStore s' = [])"
  using assms bad_name_loses_accounts [where s = s and iter = iter and fs = fs and iter' = iter']
    bad_balance_loses_accounts [where s = s and iter = iter and fs = fs and iter' = iter']
  by (cases "cleanup iter s fs"; cases "fst (cleanup iter s fs)") auto

definition ex_infinite :: server where
  "ex_infinite = ex_server\<lparr>userStore := snd (on_wallet ''u'' (insertCurrency ''A'' PInf) (userStore ex_server))\<rparr>"

theorem one_account_loses_all_witness:
  "case cleanup id ex_infinite ex_files of (r, fs') \<Rightarrow>
    (case start id fs' of Inl e \<Rightarrow> False | Inr s' \<Rightarrow> userStore s' = [])"
proof -
  have w: "writable_users (userStore ex_infinite)" by code_simp
  have "map snd (userStore ex_infinite) = [user_at (userStore ex_infinite) ''u'']" by code_simp
  moreover have "\<not> finite_balances (user_at (userStore ex_infinite) ''u'')" by code_simp
  ultimately show ?thesis using one_account_loses_all [where s = ex_infinite and iter = id and fs = ex_files and iter' = id] w by simp
qed

text \<open>The same for an account whose name is the byte 255.\<close>

lemma bad_name_example:
  "case cleanup id (ex_server\<lparr>userStore := addUser [CHR 0xFF] ''p'' (userStore ex_server)\<rparr>) ex_files of
     (Inr s1, fs') \<Rightarrow> False | (Inl e, fs') \<Rightarrow> (case start id fs' of Inl e \<Rightarrow> False | Inr s' \<Rightarrow> userStore s' = [])"
proof -
  have u: "umap_find (userStore (ex_server\<lparr>userStore := addUser [CHR 0xFF] ''p'' (userStore ex_server)\<rparr>)) [CHR 0xFF] =
    Some (User [CHR 0xFF] ''p'')" by code_simp
  have "\<not> utf8_valid [CHR 0xFF]" by code_simp
  from bad_name_loses_accounts [OF u this] show ?thesis .
qed

end
