(* ===== verification/Shutdown.thy ===== *)
theory Shutdown
  imports Restart Interleaving
begin

text \<open>
  Stopping the server while its threads run: \<open>ServerMain::cleanup\<close> writes the sales, the orders and
  the accounts one after the other, each under the lock of its own store, and only then tells the
  threads to end. The commands of clients and the matching passes of theory Interleaving go on in
  between.
\<close>

section \<open>The steps of the handler\<close>

datatype stage = Serving | SalesWritten | OrdersWritten | UsersWritten | Stopping | Threw exn

record shutdown =
  sd_system :: system
  sd_files :: files
  sd_stage :: stage

definition serving :: "system \<Rightarrow> files \<Rightarrow> shutdown" where
  "serving s fs = \<lparr>sd_system = s, sd_files = fs, sd_stage = Serving\<rparr>"

fun cleanup_step :: "(string list \<Rightarrow> string list) \<Rightarrow> shutdown \<Rightarrow> shutdown option" where
  "cleanup_step iter h =
     (case sd_stage h of
        Serving \<Rightarrow> Some (h\<lparr>sd_files := export_sales (sd_system h) (sd_files h), sd_stage := SalesWritten\<rparr>)
      | SalesWritten \<Rightarrow> Some (h\<lparr>sd_files := export_orders iter (sd_system h) (sd_files h), sd_stage := OrdersWritten\<rparr>)
      | OrdersWritten \<Rightarrow>
          (case UserStore_save True (userStore (sd_system h)) (users_json_file (sd_files h)) of
             (r, f) \<Rightarrow> Some (h\<lparr>sd_files := (sd_files h)\<lparr>users_json_file := f\<rparr>,
               sd_stage := (case r of Inl e \<Rightarrow> Threw e | Inr u \<Rightarrow> UsersWritten)\<rparr>))
      | UsersWritten \<Rightarrow> Some (h\<lparr>sd_system := (sd_system h)\<lparr>isRunning := False\<rparr>, sd_stage := Stopping\<rparr>)
      | Stopping \<Rightarrow> None
      | Threw e \<Rightarrow> None)"

text \<open>An exception that leaves the handler ends the program, and its threads.\<close>

datatype shutdown_event = Handler | Thread event

fun shutdown_step ::
  "((node \<Rightarrow> node \<Rightarrow> bool) \<Rightarrow> node list \<Rightarrow> node list) \<Rightarrow> (string list \<Rightarrow> string list) \<Rightarrow> shutdown_event
    \<Rightarrow> shutdown \<Rightarrow> shutdown option" where
  "shutdown_step srt iter Handler h = cleanup_step iter h"
| "shutdown_step srt iter (Thread ev) h =
     (case sd_stage h of
        Threw e \<Rightarrow> None
      | _ \<Rightarrow> map_option (\<lambda>s. h\<lparr>sd_system := s\<rparr>) (perform srt ev (sd_system h)))"

fun shutdown_run ::
  "((node \<Rightarrow> node \<Rightarrow> bool) \<Rightarrow> node list \<Rightarrow> node list) \<Rightarrow> (string list \<Rightarrow> string list) \<Rightarrow> shutdown_event list
    \<Rightarrow> shutdown \<Rightarrow> shutdown option" where
  "shutdown_run srt iter [] h = Some h"
| "shutdown_run srt iter (ev # evs) h =
     (case shutdown_step srt iter ev h of None \<Rightarrow> None | Some h' \<Rightarrow> shutdown_run srt iter evs h')"

lemma shutdown_run_append:
  "shutdown_run srt iter (xs @ ys) h =
    (case shutdown_run srt iter xs h of None \<Rightarrow> None | Some h' \<Rightarrow> shutdown_run srt iter ys h')"
  by (induction xs arbitrary: h) (auto split: option.split)

text \<open>What the threads do in between does not touch the files.\<close>

lemma thread_events:
  "\<nexists>e. sd_stage h = Threw e \<Longrightarrow> run_events srt evs (sd_system h) = Some s \<Longrightarrow>
    shutdown_run srt iter (map Thread evs) h = Some (h\<lparr>sd_system := s\<rparr>)"
proof (induction evs arbitrary: h)
  case (Cons ev evs)
  obtain s1 where s1: "perform srt ev (sd_system h) = Some s1" "run_events srt evs s1 = Some s"
    using Cons.prems(2) by (auto split: option.splits)
  have "shutdown_step srt iter (Thread ev) h = Some (h\<lparr>sd_system := s1\<rparr>)"
    using Cons.prems(1) s1(1) by (auto split: stage.split)
  then show ?case using Cons.IH [of "h\<lparr>sd_system := s1\<rparr>"] Cons.prems(1) s1(2) by simp
qed simp

section \<open>Without interruption it is \<open>cleanup\<close>\<close>

lemma cleanup_steps:
  assumes "UserStore_save True (userStore s) (users_json_file fs) = (Inr u, f)"
  shows "shutdown_run srt iter [Handler, Handler, Handler, Handler] (serving s fs) =
    Some \<lparr>sd_system = s\<lparr>isRunning := False\<rparr>, sd_files = (export iter s fs)\<lparr>users_json_file := f\<rparr>, sd_stage = Stopping\<rparr>"
  using assms by (simp add: serving_def export_def export_sales_def export_orders_def)

section \<open>Three moments\<close>

text \<open>
  C30: the threads run \<open>es1\<close> before the handler writes the sales, \<open>es2\<close> before it writes the orders
  and \<open>es3\<close> before it writes the accounts, whatever these events are; when they are written the accounts
  and the orders can be saved (as in theory Restart: \<open>writable_users\<close>, \<open>finite_balances\<close>,
  \<open>storable\<close>). Then the file of sales gets the sales of the first of these moments, and a server
  started on the files has the orders of the second and the accounts of the third.
\<close>

theorem shutdown_takes_three_states:
  assumes "run_events srt es1 s = Some s1" and "run_events srt es2 s1 = Some s2" and "run_events srt es3 s2 = Some s3"
    and "writable_users (userStore s3)" and "\<forall>u\<in>set (map snd (userStore s3)). finite_balances u"
    and "list_all storable (getAllOrders iter (orderBook s2))"
  shows "\<exists>h s'. shutdown_run srt iter
        (map Thread es1 @ [Handler] @ map Thread es2 @ [Handler] @ map Thread es3 @ [Handler, Handler]) (serving s fs) = Some h \<and>
      sd_stage h = Stopping \<and> start iter' (sd_files h) = Inr s' \<and>
      sales_csv (sd_files h) = Some (entriesToCSV True True (getSales (orderBook s1)) (contents (sales_csv fs))) \<and>
      (\<forall>pr. map snd (product_nodes (orderBook s') pr) =
        sort_key timestamp (filter (\<lambda>e. product e = pr) (read_back first_id (getAllOrders iter (orderBook s2))))) \<and>
      (\<forall>n. umap_find (userStore s') n = umap_find (userStore s3) n)"
proof -
  obtain t us' where t: "UserStore_save True (userStore s3) (users_json_file fs) = (Inr (), Some t)"
    "UserStore_load (Some t) [] = (Inr (), us')" "\<forall>n. umap_find us' n = umap_find (userStore s3) n"
    using save_load_users [OF assms(4,5), of "users_json_file fs" "[]"] by blast
  let ?f2 = "export_orders iter s2 (export_sales s1 fs)" and ?fs = "(export_orders iter s2 (export_sales s1 fs))\<lparr>users_json_file := Some t\<rparr>"
  let ?h = "\<lparr>sd_system = s3\<lparr>isRunning := False\<rparr>, sd_files = ?fs, sd_stage = Stopping\<rparr>"
  have "users_json_file ?f2 = users_json_file fs" by (simp add: export_orders_def export_sales_def)
  then have run: "shutdown_run srt iter
      (map Thread es1 @ [Handler] @ map Thread es2 @ [Handler] @ map Thread es3 @ [Handler, Handler]) (serving s fs) = Some ?h"
    using assms(1-3) t(1) by (simp add: shutdown_run_append thread_events serving_def)
  obtain s' where s': "start iter' ?fs = Inr s'" "userStore s' = us'"
    "orderBook s' = fst (OrderBook ''orders.csv'' (orders_csv ?fs) first_id)"
    using start_returns [of iter' ?fs] t(2) by auto
  obtain b n where b: "OrderBook ''orders.csv'' (orders_csv ?fs) first_id = (b, n)" by fastforce
  have o: "map snd (product_nodes (orderBook s') pr) =
      sort_key timestamp (filter (\<lambda>e. product e = pr) (read_back first_id (getAllOrders iter (orderBook s2))))" for pr
    using constructed_book(2) [OF b, of pr] csv_read_back [OF assms(6)] s'(3) b by (simp add: export_orders_def)
  show ?thesis
    by (rule exI [of _ ?h], rule exI [of _ s']) (use run s' o t(3) in \<open>simp add: export_orders_def export_sales_def\<close>)
qed

text \<open>
  An ask and a bid that cross; their pass runs between the writing of the orders and of the accounts. After the
  restart both orders are open again although they have been settled, and their sale is in no file.
\<close>

definition ex_crossed :: system where
  "ex_crossed = \<lparr>orderBook = \<lparr>filename = ''orders.csv'', finalizedSales = [],
       orderMap = [(''A/B'', [(0, ex_order (Fin 2) (Fin 2) Ask ''s'' 1), (1, ex_order (Fin 2) (Fin 2) Bid ''b'' 2)])],
       userOrders = [(''s'', [0]), (''b'', [1])], next_addr = 2\<rparr>,
     userStore = ex_users, nextId = 3, pendingProducts = [], isRunning = True,
     conns = \<lambda>_. \<lparr>conn_user = [], conn_phase = Idle\<rparr>, tasks = [''A/B''], faulty = False\<rparr>"

definition ex_settled :: users where
  "ex_settled =
    [(''s'', (User ''s'' ''x'')\<lparr>wallet := \<lparr>currencies = [(''B'', Fin 4)], locked = [(''A'', Fin 8)]\<rparr>\<rparr>),
     (''b'', (User ''b'' ''y'')\<lparr>wallet := \<lparr>currencies = [(''A'', Fin 2)], locked = [(''B'', Fin 14)]\<rparr>\<rparr>)]"

definition ex_cross_sale :: entry where
  "ex_cross_sale = \<lparr>price = Fin 2, amount = Fin 2, timestamp = ''n'', product = ''A/B'', orderType = Sale,
     username = default_user, order_id = 3\<rparr>"

lemma ex_cross_sorted:
  "sort_ptrs stable_sort compareByPriceAsc (orderBook ex_crossed) [0] = Inr [0]"
  "sort_ptrs stable_sort compareByPriceDesc (orderBook ex_crossed) [1] = Inr [1]"
  "umap_index [] (getOrders (orderBook ex_crossed) ''A/B'') Ask = [0]"
  "umap_index [] (getOrders (orderBook ex_crossed) ''A/B'') Bid = [1]"
  by code_simp+

definition ex_crossed_state :: match_state where
  "ex_crossed_state = \<lparr>m_book = orderBook ex_crossed, m_users = ex_users, m_sales = [], m_nextId = 3\<rparr>"

lemma ex_cross_size: "size_t_succ 3 = 4" by code_simp

lemma ex_cross_loop:
  "match_asks ''A/B'' ''n'' [1] [0] ex_crossed_state =
    (Inr (), \<lparr>m_book = (orderBook ex_crossed)\<lparr>orderMap :=
        [(''A/B'', [(0, ex_order (Fin 2) 0 Ask ''s'' 1), (1, ex_order (Fin 2) 0 Bid ''b'' 2)])]\<rparr>,
      m_users = ex_settled, m_sales = [ex_cross_sale], m_nextId = 4\<rparr>)"
  by (simp add: ex_crossed_state_def ex_crossed_def ex_cross_sale_def ex_settled_def ex_cross_size run_defs ex_defs ex_arith
      cong: bind_act_weak_cong)

lemma ex_cross_removed:
  "removeMatchedOrders ''A/B'' (insertSales [ex_cross_sale] ((orderBook ex_crossed)\<lparr>orderMap :=
      [(''A/B'', [(0, ex_order (Fin 2) 0 Ask ''s'' 1), (1, ex_order (Fin 2) 0 Bid ''b'' 2)])]\<rparr>)) =
    (Inr (), \<lparr>filename = ''orders.csv'', finalizedSales = [ex_cross_sale], orderMap = [(''A/B'', [])],
      userOrders = [], next_addr = 2\<rparr>)"
  by code_simp

lemma ex_cross_pass:
  "\<exists>s. run_events stable_sort [RunTask 0 ''n\<newline>''] ex_crossed = Some s \<and> userStore s = ex_settled"
proof -
  have st: "ex_crossed_state\<lparr>m_sales := []\<rparr> = ex_crossed_state" "m_book ex_crossed_state = orderBook ex_crossed"
    by (simp_all add: ex_crossed_state_def)
  have "matchAsksToBids stable_sort ''A/B'' ''n'' ex_crossed_state = (Inr [ex_cross_sale],
    \<lparr>m_book = \<lparr>filename = ''orders.csv'', finalizedSales = [ex_cross_sale], orderMap = [(''A/B'', [])],
      userOrders = [], next_addr = 2\<rparr>, m_users = ex_settled, m_sales = [ex_cross_sale], m_nextId = 4\<rparr>)"
    by (simp add: matchAsksToBids_def st ex_cross_sorted ex_cross_loop bind_act_def with_book_def ex_cross_removed
        del: One_nat_def match_asks.simps)
  then show ?thesis
    by (simp add: perform_def run_task_def getCurrentTimestamp_def ex_crossed_def ex_crossed_state_def)
qed

theorem shutdown_takes_three_states_witness:
  "\<exists>h s'. shutdown_run stable_sort id [Handler, Handler, Thread (RunTask 0 ''n\<newline>''), Handler, Handler]
        (serving ex_crossed ex_files) = Some h \<and> start id (sd_files h) = Inr s' \<and>
      sales_csv (sd_files h) = Some [] \<and>
      map snd (product_nodes (orderBook s') ''A/B'') =
        [ex_order (Fin 2) (Fin 2) Ask default_user 1, ex_order (Fin 2) (Fin 2) Bid default_user 2] \<and>
      umap_find (userStore s') ''b'' = umap_find ex_settled ''b''"
proof -
  obtain s where s: "run_events stable_sort [RunTask 0 ''n\<newline>''] ex_crossed = Some s" "userStore s = ex_settled"
    using ex_cross_pass by blast
  have o: "getAllOrders id (orderBook ex_crossed) =
      [ex_order (Fin 2) (Fin 2) Ask ''s'' 1, ex_order (Fin 2) (Fin 2) Bid ''b'' 2]" by code_simp
  have "writable_users (userStore s)" "\<forall>u\<in>set (map snd (userStore s)). finite_balances u" unfolding s(2) by code_simp+
  moreover have "list_all storable (getAllOrders id (orderBook ex_crossed))"
    by (simp add: o ex_order_def storable_def plain_text_def ex_tokens ex_comma_free ex_two)
  ultimately obtain h s' where h: "shutdown_run stable_sort id
        (map Thread [] @ [Handler] @ map Thread [] @ [Handler] @ map Thread [RunTask 0 ''n\<newline>''] @ [Handler, Handler])
        (serving ex_crossed ex_files) = Some h" "start id (sd_files h) = Inr s'"
      "sales_csv (sd_files h) = Some (entriesToCSV True True (getSales (orderBook ex_crossed)) (contents (sales_csv ex_files)))"
      "\<forall>pr. map snd (product_nodes (orderBook s') pr) =
        sort_key timestamp (filter (\<lambda>e. product e = pr) (read_back first_id (getAllOrders id (orderBook ex_crossed))))"
      "\<forall>n. umap_find (userStore s') n = umap_find (userStore s) n"
    using shutdown_takes_three_states [where ?es1.0 = "[]" and ?es2.0 = "[]" and ?es3.0 = "[RunTask 0 ''n\<newline>'']" and
        srt = stable_sort and s = ex_crossed and ?s1.0 = ex_crossed and ?s2.0 = ex_crossed and ?s3.0 = s and iter = id and
        iter' = id and fs = ex_files] s(1) by auto
  have "sales_csv (sd_files h) = Some []"
    unfolding h(3) by (simp add: ex_crossed_def getSales_def entriesToCSV_def contents_def ex_files_def)
  moreover have "size_t_succ (Suc 0) = 2" by code_simp
  then have "map snd (product_nodes (orderBook s') ''A/B'') =
      [ex_order (Fin 2) (Fin 2) Ask default_user 1, ex_order (Fin 2) (Fin 2) Bid default_user 2]"
    unfolding h(4) [rule_format] by (simp add: o ex_order_def first_id_def read_back_def without_comma_def six_digits_def ex_two)
  ultimately show ?thesis
    using h(1,2,5) s(2) by (intro exI [of _ h] exI [of _ s']) (simp del: shutdown_run.simps)
qed

end
