(* ===== verification/Progress.thy ===== *)
theory Progress
  imports Interleaving_Properties
begin

text \<open>
  No order is forgotten: what the events do to the queue of products and to the tasks of the
  matching threads, and that a product that waits is matched in every run in which the threads
  keep working.
\<close>

section \<open>The queue and the tasks\<close>

text \<open>Only \<open>TakeProduct\<close> and \<open>RunTask\<close> take something out, and what they take is known.\<close>

definition grows :: "system \<Rightarrow> system \<Rightarrow> bool" where
  "grows s s' \<longleftrightarrow> (\<exists>xs. pendingProducts s' = pendingProducts s @ xs) \<and> tasks s' = tasks s"

lemma grows_simps [simp]:
  "grows s s" "grows s (put_conn i u ph s') = grows s s'"
  "grows s (s'\<lparr>userStore := us\<rparr>) = grows s s'" "grows s (s'\<lparr>orderBook := b\<rparr>) = grows s s'"
  "grows s (s'\<lparr>nextId := n\<rparr>) = grows s s'" "grows s (s'\<lparr>faulty := f\<rparr>) = grows s s'"
  "grows s (s\<lparr>pendingProducts := pendingProducts s @ xs\<rparr>)"
  by (simp_all add: grows_def put_conn_def)

lemma run_task_frame:
  "run_task srt ctime pr (s :: system) = (r, s') \<Longrightarrow> pendingProducts s' = pendingProducts s \<and> tasks s' = tasks s"
  by (auto simp: run_task_def split: prod.splits)

lemma perform_tasks:
  assumes "perform srt ev s = Some s'"
  obtains (grow) "grows s s'"
  | (take) "ev = TakeProduct" "pendingProducts s = hd (pendingProducts s) # pendingProducts s'"
      "tasks s' = tasks s @ [hd (pendingProducts s)]"
  | (run) k ctime where "ev = RunTask k ctime" "k < length (tasks s)" "pendingProducts s' = pendingProducts s"
      "tasks s' = take k (tasks s) @ drop (Suc k) (tasks s)"
proof -
  have st: "perform_step srt ev s = Some s'" using assms by (simp add: perform_def split: if_splits)
  show ?thesis
  proof (cases ev)
    case TakeProduct
    then show ?thesis using st take by (auto split: list.splits if_splits)
  next
    case (RunTask k ctime)
    obtain r s1 where r: "run_task srt ctime (tasks s ! k) s = (r, s1)" by fastforce
    note f = run_task_frame [OF r]
    show ?thesis
    proof (cases r)
      case (Inl e)
      then have "grows s s'" using st RunTask r f by (auto simp: grows_def split: if_splits)
      then show ?thesis by (rule grow)
    next
      case (Inr x)
      then show ?thesis using st RunTask r f run by (auto split: if_splits)
    qed
  next
    case (PlaceQueue i)
    then have "grows s s'" using st by (auto split: phase.splits if_splits)
    then show ?thesis by (rule grow)
  qed (rule grow, use st in \<open>auto simp: Let_def split: phase.splits if_splits option.splits prod.splits sum.splits\<close>)+
qed

section \<open>A waiting product is matched\<close>

text \<open>What the matching engine works on in a state of the system.\<close>

definition engine :: "system \<Rightarrow> match_state" where
  "engine s = \<lparr>m_book = orderBook s, m_users = userStore s, m_sales = [], m_nextId = nextId s\<rparr>"

text \<open>
  Somewhere in the run a matching thread calls \<open>matchAsksToBids\<close> with the product, the book and the
  accounts as they are then; the call returns or throws an exception, and what it has done to the book
  and the accounts is kept.
\<close>

definition pass_in_run :: "((node \<Rightarrow> node \<Rightarrow> bool) \<Rightarrow> node list \<Rightarrow> node list) \<Rightarrow> event list \<Rightarrow> string \<Rightarrow> system \<Rightarrow> bool" where
  "pass_in_run srt evs pr s \<longleftrightarrow> (\<exists>evs1 k ctime evs2 s1 s2 r t. evs = evs1 @ RunTask k ctime # evs2 \<and>
     run_events srt evs1 s = Some s1 \<and>
     matchAsksToBids srt pr (getCurrentTimestamp ctime) (engine s1) = (r, t) \<and> \<not> is_undefined r \<and>
     perform srt (RunTask k ctime) s1 = Some s2 \<and> orderBook s2 = m_book t \<and> userStore s2 = m_users t)"

lemma run_task_pass:
  assumes "perform srt (RunTask k ctime) s = Some s'" and "k < length (tasks s)" and "tasks s' \<noteq> tasks s"
  obtains r t where "matchAsksToBids srt (tasks s ! k) (getCurrentTimestamp ctime) (engine s) = (r, t)"
    "\<not> is_undefined r" "orderBook s' = m_book t" "userStore s' = m_users t"
proof -
  obtain r t where m: "matchAsksToBids srt (tasks s ! k) (getCurrentTimestamp ctime) (engine s) = (r, t)" by fastforce
  show thesis
    by (rule that [OF m]; cases r; use assms m in \<open>auto simp: perform_def run_task_def engine_def is_undefined_Inl
      split: if_splits\<close>)
qed

lemma pass_now:
  assumes run: "perform srt (RunTask k ctime) s = Some s'" and k: "k < length (tasks s)" "tasks s ! k = pr"
    and "tasks s' \<noteq> tasks s"
  shows "pass_in_run srt (RunTask k ctime # evs) pr s"
proof -
  from run_task_pass [OF run k(1) assms(4)] obtain r t where
    "matchAsksToBids srt pr (getCurrentTimestamp ctime) (engine s) = (r, t)" "\<not> is_undefined r"
    "orderBook s' = m_book t" "userStore s' = m_users t" unfolding k(2) by blast
  moreover have "RunTask k ctime # evs = [] @ RunTask k ctime # evs" "run_events srt [] s = Some s" by simp_all
  ultimately show ?thesis unfolding pass_in_run_def using run by blast
qed

lemma pass_later:
  assumes "perform srt ev s = Some s1" and "pass_in_run srt evs pr s1"
  shows "pass_in_run srt (ev # evs) pr s"
proof -
  obtain evs1 k ctime evs2 s2 s3 r t where p: "evs = evs1 @ RunTask k ctime # evs2" "run_events srt evs1 s1 = Some s2"
    "matchAsksToBids srt pr (getCurrentTimestamp ctime) (engine s2) = (r, t)" "\<not> is_undefined r"
    "perform srt (RunTask k ctime) s2 = Some s3" "orderBook s3 = m_book t" "userStore s3 = m_users t"
    using assms(2) unfolding pass_in_run_def by blast
  have "ev # evs = (ev # evs1) @ RunTask k ctime # evs2" "run_events srt (ev # evs1) s = Some s2"
    using assms(1) p by simp_all
  then show ?thesis unfolding pass_in_run_def using p(3-) by blast
qed

lemma task_is_run:
  "pr \<in> set (tasks s) \<Longrightarrow> run_events srt evs s = Some s' \<Longrightarrow> pr \<notin> set (tasks s') \<Longrightarrow> pass_in_run srt evs pr s"
proof (induction evs arbitrary: s)
  case (Cons ev evs)
  then obtain s1 where s1: "perform srt ev s = Some s1" "run_events srt evs s1 = Some s'"
    by (auto split: option.splits)
  show ?case
  proof (cases "pr \<in> set (tasks s1)")
    case True
    show ?thesis by (rule pass_later [OF s1(1) Cons.IH [OF True s1(2) Cons.prems(3)]])
  next
    case False
    from s1(1) show ?thesis
    proof (cases rule: perform_tasks)
      case (run k ctime)
      then have "tasks s ! k = pr"
        using False Cons.prems(1) id_take_nth_drop [OF run(2)] by (metis Un_iff insert_iff list.simps(15) set_append)
      moreover have "tasks s1 \<noteq> tasks s" using False Cons.prems(1) by auto
      ultimately show ?thesis using pass_now s1(1) run(1,2) by blast
    qed (use False Cons.prems(1) in \<open>auto simp: grows_def\<close>)
  qed
qed simp

lemma queued_is_run:
  "j < length (pendingProducts s) \<Longrightarrow> pendingProducts s ! j = pr \<Longrightarrow> j < count_list evs TakeProduct \<Longrightarrow>
    run_events srt evs s = Some s' \<Longrightarrow> pr \<notin> set (tasks s') \<Longrightarrow> pass_in_run srt evs pr s"
proof (induction evs arbitrary: s j)
  case (Cons ev evs)
  then obtain s1 where s1: "perform srt ev s = Some s1" "run_events srt evs s1 = Some s'"
    by (auto split: option.splits)
  have "pass_in_run srt evs pr s1"
    using s1(1)
  proof (cases rule: perform_tasks)
    case grow
    then obtain xs where "pendingProducts s1 = pendingProducts s @ xs" by (auto simp: grows_def)
    moreover have "ev \<noteq> TakeProduct"
      using s1(1) grow by (auto simp: perform_def grows_def split: if_splits list.splits)
    ultimately show ?thesis using Cons.IH [of j s1] Cons.prems s1 by (simp add: nth_append)
  next
    case take
    show ?thesis
    proof (cases j)
      case 0
      then have "pr \<in> set (tasks s1)" using take Cons.prems(2) by (cases "pendingProducts s") auto
      then show ?thesis using task_is_run s1(2) Cons.prems(5) by blast
    next
      case (Suc m)
      then have "m < length (pendingProducts s1)" "pendingProducts s1 ! m = pr"
        using take(2) Cons.prems(1,2) by (metis Suc_less_eq length_Cons, metis nth_Cons_Suc)
      then show ?thesis using Cons.IH [of m s1] Cons.prems(3,5) s1(2) Suc take(1) by simp
    qed
  next
    case (run k ctime)
    then show ?thesis using Cons.IH [of j s1] Cons.prems s1 by simp
  qed
  then show ?case by (rule pass_later [OF s1(1)])
qed simp

text \<open>No event stops the server: only the signal handler does.\<close>

lemma perform_running:
  assumes "perform srt ev s = Some s'"
  shows "isRunning s' = isRunning s"
proof -
  have st: "perform_step srt ev s = Some s'" using assms by (simp add: perform_def split: if_splits)
  show ?thesis
  proof (cases ev)
    case (RunTask k ctime)
    obtain r s1 where r: "run_task srt ctime (tasks s ! k) s = (r, s1)" by fastforce
    have "isRunning s1 = isRunning s" using r by (auto simp: run_task_def split: prod.splits)
    then show ?thesis using st RunTask r by (auto split: if_splits sum.splits)
  qed (use st in \<open>auto simp: Let_def split: phase.splits if_splits option.splits prod.splits sum.splits list.splits\<close>)
qed

lemma run_running: "run_events srt evs s = Some s' \<Longrightarrow> isRunning s' = isRunning s"
  by (induction evs arbitrary: s) (auto split: option.splits dest: perform_running)

lemma take_enabled: "isRunning t \<Longrightarrow> \<not> faulty t \<Longrightarrow> pendingProducts t \<noteq> [] \<Longrightarrow> perform srt TakeProduct t \<noteq> None"
  by (auto simp: perform_def neq_Nil_conv)

text \<open>
  C32: an order that was put into the book is not forgotten. Whatever the clients do, once the
  handler has queued the product, every run in which the matching thread takes at least as many
  products as were waiting and at whose end no task of this product is left contains a call of
  \<open>matchAsksToBids\<close> with the product, on a book into which the order has been put before; the call returns or
  throws an exception. And the matching thread of a running server is
  never stuck: in every state of the run that is not in undefined behaviour and in which a product
  waits, it can take one.
\<close>

theorem accepted_order_is_matched:
  assumes "conn_phase (conns s i) = Queueing pr" and "perform srt (PlaceQueue i) s = Some s0"
    and "run_events srt evs s0 = Some s'" and "length (pendingProducts s0) \<le> count_list evs TakeProduct"
    and "pr \<notin> set (tasks s')"
  shows "pass_in_run srt evs pr s0 \<and>
    (isRunning s \<longrightarrow> (\<forall>evs1 evs2 t. evs = evs1 @ evs2 \<longrightarrow> run_events srt evs1 s0 = Some t \<longrightarrow> \<not> faulty t \<longrightarrow>
      pendingProducts t \<noteq> [] \<longrightarrow> perform srt TakeProduct t \<noteq> None))"
proof -
  have "pr \<in> set (pendingProducts s0)"
    using assms(1,2) by (auto simp: perform_def put_conn_def split: if_splits)
  then obtain j where "j < length (pendingProducts s0)" "pendingProducts s0 ! j = pr" by (auto simp: in_set_conv_nth)
  then have "pass_in_run srt evs pr s0" using queued_is_run [of j s0 pr evs srt s'] assms(3-5) by simp
  moreover have "isRunning s0 = isRunning s" by (rule perform_running [OF assms(2)])
  ultimately show ?thesis using take_enabled run_running by blast
qed

text \<open>A connection that has just put an order into the book.\<close>

definition ex_queueing :: system where
  "ex_queueing = put_conn 0 ''u'' (Queueing ''A/B'') (start_system ex_empty)"

definition ex_matching :: "event list" where
  "ex_matching = [TakeProduct, RunTask 0 ''t'']"

theorem accepted_order_is_matched_witness:
  "\<exists>s0. perform stable_sort (PlaceQueue 0) ex_queueing = Some s0 \<and> pendingProducts s0 = [''A/B''] \<and>
    pass_in_run stable_sort ex_matching ''A/B'' s0"
proof -
  have ph: "conn_phase (conns ex_queueing 0) = Queueing ''A/B''" by code_simp
  have "map_option pendingProducts (perform stable_sort (PlaceQueue 0) ex_queueing) = Some [''A/B'']" by code_simp
  then obtain s0 where s0: "perform stable_sort (PlaceQueue 0) ex_queueing = Some s0" "pendingProducts s0 = [''A/B'']" by auto
  have "map_option tasks (run_events stable_sort (PlaceQueue 0 # ex_matching) ex_queueing) = Some []" by code_simp
  then obtain s' where s': "run_events stable_sort ex_matching s0 = Some s'" "tasks s' = []" using s0 by auto
  have "length (pendingProducts s0) \<le> count_list ex_matching TakeProduct" "''A/B'' \<notin> set (tasks s')"
    by (simp_all add: s0 s' ex_matching_def)
  from accepted_order_is_matched [OF ph s0(1) s'(1) this] s0 show ?thesis by blast
qed

end
