(* ===== verification/Matching_Money.thy ===== *)
theory Matching_Money
  imports Matching_Pass
begin

text \<open>
  Money is conserved: with integer amounts, prices and balances below \<open>2 ^ 53\<close> a matching pass only
  moves what the accounts hold, free or locked; of no currency is there more or less afterwards.
\<close>

section \<open>Integers of the engine\<close>

lemma whole_value: "whole x \<Longrightarrow> isfinite x \<and> 0 \<le> dval x \<and> dval x < 2 ^ 53 \<and> 0 \<le> x"
  by (auto simp: whole_def split: double.splits)

lemma whole_plus:
  assumes "whole x" and "whole y" and "dval x + dval y < 2 ^ 53"
  shows "whole (x + y)" and "dval (x + y) = dval x + dval y"
proof -
  obtain n where n: "0 \<le> n" "n < 2 ^ 53" "x = Fin (of_int n)" using assms(1) by (rule wholeE)
  obtain m where m: "0 \<le> m" "m < 2 ^ 53" "y = Fin (of_int m)" using assms(2) by (rule wholeE)
  have "(of_int (n + m) :: rat) < of_int (2 ^ 53)" using assms(3) n(3) m(3) by simp
  then have lt: "n + m < 2 ^ 53" by (simp only: of_int_less_iff)
  have "rnd (of_int (n + m)) = Fin (of_int (n + m))" using n(1) m(1) lt by (intro rnd_whole) auto
  then have e: "x + y = Fin (of_int (n + m))"
    using plus_exact [of x y] n m by (auto simp: plus_double_def fadd_def)
  show "whole (x + y)" unfolding e using n m lt by (intro whole_Fin) auto
  show "dval (x + y) = dval x + dval y" unfolding e using n(3) m(3) by simp
qed

text \<open>A product that somebody can pay is exact.\<close>

lemma whole_times_lt:
  assumes "whole x" and "whole y" and "dval x * dval y < 2 ^ 53"
  shows "whole (x * y)" and "dval (x * y) = dval x * dval y"
proof -
  obtain n where n: "0 \<le> n" "n < 2 ^ 53" "x = Fin (of_int n)" using assms(1) by (rule wholeE)
  obtain m where m: "0 \<le> m" "m < 2 ^ 53" "y = Fin (of_int m)" using assms(2) by (rule wholeE)
  have "(of_int (n * m) :: rat) < of_int (2 ^ 53)" using assms(3) n(3) m(3) by simp
  then have lt: "n * m < 2 ^ 53" by (simp only: of_int_less_iff)
  have "x * y = rnd (of_int (n * m))"
    using n m by (cases "n = 0"; cases "m = 0") (auto simp: times_double_def)
  also have "\<dots> = Fin (of_int (n * m))" using n(1) m(1) lt by (intro rnd_whole) auto
  finally have e: "x * y = Fin (of_int (n * m))" .
  show "whole (x * y)" unfolding e using n m lt by (intro whole_Fin) auto
  show "dval (x * y) = dval x * dval y" unfolding e using n(3) m(3) by simp
qed

lemma times_below:
  assumes "whole x" and "whole y" and "whole z" and "x * y \<le> z"
  shows "dval x * dval y < 2 ^ 53"
proof (rule ccontr)
  obtain n where n: "0 \<le> n" "n < 2 ^ 53" "x = Fin (of_int n)" using assms(1) by (rule wholeE)
  obtain m where m: "0 \<le> m" "m < 2 ^ 53" "y = Fin (of_int m)" using assms(2) by (rule wholeE)
  assume "\<not> dval x * dval y < 2 ^ 53"
  then have "rnd (2 ^ 53) \<le> rnd (of_int (n * m))" using n(3) m(3) by (intro rnd_mono) simp
  moreover have "rnd (2 ^ 53) = Fin (2 ^ 53)" by code_simp
  moreover have "rnd (of_int (n * m)) \<le> z"
    using assms(4) times_as_rnd [of x y] n(3) m(3) unfolding less_eq_double_def by (simp add: isfinite_def)
  ultimately have "Fin (2 ^ 53) \<le> z" by (metis dle_trans)
  then show False using whole_value [OF assms(3)] by (cases z) auto
qed

lemma whole_times: "whole x \<Longrightarrow> whole y \<Longrightarrow> whole z \<Longrightarrow> x * y \<le> z \<Longrightarrow> whole (x * y)"
  using times_below whole_times_lt(1) by blast

section \<open>What the accounts hold\<close>

definition owned :: "wallet \<Rightarrow> string \<Rightarrow> rat" where
  "owned w c = dval (free_balance w c) + dval (locked_balance w c)"

definition held :: "users \<Rightarrow> string \<Rightarrow> rat" where
  "held us c = (\<Sum>(k, u)\<leftarrow>us. owned (wallet u) c)"

definition whole_wallet :: "wallet \<Rightarrow> bool" where
  "whole_wallet w \<longleftrightarrow> (\<forall>c. whole (free_balance w c) \<and> whole (locked_balance w c))"

text \<open>
  Accounts under their own names, with integer balances, and what is held of each currency, \<open>d\<close> more
  than a total below \<open>2 ^ 53\<close>.
\<close>

definition balanced :: "(string \<Rightarrow> rat) \<Rightarrow> (string \<Rightarrow> rat) \<Rightarrow> users \<Rightarrow> bool" where
  "balanced T d us \<longleftrightarrow> umap_wf us \<and> (\<forall>k u. umap_find us k = Some u \<longrightarrow> user_name u = k \<and> whole_wallet (wallet u)) \<and>
     (\<forall>c. T c < 2 ^ 53 \<and> held us c = T c + d c)"

lemma owned_nonneg: "whole_wallet w \<Longrightarrow> 0 \<le> owned w c"
  using whole_value unfolding whole_wallet_def owned_def by (metis add_nonneg_nonneg)

lemma held_find: "umap_wf us \<Longrightarrow> held us c = (\<Sum>k\<in>set (umap_keys us). owned (wallet_of us k) c)"
proof -
  assume wf: "umap_wf us"
  have "held us c = sum_list (map (\<lambda>k. owned (wallet_of us k) c) (map fst us))"
    using wf by (auto simp: held_def umap_wf_def wallet_of_def umap_find_def comp_def intro!: arg_cong [of _ _ sum_list])
  then show ?thesis
    using wf sum_list_distinct_conv_sum_set [of "map fst us"] unfolding umap_wf_def umap_keys_def by metis
qed

lemma owned_missing: "\<not> userExists us k \<Longrightarrow> owned (wallet_of us k) c = 0"
  by (simp add: userExists_def wallet_of_def owned_def balance_defs empty_wallet_def omap_index_def omap_find_def split: option.splits)

lemma exists_keys: "userExists us k \<longleftrightarrow> k \<in> set (umap_keys us)"
  by (simp add: userExists_def umap_keys_find)

text \<open>Changing one account changes what is held by the difference.\<close>

lemma held_set_wallet:
  assumes "umap_wf us" and "userExists us n"
  shows "held (set_wallet n w us) c = held us c - owned (wallet_of us n) c + owned w c"
proof -
  have wf: "umap_wf (set_wallet n w us)" using assms(1) by (simp add: set_wallet_def umap.wf_put)
  have keys: "set (umap_keys (set_wallet n w us)) = set (umap_keys us)"
    using assms(2) by (auto simp: umap_keys_find set_wallet_def userExists_def split: if_splits)
  have n: "n \<in> set (umap_keys us)" using assms(2) by (simp add: exists_keys)
  show ?thesis
    unfolding held_find [OF wf] held_find [OF assms(1)] keys
    using sum.remove [OF _ n, of "\<lambda>k. owned (wallet_of us k) c"]
      sum.remove [OF _ n, of "\<lambda>k. owned (wallet_of (set_wallet n w us) k) c"]
    by simp
qed

lemma balanced_wallet: "balanced T d us \<Longrightarrow> whole_wallet (wallet_of us k)"
  by (auto simp: balanced_def wallet_of_def whole_wallet_def balance_defs empty_wallet_def omap_index_def omap_find_def
      split: option.splits)

lemma pair_le_held:
  assumes "balanced T d us"
  shows "dval (free_balance (wallet_of us a) c) + dval (locked_balance (wallet_of us b) c) \<le> T c + d c"
proof -
  let ?o = "\<lambda>k. owned (wallet_of us k) c" and ?K = "set (umap_keys us)"
  note wh = balanced_wallet [OF assms, unfolded whole_wallet_def, THEN spec, of _ c]
  have o: "0 \<le> ?o k" for k using owned_nonneg [OF balanced_wallet [OF assms]] .
  have "T c + d c = sum ?o ?K" using assms held_find [of us c] unfolding balanced_def by metis
  also have "\<dots> = sum ?o (?K \<union> {a, b})"
    by (intro sum.mono_neutral_left) (auto simp: owned_missing exists_keys)
  also have "sum ?o {a, b} \<le> \<dots>" using o by (intro sum_mono2) auto
  moreover have "dval (free_balance (wallet_of us a) c) + dval (locked_balance (wallet_of us b) c) \<le> sum ?o {a, b}"
    using wh [of a] wh [of b] whole_value by (cases "a = b") (fastforce simp: owned_def)+
  ultimately show ?thesis by simp
qed

lemma balanced_set_wallet:
  assumes "balanced T d us" and "userExists us n" and "whole_wallet w"
    and "\<And>c. owned w c = owned (wallet_of us n) c + (if c = k then x else 0)"
  shows "balanced T (d(k := d k + x)) (set_wallet n w us)"
proof -
  have "user_name (user_at us n) = n"
    using assms(1,2) by (auto simp: balanced_def userExists_def user_at_def)
  then show ?thesis
    using assms held_set_wallet [of us n w]
    by (auto simp: balanced_def set_wallet_def umap.wf_put split: if_splits)
qed

section \<open>Settling a sale\<close>

lemma on_wallet_set: "on_wallet n f us = (r, us') \<Longrightarrow> \<exists>w. f (wallet_of us n) = (r, w) \<and> us' = set_wallet n w us"
  by (auto simp: on_wallet_eq split: prod.splits)

lemma exists_set_wallet: "userExists us n \<Longrightarrow> userExists (set_wallet k w us) n"
  by (simp add: userExists_def set_wallet_def)

lemma spend_balanced:
  assumes "balanced T d us" and "userExists us n" and "whole x" and "on_wallet n (spendLocked c x) us = (Inr True, us')"
  shows "balanced T (d(c := d c - dval x)) us'" and "x \<le> locked_balance (wallet_of us n) c"
proof -
  obtain w where w: "spendLocked c x (wallet_of us n) = (Inr True, w)" "us' = set_wallet n w us"
    using on_wallet_set [OF assms(4)] by blast
  from wallet.spend_law [OF w(1)] show le: "x \<le> locked_balance (wallet_of us n) c" by simp
  from wallet.spend_law [OF w(1)] have m: "moves free_balance locked_balance c id (\<lambda>b. b - x) (wallet_of us n) w" by simp
  note wh = balanced_wallet [OF assms(1), of n, unfolded whole_wallet_def, THEN spec]
  have "whole_wallet w" "owned w k = owned (wallet_of us n) k + (if k = c then - dval x else 0)" for k
    using m wh whole_minus [OF _ assms(3) le] by (auto simp: moves_def whole_wallet_def owned_def)
  from balanced_set_wallet [OF assms(1,2) this] show "balanced T (d(c := d c - dval x)) us'" using w(2) by simp
qed

lemma insert_balanced:
  assumes "balanced T d us" and "userExists us n" and "whole x" and "on_wallet n (insertCurrency c x) us = (Inr u, us')"
    and "dval (free_balance (wallet_of us n) c) + dval x < 2 ^ 53"
  shows "balanced T (d(c := d c + dval x)) us'"
proof -
  obtain w where w: "insertCurrency c x (wallet_of us n) = (Inr u, w)" "us' = set_wallet n w us"
    using on_wallet_set [OF assms(4)] by blast
  from wallet.deposit_law [OF w(1)] have m: "moves free_balance locked_balance c (\<lambda>b. b + x) id (wallet_of us n) w" by simp
  note wh = balanced_wallet [OF assms(1), of n, unfolded whole_wallet_def, THEN spec]
  have "whole_wallet w" "owned w k = owned (wallet_of us n) k + (if k = c then dval x else 0)" for k
    using m wh whole_plus [OF _ assms(3,5)] by (auto simp: moves_def whole_wallet_def owned_def)
  from balanced_set_wallet [OF assms(1,2) this] show "balanced T (d(c := d c + dval x)) us'" using w(2) by simp
qed

lemma unlock_balanced:
  assumes "balanced T d us" and "userExists us n" and "on_wallet n (unlockCurrency c x) us = (Inr b, us')"
    and "x \<le> locked_balance (wallet_of us n) c \<Longrightarrow> whole x" and "d c \<le> 0"
  shows "balanced T d us'"
proof -
  obtain w where w: "unlockCurrency c x (wallet_of us n) = (Inr b, w)" "us' = set_wallet n w us"
    using on_wallet_set [OF assms(3)] by blast
  note wh = balanced_wallet [OF assms(1), of n, unfolded whole_wallet_def, THEN spec]
  have "whole_wallet w \<and> (\<forall>k. owned w k = owned (wallet_of us n) k + (if k = c then 0 else 0))"
  proof (cases "x \<le> locked_balance (wallet_of us n) c")
    case True
    with wallet.unlock_law [OF w(1)] have m: "moves free_balance locked_balance c (\<lambda>b. b + x) (\<lambda>b. b - x) (wallet_of us n) w" by simp
    have x: "whole x" by (rule assms(4) [OF True])
    have "dval x \<le> dval (locked_balance (wallet_of us n) c)"
      using True whole_value [OF x] whole_value wh by (simp add: le_finite)
    then have "dval (free_balance (wallet_of us n) c) + dval x \<le> T c + d c"
      using pair_le_held [OF assms(1), of n c n] by simp
    moreover have "T c < 2 ^ 53" using assms(1) by (simp add: balanced_def)
    ultimately have lt: "dval (free_balance (wallet_of us n) c) + dval x < 2 ^ 53" using assms(5) by linarith
    note p = whole_plus [OF conjunct1 [OF wh [of c]] x lt] and q = whole_minus [OF conjunct2 [OF wh [of c]] x True]
    show ?thesis
      using m wh p q unfolding moves_def whole_wallet_def owned_def by simp
  next
    case False
    with wallet.unlock_law [OF w(1)] have "moves free_balance locked_balance c id id (wallet_of us n) w" by simp
    then show ?thesis using wh by (auto simp: moves_def whole_wallet_def owned_def)
  qed
  then have "balanced T (d(c := d c + 0)) (set_wallet n w us)" by (intro balanced_set_wallet [OF assms(1,2)]) auto
  then show ?thesis using w(2) by simp
qed

lemma balanced_name: "balanced T d us \<Longrightarrow> userExists us n \<Longrightarrow> getUsername (user_at us n) = n"
  by (auto simp: balanced_def userExists_def user_at_def getUsername_def)

lemma name_set_wallet: "getUsername (user_at (set_wallet k w us) n) = getUsername (user_at us n)"
  by (auto simp: set_wallet_def user_at_def getUsername_def split: option.split)

lemma name_on_wallet: "on_wallet k f us = (r, us') \<Longrightarrow> getUsername (user_at us' n) = getUsername (user_at us n)"
  using on_wallet_set name_set_wallet by metis

lemma require_spent_Inr:
  assumes "getUsername (user_at us n) = n" and "n \<noteq> default_user" and "require_spent n sp e us = (Inr u, us')"
  shows "sp" and "us' = us"
  using assms by (auto simp: require_spent_def split: if_splits)

lemma locked_on_insert:
  assumes "on_wallet k (insertCurrency c x) us = (Inr u, us')" and "userExists us k"
  shows "locked_balance (wallet_of us' n) ty = locked_balance (wallet_of us n) ty"
proof -
  obtain w where w: "insertCurrency c x (wallet_of us k) = (Inr u, w)" "us' = set_wallet k w us"
    using on_wallet_set [OF assms(1)] by blast
  from wallet.deposit_law [OF w(1)] have "locked_balance w ty = locked_balance (wallet_of us k) ty"
    by (simp add: moves_def)
  then show ?thesis using w(2) assms(2) by simp
qed

lemma on_wallet_exists: "on_wallet k f us = (r, us') \<Longrightarrow> userExists us n \<Longrightarrow> userExists us' n"
  using on_wallet_wallets by blast

lemma processSale_steps:
  assumes "processSale buyer seller sl bid_price ask_price us = (Inr u, us')"
  obtains base quote sp1 us1 us1' us2 sp2 us3 us3' us4 where
    "on_wallet buyer (spendLocked quote (price sl * amount sl)) us = (Inr sp1, us1)"
    "require_spent buyer sp1 buyer_insufficient us1 = (Inr (), us1')"
    "on_wallet buyer (insertCurrency base (amount sl)) us1' = (Inr (), us2)"
    "on_wallet seller (spendLocked base (amount sl)) us2 = (Inr sp2, us3)"
    "require_spent seller sp2 seller_insufficient us3 = (Inr (), us3')"
    "on_wallet seller (insertCurrency quote (price sl * amount sl)) us3' = (Inr (), us4)"
    "if ask_price < bid_price
     then \<exists>b. on_wallet buyer (unlockCurrency quote ((bid_price - ask_price) * amount sl)) us4 = (Inr b, us') else us' = us4"
proof -
  obtain base quote where t: "extractTokens (product sl) (CHR ''/'') = [base, quote]"
    using assms by (auto simp: processSale_def throw_act_def split: list.splits)
  from assms show thesis
    unfolding processSale_def t Let_def list.case
    by (auto elim!: bind_act_cases intro!: that simp: return_act_def split: if_splits)
qed

text \<open>
  The buyer may get the goods before the seller has paid them: for a moment there are more of them.
  That addition is exact as well, for the seller has them locked.
\<close>

lemma processSale_balanced:
  assumes P: "balanced T (\<lambda>_. 0) us" and ex: "userExists us buyer" "userExists us seller"
    and nd: "buyer \<noteq> default_user" "seller \<noteq> default_user"
    and wh: "whole (amount sl)" "whole (price sl)" "whole bid_price" "whole ask_price"
    and run: "processSale buyer seller sl bid_price ask_price us = (Inr u, us')"
  shows "balanced T (\<lambda>_. 0) us'"
  using run
proof (cases rule: processSale_steps)
  case (1 base quote sp1 us1 us1' us2 sp2 us3 us3' us4)
  let ?x = "amount sl" and ?cost = "price sl * amount sl" and ?r = "(bid_price - ask_price) * amount sl"
  note E1 = ex [THEN on_wallet_exists [OF 1(1)]]
  note nm = balanced_name [OF P]
  note n1 = name_on_wallet [OF 1(1)]
  have sp1: "sp1" "us1' = us1" using require_spent_Inr [OF _ nd(1) 1(2)] nm [OF ex(1)] n1 by auto
  have le1: "?cost \<le> locked_balance (wallet_of us buyer) quote"
    using on_wallet_set [OF 1(1)] wallet.spend_law sp1(1) by fastforce
  have cost: "whole ?cost"
    using whole_times [OF wh(2,1) _ le1] balanced_wallet [OF P] by (simp add: whole_wallet_def)
  note P1 = spend_balanced(1) [OF P ex(1) cost 1(1) [simplified sp1(1)]]
  note i2 = 1(3) [unfolded sp1(2)]
  note E2 = E1 [THEN on_wallet_exists [OF i2]] and n2 = name_on_wallet [OF i2]
  note n3 = name_on_wallet [OF 1(4)]
  have sp2: "sp2" "us3' = us3" using require_spent_Inr [OF _ nd(2) 1(5)] nm [OF ex(2)] n1 n2 n3 by auto
  have le2: "?x \<le> locked_balance (wallet_of us2 seller) base"
    using on_wallet_set [OF 1(4)] wallet.spend_law sp2(1) by fastforce
  then have le2': "?x \<le> locked_balance (wallet_of us1 seller) base"
    using locked_on_insert [OF i2 E1(1)] by simp
  let ?d = "(\<lambda>_. 0) (quote := - dval ?cost)"
  have P1': "balanced T ?d us1" using P1 by simp
  have c0: "0 \<le> dval ?cost" and x0: "0 \<le> dval ?x" using whole_value [OF cost] whole_value [OF wh(1)] by auto
  have T: "T c < 2 ^ 53" for c using P by (simp add: balanced_def)
  have "dval ?x \<le> dval (locked_balance (wallet_of us1 seller) base)"
    using le2' whole_value [OF wh(1)] whole_value balanced_wallet [OF P1']
    by (simp add: le_finite whole_wallet_def)
  then have b2: "dval (free_balance (wallet_of us1 buyer) base) + dval ?x < 2 ^ 53"
    using pair_le_held [OF P1', of buyer base seller] T [of base] c0 by (simp split: if_splits)
  note P2 = insert_balanced [OF P1' E1(1) wh(1) i2 b2]
  note P3 = spend_balanced(1) [OF P2 E2(2) wh(1) 1(4) [simplified sp2(1)]]
  have P3': "balanced T ?d us3" using P3 by (simp add: fun_upd_idem)
  note i4 = 1(6) [unfolded sp2(2)]
  note E3 = E2 [THEN on_wallet_exists [OF 1(4)]]
  have "0 \<le> dval (locked_balance (wallet_of us3 seller) quote)"
    using whole_value balanced_wallet [OF P3'] by (simp add: whole_wallet_def)
  then have b4: "dval (free_balance (wallet_of us3 seller) quote) + dval ?cost < 2 ^ 53"
    using pair_le_held [OF P3', of seller quote seller] T [of quote] by simp
  have P4: "balanced T (\<lambda>_. 0) us4" using insert_balanced [OF P3' E3(2) cost i4 b4] by (simp add: fun_upd_idem)
  note E4 = E3 [THEN on_wallet_exists [OF i4]]
  show ?thesis
  proof (cases "ask_price < bid_price")
    case True
    then obtain b where u: "on_wallet buyer (unlockCurrency quote ?r) us4 = (Inr b, us')" using 1(7) by auto
    have diff: "whole (bid_price - ask_price)" using whole_minus [OF wh(3,4) dlt_imp_dle [OF True]] by simp
    have lk: "whole (locked_balance (wallet_of us4 buyer) quote)"
      using balanced_wallet [OF P4] by (simp add: whole_wallet_def)
    show ?thesis using unlock_balanced [OF P4 E4(1) u whole_times [OF diff wh(1) lk]] by simp
  next
    case False
    then show ?thesis using 1(7) P4 by simp
  qed
qed

section \<open>One trade\<close>

definition funded_order :: "entry \<Rightarrow> bool" where
  "funded_order e \<longleftrightarrow> whole (amount e) \<and> whole (price e) \<and> username e \<noteq> default_user"

lemma trade_effect_funded:
  assumes te: "trade_effect pr ts ap a bp b bk sls stop bk'" and l: "live bk ap = Some a" "live bk bp = Some b"
    and f: "funded_order a" "funded_order b" and e: "live bk p = Some e" "funded_order e"
  shows "\<exists>e. live bk' p = Some e \<and> funded_order e"
proof -
  have d1: "whole (amount b - amount a)" if "amount a < amount b"
    using f whole_minus [OF _ _ dlt_imp_dle [OF that]] by (simp add: funded_order_def)
  have d2: "whole (amount a - amount b)" if "amount b < amount a"
    using f whole_minus [OF _ _ dlt_imp_dle [OF that]] by (simp add: funded_order_def)
  have upd: ?thesis if "bk' = set_amount ap x (set_amount bp y bk)" "whole x" "whole y" for x y
    using that e by (simp add: nodes.rd_wr funded_order_def)
  from te show ?thesis
  proof cases
    case no_trade
    then show ?thesis using e by simp
  next
    case both_filled
    then show ?thesis using upd [of 0 0] d1 d2 by simp
  next
    case ask_filled
    then show ?thesis using upd [of 0 "amount b - amount a"] d1 d2 by simp
  next
    case bid_filled
    then show ?thesis using upd [of "amount a - amount b" 0] d1 d2 by simp
  qed
qed

lemma trade_balanced:
  assumes P: "balanced T (\<lambda>_. 0) (m_users s)" and f: "funded_order a" "funded_order b"
    and tr: "trade pr ts ap a bp b s = (Inr stop, s1)"
  shows "balanced T (\<lambda>_. 0) (m_users s1)"
proof -
  have g: "userExists (m_users s) n \<and> m_users s' = m_users s \<and> x = n"
    if "with_users (getUser n) s = (Inr x, s')" "n \<noteq> default_user" for n s s' x
  proof -
    from with_users_frame [OF that(1)] have "getUser n (m_users s) = (Inr x, m_users s')" by blast
    then show ?thesis
    proof (cases rule: getUser_cases)
      case 1
      then show ?thesis by blast
    qed (use that(2) in auto)
  qed
  have fl: "balanced T (\<lambda>_. 0) (m_users s1)"
    if "fill (username b) (username a) sl v bp' bl ap' al (price b) (price a) st s3 = (Inr stop, s1)"
      "m_users s3 = m_users s" "whole v" "price sl = price a" "userExists (m_users s) (username b)" "userExists (m_users s) (username a)"
    for sl v bp' bl ap' al st s3
  proof -
    from fill_effect [OF that(1)] have "processSale (username b) (username a) (sl\<lparr>amount := v\<rparr>) (price b) (price a) (m_users s)
      = (Inr (), m_users s1)" using that(2) by simp
    from processSale_balanced [OF P that(5,6) _ _ _ _ _ _ this] show ?thesis
      using f that(3,4) by (simp add: funded_order_def)
  qed
  from tr show ?thesis
    unfolding trade_def
  proof (cases rule: bind_act_cases)
    case (2 buyer s2)
    have b: "userExists (m_users s) (username b)" "m_users s2 = m_users s" "buyer = username b"
      using g [OF 2(1)] f by (auto simp: funded_order_def)
    from 2(2) show ?thesis
    proof (cases rule: bind_act_cases)
      case (2 seller s3)
      have a: "userExists (m_users s) (username a)" "m_users s3 = m_users s" "seller = username a"
        using g [OF 2(1)] f b by (auto simp: funded_order_def)
      show ?thesis
        using 2(2) a b f P
        by (auto simp: OrderBookEntry_def Let_def funded_order_def intro: fl split: if_splits)
    qed simp
  qed simp
qed

section \<open>The pass\<close>

lemma ex_held: "held ex_users c = (if c = ''A'' then 10 else if c = ''B'' then 18 else 0)"
  by (simp add: held_def owned_def ex_users_def balance_defs omap_index_def omap_find_def User_def empty_wallet_def)

lemma ex_balanced: "balanced (held ex_users) (\<lambda>_. 0) ex_users"
proof -
  have "umap_wf ex_users" by (simp add: ex_users_def umap_wf_def)
  moreover have "user_name u = k \<and> whole_wallet (wallet u)" if "umap_find ex_users k = Some u" for k u
    using that
    by (auto simp: umap_find_def whole_wallet_def ex_users_def balance_defs omap_index_def omap_find_def User_def
        whole_def [of "Fin q" for q] split: if_splits)
  ultimately show ?thesis by (simp add: balanced_def ex_held)
qed

text \<open>
  C7: with integer amounts, prices and balances, less than \<open>2 ^ 53\<close> of every currency and no order of the
  account \<open>default\<close> in the product, a pass that returns neither creates nor destroys money: of every currency
  the accounts together hold, free or locked, exactly what they held before. (The condition on
  \<open>default\<close> is needed: \<open>processSale\<close> lets that account buy and sell what it does not have, and every order read
  from a CSV file belongs to it.)
\<close>

theorem pass_conserves_money:
  assumes "matchAsksToBids srt pr ts s = (Inr sales, s')" and "book_ok (m_book s)" and "std_sort srt"
    and "comparable (m_book s) pr" and "list_all (\<lambda>n. funded_order (snd n)) (product_nodes (m_book s) pr)"
    and "balanced (held (m_users s)) (\<lambda>_. 0) (m_users s)"
  shows "held (m_users s') c = held (m_users s) c"
  using assms(1-4)
proof (cases rule: match_cases)
  case (returned asks bids s1 b')
  let ?T = "held (m_users s)" and ?ps = "set asks \<union> set bids"
  let ?I = "\<lambda>t. balanced ?T (\<lambda>_. 0) (m_users t) \<and> (\<forall>p\<in>?ps. \<exists>e. live (m_book t) p = Some e \<and> funded_order e)"
  note sets = pass_run_sets [OF returned(1)]
  have funded: "\<exists>e. live (m_book s) p = Some e \<and> funded_order e" if p: "p \<in> ?ps" for p
  proof -
    obtain t where "p \<in> set (side (m_book s) pr t)" using p sets by blast
    from side_live [OF assms(2) this] show ?thesis using assms(5) by (fastforce simp: list_all_iff)
  qed
  have run: "case r of Inl e \<Rightarrow> True | Inr u \<Rightarrow> ?I s1"
    if "match_asks pr ts bids asks (s\<lparr>m_sales := []\<rparr>) = (r, s1)" for r
    using that
  proof (rule match_asks_rule [where I = ?I and J = "\<lambda>_. ?I" and E = "\<lambda>_ _. True"])
    show "?I (s\<lparr>m_sales := []\<rparr>)" using funded assms(6) by simp
  next
    fix ap bp a b t x t1
    assume I: "?I t" and l: "ap \<in> set asks" "bp \<in> set bids" "live (m_book t) ap = Some a"
      "live (m_book t) bp = Some b" and tr: "trade pr ts ap a bp b t = (x, t1)"
    have f: "funded_order a" "funded_order b" using I l by (metis UnCI option.inject)+
    obtain sls stop where te: "trade_effect pr ts ap a bp b (m_book t) sls stop (m_book t1)"
      using tr by (rule trade_cases)
    have "\<exists>e. live (m_book t1) p = Some e \<and> funded_order e" if "p \<in> ?ps" for p
      using I that trade_effect_funded [OF te l(3,4) f] by blast
    moreover have "balanced ?T (\<lambda>_. 0) (m_users t1)" if "x = Inr st" for st
      using trade_balanced [OF _ f] tr I that by blast
    ultimately show "case x of Inl e \<Rightarrow> True | Inr stop \<Rightarrow> ?I t1 \<and> (\<not> stop \<longrightarrow> ?I t1)"
      by (simp split: sum.split)
  qed (use sets side_facts(1) [OF assms(2)] in auto)
  from returned(1) have "match_asks pr ts bids asks (s\<lparr>m_sales := []\<rparr>) = (Inr (), s1)" by (simp add: pass_run_def)
  from run [OF this] show ?thesis using returned(5) by (simp add: balanced_def)
qed simp

theorem pass_conserves_money_witness:
  "held (m_users ex_after) ''A'' = 10 \<and> held ex_users ''B'' = 18 \<and> held (m_users ex_after) ''B'' = held ex_users ''B''"
proof -
  have "m_users ex_state = ex_users" by (simp add: ex_state_def)
  then have "held (m_users ex_after) c = held ex_users c" for c
    using pass_conserves_money [OF ex_run, of c] ex_balanced
    by (simp add: ex_book_ok ex_comparable stable.std_sort_axioms ex_nodes ex_order_def funded_order_def whole_def
        default_user_def)
  then show ?thesis by (simp add: ex_held)
qed

end
