(* ===== verification/Funding.thy ===== *)
theory Funding
  imports Matching_Money Pass_System
begin

text \<open>
  Orders that are paid for: over integers, when every account has at least the costs of its open
  orders locked, no settlement of a pass can fail, and after the pass every account still has the
  costs of its open orders locked.
\<close>

section \<open>What an order locks\<close>

definition locks :: "entry \<Rightarrow> string \<Rightarrow> string \<Rightarrow> rat" where
  "locks e u c =
    (if username e \<noteq> u then 0
     else case extractTokens (product e) (CHR ''/'') of
         [base, quote] \<Rightarrow>
           (case orderType e of
              Ask \<Rightarrow> if c = base then dval (amount e) else 0
            | Bid \<Rightarrow> if c = quote then dval (amount e) * dval (price e) else 0
            | Sale \<Rightarrow> 0)
       | _ \<Rightarrow> 0)"

definition open_cost :: "book \<Rightarrow> string \<Rightarrow> string \<Rightarrow> rat" where
  "open_cost b u c = (\<Sum>p | is_live b p. locks (the (live b p)) u c)"

definition locked_in :: "users \<Rightarrow> string \<Rightarrow> string \<Rightarrow> rat" where
  "locked_in us u c = dval (locked_balance (wallet_of us u) c)"

section \<open>The steps of a settlement, forwards\<close>

lemma spend_ok:
  assumes "balanced T d us" and "userExists us n" and "whole x" and "dval x \<le> locked_in us n c"
  obtains us' where "on_wallet n (spendLocked c x) us = (Inr True, us')" "balanced T (d(c := d c - dval x)) us'"
    "\<And>u k. locked_in us' u k = locked_in us u k - (if u = n \<and> k = c then dval x else 0)"
proof -
  have wl: "whole (locked_balance (wallet_of us n) c)" using balanced_wallet [OF assms(1)] by (simp add: whole_wallet_def)
  have le: "x \<le> locked_balance (wallet_of us n) c"
    using assms(4) whole_value [OF assms(3)] whole_value [OF wl] by (simp add: locked_in_def le_finite)
  obtain r w where r: "spendLocked c x (wallet_of us n) = (r, w)" by fastforce
  from wallet.spend_law [OF r] le have "r = Inr True" by simp
  then have o: "on_wallet n (spendLocked c x) us = (Inr True, set_wallet n w us)" using r by (simp add: on_wallet_eq)
  from wallet.spend_law [OF r] le have m: "moves free_balance locked_balance c id (\<lambda>b. b - x) (wallet_of us n) w" by simp
  show ?thesis
    using that [OF o spend_balanced(1) [OF assms(1-3) o]] m whole_minus [OF wl assms(3) le]
    by (auto simp: locked_in_def moves_def)
qed

lemma insert_ok:
  assumes "balanced T d us" and "userExists us n" and "whole x" and "dval (free_balance (wallet_of us n) c) + dval x < 2 ^ 53"
  obtains us' where "on_wallet n (insertCurrency c x) us = (Inr (), us')" "balanced T (d(c := d c + dval x)) us'"
    "\<And>u k. locked_in us' u k = locked_in us u k"
proof -
  have "\<not> x < 0" using whole_value [OF assms(3)] by (cases x) (auto simp: dlt_iff_not_dle)
  then obtain w where r: "insertCurrency c x (wallet_of us n) = (Inr (), w)" by (simp add: insertCurrency_def)
  then have o: "on_wallet n (insertCurrency c x) us = (Inr (), set_wallet n w us)" by (simp add: on_wallet_eq)
  show ?thesis
    using that [OF o insert_balanced [OF assms(1-3) o assms(4)]] locked_on_insert [OF o assms(2)]
    by (simp add: locked_in_def)
qed

lemma unlock_ok:
  assumes "balanced T d us" and "userExists us n" and "whole x" and "dval x \<le> locked_in us n c" and "d c \<le> 0"
  obtains us' where "on_wallet n (unlockCurrency c x) us = (Inr True, us')" "balanced T d us'"
    "\<And>u k. locked_in us' u k = locked_in us u k - (if u = n \<and> k = c then dval x else 0)"
proof -
  have wl: "whole (locked_balance (wallet_of us n) c)" using balanced_wallet [OF assms(1)] by (simp add: whole_wallet_def)
  have le: "x \<le> locked_balance (wallet_of us n) c"
    using assms(4) whole_value [OF assms(3)] whole_value [OF wl] by (simp add: locked_in_def le_finite)
  obtain r w where r: "unlockCurrency c x (wallet_of us n) = (r, w)" by fastforce
  from wallet.unlock_law [OF r] le have "r = Inr True" by simp
  then have o: "on_wallet n (unlockCurrency c x) us = (Inr True, set_wallet n w us)" using r by (simp add: on_wallet_eq)
  from wallet.unlock_law [OF r] le
  have m: "moves free_balance locked_balance c (\<lambda>b. b + x) (\<lambda>b. b - x) (wallet_of us n) w" by simp
  show ?thesis
    using that [OF o unlock_balanced [OF assms(1,2) o assms(3,5)]] m whole_minus [OF wl assms(3) le]
    by (auto simp: locked_in_def moves_def)
qed

text \<open>What a sale of \<open>x\<close> takes out of the locked balances, the refund to the buyer included.\<close>

definition sale_takes :: "string \<Rightarrow> string \<Rightarrow> string \<Rightarrow> string \<Rightarrow> rat \<Rightarrow> rat \<Rightarrow> string \<Rightarrow> string \<Rightarrow> rat" where
  "sale_takes buyer seller base quote p x u c =
    (if u = buyer \<and> c = quote then p * x else 0) + (if u = seller \<and> c = base then x else 0)"

lemma settle_ok:
  assumes P: "balanced T (\<lambda>_. 0) us" and ex: "userExists us buyer" "userExists us seller"
    and t: "extractTokens (product sl) (CHR ''/'') = [base, quote]"
    and wh: "whole (amount sl)" "whole (price sl)" "whole bid_price" "price sl = ask_price" "ask_price \<le> bid_price"
    and funds: "\<And>u c. sale_takes buyer seller base quote (dval bid_price) (dval (amount sl)) u c \<le> locked_in us u c"
  obtains us' where "processSale buyer seller sl bid_price ask_price us = (Inr (), us')" "balanced T (\<lambda>_. 0) us'"
    "\<And>u c. locked_in us' u c = locked_in us u c - sale_takes buyer seller base quote (dval bid_price) (dval (amount sl)) u c"
    "\<And>n. userExists us n \<Longrightarrow> userExists us' n"
proof -
  let ?x = "amount sl" and ?cost = "price sl * amount sl" and ?r = "(bid_price - ask_price) * amount sl"
  note v = wh(1-3) [THEN whole_value]
  have wa: "whole ask_price" using wh(2,4) by simp
  have x0: "0 \<le> dval ?x" using v by simp
  have le: "dval ask_price \<le> dval bid_price" using v wh(4,5) le_finite by blast
  then have le': "dval ask_price * dval ?x \<le> dval bid_price * dval ?x" using x0 by (rule mult_right_mono)
  have T: "T c < 2 ^ 53" for c using P by (simp add: balanced_def)
  have lt: "locked_in us u c < 2 ^ 53" for u c
    using balanced_wallet [OF P, of u] whole_value by (simp add: locked_in_def whole_wallet_def)
  have bx: "dval bid_price * dval ?x \<le> locked_in us buyer quote"
    using funds [of buyer quote] x0 by (simp add: sale_takes_def split: if_splits)
  then have "dval (price sl) * dval ?x < 2 ^ 53" unfolding wh(4) using le' lt [of buyer quote] by linarith
  from whole_times_lt [OF wh(2,1) this] have cost: "whole ?cost" "dval ?cost = dval ask_price * dval ?x" using wh(4) by simp_all
  have c0: "0 \<le> dval ?cost" using whole_value [OF cost(1)] by simp
  have "dval ?cost \<le> locked_in us buyer quote" using cost(2) le' bx by linarith
  from spend_ok [OF P ex(1) cost(1) this] obtain us1 where
    s1: "on_wallet buyer (spendLocked quote ?cost) us = (Inr True, us1)"
    and P1: "balanced T ((\<lambda>_. 0)(quote := - dval ?cost)) us1"
    and l1: "\<And>u k. locked_in us1 u k = locked_in us u k - (if u = buyer \<and> k = quote then dval ?cost else 0)" by auto
  note E1 = ex [THEN on_wallet_exists [OF s1]]
  have x1: "dval ?x \<le> locked_in us1 seller base"
    using funds [of seller base] l1 [of seller base] cost(2) le' by (auto simp: sale_takes_def split: if_splits)
  then have "dval (free_balance (wallet_of us1 buyer) base) + dval ?x < 2 ^ 53"
    using pair_le_held [OF P1, of buyer base seller] T [of base] c0 by (simp add: locked_in_def split: if_splits)
  from insert_ok [OF P1 E1(1) wh(1) this] obtain us2 where
    s2: "on_wallet buyer (insertCurrency base ?x) us1 = (Inr (), us2)"
    and P2: "balanced T (((\<lambda>_. 0)(quote := - dval ?cost))(base := ((\<lambda>_. 0)(quote := - dval ?cost)) base + dval ?x)) us2"
    and l2: "\<And>u k. locked_in us2 u k = locked_in us1 u k" by blast
  note E2 = E1 [THEN on_wallet_exists [OF s2]]
  from spend_ok [OF P2 E2(2) wh(1)] x1 l2 obtain us3 where
    s3: "on_wallet seller (spendLocked base ?x) us2 = (Inr True, us3)"
    and P3: "balanced T ((\<lambda>_. 0)(quote := - dval ?cost)) us3"
    and l3: "\<And>u k. locked_in us3 u k = locked_in us2 u k - (if u = seller \<and> k = base then dval ?x else 0)"
    by (force simp: fun_upd_idem)
  note E3 = E2 [THEN on_wallet_exists [OF s3]]
  have "0 \<le> dval (locked_balance (wallet_of us3 seller) quote)"
    using whole_value balanced_wallet [OF P3] by (simp add: whole_wallet_def)
  then have "dval (free_balance (wallet_of us3 seller) quote) + dval ?cost < 2 ^ 53"
    using pair_le_held [OF P3, of seller quote seller] T [of quote] by simp
  from insert_ok [OF P3 E3(2) cost(1) this] obtain us4 where
    s4: "on_wallet seller (insertCurrency quote ?cost) us3 = (Inr (), us4)"
    and P4: "balanced T (\<lambda>_. 0) us4" and l4: "\<And>u k. locked_in us4 u k = locked_in us3 u k"
    by (auto simp: fun_upd_idem)
  note E4 = E3 [THEN on_wallet_exists [OF s4]]
  have ex4: "userExists us4 n" if "userExists us n" for n
    using that s1 s2 s3 s4 on_wallet_exists by meson
  note run = processSale_def t Let_def bind_act_def s1 s2 s3 s4
  show ?thesis
  proof (cases "ask_price < bid_price")
    case True
    have diff: "whole (bid_price - ask_price)" "dval (bid_price - ask_price) = dval bid_price - dval ask_price"
      using whole_minus [OF wh(3) wa wh(5)] by auto
    have "dval (bid_price - ask_price) * dval ?x = dval bid_price * dval ?x - dval ?cost"
      by (simp add: diff(2) cost(2) left_diff_distrib)
    moreover have "dval bid_price * dval ?x - dval ?cost < 2 ^ 53" using bx lt [of buyer quote] c0 by linarith
    ultimately have r: "whole ?r" "dval ?r = dval bid_price * dval ?x - dval ?cost"
      using whole_times_lt [OF diff(1) wh(1)] by simp_all
    have "dval ?r \<le> locked_in us4 buyer quote"
      using funds [of buyer quote] l1 [of buyer quote] l2 [of buyer quote] l3 [of buyer quote] l4 [of buyer quote] r(2)
      by (auto simp: sale_takes_def split: if_splits)
    from unlock_ok [OF P4 E4(1) r(1) this] obtain us5 where
      s5: "on_wallet buyer (unlockCurrency quote ?r) us4 = (Inr True, us5)" and P5: "balanced T (\<lambda>_. 0) us5"
      and l5: "\<And>u k. locked_in us5 u k = locked_in us4 u k - (if u = buyer \<and> k = quote then dval ?r else 0)" by auto
    show ?thesis
    proof (rule that [of us5])
      show "processSale buyer seller sl bid_price ask_price us = (Inr (), us5)" using s5 True by (simp add: run return_act_def)
      show "locked_in us5 u c = locked_in us u c - sale_takes buyer seller base quote (dval bid_price) (dval ?x) u c" for u c
        by (simp add: l1 l2 l3 l4 l5 r(2) sale_takes_def)
    qed (use P5 ex4 on_wallet_exists [OF s5] in auto)
  next
    case False
    then have "dval bid_price = dval ask_price"
      using v wh(4,5) le by (cases bid_price; cases ask_price) (auto simp: dlt_iff_not_dle le_finite)
    show ?thesis
    proof (rule that [of us4])
      show "processSale buyer seller sl bid_price ask_price us = (Inr (), us4)" using False by (simp add: run return_act_def)
      show "locked_in us4 u c = locked_in us u c - sale_takes buyer seller base quote (dval bid_price) (dval ?x) u c" for u c
        using \<open>dval bid_price = dval ask_price\<close> by (simp add: l1 l2 l3 l4 cost(2) sale_takes_def)
    qed (use P4 ex4 in auto)
  qed
qed

section \<open>A book that is paid for\<close>

definition sound_order :: "entry \<Rightarrow> bool" where
  "sound_order e \<longleftrightarrow> funded_order e \<and> orderType e \<noteq> Sale \<and> length (extractTokens (product e) (CHR ''/'')) = 2"

text \<open>\<open>R\<close> is what is locked for orders on their way into the book.\<close>

definition paid :: "(string \<Rightarrow> rat) \<Rightarrow> (string \<Rightarrow> string \<Rightarrow> rat) \<Rightarrow> match_state \<Rightarrow> bool" where
  "paid T R t \<longleftrightarrow> balanced T (\<lambda>_. 0) (m_users t) \<and> (\<forall>u c. 0 \<le> R u c) \<and>
     (\<forall>p e. live (m_book t) p = Some e \<longrightarrow> sound_order e \<and> userExists (m_users t) (username e)) \<and>
     (\<forall>u c. open_cost (m_book t) u c + R u c \<le> locked_in (m_users t) u c)"

lemma sound_tokens:
  assumes "sound_order e"
  obtains base quote where "extractTokens (product e) (CHR ''/'') = [base, quote]"
  using assms by (auto simp: sound_order_def numeral_2_eq_2 length_Suc_conv)

lemma finite_live: "finite {p. is_live b p}"
proof -
  have "{p. is_live b p} = dom (map_of (book_nodes b))" by (auto simp: is_live_def live_def)
  then show ?thesis by (simp add: finite_dom_map_of)
qed

lemma locks_nonneg: "sound_order e \<Longrightarrow> 0 \<le> locks e u c"
  using whole_value [of "amount e"] whole_value [of "price e"]
  by (auto simp: sound_order_def funded_order_def locks_def split: list.split OrderBookType.split)

lemma open_cost_set_amount:
  assumes "live b p = Some e"
  shows "open_cost (set_amount p v b) u c = open_cost b u c - locks e u c + locks (e\<lparr>amount := v\<rparr>) u c"
proof -
  let ?l = "\<lambda>b q. locks (the (live b q)) u c"
  have p: "p \<in> {p. is_live b p}" using assms by (simp add: is_live_def)
  have "(\<Sum>q\<in>{p. is_live b p} - {p}. ?l (set_amount p v b) q) = (\<Sum>q\<in>{p. is_live b p} - {p}. ?l b q)"
    by (intro sum.cong) (auto simp: nodes.rd_wr is_live_def)
  then show ?thesis
    using sum.remove [OF finite_live p, of "?l b"] sum.remove [OF finite_live p, of "?l (set_amount p v b)"] assms
    by (simp add: open_cost_def nodes.rd_wr)
qed

lemma two_locks:
  assumes "\<And>p e. live b p = Some e \<Longrightarrow> sound_order e" and "live b p = Some e" and "live b q = Some f" and "p \<noteq> q"
  shows "locks e u c + locks f u c \<le> open_cost b u c"
proof -
  let ?l = "\<lambda>q. locks (the (live b q)) u c"
  have "sum ?l {p, q} \<le> sum ?l {p. is_live b p}"
    using assms(1-3) locks_nonneg by (intro sum_mono2 finite_live) (auto simp: is_live_def)
  then show ?thesis using assms(2-4) by (simp add: open_cost_def)
qed

text \<open>An ask and a bid that give up what was sold, at the price of the bid.\<close>

lemma locks_sold:
  assumes "extractTokens pr (CHR ''/'') = [base, quote]" and "product a = pr" "product b = pr"
    and "orderType a = Ask" "orderType b = Bid"
    and "dval al = dval (amount a) - x" "dval bl = dval (amount b) - x"
  shows "locks (a\<lparr>amount := al\<rparr>) u c + locks (b\<lparr>amount := bl\<rparr>) u c =
      locks a u c + locks b u c - sale_takes (username b) (username a) base quote (dval (price b)) x u c"
    and "x \<le> dval (amount a) \<Longrightarrow> x \<le> dval (amount b) \<Longrightarrow> 0 \<le> dval (price b) \<Longrightarrow> 0 \<le> x \<Longrightarrow>
      sale_takes (username b) (username a) base quote (dval (price b)) x u c \<le> locks a u c + locks b u c"
proof -
  have "dval bl * dval (price b) = dval (amount b) * dval (price b) - dval (price b) * x"
    by (simp add: assms(7) algebra_simps)
  then show "locks (a\<lparr>amount := al\<rparr>) u c + locks (b\<lparr>amount := bl\<rparr>) u c =
      locks a u c + locks b u c - sale_takes (username b) (username a) base quote (dval (price b)) x u c"
    using assms(1-5) by (simp add: locks_def sale_takes_def assms(6))
  assume "x \<le> dval (amount b)" "0 \<le> dval (price b)"
  then have "dval (price b) * x \<le> dval (amount b) * dval (price b)"
    using mult_left_mono [of x "dval (amount b)" "dval (price b)"] by (simp add: mult.commute)
  moreover assume "x \<le> dval (amount a)" "0 \<le> x"
  ultimately show "sale_takes (username b) (username a) base quote (dval (price b)) x u c \<le> locks a u c + locks b u c"
    using assms(1-5) by (auto simp: locks_def sale_takes_def)
qed

section \<open>A trade between two paid orders\<close>

lemma fill_paid:
  assumes P: "paid T R t" and ap: "live (m_book t) ap = Some a" and bp: "live (m_book t) bp = Some b"
    and ty: "orderType a = Ask" "orderType b = Bid" and pr: "product a = pr" "product b = pr" and le: "price a \<le> price b"
    and s: "m_book s = m_book t" "m_users s = m_users t" and sl: "product sl = pr" "price sl = price a"
    and wh: "whole x" "whole al" "whole bl" and x: "dval al = dval (amount a) - dval x" "dval bl = dval (amount b) - dval x"
    and run: "fill (username b) (username a) sl x bp bl ap al (price b) (price a) stop s = (r, t1)"
  shows "r = Inr stop \<and> paid T R t1"
proof -
  have snd: "\<And>p e. live (m_book t) p = Some e \<Longrightarrow> sound_order e \<and> userExists (m_users t) (username e)"
    and bal: "balanced T (\<lambda>_. 0) (m_users t)" and R: "\<And>u c. 0 \<le> R u c"
    and oc: "\<And>u c. open_cost (m_book t) u c + R u c \<le> locked_in (m_users t) u c"
    using P by (auto simp: paid_def)
  note sa = snd [OF ap] and sb = snd [OF bp]
  obtain base quote where tok: "extractTokens pr (CHR ''/'') = [base, quote]"
    using sa pr(1) sound_tokens by blast
  have ne: "ap \<noteq> bp" using ap bp ty by auto
  have ws: "whole (price a)" "whole (price b)" using sa sb by (auto simp: sound_order_def funded_order_def)
  note v = wh [THEN whole_value] ws [THEN whole_value]
  note ls = locks_sold [OF tok pr ty x]
  let ?take = "sale_takes (username b) (username a) base quote (dval (price b)) (dval x)"
  have funds: "?take u c \<le> locked_in (m_users t) u c" for u c
  proof -
    have "?take u c \<le> locks a u c + locks b u c" using ls(2) x v by simp
    moreover have "locks a u c + locks b u c \<le> open_cost (m_book t) u c" using two_locks [OF _ ap bp ne] snd by blast
    ultimately show ?thesis using oc [of u c] R [of u c] by linarith
  qed
  obtain us' where us': "processSale (username b) (username a) (sl\<lparr>amount := x\<rparr>) (price b) (price a) (m_users t) = (Inr (), us')"
    "balanced T (\<lambda>_. 0) us'" "\<And>u c. locked_in us' u c = locked_in (m_users t) u c - ?take u c"
    "\<And>n. userExists (m_users t) n \<Longrightarrow> userExists us' n"
    using settle_ok [OF bal, of "username b" "username a" "sl\<lparr>amount := x\<rparr>" base quote "price b" "price a"]
      sa sb tok sl wh(1) ws le funds by auto
  let ?b = "set_amount ap al (set_amount bp bl (m_book t))"
  have t1: "r = Inr stop" "m_book t1 = ?b" "m_users t1 = us'"
    using run us'(1) s by (auto simp: fill_def Let_def bind_act_def with_users_def return_act_def)
  have "open_cost ?b u c = open_cost (m_book t) u c - ?take u c" for u c
  proof -
    have la: "live (set_amount bp bl (m_book t)) ap = Some a" using ap ne by (simp add: nodes.rd_wr)
    show ?thesis
      using open_cost_set_amount [OF la, of al u c] open_cost_set_amount [OF bp, of bl u c] ls(1) [of u c] by simp
  qed
  then have "open_cost ?b u c + R u c \<le> locked_in us' u c" for u c using oc [of u c] us'(3) by simp
  moreover have "sound_order e \<and> userExists us' (username e)" if "live ?b p = Some e" for p e
    using that snd us'(4) wh ap bp
    by (auto simp: nodes.rd_wr sound_order_def funded_order_def split: if_splits)
  ultimately show ?thesis using us'(2) R t1 by (auto simp: paid_def)
qed

lemma trade_paid:
  assumes P: "paid T R t" and ap: "live (m_book t) ap = Some a" and bp: "live (m_book t) bp = Some b"
    and ty: "orderType a = Ask" "orderType b = Bid" and pr: "product a = pr" "product b = pr" and le: "price a \<le> price b"
    and run: "trade pr ts ap a bp b t = (r, t1)"
  shows "(\<exists>stop. r = Inr stop) \<and> paid T R t1"
proof -
  have "sound_order a \<and> userExists (m_users t) (username a)" "sound_order b \<and> userExists (m_users t) (username b)"
    using P ap bp by (auto simp: paid_def)
  then have w: "whole (amount a)" "whole (amount b)"
    and g: "getUser (username a) (m_users t) = (Inr (username a), m_users t)"
      "getUser (username b) (m_users t) = (Inr (username b), m_users t)"
    by (auto simp: sound_order_def funded_order_def getUser_def userExists_def)
  note v = w [THEN whole_value]
  obtain sl nid where sl: "OrderBookEntry (price a) 0 ts pr Sale default_user (m_nextId t) = (sl, nid)"
    "product sl = pr" "price sl = price a" by (auto simp: OrderBookEntry_def)
  have t: "t\<lparr>m_users := m_users t\<rparr> = t" by simp
  let ?s = "t\<lparr>m_nextId := nid\<rparr>"
  have tr: "trade pr ts ap a bp b t =
     (if deq (amount b) (amount a) then
        fill (username b) (username a) sl (amount a) bp 0 ap 0 (price b) (price a) True ?s
      else if amount a < amount b then
        fill (username b) (username a) sl (amount a) bp (amount b - amount a) ap 0 (price b) (price a) True ?s
      else if amount b < amount a then
        fill (username b) (username a) sl (amount b) bp 0 ap (amount a - amount b) (price b) (price a) False ?s
      else (Inr False, ?s))"
    by (simp add: trade_def bind_act_def with_users_def g sl(1) t)
  note f = fill_paid [OF P ap bp ty pr le _ _ sl(2,3), of ?s]
  have P': "paid T R ?s" using P by (simp add: paid_def)
  consider "deq (amount b) (amount a)" | "\<not> deq (amount b) (amount a)" "amount a < amount b"
    | "\<not> deq (amount b) (amount a)" "\<not> amount a < amount b" "amount b < amount a"
    | "\<not> deq (amount b) (amount a)" "\<not> amount a < amount b" "\<not> amount b < amount a" by blast
  then show ?thesis
  proof cases
    case 1
    then have "dval (amount b) = dval (amount a)" by (cases "amount a"; cases "amount b") (auto simp: deq_def)
    then show ?thesis using f [of "amount a" 0 0 True r t1] run 1 w by (auto simp: tr)
  next
    case 2
    note d = whole_minus [OF w(2,1) dlt_imp_dle [OF 2(2)]]
    then show ?thesis using f [of "amount a" 0 "amount b - amount a" True r t1] run 2 w by (auto simp: tr)
  next
    case 3
    note d = whole_minus [OF w dlt_imp_dle [OF 3(3)]]
    then show ?thesis using f [of "amount b" "amount a - amount b" 0 False r t1] run 3 w by (auto simp: tr)
  next
    case 4
    then show ?thesis using run P' by (auto simp: tr)
  qed
qed

section \<open>A pass over a paid book\<close>

lemma open_cost_mono:
  assumes "\<And>p e. live b' p = Some e \<Longrightarrow> live b p = Some e" and "\<And>p e. live b p = Some e \<Longrightarrow> sound_order e"
  shows "open_cost b' u c \<le> open_cost b u c"
proof -
  have "open_cost b' u c = (\<Sum>p | is_live b' p. locks (the (live b p)) u c)"
    unfolding open_cost_def using assms(1) by (intro sum.cong) (fastforce simp: is_live_def)+
  also have "\<dots> \<le> open_cost b u c"
    unfolding open_cost_def using assms locks_nonneg by (intro sum_mono2 finite_live) (auto simp: is_live_def)
  finally show ?thesis .
qed

definition on_side :: "string \<Rightarrow> OrderBookType \<Rightarrow> book \<Rightarrow> addr \<Rightarrow> bool" where
  "on_side pr ty b p \<longleftrightarrow> (\<exists>e. live b p = Some e \<and> orderType e = ty \<and> product e = pr)"

lemma on_side_writes: "writes set_amount b b' \<Longrightarrow> on_side pr ty b p \<Longrightarrow> on_side pr ty b' p"
  unfolding on_side_def using nodes.writes_read [of b b' p] by fastforce

lemma on_side_I: "book_ok b \<Longrightarrow> p \<in> set (side b pr ty) \<Longrightarrow> on_side pr ty b p"
  using side_live [of b p pr ty] list_ok_product_nodes [of b pr] by (fastforce simp: on_side_def list_ok_def)

lemma paid_comparable:
  assumes "paid T R s" and "book_ok (m_book s)"
  shows "comparable (m_book s) pr"
proof -
  have "price (snd n) \<noteq> NaN \<and> amount (snd n) \<noteq> NaN" if "n \<in> set (product_nodes (m_book s) pr)" for n
  proof -
    have "live (m_book s) (fst n) = Some (snd n)"
      using that product_nodes_subset [of "m_book s" pr] by (auto simp: book_ok_live [OF assms(2)])
    then have "whole (price (snd n))" "whole (amount (snd n))"
      using assms(1) by (auto simp: paid_def sound_order_def funded_order_def)
    then show ?thesis using whole_value by (auto simp: isfinite_def)
  qed
  then show ?thesis by (simp add: comparable_def list_all_iff)
qed

lemma paid_run:
  assumes "pass_run pr ts s asks bids r s1" and ok: "book_ok (m_book s)" and P: "paid T R s"
  shows "r = Inr () \<and> paid T R s1"
proof -
  let ?I = "\<lambda>t. paid T R t \<and> (\<forall>p\<in>set asks. on_side pr Ask (m_book t) p) \<and> (\<forall>p\<in>set bids. on_side pr Bid (m_book t) p)"
  note sets = pass_run_sets [OF assms(1)]
  have "case r of Inl e \<Rightarrow> False | Inr u \<Rightarrow> ?I s1"
  proof (rule match_asks_rule [where I = ?I and J = "\<lambda>_. ?I" and E = "\<lambda>_ _. False"])
    show "match_asks pr ts bids asks (s\<lparr>m_sales := []\<rparr>) = (r, s1)" using assms(1) by (simp add: pass_run_def)
    show "?I (s\<lparr>m_sales := []\<rparr>)" using P sets on_side_I [OF ok] by (auto simp: paid_def)
  next
    fix ap bp a b t x t1
    assume I: "?I t" and l: "ap \<in> set asks" "bp \<in> set bids" "live (m_book t) ap = Some a" "live (m_book t) bp = Some b"
      and le: "price a \<le> price b" and tr: "trade pr ts ap a bp b t = (x, t1)"
    have "orderType a = Ask" "orderType b = Bid" "product a = pr" "product b = pr" using I l by (auto simp: on_side_def)
    with trade_paid [OF _ l(3,4) _ _ _ _ le tr] I have p: "(\<exists>stop. x = Inr stop) \<and> paid T R t1" by blast
    have "writes set_amount (m_book t) (m_book t1)" using tr by (rule trade_cases) (rule trade_effect_writes)
    then show "case x of Inl e \<Rightarrow> False | Inr stop \<Rightarrow> ?I t1 \<and> (\<not> stop \<longrightarrow> ?I t1)"
      using p I on_side_writes by (auto split: sum.split)
  qed (use sets side_facts(1) [OF ok] in auto)
  then show ?thesis by (cases r) auto
qed

lemma paid_returns:
  assumes "paid T R s" and "book_ok (m_book s)" and "std_sort srt"
  shows "\<exists>sales s'. matchAsksToBids srt pr ts s = (Inr sales, s') \<and> book_ok (m_book s') \<and> paid T R s'"
proof -
  obtain r s' where run: "matchAsksToBids srt pr ts s = (r, s')" by fastforce
  from run assms(2,3) paid_comparable [OF assms(1,2), of pr] show ?thesis
  proof (cases rule: match_cases)
    case (threw asks bids e)
    then show ?thesis using paid_run [OF threw(1) assms(2,1)] by simp
  next
    case (returned asks bids s1 b')
    have P1: "paid T R s1" using paid_run [OF returned(1) assms(2,1)] by simp
    have ok1: "book_ok (m_book s1)" by (rule writes_ok [OF pass_run_writes [OF returned(1)] assms(2)])
    have sub: "live b' p = Some e \<Longrightarrow> live (m_book s1) p = Some e" for p e
      using pruned_subset [OF returned(4,3)] by (auto simp: book_ok_live [OF ok1] book_ok_live [OF returned(3)])
    have "open_cost b' u c \<le> open_cost (m_book s1) u c" for u c
      using P1 sub by (intro open_cost_mono) (auto simp: paid_def)
    then have "paid T R s'"
      using P1 sub returned(5) unfolding paid_def by simp (meson add_mono_thms_linordered_semiring(3) order.trans)
    then show ?thesis using run returned by auto
  qed
qed


lemma ex_paid: "paid (held ex_users) (\<lambda>_ _. 0) ex_state"
proof -
  have live: "live (ex_book_of ''s'' ''b'') p = (if p = 0 then Some (ex_order (Fin 2) (Fin 3) Ask ''s'' 0)
    else if p = 1 then Some (ex_order (Fin 5) (Fin 2) Bid ''b'' 1) else if p = 2 then Some (ex_order (Fin 4) (Fin 2) Bid ''b'' 2)
    else if p = 3 then Some (ex_order (Fin 9) (Fin 7) Ask ''s'' 3) else None)" for p
    by (simp add: live_def book_nodes_def ex_book_of_def)
  have "{p. is_live (ex_book_of ''s'' ''b'') p} = {0, 1, 2, 3}" by (auto simp: is_live_def live split: if_splits)
  then have "open_cost (ex_book_of ''s'' ''b'') u c = (if u = ''s'' \<and> c = ''A'' then 10 else if u = ''b'' \<and> c = ''B'' then 18 else 0)"
    for u c by (simp add: open_cost_def live locks_def ex_order_def ex_tokens)
  moreover have "locked_in ex_users u c = (if u = ''s'' \<and> c = ''A'' then 10 else if u = ''b'' \<and> c = ''B'' then 18 else 0)" for u c
    by (simp add: locked_in_def wallet_of_def umap_find_def ex_users_def balance_defs omap_index_def omap_find_def User_def
        empty_wallet_def)
  moreover have "sound_order e \<and> userExists ex_users (username e)" if "live (ex_book_of ''s'' ''b'') p = Some e" for p e
    using that by (auto simp: live sound_order_def funded_order_def ex_order_def ex_tokens whole_def default_user_def
        userExists_def umap_find_def ex_users_def split: if_splits)
  ultimately show ?thesis using ex_balanced by (simp add: paid_def)
qed


end
