(* ===== verification/Whole_Accounts.thy ===== *)
theory Whole_Accounts
  imports Funding Interleaving_Properties
begin

text \<open>
  Accounts with integer balances: \<open>in_order\<close> is kept by every operation of the store and the wallets,
  and what an operation does to the locked balances is exact. Then the same for the book: what
  inserting and removing an order does to the cost of the open orders.
\<close>

section \<open>Integers are good numbers\<close>

lemma whole_value64: "whole x \<Longrightarrow> value64 x"
proof -
  assume "whole x"
  then obtain n where n: "0 \<le> n" "n < 2 ^ 53" "x = Fin (of_int n)" by (rule wholeE)
  then have "rnd (of_int n) = x" using rnd_whole [of n] by simp
  then show ?thesis using value64_rnd by metis
qed

lemma whole_payable: "whole x \<Longrightarrow> payable x"
  using whole_value whole_value64 by (auto simp: payable_def)

lemma whole_product_finite:
  assumes "whole x" and "whole y"
  shows "isfinite (x * y)"
proof -
  obtain n where n: "0 \<le> n" "n < 2 ^ 53" "x = Fin (of_int n)" using assms(1) by (rule wholeE)
  obtain m where m: "0 \<le> m" "m < 2 ^ 53" "y = Fin (of_int m)" using assms(2) by (rule wholeE)
  have "n * m \<le> 2 ^ 53 * 2 ^ 53" using n m by (intro mult_mono) auto
  then have "of_int (n * m) \<le> (of_int (2 ^ 106) :: rat)" by (simp only: of_int_le_iff) simp
  then have "rnd (of_int (n * m)) \<le> rnd (2 ^ 106)" by (intro rnd_mono) simp
  moreover have "rnd (2 ^ 106) = Fin (2 ^ 106)" by code_simp
  moreover have "rnd 0 \<le> rnd (of_int (n * m))" using n(1) m(1) by (intro rnd_mono) simp
  moreover have "rnd 0 = 0" by code_simp
  moreover have "x * y = rnd (of_int (n * m))"
    using n m by (cases "n = 0"; cases "m = 0") (auto simp: times_double_def)
  ultimately have "0 \<le> x * y" "x * y \<le> Fin (2 ^ 106)" by simp_all
  then show ?thesis by (cases "x * y") (auto simp: isfinite_def)
qed

lemma whole_good_order: "whole p \<Longrightarrow> whole a \<Longrightarrow> good_order p a"
  by (simp add: good_order_def whole_payable whole_product_finite)

section \<open>Accounts\<close>

abbreviation in_order :: "users \<Rightarrow> bool" where
  "in_order us \<equiv> balanced (held us) (\<lambda>_. 0) us"

lemma balanced_in_order: "balanced T d us \<Longrightarrow> (\<And>c. T c + d c < 2 ^ 53) \<Longrightarrow> in_order us"
  by (simp add: balanced_def)

lemma in_order_set_wallet:
  assumes "in_order us" and "userExists us n" and "whole_wallet w" and "\<And>k. owned w k = owned (wallet_of us n) k"
  shows "in_order (set_wallet n w us)"
proof -
  have "balanced (held us) ((\<lambda>_. 0)(c := 0 + 0)) (set_wallet n w us)" for c
    using assms(4) by (intro balanced_set_wallet [OF assms(1-3)]) simp
  then have "balanced (held us) (\<lambda>_. 0) (set_wallet n w us)" by (simp add: fun_upd_idem)
  then show ?thesis using assms(1) by (auto intro: balanced_in_order simp: balanced_def)
qed

lemma in_order_addUser:
  assumes "in_order us"
  shows "in_order (addUser v p us) \<and> (\<forall>u c. locked_in (addUser v p us) u c = locked_in us u c)"
proof (cases "userExists us v")
  case True
  then show ?thesis using assms by (simp add: addUser_existing)
next
  case False
  let ?us = "addUser v p us"
  note w = wallet_of_addUser [OF False, of p]
  have wf: "umap_wf us" "umap_wf ?us" using assms by (auto simp: balanced_def addUser_def umap_wf_emplace)
  have keys: "set (umap_keys ?us) = insert v (set (umap_keys us))"
    using userExists_addUser [of v p us] by (auto simp flip: exists_keys)
  have "held ?us c = held us c" for c
    using False unfolding held_find [OF wf(1)] held_find [OF wf(2)] keys w
    by (simp add: exists_keys [symmetric] owned_missing)
  moreover have "user_name u = k \<and> whole_wallet (wallet u)" if "umap_find ?us k = Some u" for k u
  proof (cases "k = v")
    case True
    then have "u = User v p" using that False by (simp add: addUser_def umap_emplace_def userExists_def split: option.splits)
    then show ?thesis
      using True by (simp add: User_def whole_wallet_def balance_defs empty_wallet_def omap_index_def omap_find_def)
  next
    case k: False
    then have "umap_find us k = Some u" using that by (simp add: addUser_def umap_emplace_def split: option.splits)
    then show ?thesis using assms by (simp add: balanced_def)
  qed
  ultimately show ?thesis using assms wf by (simp add: balanced_def locked_in_def w)
qed

lemma deposit_in_order:
  assumes "in_order us" and "userExists us n" and "whole x" and "held us c + dval x < 2 ^ 53"
    and "on_wallet n (insertCurrency c x) us = (r, us')"
  shows "in_order us'" and "locked_in us' u k = locked_in us u k"
proof -
  have x: "0 \<le> dval x" using whole_value [OF assms(3)] by simp
  have "0 \<le> dval (locked_balance (wallet_of us n) c)"
    using whole_value balanced_wallet [OF assms(1)] by (simp add: whole_wallet_def)
  then have "dval (free_balance (wallet_of us n) c) + dval x < 2 ^ 53"
    using pair_le_held [OF assms(1), of n c n] assms(4) by simp
  from insert_ok [OF assms(1-3) this] obtain us1 where
    us1: "on_wallet n (insertCurrency c x) us = (Inr (), us1)" "balanced (held us) ((\<lambda>_. 0)(c := dval x)) us1"
      "\<And>u k. locked_in us1 u k = locked_in us u k" by auto
  have "held us k < 2 ^ 53" for k using assms(1) by (simp add: balanced_def)
  then have "in_order us1" using us1(2) assms(4) by (intro balanced_in_order [OF us1(2)]) simp
  then show "in_order us'" "locked_in us' u k = locked_in us u k" using us1 assms(5) by auto
qed

lemma withdraw_in_order:
  assumes "in_order us" and "userExists us n" and "whole x" and "on_wallet n (removeCurrency c x) us = (r, us')"
  shows "in_order us'" and "locked_in us' u k = locked_in us u k"
proof -
  obtain w where w: "removeCurrency c x (wallet_of us n) = (r, w)" "us' = set_wallet n w us"
    using on_wallet_set [OF assms(4)] by blast
  note wh = balanced_wallet [OF assms(1), of n, unfolded whole_wallet_def, THEN spec]
  note lt = assms(1) [unfolded balanced_def, THEN conjunct2, THEN conjunct2, THEN spec]
  consider "w = wallet_of us n" | "x \<le> free_balance (wallet_of us n) c"
      "moves free_balance locked_balance c (\<lambda>b. b - x) id (wallet_of us n) w"
    using wallet.withdraw_law [OF w(1)] by blast
  then have "in_order us' \<and> locked_in us' u k = locked_in us u k"
  proof cases
    case 1
    then show ?thesis
      using in_order_set_wallet [OF assms(1,2) balanced_wallet [OF assms(1)]] w(2) by (auto simp: locked_in_def)
  next
    case 2
    note m = whole_minus [OF conjunct1 [OF wh [of c]] assms(3) 2(1)]
    have "whole_wallet w" "owned w k = owned (wallet_of us n) k + (if k = c then - dval x else 0)" for k
      using 2(2) wh m by (auto simp: moves_def whole_wallet_def owned_def)
    from balanced_set_wallet [OF assms(1,2) this] have b: "balanced (held us) ((\<lambda>_. 0)(c := - dval x)) us'" using w(2) by simp
    have "0 \<le> dval x" using whole_value [OF assms(3)] by simp
    then have "held us k + ((\<lambda>_. 0)(c := - dval x)) k < 2 ^ 53" for k using lt [of k] by (cases "k = c") auto
    then have "in_order us'" by (rule balanced_in_order [OF b])
    then show ?thesis using 2(2) w(2) by (simp add: locked_in_def moves_def)
  qed
  then show "in_order us'" "locked_in us' u k = locked_in us u k" by auto
qed

text \<open>Placing an order locks its cost, cancelling it unlocks the cost again.\<close>

lemma lock_in_order:
  assumes "in_order us" and "userExists us n" and "on_wallet n (lockCurrency c x) us = (r, us')"
    and "x \<le> free_balance (wallet_of us n) c \<Longrightarrow> whole x"
  shows "in_order us'" and "locked_in us' u k = locked_in us u k + (if r = Inr True \<and> u = n \<and> k = c then dval x else 0)"
proof -
  obtain w where w: "lockCurrency c x (wallet_of us n) = (r, w)" "us' = set_wallet n w us"
    using on_wallet_set [OF assms(3)] by blast
  note wh = balanced_wallet [OF assms(1), of n, unfolded whole_wallet_def, THEN spec]
  note lt = assms(1) [unfolded balanced_def, THEN conjunct2, THEN conjunct2, THEN spec]
  consider "w = wallet_of us n" "r \<noteq> Inr True" | "x \<le> free_balance (wallet_of us n) c" "r = Inr True"
      "moves free_balance locked_balance c (\<lambda>b. b - x) (\<lambda>b. b + x) (wallet_of us n) w"
    using wallet.lock_law [OF w(1)] by blast
  then have l: "whole_wallet w \<and> (\<forall>k. owned w k = owned (wallet_of us n) k) \<and>
      (\<forall>k. dval (locked_balance w k) = dval (locked_balance (wallet_of us n) k) + (if r = Inr True \<and> k = c then dval x else 0))"
  proof cases
    case 1
    then show ?thesis using balanced_wallet [OF assms(1)] by simp
  next
    case 2
    have x: "whole x" by (rule assms(4) [OF 2(1)])
    note m = whole_minus [OF conjunct1 [OF wh [of c]] x 2(1)]
    have "dval x \<le> dval (free_balance (wallet_of us n) c)"
      using 2(1) whole_value [OF x] whole_value wh by (simp add: le_finite)
    then have "dval (locked_balance (wallet_of us n) c) + dval x < 2 ^ 53"
      using pair_le_held [OF assms(1), of n c n] lt [of c] by simp
    note p = whole_plus [OF conjunct2 [OF wh [of c]] x this]
    show ?thesis using 2(2,3) wh m p by (auto simp: moves_def whole_wallet_def owned_def)
  qed
  then show "in_order us'" using in_order_set_wallet [OF assms(1,2)] w(2) by blast
  show "locked_in us' u k = locked_in us u k + (if r = Inr True \<and> u = n \<and> k = c then dval x else 0)"
    using l w(2) by (auto simp: locked_in_def)
qed

lemma fulfill_in_order:
  assumes "in_order us" and "userExists us (username e)" and "whole (amount e)" and "whole (price e)" and "orderType e \<noteq> Sale"
    and "on_wallet (username e) (fulfillOrder e) us = (r, us')"
  shows "in_order us'" and "locked_in us' u k = locked_in us u k + (if r = Inr True then locks e u k else 0)"
    and "r = Inr True \<Longrightarrow> length (extractTokens (product e) (CHR ''/'')) = 2"
proof -
  have w: "whole (free_balance (wallet_of us (username e)) c)" for c
    using balanced_wallet [OF assms(1)] by (simp add: whole_wallet_def)
  consider base quote where "extractTokens (product e) (CHR ''/'') = [base, quote]"
    | "\<nexists>base quote. extractTokens (product e) (CHR ''/'') = [base, quote]" by blast
  then have "in_order us' \<and> locked_in us' u k = locked_in us u k + (if r = Inr True then locks e u k else 0) \<and>
    (r = Inr True \<longrightarrow> length (extractTokens (product e) (CHR ''/'')) = 2)"
  proof cases
    case 1
    show ?thesis
    proof (cases "orderType e")
      case Ask
      then have "on_wallet (username e) (lockCurrency base (amount e)) us = (r, us')"
        using assms(6) 1 by (simp add: fulfillOrder_def [abs_def] on_wallet_def)
      from lock_in_order [OF assms(1,2) this assms(3)] show ?thesis using 1 Ask by (auto simp: locks_def)
    next
      case Bid
      then have o: "on_wallet (username e) (lockCurrency quote (amount e * price e)) us = (r, us')"
        using assms(6) 1 by (simp add: fulfillOrder_def [abs_def] on_wallet_def)
      have x: "whole (amount e * price e)" if "amount e * price e \<le> free_balance (wallet_of us (username e)) quote"
        using whole_times [OF assms(3,4) w that] .
      note l = lock_in_order [OF assms(1,2) o x]
      have "dval (amount e * price e) = dval (amount e) * dval (price e)" if "r = Inr True"
      proof -
        have "amount e * price e \<le> free_balance (wallet_of us (username e)) quote"
          using on_wallet_set [OF o] wallet.lock_law that by fastforce
        from whole_times_lt [OF assms(3,4) times_below [OF assms(3,4) w this]] show ?thesis by simp
      qed
      then show ?thesis using l 1 Bid by (auto simp: locks_def)
    qed (use assms(5) in simp)
  next
    case 2
    then have "on_wallet (username e) (fulfillOrder e) us = (Inl bad_product, set_wallet (username e) (wallet_of us (username e)) us)"
      by (auto simp: on_wallet_eq fulfillOrder_def split: list.splits)
    moreover have "in_order (set_wallet (username e) (wallet_of us (username e)) us)"
      using in_order_set_wallet [OF assms(1,2) balanced_wallet [OF assms(1)]] by simp
    ultimately show ?thesis using assms(6) by (auto simp: locked_in_def)
  qed
  then show "in_order us'" "locked_in us' u k = locked_in us u k + (if r = Inr True then locks e u k else 0)"
    "r = Inr True \<Longrightarrow> length (extractTokens (product e) (CHR ''/'')) = 2" by blast+
qed

lemma cancel_in_order:
  assumes "in_order us" and "userExists us (username e)" and "sound_order e"
    and "\<And>c. locks e (username e) c \<le> locked_in us (username e) c"
    and "on_wallet (username e) (cancelOrder e) us = (r, us')"
  shows "r = Inr True" and "in_order us'" and "locked_in us' u k = locked_in us u k - locks e u k"
proof -
  obtain base quote where t: "extractTokens (product e) (CHR ''/'') = [base, quote]" using assms(3) by (rule sound_tokens)
  have wh: "whole (amount e)" "whole (price e)" using assms(3) by (auto simp: sound_order_def funded_order_def)
  have step: "r = Inr True \<and> in_order us' \<and> locked_in us' u k = locked_in us u k - (if u = username e \<and> k = c then dval x else 0)"
    if o: "on_wallet (username e) (unlockCurrency c x) us = (r, us')" and x: "whole x" "dval x \<le> locked_in us (username e) c" for c x
  proof -
    obtain us1 where us1: "on_wallet (username e) (unlockCurrency c x) us = (Inr True, us1)" "balanced (held us) (\<lambda>_. 0) us1"
      "\<And>u k. locked_in us1 u k = locked_in us u k - (if u = username e \<and> k = c then dval x else 0)"
      using unlock_ok [OF assms(1,2) x] by auto
    have "held us c + 0 < 2 ^ 53" for c using assms(1) by (simp add: balanced_def)
    from balanced_in_order [OF us1(2) this] show ?thesis using us1(1,3) o by simp
  qed
  have "r = Inr True \<and> in_order us' \<and> locked_in us' u k = locked_in us u k - locks e u k"
  proof (cases "orderType e")
    case Ask
    then have "on_wallet (username e) (unlockCurrency base (amount e)) us = (r, us')"
      using assms(5) t by (simp add: cancelOrder_def [abs_def] on_wallet_def)
    then show ?thesis using step wh(1) assms(4) [of base] t Ask by (auto simp: locks_def)
  next
    case Bid
    then have o: "on_wallet (username e) (unlockCurrency quote (amount e * price e)) us = (r, us')"
      using assms(5) t by (simp add: cancelOrder_def [abs_def] on_wallet_def)
    have le: "dval (amount e) * dval (price e) \<le> locked_in us (username e) quote"
      using assms(4) [of quote] t Bid by (simp add: locks_def)
    moreover have "locked_in us (username e) quote < 2 ^ 53"
      using balanced_wallet [OF assms(1), of "username e"] whole_value by (simp add: locked_in_def whole_wallet_def)
    ultimately have "dval (amount e) * dval (price e) < 2 ^ 53" by linarith
    note p = whole_times_lt [OF wh this]
    then show ?thesis using step [OF o p(1)] le t Bid by (auto simp: locks_def)
  qed (use assms(3) in \<open>simp add: sound_order_def\<close>)
  then show "r = Inr True" "in_order us'" "locked_in us' u k = locked_in us u k - locks e u k" by blast+
qed

section \<open>The book\<close>

lemma option_eqI: "(\<And>x. a = Some x \<longleftrightarrow> b = Some x) \<Longrightarrow> a = b"
  by (cases b) (auto simp flip: not_None_eq)

lemma open_cost_insert:
  assumes "book_ok b" and "book_ok (insertOrder e b)"
  shows "live (insertOrder e b) p = (if p = next_addr b then Some e else live b p)"
    and "open_cost (insertOrder e b) u c = open_cost b u c + locks e u c"
proof -
  have wf: "umap_wf (orderMap b)" and nodes: "nodes_ok (book_nodes b) (next_addr b)" using assms(1) by (simp_all add: book_ok_def)
  have "(next_addr b, f) \<notin> set (book_nodes b)" for f using nodes by (force simp: nodes_ok_def)
  then have fresh: "\<not> is_live b (next_addr b)" by (auto simp: is_live_def book_ok_live [OF assms(1)])
  show l: "live (insertOrder e b) p = (if p = next_addr b then Some e else live b p)" for p
  proof -
    have "live (insertOrder e b) p = Some f \<longleftrightarrow> (if p = next_addr b then f = e else live b p = Some f)" for f
      using book_ok_live [OF assms(2), of p f] book_ok_live [OF assms(1), of p f] insertOrder_set_nodes [OF wf, of e] fresh
      by (auto simp: is_live_def)
    then show ?thesis by (intro option_eqI) auto
  qed
  have "{p. is_live (insertOrder e b) p} = insert (next_addr b) {p. is_live b p}" by (auto simp: is_live_def l)
  moreover have "(\<Sum>p | is_live b p. locks (the (live (insertOrder e b) p)) u c) = open_cost b u c"
    unfolding open_cost_def using fresh by (intro sum.cong) (auto simp: l)
  ultimately show "open_cost (insertOrder e b) u c = open_cost b u c + locks e u c"
    unfolding open_cost_def using fresh finite_live [of b] by (simp add: l)
qed

lemma open_cost_unlink:
  assumes "book_ok b" and "book_ok b'" and "unlink b q e b'"
  shows "live b' p = (if p = q then None else live b p)"
    and "open_cost b' u c = open_cost b u c - locks e u c"
proof -
  have ms: "mset (book_nodes b) = add_mset (q, e) (mset (book_nodes b'))" using assms(3) by (simp add: unlink_def)
  then have nodes: "set (book_nodes b) = insert (q, e) (set (book_nodes b'))"
    by (metis set_mset_add_mset_insert set_mset_mset)
  then have le: "live b q = Some e" by (simp add: book_ok_live [OF assms(1)])
  have "distinct (map fst (book_nodes b))" using assms(1) by (simp add: book_ok_def nodes_ok_def)
  moreover have "mset (map fst (book_nodes b)) = add_mset q (mset (map fst (book_nodes b')))" using ms by simp
  ultimately have q: "q \<notin> fst ` set (book_nodes b')"
    by (metis distinct.simps(2) image_set mset.simps(2) mset_eq_imp_distinct_iff)
  then show l: "live b' p = (if p = q then None else live b p)" for p
  proof -
    have "live b' p = Some f \<longleftrightarrow> p \<noteq> q \<and> live b p = Some f" for f
      using book_ok_live [OF assms(2), of p f] book_ok_live [OF assms(1), of p f] nodes q
      by force
    then show ?thesis by (intro option_eqI) auto
  qed
  have "{p. is_live b' p} = {p. is_live b p} - {q}" by (auto simp: is_live_def l)
  moreover have "(\<Sum>p\<in>{p. is_live b p} - {q}. locks (the (live b' p)) u c) = (\<Sum>p\<in>{p. is_live b p} - {q}. locks (the (live b p)) u c)"
    by (intro sum.cong) (auto simp: l)
  moreover have "q \<in> {p. is_live b p}" using le by (simp add: is_live_def)
  ultimately show "open_cost b' u c = open_cost b u c - locks e u c"
    unfolding open_cost_def using sum.remove [OF finite_live, of q b "\<lambda>p. locks (the (live b p)) u c"] le by simp
qed

end
