(* ===== verification/Funded_System.thy ===== *)
theory Funded_System
  imports Whole_Accounts
begin

text \<open>
  The exchange in whole numbers: clients that send integers, with less than \<open>2 ^ 53\<close> of every currency
  deposited, and whose \<open>CANCEL\<close> is not interrupted. Every other interleaving of commands and passes is
  allowed. Every account then always has the costs of its open orders locked, and no pass throws.
\<close>

section \<open>Runs\<close>

text \<open>An event is calm if its numbers are integers and the total of the currency stays small.\<close>

fun calm :: "system \<Rightarrow> event \<Rightarrow> bool" where
  "calm s (Deposit i ty x) = (whole x \<and> held (userStore s) ty + dval x < 2 ^ 53)"
| "calm s (Withdraw i ty x) = whole x"
| "calm s (PlaceLock i ty pr a p ts) = (whole a \<and> whole p)"
| "calm s (CancelFind i oid) = False"
| "calm s (CancelUnlock i) = False"
| "calm s (CancelRemove i) = False"
| "calm s ev = True"

datatype deed = Step event | Cancellation nat nat

fun perform_deed ::
  "((node \<Rightarrow> node \<Rightarrow> bool) \<Rightarrow> node list \<Rightarrow> node list) \<Rightarrow> deed \<Rightarrow> system \<Rightarrow> system option" where
  "perform_deed srt (Step ev) s = (if calm s ev then perform srt ev s else None)"
| "perform_deed srt (Cancellation i oid) s = run_events srt [CancelFind i oid, CancelUnlock i, CancelRemove i] s"

fun run_deeds ::
  "((node \<Rightarrow> node \<Rightarrow> bool) \<Rightarrow> node list \<Rightarrow> node list) \<Rightarrow> deed list \<Rightarrow> system \<Rightarrow> system option" where
  "run_deeds srt [] s = Some s"
| "run_deeds srt (d # ds) s = (case perform_deed srt d s of None \<Rightarrow> None | Some s' \<Rightarrow> run_deeds srt ds s')"

section \<open>The invariant\<close>

text \<open>What is locked for an order that is not in the book yet.\<close>

definition reserved :: "conn \<Rightarrow> string \<Rightarrow> string \<Rightarrow> rat" where
  "reserved k u c = (case conn_phase k of Placing e \<Rightarrow> locks e u c | _ \<Rightarrow> 0)"

definition funded :: "system \<Rightarrow> bool" where
  "funded s \<longleftrightarrow> system_ok s \<and> in_order (userStore s) \<and>
     (\<forall>p e. live (orderBook s) p = Some e \<longrightarrow> sound_order e) \<and>
     (\<forall>i e. conn_phase (conns s i) = Placing e \<longrightarrow> sound_order e) \<and>
     (\<forall>u c I. finite I \<longrightarrow>
        open_cost (orderBook s) u c + (\<Sum>i\<in>I. reserved (conns s i) u c) \<le> locked_in (userStore s) u c)"

lemma funded_parts:
  assumes "funded s"
  shows "system_ok s" "in_order (userStore s)" "live (orderBook s) p = Some e \<Longrightarrow> sound_order e"
    "conn_phase (conns s i) = Placing e \<Longrightarrow> sound_order e"
    "finite I \<Longrightarrow> open_cost (orderBook s) u c + (\<Sum>i\<in>I. reserved (conns s i) u c) \<le> locked_in (userStore s) u c"
    "book_ok (orderBook s)" "live (orderBook s) p = Some e \<Longrightarrow> userExists (userStore s) (username e)"
proof -
  show ok: "system_ok s" "in_order (userStore s)" "conn_phase (conns s i) = Placing e \<Longrightarrow> sound_order e"
    "finite I \<Longrightarrow> open_cost (orderBook s) u c + (\<Sum>i\<in>I. reserved (conns s i) u c) \<le> locked_in (userStore s) u c"
    using assms by (auto simp: funded_def)
  show b: "book_ok (orderBook s)" using ok(1) by (simp add: system_ok_def)
  assume l: "live (orderBook s) p = Some e"
  then show snd: "sound_order e" using assms by (auto simp: funded_def)
  have "username e = default_user \<or> userExists (userStore s) (username e)"
    using ok(1) l book_ok_live [OF b] by (force simp: system_ok_def owners_exist_def)
  then show "userExists (userStore s) (username e)" using snd by (auto simp: sound_order_def funded_order_def)
qed

lemma reserved_nonneg: "(\<And>e. conn_phase k = Placing e \<Longrightarrow> sound_order e) \<Longrightarrow> 0 \<le> reserved k u c"
  by (cases "conn_phase k") (auto simp: reserved_def locks_nonneg)

text \<open>
  A step of one connection: what it adds to the open orders and to its own reservation it has
  locked in addition.
\<close>

lemma funded_step:
  assumes F: "funded s" and ok: "system_ok s'" and users: "in_order (userStore s')"
    and book: "\<And>p e. live (orderBook s') p = Some e \<Longrightarrow> sound_order e"
    and conns: "conns s' = (conns s)(i := k)" and k: "\<And>e. conn_phase k = Placing e \<Longrightarrow> sound_order e"
    and change: "\<And>u c. open_cost (orderBook s') u c + reserved k u c + locked_in (userStore s) u c
      \<le> open_cost (orderBook s) u c + reserved (conns s i) u c + locked_in (userStore s') u c"
  shows "funded s'"
proof -
  have snd: "sound_order e" if "conn_phase (conns s' j) = Placing e" for j e
    using that k funded_parts(4) [OF F] by (auto simp: conns split: if_splits)
  have "open_cost (orderBook s') u c + (\<Sum>j\<in>I. reserved (conns s' j) u c) \<le> locked_in (userStore s') u c"
    if I: "finite I" for I u c
  proof -
    obtain J where J: "finite J" "i \<notin> J" "I \<subseteq> insert i J" using I by (metis Diff_iff finite_Diff insertCI insert_Diff_single subsetI)
    have "(\<Sum>j\<in>I. reserved (conns s' j) u c) \<le> (\<Sum>j\<in>insert i J. reserved (conns s' j) u c)"
      using J snd reserved_nonneg by (intro sum_mono2) auto
    also have "\<dots> = reserved k u c + (\<Sum>j\<in>J. reserved (conns s' j) u c)" using J by (simp add: conns)
    also have "(\<Sum>j\<in>J. reserved (conns s' j) u c) = (\<Sum>j\<in>J. reserved (conns s j) u c)"
      using J(2) by (intro sum.cong) (auto simp: conns)
    finally show ?thesis
      using change [of u c] funded_parts(5) [OF F, of "insert i J" u c] J by simp
  qed
  then show ?thesis using ok users book snd by (simp add: funded_def)
qed

lemma funded_start:
  assumes "server_ok s0" and "in_order (userStore s0)" and "users_ok (userStore s0)" and "book_nodes (orderBook s0) = []"
  shows "funded (start_system s0)"
proof -
  have "system_ok (start_system s0)" using assms by (intro start_system_ok) (auto simp: all_fine_def)
  moreover have "0 \<le> locked_in (userStore s0) u c" for u c
    using balanced_wallet [OF assms(2), of u] whole_value by (simp add: locked_in_def whole_wallet_def)
  ultimately show ?thesis
    using assms(2,4) by (simp add: funded_def live_def open_cost_def is_live_def reserved_def)
qed

section \<open>The steps\<close>

lemma reserved_idle: "(\<And>e. conn_phase k \<noteq> Placing e) \<Longrightarrow> reserved k u c = 0"
  by (cases "conn_phase k") (auto simp: reserved_def)

text \<open>Steps that change no order and lower no locked balance.\<close>

lemma funded_quiet:
  assumes F: "funded s" and "system_ok s'" and "in_order (userStore s')" and "orderBook s' = orderBook s"
    and "conns s' = (conns s)(i := k)" and k: "\<And>e. conn_phase k \<noteq> Placing e"
    and "\<And>u c. locked_in (userStore s') u c = locked_in (userStore s) u c"
  shows "funded s'"
proof (rule funded_step [OF F assms(2,3) _ assms(5)])
  fix u c
  have "0 \<le> reserved (conns s i) u c" by (rule reserved_nonneg) (rule funded_parts(4) [OF F])
  then show "open_cost (orderBook s') u c + reserved k u c + locked_in (userStore s) u c
      \<le> open_cost (orderBook s) u c + reserved (conns s i) u c + locked_in (userStore s') u c"
    using reserved_idle [OF k] assms(4,7) by simp
qed (use funded_parts(3) [OF F] assms(4) k in auto)

lemma funded_same:
  assumes "funded s" and "system_ok s'" and "userStore s' = userStore s" and "orderBook s' = orderBook s"
    and "conns s' = conns s"
  shows "funded s'"
  using assms by (simp add: funded_def)

lemma funded_owner:
  assumes "funded s" and "may_act i s"
  shows "userExists (userStore s) (conn_user (conns s i))" and "conn_user (conns s i) \<noteq> default_user"
  using conn_ok_user [OF funded_parts(1) [OF assms(1)], of i] assms(2) by (auto simp: conn_ok_def may_act_def)

lemma funded_place_lock:
  assumes F: "funded s" and ok: "system_ok s'" and wh: "whole a" "whole p"
    and run: "perform_step srt (PlaceLock i ty pr a p ts) s = Some s'"
  shows "funded s'"
proof -
  let ?u = "conn_user (conns s i)"
  let ?e = "\<lparr>price = p, amount = a, timestamp = ts, product = pr, orderType = ty, username = ?u, order_id = nextId s\<rparr>"
  obtain r us where o: "on_wallet ?u (fulfillOrder ?e) (userStore s) = (r, us)" by fastforce
  let ?ph = "if r = Inr True then Placing ?e else Idle"
  have act: "may_act i s" "ty \<noteq> Sale" and s': "s' = put_conn i ?u ?ph (s\<lparr>nextId := size_t_succ (nextId s), userStore := us\<rparr>)"
    using run o by (auto simp: OrderBookEntry_def Let_def split: if_splits)
  note own = funded_owner [OF F act(1)]
  have "on_wallet (username ?e) (fulfillOrder ?e) (userStore s) = (r, us)" using o by simp
  note l = fulfill_in_order [OF funded_parts(2) [OF F] _ _ _ _ this]
  have snd: "sound_order ?e" if "r = Inr True"
    using l(3) that own act(2) wh by (simp add: sound_order_def funded_order_def)
  have idle: "reserved (conns s i) u c = 0" for u c using act(1) by (intro reserved_idle) (simp add: may_act_def)
  show ?thesis
  proof (rule funded_step [OF F ok])
    show "in_order (userStore s')" using l(1) own act(2) wh by (simp add: s')
    show "conns s' = (conns s)(i := \<lparr>conn_user = ?u, conn_phase = ?ph\<rparr>)" by (simp add: s')
    show "open_cost (orderBook s') u c + reserved \<lparr>conn_user = ?u, conn_phase = ?ph\<rparr> u c + locked_in (userStore s) u c
      \<le> open_cost (orderBook s) u c + reserved (conns s i) u c + locked_in (userStore s') u c" for u c
      using l(2) [of u c] own act(2) wh idle by (simp add: s' reserved_def)
    show "sound_order e" if "live (orderBook s') q = Some e" for q e using that funded_parts(3) [OF F] by (simp add: s')
    show "sound_order e" if "conn_phase \<lparr>conn_user = ?u, conn_phase = ?ph\<rparr> = Placing e" for e
      using that snd by (auto split: if_splits)
  qed
qed

lemma funded_place_insert:
  assumes F: "funded s" and ok: "system_ok s'" and ph: "conn_phase (conns s i) = Placing e"
    and s': "s' = put_conn i (conn_user (conns s i)) (Queueing (product e)) (s\<lparr>orderBook := insertOrder e (orderBook s)\<rparr>)"
  shows "funded s'"
proof -
  have ok': "book_ok (insertOrder e (orderBook s))" using ok by (simp add: s' system_ok_def)
  note ins = open_cost_insert [OF funded_parts(6) [OF F] ok']
  show ?thesis
  proof (rule funded_step [OF F ok])
    show "in_order (userStore s')" using funded_parts(2) [OF F] by (simp add: s')
    show "conns s' = (conns s)(i := \<lparr>conn_user = conn_user (conns s i), conn_phase = Queueing (product e)\<rparr>)" by (simp add: s')
    show "sound_order f" if "live (orderBook s') q = Some f" for q f
      using that funded_parts(3) [OF F] funded_parts(4) [OF F ph] by (auto simp: s' ins(1) split: if_splits)
    show "open_cost (orderBook s') u c + reserved \<lparr>conn_user = conn_user (conns s i), conn_phase = Queueing (product e)\<rparr> u c
        + locked_in (userStore s) u c \<le> open_cost (orderBook s) u c + reserved (conns s i) u c + locked_in (userStore s') u c" for u c
      using ph by (simp add: s' ins(2) reserved_def)
  qed simp
qed

section \<open>Passes\<close>

definition pass_state :: "system \<Rightarrow> match_state" where
  "pass_state s = \<lparr>m_book = orderBook s, m_users = userStore s, m_sales = [], m_nextId = nextId s\<rparr>"

lemma funded_paid:
  assumes "funded s" and "finite I"
  shows "paid (held (userStore s)) (\<lambda>u c. \<Sum>i\<in>I. reserved (conns s i) u c) (pass_state s)"
  unfolding paid_def
proof (intro conjI allI impI)
  show "0 \<le> (\<Sum>i\<in>I. reserved (conns s i) u c)" for u c
    by (intro sum_nonneg reserved_nonneg) (rule funded_parts(4) [OF assms(1)])
qed (use funded_parts [OF assms(1)] assms(2) in \<open>auto simp: pass_state_def\<close>)

lemma funded_pass:
  assumes "funded s" and "std_sort srt"
  obtains sales t where "matchAsksToBids srt pr ts (pass_state s) = (Inr sales, t)"
    "\<And>I. finite I \<Longrightarrow> paid (held (userStore s)) (\<lambda>u c. \<Sum>i\<in>I. reserved (conns s i) u c) t"
proof -
  have b: "book_ok (m_book (pass_state s))" using funded_parts(6) [OF assms(1)] by (simp add: pass_state_def)
  have P: "\<exists>sales t. matchAsksToBids srt pr ts (pass_state s) = (Inr sales, t) \<and>
      paid (held (userStore s)) (\<lambda>u c. \<Sum>i\<in>I. reserved (conns s i) u c) t" if "finite I" for I
    using paid_returns [OF funded_paid [OF assms(1) that] b assms(2)] by blast
  from P [of "{}"] obtain sales t where t: "matchAsksToBids srt pr ts (pass_state s) = (Inr sales, t)" by auto
  show ?thesis by (rule that [OF t]) (use P t in fastforce)
qed

lemma funded_run_task:
  assumes F: "funded s" and srt: "std_sort srt" and ok: "system_ok s'" and run: "perform_step srt (RunTask k ctime) s = Some s'"
  shows "funded s'"
proof -
  obtain sales t where t: "matchAsksToBids srt (tasks s ! k) (getCurrentTimestamp ctime) (pass_state s) = (Inr sales, t)"
    and P: "\<And>I. finite I \<Longrightarrow> paid (held (userStore s)) (\<lambda>u c. \<Sum>i\<in>I. reserved (conns s i) u c) t"
    using funded_pass [OF F srt] by blast
  have s': "s' = s\<lparr>orderBook := m_book t, userStore := m_users t, nextId := m_nextId t,
      tasks := take k (tasks s) @ drop (Suc k) (tasks s)\<rparr>"
    using run t by (auto simp: run_task_def pass_state_def split: if_splits)
  have P0: "balanced (held (userStore s)) (\<lambda>_. 0) (m_users t)" "\<And>p e. live (m_book t) p = Some e \<Longrightarrow> sound_order e"
    using P [of "{}"] by (auto simp: paid_def)
  have "held (userStore s) c + 0 < 2 ^ 53" for c using funded_parts(2) [OF F] by (simp add: balanced_def)
  from balanced_in_order [OF P0(1) this] have "in_order (m_users t)" by simp
  moreover have "open_cost (m_book t) u c + (\<Sum>i\<in>I. reserved (conns s i) u c) \<le> locked_in (m_users t) u c"
    if "finite I" for u c I using P [OF that] by (simp add: paid_def)
  ultimately show ?thesis
    using ok P0(2) funded_parts(4) [OF F] by (auto simp: funded_def s')
qed

section \<open>Cancelling without interruption\<close>

lemma lock_le_open:
  assumes "\<And>p e. live b p = Some e \<Longrightarrow> sound_order e" and "live b p = Some e"
  shows "locks e u c \<le> open_cost b u c"
proof -
  let ?l = "\<lambda>p. locks (the (live b p)) u c"
  have "?l p \<le> sum ?l {p. is_live b p}"
    using assms locks_nonneg by (intro member_le_sum finite_live) (auto simp: is_live_def)
  then show ?thesis using assms(2) by (simp add: open_cost_def)
qed

lemma run_events_Cons:
  "run_events srt (ev # evs) s = Some s' \<longleftrightarrow> (\<exists>s1. perform srt ev s = Some s1 \<and> run_events srt evs s1 = Some s')"
  by (simp split: option.split)

lemma perform_Some: "perform srt ev s = Some s' \<longleftrightarrow> \<not> faulty s \<and> perform_step srt ev s = Some s'"
  by (simp add: perform_def)

lemma funded_cancellation:
  assumes F: "funded s" and ok: "system_ok s'"
    and run: "run_events srt [CancelFind i oid, CancelUnlock i, CancelRemove i] s = Some s'"
  shows "funded s'"
proof -
  let ?u = "conn_user (conns s i)" and ?b = "orderBook s"
  have b: "book_ok ?b" by (rule funded_parts(6) [OF F])
  let ?es = "map (\<lambda>p. the (live ?b p)) (user_ptrs ?b ?u)"
  obtain s1 s2 where ev: "perform_step srt (CancelFind i oid) s = Some s1" "perform_step srt (CancelUnlock i) s1 = Some s2"
    "perform_step srt (CancelRemove i) s2 = Some s'" "\<not> faulty s1"
    using run by (auto simp only: run_events_Cons perform_Some run_events.simps(1))
  obtain e where find: "find (\<lambda>e. oid = order_id e) ?es = Some e" and act: "may_act i s"
    and s1: "s1 = put_conn i ?u (Cancelling oid e) s"
    using ev(1) getOrdersForUser_ok [OF b, of ?u]
    by (auto simp: Let_def simp del: map_map split: if_splits option.splits)
  have e: "e \<in> set ?es" using find by (metis find_Some_iff nth_mem)
  have id: "order_id e = oid" using find unfolding find_Some_iff by (elim exE conjE) simp
  from e obtain q where q: "q \<in> set (user_ptrs ?b ?u)" "e = the (live ?b q)" by auto
  from q(1) have "umap_find (userOrders ?b) ?u = Some (user_ptrs ?b ?u)"
    by (cases "umap_find (userOrders ?b) ?u"; simp add: user_ptrs_def umap_index_def)
  from book_ok_index [OF b this q(1)] have le: "live ?b q = Some e" and u: "username e = ?u" using q(2) by auto
  obtain r us where o: "on_wallet ?u (cancelOrder e) (userStore s) = (r, us)" by fastforce
  have "locks e v c \<le> locked_in (userStore s) v c" for v c
    using lock_le_open [where b = ?b and u = v and c = c, OF _ le] funded_parts(3) [OF F]
      funded_parts(5) [OF F, where I = "{}" and u = v and c = c] by fastforce
  note c = cancel_in_order [OF funded_parts(2) [OF F] funded_parts(7) [OF F le] funded_parts(3) [OF F le] this, unfolded u, OF o]
  obtain b' where rm: "removeOrderById ?u oid ?b = (Inr True, b')" "unlink ?b q e b'" "book_ok b'"
    using b
  proof (cases rule: removeOrderById_cases [of ?b ?u oid])
    case 1
    then show ?thesis using q id le by force
  next
    case (2 p f b')
    then have "p = q \<and> f = e" using le id book_ok_same_id [OF b] by (auto simp: book_ok_live [OF b])
    then show ?thesis using that 2 by blast
  qed
  have "s2 = put_conn i ?u (Removing oid) (s1\<lparr>userStore := us\<rparr>)" using ev(2) o c(1) by (simp add: s1 Let_def)
  then have s': "orderBook s' = b'" "userStore s' = us" "conns s' = (conns s)(i := \<lparr>conn_user = ?u, conn_phase = Idle\<rparr>)"
    using ev(3) rm(1) by (auto simp: s1 Let_def)
  note ul = open_cost_unlink [OF b rm(3,2)]
  have idle: "reserved (conns s i) v c = 0" for v c using act by (intro reserved_idle) (simp add: may_act_def)
  show ?thesis
  proof (rule funded_step [OF F ok])
    show "in_order (userStore s')" using c(2) by (simp add: s')
    show "conns s' = (conns s)(i := \<lparr>conn_user = ?u, conn_phase = Idle\<rparr>)" by (simp add: s')
    show "sound_order f" if "live (orderBook s') p = Some f" for p f
      using that funded_parts(3) [OF F] by (auto simp: s' ul(1) split: if_splits)
    show "open_cost (orderBook s') v k + reserved \<lparr>conn_user = ?u, conn_phase = Idle\<rparr> v k + locked_in (userStore s) v k
      \<le> open_cost (orderBook s) v k + reserved (conns s i) v k + locked_in (userStore s') v k" for v k
      using c(3) idle by (simp add: s' ul(2) reserved_def)
  qed simp
qed

section \<open>Every deed\<close>

lemma calm_good: "calm s ev \<Longrightarrow> good_event ev"
  by (cases ev) (auto simp: whole_payable whole_good_order)

lemma funded_event:
  assumes F: "funded s" and srt: "std_sort srt" and calm: "calm s ev" and run: "perform_step srt ev s = Some s'"
  shows "funded s'"
proof -
  have ok: "system_ok s'" using perform_step_keeps [OF funded_parts(1) [OF F] calm_good [OF calm] srt run] by simp
  note quiet = funded_quiet [OF F ok] and ord = funded_parts(2) [OF F]
  have idle: "conns s = (conns s)(i := conns s i)" and np: "may_act i s \<Longrightarrow> conn_phase (conns s i) \<noteq> Placing e" for i e
    by (simp_all add: may_act_def)
  show ?thesis
  proof (cases ev)
    case (RegisterCheck i v p)
    then have "s' = put_conn i (conn_user (conns s i)) (Registering v p) s" using run by (auto split: if_splits)
    then show ?thesis using quiet [where i = i] ord by simp
  next
    case (RegisterAdd i)
    then obtain v p where "s' = put_conn i v Idle (s\<lparr>userStore := addUser v p (userStore s)\<rparr>)" using run by (auto split: phase.splits)
    then show ?thesis using quiet [where i = i] in_order_addUser [OF ord] by simp
  next
    case (Login i v p)
    then have "s' = put_conn i v Idle s" using run by (auto split: if_splits)
    then show ?thesis using quiet [where i = i] ord by simp
  next
    case (Deposit i ty x)
    let ?u = "conn_user (conns s i)"
    obtain r us where o: "on_wallet ?u (insertCurrency ty x) (userStore s) = (r, us)" by fastforce
    have act: "may_act i s" and s': "s' = s\<lparr>userStore := us\<rparr>" using run o Deposit by (auto split: if_splits)
    have c: "whole x" "held (userStore s) ty + dval x < 2 ^ 53" using calm Deposit by auto
    show ?thesis
      using quiet [of i "conns s i"] deposit_in_order [OF ord funded_owner(1) [OF F act] c o] np [OF act] by (simp add: s')
  next
    case (Withdraw i ty x)
    let ?u = "conn_user (conns s i)"
    obtain r us where o: "on_wallet ?u (removeCurrency ty x) (userStore s) = (r, us)" by fastforce
    have act: "may_act i s" and s': "s' = s\<lparr>userStore := us\<rparr>" using run o Withdraw by (auto split: if_splits)
    have c: "whole x" using calm Withdraw by simp
    show ?thesis
      using quiet [of i "conns s i"] withdraw_in_order [OF ord funded_owner(1) [OF F act] c o] np [OF act] by (simp add: s')
  next
    case (PlaceLock i ty pr a p ts)
    have "whole a" "whole p" using calm PlaceLock by simp_all
    from funded_place_lock [OF F ok this run [unfolded PlaceLock]] show ?thesis .
  next
    case (PlaceInsert i)
    then obtain e where "conn_phase (conns s i) = Placing e"
      "s' = put_conn i (conn_user (conns s i)) (Queueing (product e)) (s\<lparr>orderBook := insertOrder e (orderBook s)\<rparr>)"
      using run by (auto split: phase.splits)
    then show ?thesis by (rule funded_place_insert [OF F ok])
  next
    case (PlaceQueue i)
    then consider ps where "s' = put_conn i (conn_user (conns s i)) Idle (s\<lparr>pendingProducts := ps\<rparr>)"
      | "s' = put_conn i (conn_user (conns s i)) Idle s" using run by (auto split: phase.splits if_splits)
    then show ?thesis using quiet [where i = i] ord by cases simp_all
  next
    case (ReadPointers i pr)
    then obtain ps where "s' = put_conn i (conn_user (conns s i)) (Reading ps) s" using run by (auto split: if_splits)
    then show ?thesis using quiet [where i = i] ord by simp
  next
    case (ReadOrders i)
    then consider "s' = s\<lparr>faulty := True\<rparr>" | "s' = put_conn i (conn_user (conns s i)) Idle s"
      using run by (auto split: phase.splits sum.splits)
    then show ?thesis using quiet [where i = i] ord funded_same [OF F ok] by cases simp_all
  next
    case TakeProduct
    then show ?thesis using run funded_same [OF F ok] by (auto split: list.splits if_splits)
  next
    case (RunTask k ctime)
    from funded_run_task [OF F srt ok run [unfolded RunTask]] show ?thesis .
  qed (use calm in simp_all)
qed

lemma funded_deed:
  assumes F: "funded s" and srt: "std_sort srt" and run: "perform_deed srt d s = Some s'"
  shows "funded s'"
proof (cases d)
  case (Step ev)
  then show ?thesis using run funded_event [OF F srt] by (auto simp: perform_Some split: if_splits)
next
  case (Cancellation i oid)
  then have r: "run_events srt [CancelFind i oid, CancelUnlock i, CancelRemove i] s = Some s'" using run by simp
  then obtain s1 s2 where ev: "perform_step srt (CancelFind i oid) s = Some s1" "perform_step srt (CancelUnlock i) s1 = Some s2"
    "perform_step srt (CancelRemove i) s2 = Some s'"
    by (auto simp only: run_events_Cons perform_Some run_events.simps(1))
  have "system_ok s1" using perform_step_keeps [OF funded_parts(1) [OF F] _ srt ev(1)] by simp
  then have "system_ok s2" using perform_step_keeps [OF _ _ srt ev(2)] by simp
  then have "system_ok s'" using perform_step_keeps [OF _ _ srt ev(3)] by simp
  then show ?thesis by (rule funded_cancellation [OF F _ r])
qed

lemma funded_deeds: "funded s \<Longrightarrow> std_sort srt \<Longrightarrow> run_deeds srt ds s = Some s' \<Longrightarrow> funded s'"
  by (induction ds arbitrary: s) (auto split: option.splits dest: funded_deed)

text \<open>
  C3: from a server without orders, whatever clients and matching tasks do in whole numbers, with less than
  \<open>2 ^ 53\<close> of every currency deposited, and in any interleaving in which \<open>CANCEL\<close> is not interrupted: every account has at least the costs of
  its open orders locked, and a pass over any product returns -- no settlement ever fails.
\<close>

theorem whole_exchange_never_fails:
  assumes "server_ok s0" and "in_order (userStore s0)" and "users_ok (userStore s0)" and "book_nodes (orderBook s0) = []"
    and "std_sort srt" and "run_deeds srt ds (start_system s0) = Some s"
  shows "(\<forall>u c. open_cost (orderBook s) u c \<le> locked_in (userStore s) u c) \<and>
    (\<exists>sales t. matchAsksToBids srt pr ts (pass_state s) = (Inr sales, t) \<and>
      (\<forall>c. held (m_users t) c = held (userStore s) c))"
proof -
  have F: "funded s" by (rule funded_deeds [OF funded_start [OF assms(1-4)] assms(5,6)])
  obtain sales t where t: "matchAsksToBids srt pr ts (pass_state s) = (Inr sales, t)"
    "paid (held (userStore s)) (\<lambda>u c. \<Sum>i\<in>{}. reserved (conns s i) u c) t"
    using funded_pass [OF F assms(5), of pr ts] by blast
  have "open_cost (orderBook s) u c \<le> locked_in (userStore s) u c" for u c
    using funded_parts(5) [OF F, where I = "{}" and u = u and c = c] by simp
  moreover have "held (m_users t) c = held (userStore s) c" for c using t(2) by (simp add: paid_def balanced_def)
  ultimately show ?thesis using t(1) by blast
qed

definition ex_deeds :: "deed list" where
  "ex_deeds = map Step [RegisterCheck 0 ''s'' ''x'', RegisterCheck 1 ''b'' ''y'', RegisterAdd 0, RegisterAdd 1,
       Deposit 0 ''A'' (Fin 5), Deposit 1 ''B'' (Fin 9), PlaceLock 0 Ask ''A/B'' (Fin 3) (Fin 2) ''t'',
       PlaceLock 1 Bid ''A/B'' (Fin 2) (Fin 4) ''t'', PlaceInsert 1, PlaceInsert 0, PlaceQueue 0, PlaceQueue 1,
       PlaceLock 0 Ask ''A/B'' (Fin 2) (Fin 9) ''t'', PlaceInsert 0, PlaceQueue 0] @ [Cancellation 0 3, Step TakeProduct]"

theorem whole_exchange_never_fails_witness:
  "case run_deeds stable_sort ex_deeds (start_system ex_empty) of
     None \<Rightarrow> False
   | Some s \<Rightarrow> open_cost (orderBook s) ''b'' ''B'' \<le> locked_in (userStore s) ''b'' ''B'' \<and>
       (\<exists>sales t. matchAsksToBids stable_sort ''A/B'' ''n'' (pass_state s) = (Inr sales, t))"
proof -
  have "run_deeds stable_sort ex_deeds (start_system ex_empty) \<noteq> None" by code_simp
  then obtain s where s: "run_deeds stable_sort ex_deeds (start_system ex_empty) = Some s" by auto
  have "server_ok ex_empty" "users_ok (userStore ex_empty)" "book_nodes (orderBook ex_empty) = []"
    "in_order (userStore ex_empty)"
    by (auto simp: ex_empty_def server_ok_def book_ok_def index_ok_def nodes_ok_def book_nodes_def umap_wf_def umap_find_def
        ids_below_def owners_exist_def accounts_ok_def users_ok_def balanced_def held_def)
  from whole_exchange_never_fails [OF this(1,4,2,3) stable.std_sort_axioms s, of "''A/B''" "''n''"]
  show ?thesis using s by auto
qed

end
