(* ===== verification/Simulation.thy ===== *)
theory Simulation
  imports Interleaving_Properties
begin

text \<open>
  The two models of the commands agree: whatever a handler of the theory Server does to the server in one
  go, the steps of the theory Interleaving do when nothing comes between them. This covers every
  message, refused or accepted, and whole conversations.
\<close>

section \<open>A session as a system\<close>

text \<open>The connection an event belongs to; the events of the matching engine belong to none.\<close>

fun actor :: "event \<Rightarrow> nat option" where
  "actor (RegisterCheck i v p) = Some i"
| "actor (RegisterAdd i) = Some i"
| "actor (Login i v p) = Some i"
| "actor (Deposit i ty x) = Some i"
| "actor (Withdraw i ty x) = Some i"
| "actor (PlaceLock i ty pr a p ts) = Some i"
| "actor (PlaceInsert i) = Some i"
| "actor (PlaceQueue i) = Some i"
| "actor (CancelFind i oid) = Some i"
| "actor (CancelUnlock i) = Some i"
| "actor (CancelRemove i) = Some i"
| "actor (ReadPointers i pr) = Some i"
| "actor (ReadOrders i) = Some i"
| "actor TakeProduct = None"
| "actor (RunTask k ctime) = None"

lemma alone_updates [simp]:
  "(alone s)\<lparr>orderBook := b\<rparr> = alone (s\<lparr>orderBook := b\<rparr>)" "(alone s)\<lparr>userStore := us\<rparr> = alone (s\<lparr>userStore := us\<rparr>)"
  "(alone s)\<lparr>nextId := n\<rparr> = alone (s\<lparr>nextId := n\<rparr>)" "(alone s)\<lparr>pendingProducts := q\<rparr> = alone (s\<lparr>pendingProducts := q\<rparr>)"
  "alone (s\<lparr>sent := t\<rparr>) = alone s" "put_conn 0 u Idle (alone s) = alone (s\<lparr>session_user := u\<rparr>)"
  by (simp_all add: alone_def start_system_def put_conn_def server.defs system.defs)

lemma put_conn_updates [simp]:
  "(put_conn i u ph s)\<lparr>orderBook := b\<rparr> = put_conn i u ph (s\<lparr>orderBook := b\<rparr>)"
  "(put_conn i u ph s)\<lparr>userStore := us\<rparr> = put_conn i u ph (s\<lparr>userStore := us\<rparr>)"
  "(put_conn i u ph s)\<lparr>nextId := n\<rparr> = put_conn i u ph (s\<lparr>nextId := n\<rparr>)"
  "(put_conn i u ph s)\<lparr>pendingProducts := q\<rparr> = put_conn i u ph (s\<lparr>pendingProducts := q\<rparr>)"
  "put_conn i u ph (put_conn i v ph' s) = put_conn i u ph s"
  by (simp_all add: put_conn_def)

definition simulated :: "((node \<Rightarrow> node \<Rightarrow> bool) \<Rightarrow> node list \<Rightarrow> node list) \<Rightarrow> session \<Rightarrow> session \<Rightarrow> bool" where
  "simulated srt s s' \<longleftrightarrow> (\<exists>evs. list_all (\<lambda>ev. actor ev = Some 0) evs \<and> run_events srt evs (alone s) = Some (alone s'))"

lemma simulatedI:
  "list_all (\<lambda>ev. actor ev = Some 0) evs \<Longrightarrow> run_events srt evs (alone s) = Some (alone s') \<Longrightarrow> simulated srt s s'"
  unfolding simulated_def by blast

lemma simulated_refl: "simulated srt s s" "simulated srt s (s\<lparr>sent := t\<rparr>)"
  by (rule simulatedI [of "[]"]; simp)+

lemma run_events_append:
  "run_events srt (xs @ ys) s = (case run_events srt xs s of None \<Rightarrow> None | Some t \<Rightarrow> run_events srt ys t)"
  by (induction xs arbitrary: s) (auto split: option.splits)

lemma simulated_trans: "simulated srt s s1 \<Longrightarrow> simulated srt s1 s2 \<Longrightarrow> simulated srt s s2"
  unfolding simulated_def
  by (elim exE conjE, rename_tac xs ys, rule_tac x = "xs @ ys" in exI) (simp add: run_events_append)

lemma simulated_sent: "simulated srt s (s'\<lparr>sent := t\<rparr>) = simulated srt s s'"
  by (simp add: simulated_def)

section \<open>The handlers\<close>

lemma session_user_ok:
  assumes "session_ok s" and "session_user s \<noteq> []"
  shows "userExists (userStore s) (session_user s)" and "may_act 0 (alone s)"
  using assms by (simp_all add: session_ok_def may_act_def)

lemma sim_register: "handle_register tokens s = (r, s') \<Longrightarrow> simulated srt s s'"
proof (erule register_cases)
  fix c v p assume "v \<noteq> default_user" "\<not> userExists (userStore s) v"
    "s' = s\<lparr>userStore := addUser v p (userStore s), session_user := v\<rparr>"
  then show ?thesis
    by (intro simulatedI [of "[RegisterCheck 0 v p, RegisterAdd 0]"]) (simp_all add: perform_def)
qed (simp_all add: simulated_refl)

lemma sim_login: "handle_login tokens s = (r, s') \<Longrightarrow> simulated srt s s'"
proof (erule login_cases)
  fix c v p w assume "v \<noteq> default_user" "umap_find (userStore s) v = Some w" "password w = p"
    "s' = s\<lparr>session_user := v\<rparr>"
  then show ?thesis
    by (intro simulatedI [of "[Login 0 v p]"])
      (simp_all add: perform_def userExists_def validatePassword_def user_at_def)
qed (simp_all add: simulated_refl)

lemma sim_try:
  assumes "try_catch m (respond t) s = (r, s')" and "\<And>x s1. m s = (x, s1) \<Longrightarrow> simulated srt s s1"
  shows "simulated srt s s'"
proof -
  obtain x s1 where "m s = (x, s1)" by fastforce
  with assms show ?thesis by (cases x) (auto simp: try_catch_def respond_def return_act_def split: if_splits)
qed

lemma sim_place_order:
  assumes ok: "session_ok s" "session_user s \<noteq> []" and n: "int (nextId s) + 1 < 2 ^ 64"
    and run: "place_order ctime c pr ta tp s = (r, s')"
  shows "simulated srt s s'"
proof (cases "(\<exists>a. stod ta = Inr a) \<and> (\<exists>p. stod tp = Inr p)")
  case False
  then have "s' = s" using run by (auto simp: place_order_def bind_act_def lift_res_def split: sum.splits)
  then show ?thesis by (simp add: simulated_refl)
next
  case True
  then obtain a p where a: "stod ta = Inr a" and p: "stod tp = Inr p" by blast
  define ty where "ty = (if c = ''ASK'' then Ask else Bid)"
  let ?u = "session_user s" and ?lock = "PlaceLock 0 ty pr a p (getCurrentTimestamp ctime)"
  let ?e = "\<lparr>price = p, amount = a, timestamp = getCurrentTimestamp ctime, product = pr, orderType = ty, username = ?u,
     order_id = nextId s\<rparr>"
  let ?s1 = "s\<lparr>nextId := Suc (nextId s)\<rparr>"
  obtain x us where o: "on_wallet ?u (fulfillOrder ?e) (userStore s) = (x, us)" by fastforce
  have m: "size_t_succ (nextId s) = Suc (nextId s)" using n by (simp add: size_t_succ_small)
  have ne: "new_entry ctime p a pr ty s = (Inr ?e, ?s1)" by (simp add: new_entry_def OrderBookEntry_def m)
  have uw: "user_wallet (fulfillOrder ?e) ?s1 = (x, ?s1\<lparr>userStore := us\<rparr>)"
    using o session_user_ok(1) [OF ok] by (intro user_wallet_run) simp_all
  have "ty \<noteq> Sale" by (simp add: ty_def)
  then have lock: "perform srt ?lock (alone s) =
      Some (put_conn 0 ?u (if x = Inr True then Placing ?e else Idle) (alone (?s1\<lparr>userStore := us\<rparr>)))"
    using o m session_user_ok(2) [OF ok] by (simp add: perform_def OrderBookEntry_def Let_def)
  show ?thesis
  proof (cases "x = Inr True")
    case False
    have "\<exists>t. s' = ?s1\<lparr>userStore := us, sent := t\<rparr>"
    proof (cases x)
      case (Inl e)
      then show ?thesis
        using run a p ne uw unfolding ty_def [symmetric] place_order_def
        by (auto simp: bind_act_def lift_res_def intro!: exI [of _ "sent s"])
    next
      case (Inr b)
      then show ?thesis
        using False run a p ne uw unfolding ty_def [symmetric] place_order_def
        by (auto simp: bind_act_def lift_res_def write_and_continue_def write_socket_def return_act_def)
    qed
    then show ?thesis using lock False by (intro simulatedI [of "[?lock]"]) auto
  next
    case True
    have s': "s' = s\<lparr>nextId := Suc (nextId s), userStore := us, orderBook := insertOrder ?e (orderBook s),
        pendingProducts := (if pr \<in> set (pendingProducts s) then pendingProducts s else pendingProducts s @ [pr])\<rparr>"
      using True run a p ne uw unfolding ty_def [symmetric] place_order_def
      by (auto simp: bind_act_def lift_res_def on_book_def startMatchingProduct_def respond_def return_act_def)
    show ?thesis
      using lock True
      by (intro simulatedI [of "[?lock, PlaceInsert 0, PlaceQueue 0]"]) (auto simp: perform_def s')
  qed
qed

lemma sim_order:
  assumes ok: "session_ok s" and n: "int (nextId s) + 1 < 2 ^ 64" and run: "handle_order ctime c tokens s = (r, s')"
  shows "simulated srt s s'"
proof (cases "session_user s = [] \<or> length tokens \<noteq> 4")
  case True
  then have "s' = s" using run by (auto simp: handle_order_def respond_def return_act_def split: if_splits)
  then show ?thesis by (simp add: simulated_refl)
next
  case False
  then have "try_catch (place_order ctime c (map toupper (tokens ! 1)) (tokens ! 2) (tokens ! 3))
      (respond ''ERR Invalid order'') s = (r, s')" using run by (simp add: handle_order_def)
  then show ?thesis by (rule sim_try) (use sim_place_order ok n False in blast)
qed

lemma sim_cancel_order:
  assumes ok: "session_ok s" "session_user s \<noteq> []" and run: "cancel_order t s = (r, s')"
  shows "simulated srt s s'"
proof (cases "stoi t")
  case (Inl e)
  then have "s' = s" using run by (simp add: cancel_order_def bind_act_def lift_res_def)
  then show ?thesis by (simp add: simulated_refl)
next
  case (Inr n)
  let ?u = "session_user s" and ?id = "size_t_of_int n" and ?b = "orderBook s"
  have b: "book_ok ?b" using ok(1) by (simp add: session_ok_def server_ok_def)
  obtain orders where os: "getOrdersForUser ?b ?u = Inr orders" using getOrdersForUser_ok [OF b] by blast
  show ?thesis
  proof (cases "find (\<lambda>e. ?id = order_id e) orders")
    case None
    then have "s' = s" using run Inr os by (simp add: cancel_order_def bind_act_def lift_res_def respond_def return_act_def)
    then show ?thesis by (simp add: simulated_refl)
  next
    case (Some e)
    obtain x us where o: "on_wallet ?u (cancelOrder e) (userStore s) = (x, us)" by fastforce
    have uw: "user_wallet (cancelOrder e) s = (x, s\<lparr>userStore := us\<rparr>)"
      by (rule user_wallet_run [OF session_user_ok(1) [OF ok] o])
    have find: "perform srt (CancelFind 0 ?id) (alone s) = Some (put_conn 0 ?u (Cancelling ?id e) (alone s))"
      using os Some session_user_ok(2) [OF ok] by (simp add: perform_def)
    show ?thesis
    proof (cases x)
      case (Inl y)
      then have "s' = s\<lparr>userStore := us\<rparr>"
        using run \<open>stoi t = Inr n\<close> os Some uw by (simp add: cancel_order_def bind_act_def lift_res_def)
      then show ?thesis
        using find o Inl by (intro simulatedI [of "[CancelFind 0 ?id, CancelUnlock 0]"]) (simp_all add: perform_def)
    next
      case (Inr y)
      obtain z b' where rm: "removeOrderById ?u ?id ?b = (Inr z, b')"
        using removeOrderById_cases [OF b, of ?u ?id] by metis
      then have "s' = s\<lparr>userStore := us, orderBook := b'\<rparr>"
        using run \<open>stoi t = Inr n\<close> os Some uw Inr
        by (simp add: cancel_order_def bind_act_def lift_res_def on_book_def respond_def return_act_def)
      then show ?thesis
        using find o Inr rm
        by (intro simulatedI [of "[CancelFind 0 ?id, CancelUnlock 0, CancelRemove 0]"]) (simp_all add: perform_def)
    qed
  qed
qed

lemma sim_cancel:
  assumes ok: "session_ok s" and run: "handle_cancel tokens s = (r, s')"
  shows "simulated srt s s'"
proof (cases "session_user s = [] \<or> length tokens \<noteq> 2")
  case True
  then have "s' = s" using run by (auto simp: handle_cancel_def respond_def return_act_def split: if_splits)
  then show ?thesis by (simp add: simulated_refl)
next
  case False
  then have "try_catch (cancel_order (tokens ! 1)) (respond ''ERR Invalid order ID'') s = (r, s')"
    using run by (simp add: handle_cancel_def)
  then show ?thesis by (rule sim_try) (use sim_cancel_order ok False in blast)
qed

lemma sim_transfer:
  assumes ok: "session_ok s" "session_user s \<noteq> []" and run: "transfer c pr ta s = (r, s')"
  shows "simulated srt s s'"
proof (cases "stod ta")
  case (Inl e)
  then have "s' = s" using run by (simp add: transfer_def bind_act_def lift_res_def)
  then show ?thesis by (simp add: simulated_refl)
next
  case (Inr x)
  note own = session_user_ok [OF ok]
  obtain y us where w: "on_wallet (session_user s) (removeCurrency pr x) (userStore s) = (y, us)" by fastforce
  obtain z vs where d: "on_wallet (session_user s) (insertCurrency pr x) (userStore s) = (z, vs)" by fastforce
  show ?thesis
  proof (cases "c = ''WITHDRAW''")
    case True
    then have "s' = s\<lparr>userStore := us\<rparr>"
      using run Inr user_wallet_run [OF own(1) w]
      by (auto simp: transfer_def bind_act_def lift_res_def respond_def return_act_def split: sum.splits)
    then show ?thesis using own(2) w by (intro simulatedI [of "[Withdraw 0 pr x]"]) (simp_all add: perform_def)
  next
    case False
    then have "s' = s\<lparr>userStore := vs\<rparr>"
      using run Inr user_wallet_run [OF own(1) d]
      by (auto simp: transfer_def bind_act_def lift_res_def respond_def return_act_def split: sum.splits)
    then show ?thesis using own(2) d by (intro simulatedI [of "[Deposit 0 pr x]"]) (simp_all add: perform_def)
  qed
qed

lemma sim_handle_transfer:
  assumes ok: "session_ok s" and run: "handle_transfer c tokens s = (r, s')"
  shows "simulated srt s s'"
proof (cases "session_user s = [] \<or> length tokens \<noteq> 3")
  case True
  then have "s' = s" using run by (auto simp: handle_transfer_def respond_def return_act_def split: if_splits)
  then show ?thesis by (simp add: simulated_refl)
next
  case False
  then have "try_catch (transfer c (map toupper (tokens ! 1)) (tokens ! 2)) (respond ''ERR Invalid amount'') s = (r, s')"
    using run by (simp add: handle_transfer_def)
  then show ?thesis by (rule sim_try) (use sim_transfer ok False in blast)
qed

text \<open>The other commands change nothing.\<close>

lemma views_unchanged:
  assumes "session_ok s"
  shows "snd (handle_orders s) = s" "snd (handle_wallet s) = s" "snd (handle_market iter s) = s" "snd (handle_stats tokens s) = s"
proof -
  show "snd (handle_orders s) = s" "snd (handle_market iter s) = s" "snd (handle_stats tokens s) = s"
    by (auto simp: handle_orders_def handle_market_def handle_stats_def bind_act_def lift_res_def respond_def return_act_def
        Let_def split: sum.split)
  show "snd (handle_wallet s) = s"
  proof (cases "session_user s = []")
    case False
    let ?f = "\<lambda>w. (Inr (wallet_toString w) :: string result, w)"
    note own = session_user_ok [OF assms False]
    obtain x us where o: "on_wallet (session_user s) ?f (userStore s) = (x, us)" by fastforce
    have "us = userStore s" using on_wallet_read [OF own(1), of ?f] o by simp
    then show ?thesis
      using False user_wallet_run [OF own(1) o]
      by (simp add: handle_wallet_def bind_act_def respond_def return_act_def split: sum.split)
  qed (simp add: handle_wallet_def respond_def return_act_def)
qed

lemma sim_dispatch:
  assumes ok: "session_ok s" and n: "int (nextId s) + 1 < 2 ^ 64" and run: "dispatch ctime iter tokens s = (r, s')"
  shows "simulated srt s s'"
proof -
  have same: "\<forall>x t. f s = (x, t) \<longrightarrow> simulated srt s t" if "snd (f s) = s" for f :: handler
    using that simulated_refl(1) by auto
  have "\<forall>x t. dispatch ctime iter tokens s = (x, t) \<longrightarrow> simulated srt s t"
  proof (rule dispatch_cases [where R = "\<lambda>f. \<forall>x t. f s = (x, t) \<longrightarrow> simulated srt s t"])
    show "\<forall>x t. handle_register tokens s = (x, t) \<longrightarrow> simulated srt s t"
      "\<forall>x t. handle_login tokens s = (x, t) \<longrightarrow> simulated srt s t"
      "\<forall>x t. handle_cancel tokens s = (x, t) \<longrightarrow> simulated srt s t"
      "\<forall>x t. handle_order ctime c tokens s = (x, t) \<longrightarrow> simulated srt s t"
      "\<forall>x t. handle_transfer c tokens s = (x, t) \<longrightarrow> simulated srt s t" for c
      by (intro allI impI, erule sim_register sim_login sim_order [OF ok n] sim_cancel [OF ok] sim_handle_transfer [OF ok])+
  qed (rule same, simp add: views_unchanged [OF ok] respond_def return_act_def)+
  then show ?thesis using run by blast
qed

lemma sim_message:
  assumes "session_ok s" and "int (nextId s) + 1 < 2 ^ 64" and "handle_message ctime iter data s = (r, s')"
  shows "simulated srt s s'"
  using assms(3)
  by (cases rule: message_cases) (auto simp: simulated_refl simulated_sent intro: sim_dispatch [OF assms(1,2)])


definition ex_talk :: "string list" where
  "ex_talk = [''ask a/b 2 9'', ''ask a/b 2 9'', ''ask ab 1 1'', ''cancel 4'', ''withdraw a nan'', ''market'', ''exit'']"


end
