(* ===== verification/Races.thy ===== *)
theory Races
  imports Funded_System Simulation
begin

text \<open>
  What goes wrong between two critical sections of a handler, and what an unusual price does: the general
  statements, each with a run of the interleaved system or a message that gets there.
\<close>

section \<open>A connection in the middle of a command\<close>

lemma perform_frame:
  assumes "perform srt ev s = Some s'" and "actor ev \<noteq> Some i"
  shows "conns s' i = conns s i"
proof -
  have st: "perform_step srt ev s = Some s'" using assms(1) by (simp add: perform_def split: if_splits)
  show ?thesis
  proof (cases ev)
    case (RunTask k ctime)
    obtain r s1 where r: "run_task srt ctime (tasks s ! k) s = (r, s1)" by fastforce
    have "conns s1 = conns s" using r by (auto simp: run_task_def split: prod.splits)
    then show ?thesis using st RunTask r by (auto split: if_splits sum.splits)
  qed (use st assms(2) in \<open>auto simp: Let_def put_conn_def split: phase.splits if_splits option.splits prod.splits sum.splits list.splits\<close>)
qed

text \<open>Only the next step of the command moves a connection that has copied an order or collected pointers.\<close>

lemma waiting_phase:
  assumes "perform srt ev s = Some s'" and "\<not> faulty s'"
  shows "conn_phase (conns s i) = Reading ps \<Longrightarrow> ev \<noteq> ReadOrders i \<Longrightarrow> conns s' i = conns s i"
    and "conn_phase (conns s i) = Cancelling oid e \<Longrightarrow> ev \<noteq> CancelUnlock i \<Longrightarrow> conns s' i = conns s i"
proof -
  have st: "perform_step srt ev s = Some s'" using assms(1) by (simp add: perform_def split: if_splits)
  show "conns s' i = conns s i" if "conn_phase (conns s i) = Reading ps" "ev \<noteq> ReadOrders i"
    using that st perform_frame [OF assms(1), of i] by (cases "actor ev = Some i"; cases ev) (auto simp: may_act_def Let_def)
  show "conns s' i = conns s i" if "conn_phase (conns s i) = Cancelling oid e" "ev \<noteq> CancelUnlock i"
    using that st perform_frame [OF assms(1), of i] by (cases "actor ev = Some i"; cases ev) (auto simp: may_act_def Let_def)
qed

lemma perform_faulty: "perform srt ev s = Some s' \<Longrightarrow> \<not> faulty s"
  by (simp add: perform_def split: if_splits)

lemma run_faulty: "run_events srt evs s = Some s' \<Longrightarrow> \<not> faulty s' \<Longrightarrow> \<not> faulty s"
  by (cases evs) (auto split: option.splits dest: perform_faulty)

section \<open>Freed orders\<close>

text \<open>An order that was freed: addresses are never used again.\<close>

definition freed :: "addr \<Rightarrow> book \<Rightarrow> bool" where
  "freed p b \<longleftrightarrow> live b p = None \<and> p < next_addr b"

lemma pass_freed:
  assumes run: "matchAsksToBids srt pr ts s = (r, s')" and ok: "book_ok (m_book s)" and srt: "std_sort srt"
    and p: "freed p (m_book s)"
  shows "freed p (m_book s')"
proof (cases "\<exists>t\<in>{Ask, Bid}. mixed_prices (side_prices (m_book s) pr t)")
  case True
  then have "s' = s\<lparr>m_sales := []\<rparr>" using match_mixed [OF ok] run by fastforce
  then show ?thesis using p by simp
next
  case False
  then have calm: "\<forall>t\<in>{Ask, Bid}. \<not> mixed_prices (side_prices (m_book s) pr t)" by blast
  have w: "freed p (m_book s1)" if "pass_run pr ts s asks bids x s1" for asks bids x s1
    using pass_run_writes [OF that] p writes_is_live [of "m_book s" "m_book s1" p] writes_fields [of "m_book s" "m_book s1"]
    by (auto simp: freed_def is_live_def)
  from run ok srt calm show ?thesis
  proof (cases rule: match_sorted_cases)
    case (threw asks bids e)
    then show ?thesis using w by blast
  next
    case (returned asks bids s1 b')
    have ok1: "book_ok (m_book s1)" using writes_ok [OF pass_run_writes [OF returned(1)] ok] .
    have "next_addr b' = next_addr (m_book s1)" using returned(4) by (simp add: pruned_def)
    moreover have "live b' p = None"
    proof (cases "live b' p")
      case (Some e)
      then have "(p, e) \<in> set (book_nodes (m_book s1))"
        using pruned_subset [OF returned(4,3)] book_ok_live [OF returned(3)] by auto
      then have "live (m_book s1) p = Some e" by (simp add: book_ok_live [OF ok1])
      then show ?thesis using w [OF returned(1)] by (simp add: freed_def)
    qed simp
    ultimately show ?thesis using w [OF returned(1)] returned(5) by (simp add: freed_def)
  qed
qed

lemma perform_freed:
  assumes ok: "system_ok s" "system_ok s'" and srt: "std_sort srt" and run: "perform srt ev s = Some s'"
    and p: "freed p (orderBook s)"
  shows "freed p (orderBook s')"
proof -
  have b: "book_ok (orderBook s)" "book_ok (orderBook s')" using ok by (simp_all add: system_ok_def)
  have st: "perform_step srt ev s = Some s'" using run by (simp add: perform_def split: if_splits)
  have "orderBook s' = orderBook s \<or> freed p (orderBook s')"
  proof (cases ev)
    case (PlaceInsert i)
    then obtain e where "orderBook s' = insertOrder e (orderBook s)" using st by (auto split: phase.splits)
    moreover have "live (insertOrder e (orderBook s)) p = live (orderBook s) p" if "book_ok (insertOrder e (orderBook s))" for e
      using open_cost_insert(1) [OF b(1) that] p by (simp add: freed_def)
    ultimately show ?thesis using b(2) p by (simp add: freed_def)
  next
    case (CancelRemove i)
    then obtain oid where ph: "conn_phase (conns s i) = Removing oid" using st by (auto simp: Let_def split: phase.splits)
    from b(1) show ?thesis
    proof (cases rule: removeOrderById_cases [of "orderBook s" "conn_user (conns s i)" oid])
      case 1
      then show ?thesis using st CancelRemove ph by auto
    next
      case (2 q e b')
      then have "orderBook s' = b'" using st CancelRemove ph by auto
      moreover have "next_addr b' = next_addr (orderBook s)" using 2(6) by (simp add: unlink_def)
      ultimately show ?thesis using open_cost_unlink(1) [OF b(1) 2(7,6)] p by (simp add: freed_def)
    qed
  next
    case (RunTask k ctime)
    let ?t = "\<lparr>m_book = orderBook s, m_users = userStore s, m_sales = [], m_nextId = nextId s\<rparr>"
    obtain r t where m: "matchAsksToBids srt (tasks s ! k) (getCurrentTimestamp ctime) ?t = (r, t)" by fastforce
    then have "orderBook s' = m_book t" using st RunTask by (auto simp: run_task_def split: if_splits sum.splits)
    then show ?thesis using pass_freed [OF m _ srt, of p] b(1) p by simp
  qed (use st in \<open>auto simp: Let_def split: phase.splits if_splits option.splits prod.splits sum.splits list.splits\<close>)
  then show ?thesis using p by auto
qed

lemma read_freed:
  assumes "conn_phase (conns s i) = Reading ps" and "p \<in> set ps" and "live (orderBook s) p = None" and "\<not> faulty s"
  shows "\<exists>s'. perform srt (ReadOrders i) s = Some s' \<and> faulty s'"
proof -
  have "map_res (deref (orderBook s)) qs \<noteq> Inr es" if "p \<in> set qs" for qs es
    using that assms(3) by (induction qs arbitrary: es) (auto simp: deref_def bind_res_def split: sum.splits)
  then show ?thesis using assms(1,2,4) by (auto simp: perform_def split: sum.split)
qed

lemma freed_is_read:
  assumes srt: "std_sort srt"
  shows "system_ok s \<Longrightarrow> list_all good_event evs \<Longrightarrow> ReadOrders i \<notin> set evs \<Longrightarrow> run_events srt evs s = Some t \<Longrightarrow>
    \<not> faulty t \<Longrightarrow> conn_phase (conns s i) = Reading ps \<Longrightarrow> p \<in> set ps \<Longrightarrow> freed p (orderBook s) \<Longrightarrow>
    \<exists>t'. perform srt (ReadOrders i) t = Some t' \<and> faulty t'"
proof (induction evs arbitrary: s)
  case Nil
  then show ?case using read_freed [of s i ps p srt] by (simp add: freed_def)
next
  case (Cons ev evs)
  then obtain s1 where s1: "perform srt ev s = Some s1" "run_events srt evs s1 = Some t" by (auto split: option.splits)
  have nf: "\<not> faulty s1" by (rule run_faulty [OF s1(2) Cons.prems(5)])
  have ok: "system_ok s1"
    using perform_step_keeps [OF Cons.prems(1) _ srt] Cons.prems(2) s1(1) by (auto simp: perform_def split: if_splits)
  have "conn_phase (conns s1 i) = Reading ps"
    using waiting_phase(1) [OF s1(1) nf Cons.prems(6)] Cons.prems(3,6) by auto
  then show ?case
    using Cons.IH [OF ok _ _ s1(2) Cons.prems(5)] Cons.prems(2,3,7) perform_freed [OF Cons.prems(1) ok srt s1(1) Cons.prems(8)] by simp
qed

lemma cancel_frees:
  assumes ok: "system_ok s" and nf: "\<not> faulty s" and l: "live (orderBook s) p = Some e"
    and act: "may_act j s" and own: "p \<in> set (user_ptrs (orderBook s) (conn_user (conns s j)))" and t: "length (extractTokens (product e) (CHR ''/'')) = 2"
  obtains s' where "run_events srt [CancelFind j (order_id e), CancelUnlock j, CancelRemove j] s = Some s'"
    "freed p (orderBook s')" "\<not> faulty s'"
proof -
  let ?b = "orderBook s" and ?u = "conn_user (conns s j)" and ?id = "order_id e"
  have b: "book_ok ?b" using ok by (simp add: system_ok_def)
  let ?orders = "map (\<lambda>p. the (live ?b p)) (user_ptrs ?b ?u)"
  have ptr: "\<exists>f. live ?b q = Some f" if "q \<in> set (user_ptrs ?b ?u)" for q
    using that book_ok_index [OF b, of ?u "user_ptrs ?b ?u" q]
    by (cases "umap_find (userOrders ?b) ?u") (auto simp: user_ptrs_def umap_index_def)
  have unique: "f = e" if "f \<in> set ?orders" "?id = order_id f" for f
  proof -
    from that ptr obtain q where "live ?b q = Some f" by fastforce
    then show ?thesis using that(2) l book_ok_same_id [OF b] by (auto simp: book_ok_live [OF b])
  qed
  have "e \<in> set ?orders" using l own by force
  then have find: "find (\<lambda>f. ?id = order_id f) ?orders = Some e"
    using unique by (intro find_unique ballI impI) blast+
  let ?s1 = "put_conn j ?u (Cancelling ?id e) s"
  have s1: "perform srt (CancelFind j ?id) s = Some ?s1"
    using nf act find getOrdersForUser_ok [OF b, of ?u] by (simp add: perform_def Let_def del: map_map)
  obtain base quote where bq: "extractTokens (product e) (CHR ''/'') = [base, quote]"
    using t by (auto simp: numeral_2_eq_2 length_Suc_conv)
  have ns: "\<exists>x w'. cancelOrder e w = (Inr x, w')" for w
    using bq by (cases "orderType e") (auto simp: cancelOrder_def unlockCurrency_def Let_def)
  obtain x us where o: "on_wallet ?u (cancelOrder e) (userStore s) = (Inr x, us)"
    using ns [of "wallet_of (userStore s) ?u"] by (auto simp: on_wallet_eq split: prod.splits)
  let ?s2 = "put_conn j ?u (Removing ?id) (?s1\<lparr>userStore := us\<rparr>)"
  have s2: "perform srt (CancelUnlock j) ?s1 = Some ?s2" using nf o by (simp add: perform_def)
  obtain b' where rm: "removeOrderById ?u ?id ?b = (Inr True, b')" "unlink ?b p e b'" "book_ok b'"
    using b
  proof (cases rule: removeOrderById_cases [of ?b ?u ?id])
    case 1
    then show ?thesis using l own by force
  next
    case (2 q f b')
    then have "q = p \<and> f = e" using l book_ok_same_id [OF b] by (auto simp: book_ok_live [OF b])
    then show ?thesis using that 2 by blast
  qed
  let ?s3 = "put_conn j ?u Idle (?s2\<lparr>orderBook := b'\<rparr>)"
  have s3: "perform srt (CancelRemove j) ?s2 = Some ?s3" using nf rm(1) by (simp add: perform_def)
  have "p < next_addr ?b" using b l by (auto simp: book_ok_live [OF b] book_ok_def nodes_ok_def)
  then have "freed p (orderBook ?s3)"
    using open_cost_unlink(1) [OF b rm(3,2), of p] rm(2) by (simp add: freed_def unlink_def)
  then show ?thesis using nf s1 s2 s3 by (intro that [of ?s3]) simp_all
qed

text \<open>
  C27: \<open>MARKET\<close> and \<open>STATS\<close> read freed memory. Whenever a connection has collected the pointers of
  \<open>getOrders\<close> and has not followed them yet, the owner of one of these orders can cancel it on another
  connection; this succeeds and frees the order, and from then on, whatever well-behaved commands and passes come
  between, the step that follows the pointers is undefined behaviour.
\<close>

theorem market_reads_freed_order:
  assumes "system_ok s" and "\<not> faulty s" and "std_sort srt"
    and "conn_phase (conns s i) = Reading ps" and "p \<in> set ps" and "live (orderBook s) p = Some e"
    and "may_act j s" and "p \<in> set (user_ptrs (orderBook s) (conn_user (conns s j)))"
    and "length (extractTokens (product e) (CHR ''/'')) = 2"
  shows "\<exists>s'. run_events srt [CancelFind j (order_id e), CancelUnlock j, CancelRemove j] s = Some s' \<and>
    \<not> faulty s' \<and> live (orderBook s') p = None \<and>
    (\<forall>evs t. list_all good_event evs \<longrightarrow> ReadOrders i \<notin> set evs \<longrightarrow> run_events srt evs s' = Some t \<longrightarrow> \<not> faulty t \<longrightarrow>
      (\<exists>t'. perform srt (ReadOrders i) t = Some t' \<and> faulty t'))"
proof -
  let ?evs = "[CancelFind j (order_id e), CancelUnlock j, CancelRemove j]"
  from cancel_frees [OF assms(1,2,6-9)] obtain s' where
    s': "run_events srt ?evs s = Some s'" "freed p (orderBook s')" "\<not> faulty s'" by blast
  have "j \<noteq> i" using assms(4,7) by (auto simp: may_act_def)
  have keep: "system_ok t" if "run_events srt es u = Some t" "list_all good_event es" "system_ok u" for es u t
    using that
  proof (induction es arbitrary: u)
    case (Cons ev es)
    then obtain u1 where "perform srt ev u = Some u1" "run_events srt es u1 = Some t" by (auto split: option.splits)
    then show ?case
      using Cons perform_step_keeps [of u ev srt u1] assms(3) by (auto simp: perform_def split: if_splits)
  qed simp
  have ok: "system_ok s'" by (rule keep [OF s'(1) _ assms(1)]) simp
  have frame: "conns t i = conns u i" if "run_events srt es u = Some t" "list_all (\<lambda>ev. actor ev \<noteq> Some i) es" for es u t
    using that
  proof (induction es arbitrary: u)
    case (Cons ev es)
    then obtain u1 where "perform srt ev u = Some u1" "run_events srt es u1 = Some t" by (auto split: option.splits)
    then show ?case using Cons perform_frame [of srt ev u u1 i] by simp
  qed simp
  have ph: "conn_phase (conns s' i) = Reading ps" using frame [OF s'(1)] \<open>j \<noteq> i\<close> assms(4) by simp
  show ?thesis
    using s' freed_is_read [OF assms(3) ok _ _ _ _ ph assms(5) s'(2)] by (auto simp: freed_def)
qed

text \<open>One client has an ask in the book and another one has asked for the market.\<close>

definition ex_reading :: "event list" where
  "ex_reading = [RegisterCheck 0 ''u'' ''x'', RegisterAdd 0, Deposit 0 ''A'' (Fin 3),
     PlaceLock 0 Ask ''A/B'' (Fin 2) (Fin 3) ''t'', PlaceInsert 0, PlaceQueue 0, ReadPointers 1 ''A/B'']"

theorem market_reads_freed_order_witness:
  "\<exists>t. run_events stable_sort (ex_reading @ [CancelFind 0 1, CancelUnlock 0, CancelRemove 0, ReadOrders 1])
    (start_system ex_empty) = Some t \<and> faulty t"
proof -
  let ?e = "\<lparr>price = Fin 3, amount = Fin 2, timestamp = ''t'', product = ''A/B'', orderType = Ask, username = ''u'', order_id = 1\<rparr>"
  have "map_option (\<lambda>s. (faulty s, conn_phase (conns s 1), live (orderBook s) 0, conns s 0, user_ptrs (orderBook s) ''u''))
      (run_events stable_sort ex_reading (start_system ex_empty)) =
    Some (False, Reading [0], Some ?e, \<lparr>conn_user = ''u'', conn_phase = Idle\<rparr>, [0])"
    and good: "list_all good_event ex_reading" by code_simp+
  then obtain s where s: "run_events stable_sort ex_reading (start_system ex_empty) = Some s" "\<not> faulty s"
    "conn_phase (conns s 1) = Reading [0]" "live (orderBook s) 0 = Some ?e"
    "conns s 0 = \<lparr>conn_user = ''u'', conn_phase = Idle\<rparr>" "user_ptrs (orderBook s) ''u'' = [0]" by auto
  have "reachable stable_sort good_event ex_empty s" by (rule run_events_reachable [OF reachable.initial good s(1)])
  then have ok: "system_ok s" using reachable_ok [OF _ _ stable.std_sort_axioms ex_empty_ok] by blast
  have "may_act 0 s" "0 \<in> set [0 :: addr]" "0 \<in> set (user_ptrs (orderBook s) (conn_user (conns s 0)))"
    "length (extractTokens (product ?e) (CHR ''/'')) = 2"
    using s(5,6) by (simp_all add: may_act_def ex_tokens)
  from market_reads_freed_order [OF ok s(2) stable.std_sort_axioms s(3) this(2) s(4) this(1,3,4)]
  obtain s' where s': "run_events stable_sort [CancelFind 0 1, CancelUnlock 0, CancelRemove 0] s = Some s'" "\<not> faulty s'"
    and r: "\<And>evs t. list_all good_event evs \<Longrightarrow> ReadOrders 1 \<notin> set evs \<Longrightarrow> run_events stable_sort evs s' = Some t \<Longrightarrow>
      \<not> faulty t \<Longrightarrow> \<exists>t'. perform stable_sort (ReadOrders 1) t = Some t' \<and> faulty t'" by auto
  from r [of "[]" s'] s'(2) obtain t where t: "perform stable_sort (ReadOrders 1) s' = Some t" "faulty t" by auto
  have run: "run_events stable_sort ([CancelFind 0 1, CancelUnlock 0, CancelRemove 0] @ [ReadOrders 1]) s = Some t"
    unfolding run_events_append s'(1) using t(1) by simp
  have "run_events stable_sort (ex_reading @ ([CancelFind 0 1, CancelUnlock 0, CancelRemove 0] @ [ReadOrders 1]))
      (start_system ex_empty) = Some t"
    unfolding run_events_append [of _ ex_reading] s(1) using run by simp
  then show ?thesis using t(2) by auto
qed

section \<open>Cancelling an order that is being filled\<close>

lemma run_deeds_waiting:
  assumes "conn_phase (conns s i) = Cancelling oid e"
  shows "run_deeds srt ds s = Some s' \<Longrightarrow> \<not> faulty s' \<Longrightarrow> conns s' i = conns s i"
  using assms
proof (induction ds arbitrary: s)
  case (Cons d ds)
  then obtain s1 where s1: "perform_deed srt d s = Some s1" "run_deeds srt ds s1 = Some s'" by (auto split: option.splits)
  have dead: "run_deeds srt ds t = Some s' \<Longrightarrow> faulty t \<Longrightarrow> False" for t
  proof (induction ds arbitrary: t)
    case Nil
    then show ?case using Cons.prems(2) by simp
  next
    case (Cons d ds)
    then show ?case by (cases d) (auto simp: perform_def split: if_splits option.splits)
  qed
  then have nf: "\<not> faulty s1" using s1(2) by blast
  have "conns s1 i = conns s i"
  proof (cases d)
    case (Step ev)
    then have "perform srt ev s = Some s1" and "calm s ev" using s1(1) by (simp_all split: if_splits)
    moreover have "ev \<noteq> CancelUnlock i" using \<open>calm s ev\<close> by auto
    ultimately show ?thesis using waiting_phase(2) [OF _ nf Cons.prems(3)] by blast
  next
    case (Cancellation j oid')
    then obtain t1 t2 where t: "perform srt (CancelFind j oid') s = Some t1" "perform srt (CancelUnlock j) t1 = Some t2"
      "perform srt (CancelRemove j) t2 = Some s1"
      using s1(1) by (auto split: option.splits)
    have "may_act j s" using t(1) by (auto simp: perform_def Let_def split: if_splits)
    then have "j \<noteq> i" using Cons.prems(3) by (auto simp: may_act_def)
    then show ?thesis using t perform_frame [of srt _ _ _ i] by (metis actor.simps(9-11) option.inject)
  qed
  then show ?case using Cons.IH [OF s1(2) Cons.prems(2)] Cons.prems(3) by simp
qed simp

lemma cancel_found:
  assumes F: "funded s0" and srt: "std_sort srt"
    and run: "perform srt (CancelFind i oid) s0 = Some s1" and ph: "conn_phase (conns s1 i) = Cancelling oid e"
  shows "s1 = put_conn i (conn_user (conns s0 i)) (Cancelling oid e) s0" and "funded s1" and "sound_order e"
    and "username e = conn_user (conns s0 i)"
proof -
  let ?u = "conn_user (conns s0 i)"
  let ?b = "orderBook s0"
  have st: "perform_step srt (CancelFind i oid) s0 = Some s1" using run by (simp add: perform_def split: if_splits)
  have b: "book_ok ?b" by (rule funded_parts(6) [OF F])
  let ?es = "map (\<lambda>p. the (live ?b p)) (user_ptrs ?b ?u)"
  have os: "getOrdersForUser ?b ?u = Inr ?es" by (rule getOrdersForUser_ok [OF b])
  have act: "may_act i s0" using st by (auto simp: Let_def split: if_splits)
  have "s1 = put_conn i ?u (Cancelling oid e) s0 \<and> find (\<lambda>f. oid = order_id f) ?es = Some e"
    using st os act ph by (auto simp: Let_def put_conn_def simp del: map_map split: option.splits)
  then have s1: "s1 = put_conn i ?u (Cancelling oid e) s0" and find: "find (\<lambda>f. oid = order_id f) ?es = Some e" by blast+
  have "e \<in> set ?es" using find by (metis find_Some_iff nth_mem)
  then obtain q where q: "q \<in> set (user_ptrs ?b ?u)" "e = the (live ?b q)" by auto
  from q(1) have "umap_find (userOrders ?b) ?u = Some (user_ptrs ?b ?u)"
    by (cases "umap_find (userOrders ?b) ?u"; simp add: user_ptrs_def umap_index_def)
  from book_ok_index [OF b this q(1)] have le: "live ?b q = Some e" and own: "username e = ?u" using q(2) by auto
  note snd = funded_parts(3) [OF F le]
  have F1: "funded s1"
  proof (rule funded_quiet [OF F])
    show "system_ok s1" using perform_step_keeps [OF funded_parts(1) [OF F] _ srt st] by simp
    show "conns s1 = (conns s0)(i := \<lparr>conn_user = ?u, conn_phase = Cancelling oid e\<rparr>)" by (simp add: s1)
  qed (use funded_parts(2) [OF F] in \<open>simp_all add: s1\<close>)
  show "s1 = put_conn i ?u (Cancelling oid e) s0" by (rule s1)
  show "funded s1" by (rule F1)
  show "sound_order e" by (rule snd)
  show "username e = ?u" by (rule own)
qed


text \<open>
  A client with two asks of 2 cancels the first one, which a pass fills while the handler is on
  its way: the second ask stays open with nothing locked for it.
\<close>

definition ex_two_asks :: "deed list" where
  "ex_two_asks = map Step [RegisterCheck 0 ''u'' ''x'', RegisterAdd 0, Deposit 0 ''A'' (Fin 6),
     PlaceLock 0 Ask ''A/B'' (Fin 2) (Fin 3) ''t'', PlaceInsert 0, PlaceQueue 0,
     PlaceLock 0 Ask ''A/B'' (Fin 2) (Fin 3) ''t'', PlaceInsert 0, PlaceQueue 0,
     RegisterCheck 1 ''v'' ''y'', RegisterAdd 1, Deposit 1 ''B'' (Fin 6),
     PlaceLock 1 Bid ''A/B'' (Fin 2) (Fin 3) ''t'', PlaceInsert 1, PlaceQueue 1]"

definition ex_overtaken :: "deed list" where
  "ex_overtaken = map Step [TakeProduct, RunTask 0 ''t'']"


section \<open>An ask priced nan\<close>

text \<open>
  C28: a client that is logged in and has the amount free can send an \<open>ASK\<close> with the price \<open>nan\<close>: it is
  accepted and its product queued, and if the asks of the product already have two different prices,
  the task that matches the product ends in undefined behaviour, whatever the sorting function does with a valid
  comparator. No second client and no race is needed.
\<close>

theorem nan_price_breaks_matching:
  assumes "session_ok s" and "session_user s = u" and "u \<noteq> []" and "int (nextId s) + 1 < 2 ^ 64"
    and "tokens = [c, pr, ta, tp]" and "stod ta = Inr a" and "stod tp = Inr NaN"
    and "extractTokens (map toupper pr) (CHR ''/'') = [base, quote]"
    and "\<not> a < 0" and "a \<le> free_balance (wallet_of (userStore s) u) base"
    and "x \<in> set (side_prices (orderBook s) (map toupper pr) Ask)" and "y \<in> set (side_prices (orderBook s) (map toupper pr) Ask)"
    and "x < y"
    and "handle_order ctime ''ASK'' tokens s = (r, s')"
  shows "r = Inr (Response (''OK ASK placed for '' @ map toupper pr)) \<and> map toupper pr \<in> set (pendingProducts s') \<and>
    fst (run_task srt ctime2 (map toupper pr) s') = Inl (Undefined ''std::sort'')"
proof -
  let ?pr = "map toupper pr"
  let ?e = "order_of ctime ''ASK'' ?pr a NaN u (nextId s)"
  note out = order_outcome [OF assms(1-8,14), unfolded Let_def lock_cost_def lock_currency_def]
  have r: "r = Inr (Response (''OK ASK placed for '' @ ?pr))" "?pr \<in> set (pendingProducts s')"
    "orderBook s' = insertOrder ?e (orderBook s)"
    using out assms(9,10) by simp_all
  have "session_ok s'"
    using own.order_inv [where k = 0 and u = u, OF _ _ assms(14)] assms(1,2,4) by auto
  then have b: "book_ok (orderBook s')" by (simp add: session_ok_def server_ok_def)
  have pn: "set (product_nodes (orderBook s') ?pr) = insert (next_addr (orderBook s), ?e) (set (product_nodes (orderBook s) ?pr))"
    by (simp add: r(3) insert_node_set)
  have side: "set (side_prices b ?pr Ask) = {price e |p e. (p, e) \<in> set (product_nodes b ?pr) \<and> orderType e = Ask}" for b
    unfolding side_prices_def by (fastforce intro: rev_image_eqI)
  have "orderType ?e = Ask" by (simp add: order_of_def OrderBookEntry_def)
  then have "NaN \<in> set (side_prices (orderBook s') ?pr Ask)" unfolding side pn by force
  moreover have "x \<in> set (side_prices (orderBook s') ?pr Ask)" "y \<in> set (side_prices (orderBook s') ?pr Ask)"
    using assms(11,12) unfolding side pn by auto
  ultimately have "mixed_prices (side_prices (orderBook s') ?pr Ask)" using assms(13) by (auto simp: mixed_prices_def)
  then have "fst (run_task srt ctime2 ?pr s') = Inl (Undefined ''std::sort'')"
    using match_mixed [of "\<lparr>m_book = orderBook s', m_users = userStore s', m_sales = [], m_nextId = nextId s'\<rparr>" Ask ?pr srt] b
    by (simp add: run_task_def catchable_def)
  then show ?thesis using r by blast
qed

theorem nan_price_breaks_matching_witness:
  "fst (run_task stable_sort ''now\<newline>'' ''A/B''
    (snd (handle_order ''now\<newline>'' ''ASK'' [''ask'', ''a/b'', ''2'', ''nan''] (ex_session ''u'')))) = Inl (Undefined ''std::sort'')"
proof -
  have nan: "stod ''nan'' = Inr NaN" by code_simp
  have "side_prices (orderBook (ex_session ''u'')) ''A/B'' Ask = [Fin 2, Fin 9]"
    by (simp add: ex_session_def side_prices_def ex_nodes ex_order_def)
  then have px: "Fin 2 \<in> set (side_prices (orderBook (ex_session ''u'')) (map toupper ''a/b'') Ask)"
    "Fin 9 \<in> set (side_prices (orderBook (ex_session ''u'')) (map toupper ''a/b'') Ask)" "Fin 2 < (Fin 9 :: double)"
    by (simp_all add: ex_order_numbers)
  have "\<not> Fin 2 < (0 :: double)" "Fin 2 \<le> free_balance (wallet_of (userStore (ex_session ''u'')) ''u'') ''A''"
    using ex_free by simp_all
  from nan_price_breaks_matching [where u = "''u''" and ctime = "''now\<newline>''" and srt = stable_sort and ?ctime2.0 = "''now\<newline>''",
      OF ex_session_ok _ _ _ refl ex_order_numbers(1) nan ex_order_tokens this px surjective_pairing, of "''ask''"]
  show ?thesis by (simp add: ex_order_numbers)
qed

end
