(* ===== verification/Conversation.thy ===== *)
theory Conversation
  imports Server_Properties
begin

text \<open>
  The protocol of a connection: each message is answered by exactly one text that ends with a newline, and
  only \<open>EXIT\<close> closes the connection.
\<close>

section \<open>One answer for each message\<close>

definition quiet :: "(session, 'a) action \<Rightarrow> bool" where
  "quiet m \<longleftrightarrow> (\<forall>s. sent (snd (m s)) = sent s)"

lemma quiet_simps:
  "quiet (return_act x)" "quiet (lift_res r)" "quiet (on_users f)" "quiet (on_book g)" "quiet (new_entry ctime p a pr ty)"
  "quiet (startMatchingProduct pr)"
  by (auto simp: quiet_def return_act_def lift_res_def on_users_def on_book_def new_entry_def startMatchingProduct_def
      split: prod.split)

lemma quiet_bind: "quiet m \<Longrightarrow> (\<And>x. quiet (f x)) \<Longrightarrow> quiet (bind_act m f)"
  unfolding quiet_def bind_act_def by (simp split: prod.split sum.split) (metis snd_conv)

lemma quiet_wallet: "quiet (user_wallet f)"
proof -
  have "quiet (bind_act (on_users (getUser u)) (\<lambda>name. on_users (on_wallet name f)))" for u by (intro quiet_bind quiet_simps)
  then show ?thesis by (simp add: quiet_def user_wallet_def)
qed

text \<open>A handler leaves writing to the end of the loop body, or it writes one line itself and continues.\<close>

fun good_reply :: "session \<Rightarrow> reply result \<times> session \<Rightarrow> bool" where
  "good_reply s (r, s') = (if r = Inr Continue
     then (\<exists>t. sent s' = sent s @ t \<and> t \<noteq> [] \<and> last t = CHR 0x0A) else sent s' = sent s)"

lemma good_respond: "sent s' = sent s \<Longrightarrow> good_reply s (respond t s')" "good_reply s (return_act Break s)"
  by (simp_all add: respond_def return_act_def)

lemma good_write: "good_reply s (write_and_continue t s)"
  by (simp add: write_and_continue_def write_socket_def bind_act_def return_act_def)

lemma good_bind:
  assumes "quiet m" and "\<And>x s1. m s = (Inr x, s1) \<Longrightarrow> good_reply s1 (f x s1)"
  shows "good_reply s (bind_act m f s)"
proof -
  obtain r s1 where m: "m s = (r, s1)" by fastforce
  have e: "sent s1 = sent s" using assms(1) m unfolding quiet_def by (metis snd_conv)
  show ?thesis
  proof (cases r)
    case (Inr x)
    obtain q s2 where q: "f x s1 = (q, s2)" by fastforce
    from assms(2) [of x s1] m Inr show ?thesis using e by (auto simp: bind_act_def q split: if_splits)
  qed (use m e in \<open>simp add: bind_act_def\<close>)
qed

lemma good_try:
  assumes "good_reply s (m s)" and "\<And>e s1. m s = (Inl e, s1) \<Longrightarrow> good_reply s1 (h s1)"
  shows "good_reply s (try_catch m h s)"
proof -
  obtain r s1 where m: "m s = (r, s1)" by fastforce
  show ?thesis
  proof (cases r)
    case (Inl e)
    obtain q s2 where q: "h s1 = (q, s2)" by fastforce
    from assms(2) [of e s1] assms(1) m Inl q show ?thesis by (auto simp: try_catch_def split: if_splits)
  qed (use m assms(1) in \<open>simp add: try_catch_def\<close>)
qed

lemmas good_intros = good_respond good_write good_bind good_try quiet_simps quiet_wallet

lemma good_register: "good_reply s (handle_register tokens s)"
  by (auto simp: handle_register_def Let_def intro!: good_intros)

lemma good_login: "good_reply s (handle_login tokens s)"
  by (auto simp: handle_login_def Let_def intro!: good_intros)

lemma good_order: "good_reply s (handle_order ctime command tokens s)"
  by (auto simp: handle_order_def place_order_def Let_def intro!: good_intros)

lemma good_cancel: "good_reply s (handle_cancel tokens s)"
  by (auto simp: handle_cancel_def cancel_order_def Let_def intro!: good_intros split: option.split)

lemma good_transfer: "good_reply s (handle_transfer command tokens s)"
  by (auto simp: handle_transfer_def transfer_def intro!: good_intros)

lemma good_views:
  "good_reply s (handle_orders s)" "good_reply s (handle_wallet s)" "good_reply s (handle_market iter s)"
  "good_reply s (handle_stats tokens s)"
  by (auto simp: handle_orders_def handle_wallet_def handle_market_def handle_stats_def Let_def intro!: good_intros)

lemma good_dispatch: "good_reply s (dispatch ctime iter tokens s)"
  unfolding dispatch_def Let_def
  by (auto simp: good_register good_login good_order good_cancel good_transfer good_views intro!: good_respond)

section \<open>No exception leaves a handler\<close>

lemma try_respond: "try_catch m (respond t) s = (Inl e, s') \<Longrightarrow> \<not> catchable e"
  by (cases "m s") (auto simp: try_catch_def respond_def return_act_def split: sum.splits if_splits)

lemma respond_Inr: "\<exists>y. fst (respond t s) = Inr y"
  by (simp add: respond_def return_act_def)

lemma guarded_order: "fst (handle_order ctime c tokens s) = Inl e \<Longrightarrow> \<not> catchable e"
  using try_respond by (auto simp: handle_order_def respond_def return_act_def split: if_splits) (metis prod.collapse)

lemma guarded_cancel: "fst (handle_cancel tokens s) = Inl e \<Longrightarrow> \<not> catchable e"
  using try_respond by (auto simp: handle_cancel_def respond_def return_act_def split: if_splits) (metis prod.collapse)

lemma guarded_transfer: "fst (handle_transfer c tokens s) = Inl e \<Longrightarrow> \<not> catchable e"
  using try_respond by (auto simp: handle_transfer_def respond_def return_act_def split: if_splits) (metis prod.collapse)

lemma views_answer:
  assumes "session_ok s"
  shows "\<exists>y. fst (handle_orders s) = Inr y" "\<exists>y. fst (handle_wallet s) = Inr y" "\<exists>y. fst (handle_market iter s) = Inr y"
    "\<exists>y. fst (handle_stats tokens s) = Inr y"
proof -
  have b: "book_ok (orderBook s)" using assms by (simp add: session_ok_def server_ok_def)
  show "\<exists>y. fst (handle_orders s) = Inr y"
    using getOrdersForUser_ok [OF b]
    by (simp add: handle_orders_def bind_act_def lift_res_def respond_def return_act_def)
  show "\<exists>y. fst (handle_wallet s) = Inr y"
  proof (cases "session_user s = []")
    case False
    then have "userExists (userStore s) (session_user s)" using assms by (simp add: session_ok_def)
    then have g: "getUser (session_user s) (userStore s) = (Inr (session_user s), userStore s)" by (rule getUser_existing)
    show ?thesis
      using False
      by (simp add: handle_wallet_def user_wallet_def on_users_def bind_act_def g on_wallet_def respond_def return_act_def)
  qed (simp add: handle_wallet_def respond_def return_act_def)
  show "\<exists>y. fst (handle_market iter s) = Inr y"
  proof -
    have "\<exists>ts. map_res (market_line (orderBook s)) ps = Inr ts" for ps
      using market_line_ok [OF b] by (induction ps) (auto simp: bind_res_def split: sum.splits, metis sum.distinct(1))
    then show ?thesis
      by (auto simp: handle_market_def bind_act_def lift_res_def respond_def return_act_def split: sum.split)
        (metis sum.distinct(1))
  qed
  show "\<exists>y. fst (handle_stats tokens s) = Inr y"
    using read_orders_ok [OF b]
    by (auto simp: handle_stats_def Let_def bind_act_def lift_res_def respond_def return_act_def split: sum.split)
qed

lemma dispatch_answers:
  assumes ok: "session_ok s" and n: "int (nextId s) + 1 < 2 ^ 64"
  shows "\<exists>y. fst (dispatch ctime iter tokens s) = Inr y"
proof (cases "map toupper (hd tokens) \<in> {''REGISTER'', ''LOGIN''}")
  case True
  moreover have "\<exists>y. fst (handle_register tokens s) = Inr y" "\<exists>y. fst (handle_login tokens s) = Inr y"
    using register_ok [OF ok surjective_pairing] login_ok [OF ok surjective_pairing] by blast+
  ultimately show ?thesis using session_command by fastforce
next
  case False
  have c: "catchable e" if "fst (dispatch ctime iter tokens s) = Inl e" for e
    using own.dispatch_inv [OF _ good_numbers_True(1) False surjective_pairing, where u = "session_user s" and k = 0] ok n that
    by auto
  have "(\<forall>e. fst (dispatch ctime iter tokens s) = Inl e \<longrightarrow> \<not> catchable e) \<or> map toupper (hd tokens) \<in> {''REGISTER'', ''LOGIN''}"
  proof (rule dispatch_cases [where R = "\<lambda>f. (\<forall>e. fst (f s) = Inl e \<longrightarrow> \<not> catchable e) \<or> map toupper (hd tokens) \<in> {''REGISTER'', ''LOGIN''}"])
    note v = views_answer [OF ok]
    show "(\<forall>e. fst (handle_orders s) = Inl e \<longrightarrow> \<not> catchable e) \<or> map toupper (hd tokens) \<in> {''REGISTER'', ''LOGIN''}"
      "(\<forall>e. fst (handle_wallet s) = Inl e \<longrightarrow> \<not> catchable e) \<or> map toupper (hd tokens) \<in> {''REGISTER'', ''LOGIN''}"
      "(\<forall>e. fst (handle_market iter s) = Inl e \<longrightarrow> \<not> catchable e) \<or> map toupper (hd tokens) \<in> {''REGISTER'', ''LOGIN''}"
      "(\<forall>e. fst (handle_stats tokens s) = Inl e \<longrightarrow> \<not> catchable e) \<or> map toupper (hd tokens) \<in> {''REGISTER'', ''LOGIN''}"
      using v(1,2) v(3) [of iter] v(4) [of tokens] by fastforce+
  qed (use guarded_order guarded_cancel guarded_transfer in \<open>auto simp: respond_def return_act_def\<close>)
  then show ?thesis using c False by (cases "fst (dispatch ctime iter tokens s)") auto
qed

text \<open>Only \<open>EXIT\<close> breaks the loop.\<close>

definition stays :: "handler \<Rightarrow> bool" where
  "stays m \<longleftrightarrow> (\<forall>s. fst (m s) \<noteq> Inr Break)"

lemma stay_bind: "(\<And>x. stays (f x)) \<Longrightarrow> fst (bind_act m f s) \<noteq> Inr Break"
  by (simp add: stays_def bind_act_def split: prod.split sum.split)

lemma stay_try: "stays m \<Longrightarrow> stays h \<Longrightarrow> fst (try_catch m h s) \<noteq> Inr Break"
  unfolding stays_def try_catch_def by (simp split: prod.split sum.split) (metis fst_conv)

lemma stays_intros:
  "stays (respond t)" "stays (write_and_continue t)" "(\<And>x. stays (f x)) \<Longrightarrow> stays (bind_act m f)"
  "stays x \<Longrightarrow> stays y \<Longrightarrow> stays (if b then x else y)" "stays x \<Longrightarrow> (\<And>e. stays (g e)) \<Longrightarrow> stays (case_option x g v)"
  using stay_bind [of f m]
  by (auto simp: stays_def respond_def return_act_def write_and_continue_def write_socket_def bind_act_def split: option.split)

lemma handlers_stay:
  "stays (handle_register tokens)" "stays (handle_login tokens)" "stays (handle_order ctime c tokens)" "stays handle_orders"
  "stays (handle_cancel tokens)" "stays handle_wallet" "stays (handle_transfer c tokens)" "stays (handle_market iter)"
  "stays (handle_stats tokens)"
proof -
  note respond = stays_intros(1) and guard = stay_try [OF _ stays_intros(1)]
  have "stays (place_order ctime c pr ta tp)" for pr ta tp
    unfolding place_order_def by (intro stays_intros)
  then show "stays (handle_order ctime c tokens)"
    using guard respond by (simp add: stays_def handle_order_def)
  have "stays (cancel_order t)" for t
    unfolding stays_def cancel_order_def by (intro allI stay_bind stays_intros)
  then show "stays (handle_cancel tokens)"
    using guard respond by (simp add: stays_def handle_cancel_def)
  have "stays (transfer c pr ta)" for pr ta
    unfolding transfer_def by (intro stays_intros)
  then show "stays (handle_transfer c tokens)"
    using guard respond by (simp add: stays_def handle_transfer_def)
  show "stays handle_orders" "stays handle_wallet" "stays (handle_market iter)" "stays (handle_stats tokens)"
    by (auto simp: stays_def handle_orders_def handle_wallet_def handle_market_def handle_stats_def Let_def bind_act_def
        respond_def return_act_def split: prod.split sum.split)
  show "stays (handle_register tokens)"
    by (auto simp: stays_def handle_register_def Let_def respond_def return_act_def)
  show "stays (handle_login tokens)"
    unfolding stays_def
  proof
    fix s
    obtain r s1 where l: "handle_login tokens s = (r, s1)" by fastforce
    then have "r \<noteq> Inr Break" by (cases rule: login_cases) auto
    then show "fst (handle_login tokens s) \<noteq> Inr Break" by (simp add: l)
  qed
qed

lemma dispatch_stays:
  "map toupper (hd tokens) \<noteq> ''EXIT'' \<Longrightarrow> fst (dispatch ctime iter tokens s) \<noteq> Inr Break"
  using handlers_stay stays_intros(1) unfolding dispatch_def Let_def stays_def by simp

text \<open>
  C34: the protocol of a connection that nothing interrupts. A message of nothing but line ends is
  ignored. \<open>EXIT\<close> closes the connection without an answer and changes nothing. Every other message,
  whatever its bytes, is answered by a text that is not empty and ends with a newline, and the
  connection stays open: no exception of a command ever reaches the end of the handler.
\<close>

theorem every_message_answered:
  assumes "session_ok s" and "int (nextId s) + 1 < 2 ^ 64" and "handle_message ctime iter data s = (r, s')"
  shows "if strip_newlines data = [] then r = Inr True \<and> s' = s
    else if map toupper (hd (getlines (CHR '' '') (strip_newlines data))) = ''EXIT'' then r = Inr False \<and> s' = s
    else r = Inr True \<and> (\<exists>t. sent s' = sent s @ t \<and> t \<noteq> [] \<and> last t = CHR 0x0A)"
proof -
  let ?tokens = "getlines (CHR '' '') (strip_newlines data)"
  show ?thesis
  proof (cases "strip_newlines data = []")
    case True
    then show ?thesis
      using assms(3) by (simp add: handle_message_def try_catch_def return_act_def Let_def getlines.simps)
  next
    case False
    then have ne: "?tokens \<noteq> []" by (subst getlines.simps) simp
    obtain x s1 where d: "dispatch ctime iter ?tokens s = (Inr x, s1)"
      using dispatch_answers [OF assms(1,2), of ctime iter ?tokens] by (metis prod.collapse)
    have m: "handle_message ctime iter data s = (Inr (x \<noteq> Break), case x of
        Response t \<Rightarrow> s1\<lparr>sent := sent s1 @ t @ ''\<newline>''\<rparr> | _ \<Rightarrow> s1)"
      using ne by (simp add: handle_message_def Let_def try_catch_def bind_act_def d write_socket_def return_act_def
        split: reply.split)
    show ?thesis
    proof (cases "map toupper (hd ?tokens) = ''EXIT''")
      case True
      then have "dispatch ctime iter ?tokens s = (Inr Break, s)" by (simp add: dispatch_def return_act_def)
      then show ?thesis using False True m d assms(3) by simp
    next
      case no_exit: False
      then have x: "x \<noteq> Break" using dispatch_stays [OF no_exit, of ctime iter s] d by auto
      note g = good_dispatch [of s ctime iter ?tokens, unfolded d]
      have "\<exists>t. sent s' = sent s @ t \<and> t \<noteq> [] \<and> last t = CHR 0x0A"
        using m assms(3) g x by (cases x) (auto intro!: exI [of _ "_ @ ''\<newline>''"])
      then show ?thesis using False no_exit m assms(3) x by auto
    qed
  qed
qed

text \<open>A message whose order identifier is no number, and one that ends the connection.\<close>

theorem every_message_answered_witness:
  "fst (handle_message ''now\<newline>'' id ''cancel x'' (ex_session ''b'')) = Inr True \<and>
    last (sent (snd (handle_message ''now\<newline>'' id ''cancel x'' (ex_session ''b'')))) = CHR 0x0A \<and>
    handle_message ''now\<newline>'' id ''exit'' (ex_session ''b'') = (Inr False, ex_session ''b'')"
proof -
  have t: "strip_newlines ''cancel x'' \<noteq> []" "map toupper (hd (getlines (CHR '' '') (strip_newlines ''cancel x''))) \<noteq> ''EXIT''"
    "strip_newlines ''exit'' \<noteq> []" "map toupper (hd (getlines (CHR '' '') (strip_newlines ''exit''))) = ''EXIT''"
    by code_simp+
  obtain r u q v where m: "handle_message ''now\<newline>'' id ''cancel x'' (ex_session ''b'') = (r, u)"
    "handle_message ''now\<newline>'' id ''exit'' (ex_session ''b'') = (q, v)" by fastforce
  have ok: "session_ok (ex_session ''b'')" "int (nextId (ex_session ''b'')) + 1 < 2 ^ 64"
    using ex_session_ok [of "''b''"] by simp_all
  show ?thesis
    using every_message_answered [OF ok m(1)] every_message_answered [OF ok m(2)] t by (auto simp: m)
qed

end
