(* ===== verification/Client.thy ===== *)
theory Client
  imports Std_Text
begin

text \<open>
  The client program (src/src/client/ClientMain.cpp): a loop that reads a line from standard input,
  sends it and shows the answer. The socket is a parameter: \<open>conn\<close> connects, \<open>send\<close> is
  \<open>asio::write\<close> and \<open>recv\<close> one \<open>read_some\<close> into the buffer of 512 bytes, over any type of states of
  the network. The strings they throw are the texts of the exceptions.
\<close>

section \<open>State\<close>

record client =
  cin :: string           \<comment> \<open>what is left of standard input\<close>
  cin_good :: bool        \<comment> \<open>no flag of the stream is set\<close>
  screen :: string        \<comment> \<open>\<open>std::cout\<close>\<close>
  error_screen :: string  \<comment> \<open>\<open>std::cerr\<close>\<close>

text \<open>What \<open>read_some\<close> delivers: bytes, the end of the connection, or another error.\<close>

datatype received = Bytes string | Eof | Failed string

type_synonym 'n sender = "string \<Rightarrow> 'n \<Rightarrow> (string + unit) \<times> 'n"

text \<open>\<open>None\<close>: nothing arrives, and the call does not return.\<close>

type_synonym 'n receiver = "'n \<Rightarrow> (received \<times> 'n) option"

definition show_line :: "string \<Rightarrow> client \<Rightarrow> client" where
  "show_line t c = c\<lparr>screen := screen c @ t @ ''\<newline>''\<rparr>"

definition show_prompt :: "client \<Rightarrow> client" where
  "show_prompt c = (let c1 = show_line ''Type HELP for commands'' c in c1\<lparr>screen := screen c1 @ ''> ''\<rparr>)"

text \<open>
  \<open>std::getline(std::cin, userInput)\<close>: a stream that has reached its end leaves the string as it
  is, for it is erased only after the check of the stream.
\<close>

definition cin_getline :: "string \<Rightarrow> client \<Rightarrow> string \<times> client" where
  "cin_getline userInput c =
     (if \<not> cin_good c then (userInput, c)
      else
        (let line = takeWhile (\<lambda>x. x \<noteq> CHR 0x0A) (cin c) in
         case dropWhile (\<lambda>x. x \<noteq> CHR 0x0A) (cin c) of
           [] \<Rightarrow> (line, c\<lparr>cin := [], cin_good := False\<rparr>)
         | _ # rest \<Rightarrow> (line, c\<lparr>cin := rest\<rparr>)))"

section \<open>The loop\<close>

definition is_exit :: "string \<Rightarrow> bool" where
  "is_exit userInput \<longleftrightarrow> userInput = ''EXIT'' \<or> userInput = ''exit''"

definition is_help :: "string \<Rightarrow> bool" where
  "is_help userInput \<longleftrightarrow> userInput = ''HELP'' \<or> userInput = ''help''"

definition show_help :: "client \<Rightarrow> client" where
  "show_help c = fold show_line
     [''  Register to the platform: REGISTER <user> <password>'',
      ''  Login to the platform   : LOGIN <user> <password>'',
      ''  Place an order          : ASK/BID <prod> <amount> <price>'',
      ''  View wallet             : WALLET'',
      ''  Deposit to wallet       : DEPOSIT <prod> <amount>'',
      ''  Withdraw from wallet    : WITHDRAW <prod> <amount>'',
      ''  View market             : MARKET'',
      ''  View product statistics : STATS <prod>'',
      ''  View open orders        : ORDERS'',
      ''  Cancel an order         : CANCEL <order id>'',
      ''  Exit the application    : EXIT'',
      []] c"

text \<open>
  The loop from one reading of a line to the next; \<open>None\<close> when it does not end. \<open>Inl\<close> is an
  exception that leaves it.
\<close>

partial_function (option) client_loop ::
  "'n sender \<Rightarrow> 'n receiver \<Rightarrow> string \<Rightarrow> client \<Rightarrow> 'n \<Rightarrow> ((string + unit) \<times> client \<times> 'n) option" where
  "client_loop send recv userInput c n =
     (case cin_getline userInput (show_prompt c) of (line, c1) \<Rightarrow>
        if is_exit line then Some (Inr (), c1, n)
        else if is_help line then client_loop send recv line (show_help c1) n
        else if line = [] then client_loop send recv line c1 n
        else
          (case send line n of
             (Inl what, n1) \<Rightarrow> Some (Inl what, c1, n1)
           | (Inr _, n1) \<Rightarrow>
               (case recv n1 of
                  None \<Rightarrow> None
                | Some (Eof, n2) \<Rightarrow> Some (Inr (), show_line ''Connection closed'' c1, n2)
                | Some (Failed what, n2) \<Rightarrow> Some (Inl what, c1, n2)
                | Some (Bytes t, n2) \<Rightarrow> client_loop send recv line (show_line (''  Server: '' @ t) c1) n2)))"

text \<open>\<open>init\<close> and \<open>run\<close>: the welcome of the server is shown when it arrives without an error.\<close>

definition client_run ::
  "('n \<Rightarrow> (string + unit) \<times> 'n) \<Rightarrow> 'n sender \<Rightarrow> 'n receiver \<Rightarrow> client \<Rightarrow> 'n \<Rightarrow> (client \<times> 'n) option" where
  "client_run conn send recv c n =
     map_option (\<lambda>(r, c1, n1). (case r of Inl what \<Rightarrow> c1\<lparr>error_screen := error_screen c1 @ ''Exception: '' @ what @ ''\<newline>''\<rparr>
         | Inr _ \<Rightarrow> c1, n1))
       (let c0 = show_line ''ClientMain starting...'' c in
        case conn n of
          (Inl what, n1) \<Rightarrow> Some (Inl what, c0, n1)
        | (Inr _, n1) \<Rightarrow>
            let c1 = show_line ''Connected to server!'' c0 in
            (case recv n1 of
               None \<Rightarrow> None
             | Some (x, n2) \<Rightarrow>
                 client_loop send recv [] (case x of Bytes t \<Rightarrow> show_line (''Server: '' @ t) c1 | _ \<Rightarrow> c1) n2))"

section \<open>Input\<close>

text \<open>The lines that are still to come are those \<open>std::getline\<close> finds in what is left of the input.\<close>

lemma getlines_Cons:
  "getlines d s = l # ls \<longleftrightarrow> s \<noteq> [] \<and> l = takeWhile (\<lambda>x. x \<noteq> d) s \<and>
    ls = (case dropWhile (\<lambda>x. x \<noteq> d) s of [] \<Rightarrow> [] | _ # r \<Rightarrow> getlines d r)"
  by (subst getlines.simps) auto

lemma getlines_Nil: "getlines d s = [] \<longleftrightarrow> s = []"
  by (subst getlines.simps) simp

lemma getline_lines:
  assumes "cin_good c" and "getlines (CHR 0x0A) (cin c) = l # ls"
  obtains c' where "cin_getline u c = (l, c')" "getlines (CHR 0x0A) (cin c') = ls" "cin_good c' \<or> ls = []"
  using assms that
  by (auto simp: cin_getline_def getlines_Cons Let_def getlines_Nil split: list.splits)

lemma getline_end:
  assumes "cin_good c" and "getlines (CHR 0x0A) (cin c) = []"
  obtains c' where "cin_getline u c = ([], c')" "\<not> cin_good c'"
  using assms that by (auto simp: cin_getline_def getlines_Nil)

lemma getline_bad: "\<not> cin_good c \<Longrightarrow> cin_getline u c = (u, c)"
  by (simp add: cin_getline_def)

lemma screen_frame [simp]:
  "cin (show_line t c) = cin c" "cin_good (show_line t c) = cin_good c"
  "cin (show_prompt c) = cin c" "cin_good (show_prompt c) = cin_good c"
  "cin (show_help c) = cin c" "cin_good (show_help c) = cin_good c"
  by (simp_all add: show_line_def show_prompt_def show_help_def Let_def)

section \<open>When the client stops\<close>

text \<open>A server that always answers.\<close>

definition answers_always :: "'n sender \<Rightarrow> 'n receiver \<Rightarrow> bool" where
  "answers_always send recv \<longleftrightarrow>
     (\<forall>line n. \<exists>n1 t n2. send line n = (Inr (), n1) \<and> recv n1 = Some (Bytes t, n2))"

text \<open>One round of the loop with a line that does not end it.\<close>

lemma loop_round:
  assumes "answers_always send recv" and "cin_getline u (show_prompt c) = (line, c1)" and "\<not> is_exit line"
  obtains c2 n2 where "client_loop send recv u c n = client_loop send recv line c2 n2" "cin c2 = cin c1" "cin_good c2 = cin_good c1"
proof -
  obtain n1 t n2 where "send line n = (Inr (), n1)" "recv n1 = Some (Bytes t, n2)"
    using assms(1) unfolding answers_always_def by blast
  then have "client_loop send recv u c n = (if is_help line then client_loop send recv line (show_help c1) n
      else if line = [] then client_loop send recv line c1 n
      else client_loop send recv line (show_line (''  Server: '' @ t) c1) n2)"
    using assms(2,3) by (subst client_loop.simps) simp
  then show ?thesis by (cases "is_help line"; cases "line = []") (auto intro: that)
qed

lemma loop_exit:
  "cin_getline u (show_prompt c) = (line, c1) \<Longrightarrow> is_exit line \<Longrightarrow> client_loop send recv u c n \<noteq> None"
  by (subst client_loop.simps) simp


lemma stops_with_exit:
  assumes "answers_always send recv" and "cin_good c" and "list_ex is_exit (getlines (CHR 0x0A) (cin c))"
  shows "client_loop send recv u c n \<noteq> None"
  using assms(2,3)
proof (induction "getlines (CHR 0x0A) (cin c)" arbitrary: u c n)
  case (Cons l ls)
  have "cin_good (show_prompt c)" "getlines (CHR 0x0A) (cin (show_prompt c)) = l # ls" using Cons by simp_all
  then obtain c1 where c1: "cin_getline u (show_prompt c) = (l, c1)" "getlines (CHR 0x0A) (cin c1) = ls" "cin_good c1 \<or> ls = []"
    using getline_lines by blast
  show ?case
  proof (cases "is_exit l")
    case True
    with c1(1) show ?thesis by (rule loop_exit)
  next
    case False
    from assms(1) c1(1) False obtain c2 n2 where c2: "client_loop send recv u c n = client_loop send recv l c2 n2"
      "cin c2 = cin c1" "cin_good c2 = cin_good c1" by (rule loop_round)
    have "list_ex is_exit ls" using Cons.hyps(2) [symmetric] Cons.prems(2) False by simp
    then have "cin_good c2" using c1(3) c2(3) by auto
    then show ?thesis
      unfolding c2(1) using Cons.hyps(1) [of c2] c1(2) c2(2) \<open>list_ex is_exit ls\<close> by simp
  qed
qed simp

lemma getline_exit:
  assumes "cin_getline u c = (l, c1)"
    and "is_exit l \<or> (if cin_good c1 then list_ex is_exit (getlines (CHR 0x0A) (cin c1)) else is_exit l)"
  shows "if cin_good c then list_ex is_exit (getlines (CHR 0x0A) (cin c)) else is_exit u"
proof (cases "cin_good c")
  case True
  show ?thesis
  proof (cases "getlines (CHR 0x0A) (cin c)")
    case Nil
    obtain c' where "cin_getline u c = ([], c')" "\<not> cin_good c'" using getline_end [OF True Nil] .
    then show ?thesis using assms by (simp add: is_exit_def)
  next
    case (Cons l' ls)
    obtain c' where "cin_getline u c = (l', c')" "getlines (CHR 0x0A) (cin c') = ls" "cin_good c' \<or> ls = []"
      using getline_lines [OF True Cons] .
    then show ?thesis using assms True Cons by (auto split: if_splits)
  qed
next
  case False
  then show ?thesis using assms by (auto simp: getline_bad)
qed

lemma stops_only_with_exit:
  assumes "client_loop send recv u c n = Some y" and "answers_always send recv"
  shows "if cin_good c then list_ex is_exit (getlines (CHR 0x0A) (cin c)) else is_exit u"
proof -
  let ?stops = "\<lambda>u c. if cin_good c then list_ex is_exit (getlines (CHR 0x0A) (cin c)) else is_exit u"
  have "answers_always send recv \<longrightarrow> ?stops u c"
  proof (rule client_loop.raw_induct [where P = "\<lambda>send recv u c n y. answers_always send recv \<longrightarrow> ?stops u c", OF _ assms(1)], intro impI, goal_cases)
    case (1 loop send recv u c n y)
    obtain l c1 where g: "cin_getline u (show_prompt c) = (l, c1)" by fastforce
    obtain n1 t n2 where "send l n = (Inr (), n1)" "recv n1 = Some (Bytes t, n2)"
      using 1(3) unfolding answers_always_def by blast
    then have "is_exit l \<or> (\<exists>c2 n2. loop send recv l c2 n2 = Some y \<and> cin c2 = cin c1 \<and> cin_good c2 = cin_good c1)"
      using 1(2) g screen_frame by (auto split: if_splits)
    then have "is_exit l \<or> ?stops l c1" using 1(1,3) by metis
    from getline_exit [OF g this] show ?case by (simp split: if_splits)
  qed
  then show ?thesis using assms(2) by simp
qed

text \<open>
  C35: the client of a server that always answers ends exactly when one of the lines of its input is
  \<open>EXIT\<close> or \<open>exit\<close>. When the input ends without one the loop goes on for ever, for the end of the
  input is never tested; an unfinished last line is sent again and again.
\<close>

theorem client_ends_iff_exit:
  assumes "conn n = (Inr (), n1)" and "recv n1 = Some (x, n2)" and "answers_always send recv" and "cin_good c"
  shows "client_run conn send recv c n \<noteq> None \<longleftrightarrow> list_ex is_exit (getlines (CHR 0x0A) (cin c))"
proof -
  define c1 where "c1 = (let c0 = show_line ''Connected to server!'' (show_line ''ClientMain starting...'' c) in
    case x of Bytes t \<Rightarrow> show_line (''Server: '' @ t) c0 | _ \<Rightarrow> c0)"
  have c1: "cin_good c1" "cin c1 = cin c" using assms(4) by (simp_all add: c1_def Let_def split: received.split)
  have "client_run conn send recv c n \<noteq> None \<longleftrightarrow> client_loop send recv [] c1 n2 \<noteq> None"
    using assms(1,2) by (simp add: client_run_def c1_def Let_def)
  then show ?thesis
    using stops_with_exit [OF assms(3) c1(1), of "[]" n2] stops_only_with_exit [of send recv "[]" c1 n2] assms(3) c1
    by (auto simp del: not_None_eq)
qed

text \<open>An input whose last line is not finished, and a server that answers everything with one line.\<close>

definition ex_client :: "string \<Rightarrow> client" where
  "ex_client input = \<lparr>cin = input, cin_good = True, screen = [], error_screen = []\<rparr>"

theorem client_ends_iff_exit_witness:
  "client_run (\<lambda>n. (Inr (), n)) (\<lambda>line n. (Inr (), n)) (\<lambda>n. Some (Bytes ''OK'', n)) (ex_client ''WALLET'') () = None"
proof -
  have "answers_always (\<lambda>line n. (Inr (), n)) (\<lambda>n. Some (Bytes ''OK'', n :: unit))" by (simp add: answers_always_def)
  moreover have "\<not> list_ex is_exit (getlines (CHR 0x0A) (cin (ex_client ''WALLET'')))" by code_simp
  ultimately show ?thesis
    using client_ends_iff_exit [of "\<lambda>n. (Inr (), n)" "()" "()" "\<lambda>n. Some (Bytes ''OK'', n)" "Bytes ''OK''" "()"
      "\<lambda>line n. (Inr (), n)" "ex_client ''WALLET''"]
    unfolding ex_client_def by (simp only: client.simps) blast
qed

end
