(* ===== verification/Spec2Isabelle.thy ===== *)
theory Spec2Isabelle
  imports Rounding Matching_Sales Loading Json_Properties Shutdown Progress Races Conversation Client
begin

text \<open>
  A verification of MiniATS, a small exchange: a server with accounts, an order book and a matching
  engine, and a terminal client (sources under src/src, headers under src/include). This theory
  only collects the others; each of them opens with its own description.

  \<^bold>\<open>The program.\<close> \<open>ServerMain\<close> accepts connections, one thread each, and reads commands from them.
  \<open>ASK\<close> and \<open>BID\<close> make an \<open>OrderBookEntry\<close>, lock its funds in the \<open>Wallet\<close> of a \<open>User\<close> of the
  \<open>UserStore\<close>, insert it into the \<open>OrderBook\<close> and queue its product. A matching thread takes
  products from the queue and starts for each a task that runs \<open>OrderBook::matchAsksToBids\<close>, which
  trades, settles through the wallets (\<open>processSale\<close>) and removes filled orders. When the server
  is stopped, orders and sales are written as CSV (\<open>CSVHandler\<close>) and accounts as JSON (the library
  nlohmann/json.hpp); when it starts they are read again. \<open>ClientMain\<close> sends each line of its
  input and shows what comes back.

  \<^bold>\<open>Shared foundations.\<close>
  \<^item> \<open>Prelude\<close>: exceptions as values (\<open>exn\<close>), results (\<open>'a result\<close>, \<open>Inl\<close> an exception) and actions
    on a state, which return the state also when they throw; undefined behaviour of C++ is the value
    \<open>Undefined\<close>, which no handler catches. \<open>try_catch\<close> and \<open>catchable\<close> are the catch blocks.
  \<^item> \<open>Std_Text\<close>, \<open>Std_Tables\<close>: what the program uses of the standard library -- \<open>getline\<close>, \<open>stod\<close>,
    \<open>stoi\<close>, \<open>to_string\<close> and stream output in the C locale; \<open>std::map\<close> as an ordered and
    \<open>std::unordered_map\<close> as an unordered list of pairs, both interpretations of the locale \<open>table\<close>.
  \<^item> \<open>Binary64\<close>: \<open>double\<close> as IEEE 754 binary64 over the rationals with two zeros, infinities and one
    NaN; the arithmetic facts are proved in the locale \<open>rounding\<close>, interpreted by \<open>rnd\<close>.

  \<^bold>\<open>Orders, wallets, accounts\<close> (\<open>Order_Entry\<close>, \<open>Wallet_Model\<close>, \<open>User_Model\<close>, \<open>Account_Properties\<close>).
  \<open>entry\<close> is \<open>OrderBookEntry\<close> with the static identifier counter passed as state, \<open>first_id\<close> its
  value in a new process; \<open>wallet\<close> has the two
  maps of \<open>Wallet\<close>; \<open>users\<close> is the map of \<open>UserStore\<close>. The locale \<open>custody\<close> states what a wallet owes
  its client. Shown: no history of calls makes a balance negative or NaN, and locked funds can be
  unlocked again whatever rounding did. \<open>std::sort\<close> is the parameter \<open>srt\<close> with the contract
  \<open>std_sort\<close>, which gives a result only when the comparator is a strict weak order; \<open>stable_sort\<close> is
  the instance of the examples.

  \<^bold>\<open>The book\<close> (\<open>Order_Book\<close>, \<open>Csv_Handler\<close>, \<open>Book_Properties\<close>). A list of orders is a list of nodes
  with addresses, and \<open>userOrders\<close> holds addresses, so that a dangling pointer is visible: reading it
  is \<open>Undefined\<close>. \<open>book_ok\<close> says that the index of the users and the lists agree. Every operation
  keeps it, and each of them is characterised on both of its outcomes.

  \<^bold>\<open>Matching\<close> (\<open>Matching\<close> and \<open>Settlement\<close>; \<open>Matching_Loops\<close>, \<open>Matching_Pass\<close>, \<open>Matching_Priority\<close>,
  \<open>Matching_Sales\<close>, \<open>Matching_Money\<close>). A pass is a function on \<open>match_state\<close>: the book, the accounts, the sales and
  the counter. Shown: nothing crossed is left, better prices are served first, no dangling pointer is
  followed and \<open>std::sort\<close> gets an invalid comparator exactly when one side has a NaN price beside two
  different ones (\<open>mixed_prices\<close>), no balance becomes negative, volume and money are conserved (over
  integers below \<open>2 ^ 53\<close>, where binary64 is exact, and without orders of the account \<open>default\<close>, which
  may overdraw), sales are complete and ordered, wallets of others are untouched, and what a
  settlement does to every balance, also when it throws half-way. \<open>Rounding\<close> has a run in which the
  rounded costs of partial fills exceed the locked cost, so that a pass throws. \<open>Funding\<close> shows that
  this is all that can go wrong: over integers, a pass whose orders are paid for (\<open>paid\<close>: every account
  has at least the costs of its open orders locked) returns and leaves the orders paid for.

  \<^bold>\<open>The server\<close> (\<open>Server\<close>, \<open>Server_Invariants\<close>, \<open>Server_Properties\<close>, \<open>Order_Commands\<close>, \<open>Conversation\<close>). One
  function per command, which runs without interruption, and \<open>handle_message\<close> for the bytes of one \<open>read_some\<close>. The locale \<open>client_invariant\<close> proves
  an invariant for every command from its obligations; it is interpreted for the well-formedness of
  the server, the isolation of other users and connections without a login. \<open>Conversation\<close> shows
  that every message is answered and only \<open>EXIT\<close> closes the connection. \<open>start\<close>, \<open>export\<close> and
  \<open>cleanup\<close> are \<open>init\<close> and \<open>cleanup\<close>; \<open>run_task\<close> and \<open>match_next\<close> the matching threads.

  \<^bold>\<open>Threads\<close> (\<open>Interleaving\<close>, \<open>Pass_System\<close>, \<open>Interleaving_Invariant\<close>, \<open>Interleaving_Properties\<close>,
  \<open>Simulation\<close>, \<open>Progress\<close>, \<open>Races\<close>). Each command is a sequence of \<open>event\<close>s, one per critical section; \<open>perform\<close> is one step
  and \<open>reachable\<close> the states of all runs. A matching pass is one event. Shown: the invariant of all
  runs, that only \<open>MARKET\<close> and \<open>STATS\<close> can run into undefined behaviour as long as the numbers are
  finite and not negative, that a whole conversation by the commands of \<open>Server\<close> is a run of steps
  (\<open>Simulation\<close>), that a queued product is matched (\<open>Progress\<close>); and in \<open>Races\<close>, for every state in which
  they can happen, the freed order that is read, the cancelled order that is filled meanwhile, and
  the ask priced \<open>nan\<close>.
  \<open>Whole_Accounts\<close> and \<open>Funded_System\<close> put the two together: in every run in whole numbers (\<open>calm\<close>) in
  which \<open>CANCEL\<close> is not interrupted (\<open>deed\<close>), orders stay paid for and no pass ever fails; the races
  and the rounding are shown to break this when either condition is dropped.

  \<^bold>\<open>JSON\<close> (\<open>Json_Error\<close>, \<open>Json_Value\<close>, \<open>Json_Lexer\<close>, \<open>Json_Parser\<close>, \<open>Json_Serializer\<close>, \<open>Json_Dtoa\<close> for
  Grisu2, \<open>Json_Store\<close> for the conversions of the program). Of json.hpp the lexer, the parser
  with the builder of values, the serializer with its three error handlers, the exceptions and the
  conversions are translated. Proof layers: \<open>Utf8\<close> (a reference definition of UTF-8, and that the
  automaton of the serializer decides it), \<open>Json_Strings\<close> (escaping), \<open>Json_Scan\<close> and \<open>Json_Tokens\<close> (what
  the lexer makes of each kind of token), \<open>Json_Spelling\<close> (the relation \<open>spells\<close> of a value and its
  texts, and that the parser reads each of them), \<open>Json_Printing\<close> (that printing gives one),
  \<open>Json_Failure\<close>, \<open>Json_Typing\<close>; \<open>Json_Properties\<close> collects the theorems.

  \<^bold>\<open>Files\<close> (\<open>Persistence\<close>, \<open>Loading\<close>, \<open>Restart\<close>, \<open>Shutdown\<close>). A file is its text, \<open>None\<close> when it is
  missing. Shown: what a restart keeps, what it loses, and what loading makes of any text.
  \<open>Shutdown\<close> has \<open>cleanup\<close> as steps between which clients and passes go on: without interruption
  they are \<open>cleanup\<close>, and in general the files are of three different moments.

  \<^bold>\<open>The client\<close> (\<open>Client\<close>). \<open>client_loop\<close> is a partial function, for the loop need not end; the socket
  is a parameter.

  \<^bold>\<open>Bounds.\<close> No definition uses fuel: loops are structural or have a measure (the lexer the bytes
  left, the parser \<open>weight\<close>), and \<open>client_loop\<close> is shown to end exactly when it does. Identifiers are
  natural numbers taken modulo \<open>2 ^ 64\<close>; properties about fresh identifiers assume that the counter
  does not wrap around, and the interleaved steps require it (\<open>nextId s < nid\<close> when an order is made,
  \<open>nextId s \<le> nextId s'\<close> over a pass). The buffers of the serializer have their real sizes,
  512 bytes for strings and 64 for numbers; the indentation string starts with 512 characters and
  is doubled when an indentation is longer, so printing is proved for steps up to 512.
  Whether a double prints back (\<open>prints_back\<close>) and what six digits of it are read as (\<open>readable\<close>,
  \<open>reread\<close>) are computed for the value at hand; that Grisu2 always prints back is not proved.

  \<^bold>\<open>Not modelled.\<close> The sockets and threads of Asio and of the standard library: what they deliver is a
  parameter or an event, and writing to a socket does not fail. \<open>MerkelMain\<close> is commented out. The
  output on the server's console. Steps of other threads between two wallet operations of one
  matching pass (that no balance becomes negative in any order of wallet operations is a property of
  \<open>Account_Properties\<close>), the data race on the identifier counter, and failures of writing to a file.
  Locales other than C. Of json.hpp the binary formats, JSON pointers, patches, iterators, the
  parser with a callback and the members the program does not use.
\<close>

end
